(* ===== verification/Prelude.thy ===== *)
theory Prelude
  imports Main "HOL-Library.Monad_Syntax"
begin

text \<open>
  Shared vocabulary of the development: the result type of an operation that may fault,
  debug assertions, Rust's \<open>Ordering\<close>, and the facts on lists that say what an ordered
  insertion and a search for the first element past a key do.

  An operation that works on raw pointers has a result of type \<open>'a option\<close>.  \<open>None\<close>
  stands for every way in which it can fail to return: a dangling pointer is followed,
  \<open>unreachable_unchecked\<close> is reached, an \<open>unwrap\<close> or \<open>expect\<close> or debug
  assertion panics (all of them end in an abort, since the callers run under
  \<open>abort_on_unwind\<close>), or a loop does not end.
\<close>

named_theorems heap_simps \<open>symbolic evaluation of operations on the node heap\<close>
named_theorems zip_simps \<open>how the tree invariants split over a subtree and its context\<close>
named_theorems list_spec \<open>the abstract effect of tree operations on the in-order sequence\<close>

subsection \<open>Debug assertions\<close>

text \<open>\<open>dbg\<close> is \<open>cfg(debug_assertions)\<close>: a release build skips the check.\<close>

definition dassert :: "bool \<Rightarrow> bool \<Rightarrow> unit option" where
  "dassert dbg c = (if dbg \<and> \<not> c then None else Some ())"

lemma dassert_True [simp]: "c \<Longrightarrow> dassert dbg c = Some ()"
  by (simp add: dassert_def)

lemma dassert_release [simp]: "dassert False c = Some ()"
  by (simp add: dassert_def)

subsection \<open>Orderings\<close>

datatype ordering = Less | Equal | Greater

definition cmp :: "'a::linorder \<Rightarrow> 'a \<Rightarrow> ordering" where
  "cmp a b = (if a < b then Less else if a = b then Equal else Greater)"

text \<open>\<open>Ordering::then\<close>\<close>

definition then_ord :: "ordering \<Rightarrow> ordering \<Rightarrow> ordering" where
  "then_ord a b = (if a = Equal then b else a)"

lemma cmp_Less [simp]: "cmp a b = Less \<longleftrightarrow> a < b"
  by (simp add: cmp_def)

lemma cmp_Equal [simp]: "cmp a b = Equal \<longleftrightarrow> a = b"
  by (auto simp: cmp_def)

lemma cmp_Greater [simp]: "cmp a b = Greater \<longleftrightarrow> b < a"
  by (auto simp: cmp_def)

lemma then_ord_Less [simp]: "then_ord a b = Less \<longleftrightarrow> a = Less \<or> a = Equal \<and> b = Less"
  by (auto simp: then_ord_def)

lemma then_ord_Greater [simp]:
  "then_ord a b = Greater \<longleftrightarrow> a = Greater \<or> a = Equal \<and> b = Greater"
  by (auto simp: then_ord_def)

lemma then_ord_Equal [simp]: "then_ord a b = Equal \<longleftrightarrow> a = Equal \<and> b = Equal"
  by (auto simp: then_ord_def)

subsection \<open>Two-element arrays indexed by a side\<close>

text \<open>
  The \<open>children\<close> array of a node is indexed by a \<open>bool\<close>.  \<open>two d x y\<close> is the
  array with \<open>x\<close> on side \<open>d\<close> and \<open>y\<close> on the other side, so that a proof about
  one side serves both.
\<close>

definition two :: "bool \<Rightarrow> 'a \<Rightarrow> 'a \<Rightarrow> bool \<Rightarrow> 'a" where
  "two d x y = (\<lambda>b. if b = d then x else y)"

lemma two_same [simp]: "two d x y d = x"
  by (simp add: two_def)

lemma two_other [simp]: "two d x y (\<not> d) = y" "two (\<not> d) x y d = y"
  by (simp_all add: two_def)

lemma two_True_False [simp]: "two True x y False = y" "two False x y True = y"
  by (simp_all add: two_def)

lemma two_flip [simp]: "two (\<not> d) x y = two d y x"
  by (auto simp: two_def fun_eq_iff)

lemma two_upd_same [simp]: "(two d x y)(d := z) = two d z y"
  by (auto simp: two_def fun_eq_iff)

lemma two_upd_other [simp]: "(two d x y)(\<not> d := z) = two d x z"
  by (auto simp: two_def fun_eq_iff)

lemma two_const [simp]: "two d x x = (\<lambda>_. x)"
  by (auto simp: two_def)

lemma two_eq_iff [simp]: "two d x y = two d x' y' \<longleftrightarrow> x = x' \<and> y = y'"
  by (metis two_other(1) two_same)

lemma two_True_eq: "two True x y = two False y x"
  using two_flip [of False x y] by simp

subsection \<open>Sequences split by a monotone test\<close>

text \<open>
  \<open>split_at g xs\<close>: the elements that satisfy \<open>g\<close> come before the others.
\<close>

definition split_at :: "('a \<Rightarrow> bool) \<Rightarrow> 'a list \<Rightarrow> bool" where
  "split_at g xs \<longleftrightarrow> sorted_wrt (\<lambda>x y. g y \<longrightarrow> g x) xs"

lemma split_at_Nil [simp]: "split_at g []"
  by (simp add: split_at_def)

lemma split_at_append:
  "split_at g (xs @ ys) \<longleftrightarrow>
     split_at g xs \<and> split_at g ys \<and> ((\<exists>y\<in>set ys. g y) \<longrightarrow> (\<forall>x\<in>set xs. g x))"
  by (auto simp: split_at_def sorted_wrt_append)

lemma split_at_Cons:
  "split_at g (x # ys) \<longleftrightarrow> split_at g ys \<and> ((\<exists>y\<in>set ys. g y) \<longrightarrow> g x)"
  using split_at_append [of g "[x]" ys] by (simp add: split_at_def)

lemma split_at_left: "split_at g (xs @ ys) \<Longrightarrow> split_at g xs"
  and split_at_right: "split_at g (xs @ ys) \<Longrightarrow> split_at g ys"
  and split_at_tl: "split_at g (x # ys) \<Longrightarrow> split_at g ys"
  and split_at_pos: "split_at g (xs @ x # ys) \<Longrightarrow> g x \<Longrightarrow> y \<in> set xs \<Longrightarrow> g y"
  and split_at_neg: "split_at g (xs @ x # ys) \<Longrightarrow> \<not> g x \<Longrightarrow> y \<in> set ys \<Longrightarrow> \<not> g y"
  by (auto simp: split_at_def sorted_wrt_append)

lemma takeWhile_split:
  assumes "\<forall>x\<in>set xs. g x" and "\<forall>y\<in>set ys. \<not> g y"
  shows "takeWhile g (xs @ ys) = xs" and "dropWhile g (xs @ ys) = ys"
  using assms by (induction xs) (auto simp: takeWhile_eq_Nil_iff dropWhile_eq_self_iff hd_in_set)

lemma split_at_dropWhile: "split_at g xs \<Longrightarrow> \<forall>y\<in>set (dropWhile g xs). \<not> g y"
  by (induction xs) (auto simp: split_at_Cons)

lemma split_at_cases:
  assumes "split_at g xs"
  obtains us vs where "xs = us @ vs" "\<forall>u\<in>set us. g u" "\<forall>v\<in>set vs. \<not> g v"
proof (rule that)
  show "xs = takeWhile g xs @ dropWhile g xs" by simp
  show "\<forall>u\<in>set (takeWhile g xs). g u" by (auto dest: set_takeWhileD)
  show "\<forall>v\<in>set (dropWhile g xs). \<not> g v" by (rule split_at_dropWhile [OF assms])
qed

lemma find_not_split:
  assumes "\<forall>x\<in>set xs. g x" and "\<forall>y\<in>set ys. \<not> g y"
  shows "find (\<lambda>x. \<not> g x) (xs @ ys) = (case ys of [] \<Rightarrow> None | y # _ \<Rightarrow> Some y)"
  using assms by (induction xs) (auto split: list.splits)

lemma find_drop: "\<forall>x\<in>set xs. \<not> P x \<Longrightarrow> find P (xs @ ys) = find P ys"
  by (induction xs) auto

text \<open>The first element, if there is one.\<close>

definition hd_opt :: "'a list \<Rightarrow> 'a option" where
  "hd_opt xs = (case xs of [] \<Rightarrow> None | x # _ \<Rightarrow> Some x)"

definition last_opt :: "'a list \<Rightarrow> 'a option" where
  "last_opt xs = hd_opt (rev xs)"

lemma hd_opt_simps [simp]: "hd_opt [] = None" "hd_opt (x # xs) = Some x"
  by (simp_all add: hd_opt_def)

lemma hd_opt_append [simp]:
  "hd_opt (xs @ ys) = (case hd_opt xs of None \<Rightarrow> hd_opt ys | Some x \<Rightarrow> Some x)"
  by (cases xs) simp_all

lemma last_opt_simps [simp]: "last_opt [] = None" "last_opt (xs @ [x]) = Some x"
  by (simp_all add: last_opt_def)

lemma last_opt_Cons [simp]:
  "last_opt (x # xs) = (case last_opt xs of None \<Rightarrow> Some x | Some y \<Rightarrow> Some y)"
  by (auto simp: last_opt_def split: option.splits)

lemma last_opt_append [simp]:
  "last_opt (xs @ ys) = (case last_opt ys of None \<Rightarrow> last_opt xs | Some y \<Rightarrow> Some y)"
  by (auto simp: last_opt_def split: option.splits)

lemma find_all: "\<forall>x\<in>set xs. P x \<Longrightarrow> find P xs = hd_opt xs"
  by (cases xs) auto

lemma hd_opt_eq_None [simp]: "hd_opt xs = None \<longleftrightarrow> xs = []"
  by (cases xs) simp_all

lemma last_opt_eq_None [simp]: "last_opt xs = None \<longleftrightarrow> xs = []"
  by (simp add: last_opt_def)

lemma hd_opt_in [dest]: "hd_opt xs = Some x \<Longrightarrow> x \<in> set xs"
  by (cases xs) auto

lemma last_opt_in [dest]: "last_opt xs = Some x \<Longrightarrow> x \<in> set xs"
  by (simp add: last_opt_def) (metis hd_opt_in set_rev)

subsection \<open>Ordered insertion\<close>

text \<open>
  \<open>list_insert g x xs\<close> puts \<open>x\<close> after the longest prefix that satisfies \<open>g\<close>.
\<close>

lemma split_at_filter:
  "split_at g xs \<Longrightarrow> takeWhile g xs = filter g xs \<and> dropWhile g xs = filter (\<lambda>x. \<not> g x) xs"
proof (induction xs)
  case (Cons x xs)
  show ?case
  proof (cases "g x")
    case True
    with Cons show ?thesis by (simp add: split_at_def)
  next
    case False
    with Cons.prems have "\<forall>y\<in>set xs. \<not> g y" by (auto simp: split_at_def)
    with False show ?thesis by (simp add: filter_empty_conv)
  qed
qed simp

definition list_insert :: "('a \<Rightarrow> bool) \<Rightarrow> 'a \<Rightarrow> 'a list \<Rightarrow> 'a list" where
  "list_insert g x xs = takeWhile g xs @ x # dropWhile g xs"

lemma set_list_insert [simp]: "set (list_insert g x xs) = insert x (set xs)"
proof -
  have "set xs = set (takeWhile g xs) \<union> set (dropWhile g xs)"
    by (metis set_append takeWhile_dropWhile_id)
  then show ?thesis by (auto simp: list_insert_def)
qed

lemma list_insert_split [list_spec]:
  assumes "\<forall>x\<in>set xs. g x" and "\<forall>y\<in>set ys. \<not> g y"
  shows "list_insert g x (xs @ ys) = xs @ x # ys"
  using takeWhile_split [OF assms] by (simp add: list_insert_def)

end
