(* ===== verification/Rb_Node.thy ===== *)
theory Rb_Node
  imports Prelude
begin

text \<open>
  The intrusive red-black tree of \<open>src/utils/rbtree.rs\<close>, on the heap it really works on:
  a partial map from node addresses to nodes with child and parent pointers.  The tree cell
  \<open>&mut Option<NonNull<Node>>\<close> is passed in and returned.  Every pointer read is a lookup
  that faults (\<open>None\<close>) on an address that holds no node; loops are
  \<open>partial_function (option)\<close>, so that a loop that does not end faults as well.
  The order of reads, writes and callback calls is that of the source.
\<close>

section \<open>Data\<close>

datatype color = Black | Red

type_synonym is_right_child = bool

text \<open>\<open>children\<close> is the array \<open>[Option<NonNull<Self>>; 2]\<close>, indexed by the side.\<close>

record ('p, 'e, 's) node =
  children :: "is_right_child \<Rightarrow> 'p option"
  parent :: "'p option"
  color :: color
  summary :: 's
  element :: 'e

text \<open>The trait \<open>Callback<Element, Summary>\<close>.\<close>

record ('e, 's) callback =
  zero_summary :: 's
  element_to_summary :: "'e \<Rightarrow> 's"
  add_assign_summary :: "'s \<Rightarrow> 's \<Rightarrow> 's"
  sub_assign_summary :: "'s \<Rightarrow> 's \<Rightarrow> 's"
  cmp_element :: "'e \<Rightarrow> 'e \<Rightarrow> ordering"

definition default_callback :: "('e::linorder, unit) callback" where
  "default_callback =
     \<lparr>zero_summary = (), element_to_summary = (\<lambda>_. ()), add_assign_summary = (\<lambda>_ _. ()),
      sub_assign_summary = (\<lambda>_ _. ()), cmp_element = cmp\<rparr>"

type_synonym ('p, 'e, 's) heap = "'p \<Rightarrow> ('p, 'e, 's) node option"

text \<open>\<open>Node::new\<close>\<close>

definition node_new :: "'e \<Rightarrow> 's \<Rightarrow> ('p, 'e, 's) node" where
  "node_new e s =
     \<lparr>children = (\<lambda>_. None), parent = None, color = Black, summary = s, element = e\<rparr>"

section \<open>Writing through a pointer\<close>

definition modify ::
  "('p, 'e, 's) heap \<Rightarrow> 'p \<Rightarrow> (('p, 'e, 's) node \<Rightarrow> ('p, 'e, 's) node) \<Rightarrow> ('p, 'e, 's) heap option"
  where "modify h p f = (case h p of None \<Rightarrow> None | Some n \<Rightarrow> Some (h(p \<mapsto> f n)))"

lemma modify_Some [heap_simps]: "h p = Some n \<Longrightarrow> modify h p f = Some (h(p \<mapsto> f n))"
  by (simp add: modify_def)

definition set_child ::
  "('p, 'e, 's) heap \<Rightarrow> 'p \<Rightarrow> is_right_child \<Rightarrow> 'p option \<Rightarrow> ('p, 'e, 's) heap option" where
  "set_child h p side c = modify h p (\<lambda>n. n\<lparr>children := (children n)(side := c)\<rparr>)"

definition set_parent ::
  "('p, 'e, 's) heap \<Rightarrow> 'p \<Rightarrow> 'p option \<Rightarrow> ('p, 'e, 's) heap option" where
  "set_parent h p q = modify h p (\<lambda>n. n\<lparr>parent := q\<rparr>)"

definition set_color :: "('p, 'e, 's) heap \<Rightarrow> 'p \<Rightarrow> color \<Rightarrow> ('p, 'e, 's) heap option" where
  "set_color h p c = modify h p (\<lambda>n. n\<lparr>color := c\<rparr>)"

definition set_summary :: "('p, 'e, 's) heap \<Rightarrow> 'p \<Rightarrow> 's \<Rightarrow> ('p, 'e, 's) heap option" where
  "set_summary h p s = modify h p (\<lambda>n. n\<lparr>summary := s\<rparr>)"

text \<open>\<open>if let Some(mut child) = c { child.as_mut().parent = q }\<close>\<close>

definition set_parent_opt ::
  "('p, 'e, 's) heap \<Rightarrow> 'p option \<Rightarrow> 'p option \<Rightarrow> ('p, 'e, 's) heap option" where
  "set_parent_opt h c q = (case c of None \<Rightarrow> Some h | Some p \<Rightarrow> set_parent h p q)"

lemmas write_defs = set_child_def set_parent_def set_parent_opt_def set_color_def set_summary_def

text \<open>The colour of a nephew or uncle that may be absent.\<close>

definition opt_color :: "('p, 'e, 's) heap \<Rightarrow> 'p option \<Rightarrow> color option option" where
  "opt_color h q =
     (case q of None \<Rightarrow> Some None
      | Some p \<Rightarrow> (case h p of None \<Rightarrow> None | Some n \<Rightarrow> Some (Some (color n))))"

section \<open>Rotation\<close>

text \<open>The child pointer of the rotated subtree's parent, or the tree cell.\<close>

definition rotate_relink ::
  "bool \<Rightarrow> ('p, 'e, 's) heap \<Rightarrow> 'p option \<Rightarrow> 'p option \<Rightarrow> 'p \<Rightarrow> 'p \<Rightarrow>
   (('p, 'e, 's) heap \<times> 'p option) option" where
  "rotate_relink dbg h tree par node new_root =
     (case par of
        Some par \<Rightarrow> do {
          pn \<leftarrow> h par;
          let side = (children pn False \<noteq> Some node);
          dassert dbg (children pn side = Some node);
          h \<leftarrow> set_child h par side (Some new_root);
          Some (h, tree)
        }
      | None \<Rightarrow> do {
          dassert dbg (tree = Some node);
          Some (h, Some new_root)
        })"

definition node_rotate ::
  "bool \<Rightarrow> ('e, 's) callback \<Rightarrow> ('p, 'e, 's) heap \<Rightarrow> 'p option \<Rightarrow> 'p \<Rightarrow> is_right_child \<Rightarrow>
   (('p, 'e, 's) heap \<times> 'p option) option" where
  "node_rotate dbg cb h tree node dir = do {
     n \<leftarrow> h node;
     new_root \<leftarrow> children n (\<not> dir);
     rn \<leftarrow> h new_root;
     let mid = children rn dir;
     h \<leftarrow> set_child h node (\<not> dir) mid;
     h \<leftarrow> set_child h new_root dir (Some node);
     n \<leftarrow> h node;
     h \<leftarrow> set_parent h new_root (parent n);
     h \<leftarrow> set_parent h node (Some new_root);
     h \<leftarrow> set_parent_opt h mid (Some node);
     rn \<leftarrow> h new_root;
     (h, tree) \<leftarrow> rotate_relink dbg h tree (parent rn) node new_root;
     n \<leftarrow> h node;
     rn \<leftarrow> h new_root;
     let node_summary_new = sub_assign_summary cb (summary n) (summary rn);
     node_summary_new \<leftarrow> (case mid of
         None \<Rightarrow> Some node_summary_new
       | Some m \<Rightarrow> do {
           mn \<leftarrow> h m;
           Some (add_assign_summary cb node_summary_new (summary mn))
         });
     let node_summary_old = summary n;
     h \<leftarrow> set_summary h node node_summary_new;
     h \<leftarrow> set_summary h new_root node_summary_old;
     Some (h, tree)
   }"

section \<open>Traversal\<close>

partial_function (option) node_min :: "('p, 'e, 's) heap \<Rightarrow> 'p \<Rightarrow> 'p option" where
  "node_min h this = do {
     n \<leftarrow> h this;
     (case children n False of
        Some child \<Rightarrow> node_min h child
      | None \<Rightarrow> Some this)
   }"

partial_function (option) node_max :: "('p, 'e, 's) heap \<Rightarrow> 'p \<Rightarrow> 'p option" where
  "node_max h this = do {
     n \<leftarrow> h this;
     (case children n True of
        Some child \<Rightarrow> node_max h child
      | None \<Rightarrow> Some this)
   }"

text \<open>
  The loops of \<open>predecessor\<close> and \<open>successor\<close> climb until they leave a subtree on
  side \<open>d\<close> of its root.
\<close>

partial_function (option) climb ::
  "is_right_child \<Rightarrow> ('p, 'e, 's) heap \<Rightarrow> 'p \<Rightarrow> 'p option option" where
  "climb d h node = do {
     n \<leftarrow> h node;
     (case parent n of
        Some par \<Rightarrow> do {
          pn \<leftarrow> h par;
          if children pn d = Some node then Some (Some par) else climb d h par
        }
      | None \<Rightarrow> Some None)
   }"

definition predecessor :: "('p, 'e, 's) heap \<Rightarrow> 'p \<Rightarrow> 'p option option" where
  "predecessor h this = do {
     n \<leftarrow> h this;
     (case children n False of
        Some child \<Rightarrow> do { m \<leftarrow> node_max h child; Some (Some m) }
      | None \<Rightarrow> climb True h this)
   }"

definition successor :: "('p, 'e, 's) heap \<Rightarrow> 'p \<Rightarrow> 'p option option" where
  "successor h this = do {
     n \<leftarrow> h this;
     (case children n True of
        Some child \<Rightarrow> do { m \<leftarrow> node_min h child; Some (Some m) }
      | None \<Rightarrow> climb False h this)
   }"

text \<open>\<open>c\<close> compares the searched key with an element.\<close>

partial_function (option) lower_bound_loop ::
  "('p, 'e, 's) heap \<Rightarrow> ('e \<Rightarrow> ordering) \<Rightarrow> 'p \<Rightarrow> 'p option option" where
  "lower_bound_loop h c node = do {
     n \<leftarrow> h node;
     (if c (element n) \<noteq> Greater then
        (case children n False of
           Some child \<Rightarrow> lower_bound_loop h c child
         | None \<Rightarrow> Some (Some node))
      else
        (case children n True of
           Some child \<Rightarrow> lower_bound_loop h c child
         | None \<Rightarrow> successor h node))
   }"

definition lower_bound ::
  "('p, 'e, 's) heap \<Rightarrow> 'p option \<Rightarrow> ('e \<Rightarrow> ordering) \<Rightarrow> 'p option option" where
  "lower_bound h tree c =
     (case tree of Some root \<Rightarrow> lower_bound_loop h c root | None \<Rightarrow> Some None)"

partial_function (option) prefix_sum_loop ::
  "('e, 's) callback \<Rightarrow> ('p, 'e, 's) heap \<Rightarrow> 'p \<Rightarrow> 's \<Rightarrow> 's option" where
  "prefix_sum_loop cb h node acc = do {
     n \<leftarrow> h node;
     (case parent n of
        Some par \<Rightarrow> do {
          pn \<leftarrow> h par;
          acc \<leftarrow> (if children pn True = Some node then do {
              acc \<leftarrow> (case children pn False of
                  Some child \<Rightarrow> do {
                    cn \<leftarrow> h child;
                    Some (add_assign_summary cb acc (summary cn))
                  }
                | None \<Rightarrow> Some acc);
              Some (add_assign_summary cb acc (element_to_summary cb (element pn)))
            } else Some acc);
          prefix_sum_loop cb h par acc
        }
      | None \<Rightarrow> Some acc)
   }"

definition prefix_sum ::
  "('e, 's) callback \<Rightarrow> ('p, 'e, 's) heap \<Rightarrow> 'p option \<Rightarrow> 'p option \<Rightarrow> 's option" where
  "prefix_sum cb h tree node =
     (case node of
        Some node \<Rightarrow> do {
          n \<leftarrow> h node;
          acc \<leftarrow> (case children n False of
              Some child \<Rightarrow> do { cn \<leftarrow> h child; Some (summary cn) }
            | None \<Rightarrow> Some (zero_summary cb));
          prefix_sum_loop cb h node acc
        }
      | None \<Rightarrow>
          (case tree of
             Some root \<Rightarrow> do { n \<leftarrow> h root; Some (summary n) }
           | None \<Rightarrow> Some (zero_summary cb)))"

section \<open>Insertion\<close>

text \<open>
  The descent that finds the place of \<open>new_node\<close> and updates the summaries on the way.
  It returns the parent, the side, and the grandparent with the side of the parent.
\<close>

partial_function (option) insert_descend ::
  "bool \<Rightarrow> ('e, 's) callback \<Rightarrow> ('p, 'e, 's) heap \<Rightarrow> 'p \<Rightarrow> 'p \<Rightarrow> ('p \<times> is_right_child) option \<Rightarrow>
   (('p, 'e, 's) heap \<times> 'p \<times> is_right_child \<times> ('p \<times> is_right_child) option) option" where
  "insert_descend dbg cb h new_node par gp = do {
     dassert dbg (par \<noteq> new_node);
     pn \<leftarrow> h par;
     nn \<leftarrow> h new_node;
     h \<leftarrow> set_summary h par (add_assign_summary cb (summary pn) (summary nn));
     nn \<leftarrow> h new_node;
     pn \<leftarrow> h par;
     let side = (cmp_element cb (element nn) (element pn) \<noteq> Less);
     (case children pn side of
        Some child \<Rightarrow> insert_descend dbg cb h new_node child (Some (par, side))
      | None \<Rightarrow> do {
          h \<leftarrow> set_child h par side (Some new_node);
          h \<leftarrow> set_parent h new_node (Some par);
          Some (h, par, side, gp)
        })
   }"

text \<open>The loop that restores the colour invariant.\<close>

partial_function (option) insert_fixup ::
  "bool \<Rightarrow> ('e, 's) callback \<Rightarrow> ('p, 'e, 's) heap \<Rightarrow> 'p option \<Rightarrow> 'p \<Rightarrow> 'p \<Rightarrow> is_right_child \<Rightarrow>
   ('p \<times> is_right_child) option \<Rightarrow> (('p, 'e, 's) heap \<times> 'p option) option" where
  "insert_fixup dbg cb h tree node par node_side grandparent_parent_side = do {
     nn \<leftarrow> h node;
     pn \<leftarrow> h par;
     dassert dbg (color nn = Red);
     dassert dbg (children pn node_side = Some node);
     dassert dbg (parent nn = Some par);
     (if color pn = Black then Some (h, tree)
      else (case grandparent_parent_side of
        Some (grandparent, parent_side) \<Rightarrow> do {
          gn \<leftarrow> h grandparent;
          dassert dbg (children gn parent_side = Some par);
          dassert dbg (parent pn = Some grandparent);
          dassert dbg (color gn = Black);
          let uncle = children gn (\<not> parent_side);
          uncle_color \<leftarrow> opt_color h uncle;
          (if uncle_color = Some Red then do {
             uncle \<leftarrow> uncle;
             h \<leftarrow> set_color h par Black;
             h \<leftarrow> set_color h uncle Black;
             h \<leftarrow> set_color h grandparent Red;
             let node = grandparent;
             nn \<leftarrow> h node;
             (case parent nn of
                None \<Rightarrow> Some (h, tree)
              | Some par \<Rightarrow> do {
                  pn \<leftarrow> h par;
                  let node_side = (children pn True = Some node);
                  gps \<leftarrow> (case parent pn of
                      None \<Rightarrow> Some None
                    | Some grandparent \<Rightarrow> do {
                        gn \<leftarrow> h grandparent;
                        Some (Some (grandparent, children gn True = Some par))
                      });
                  insert_fixup dbg cb h tree node par node_side gps
                })
           } else do {
             (h, tree, node, par, node_side) \<leftarrow>
               (if parent_side \<noteq> node_side then do {
                  (h, tree) \<leftarrow> node_rotate dbg cb h tree par (\<not> node_side);
                  let (par, node) = (node, par);
                  let node_side = (\<not> node_side);
                  pn \<leftarrow> h par;
                  nn \<leftarrow> h node;
                  dassert dbg (parent pn = Some grandparent);
                  dassert dbg (children pn node_side = Some node);
                  dassert dbg (parent nn = Some par);
                  Some (h, tree, node, par, node_side)
                } else Some (h, tree, node, par, node_side));
             (h, tree) \<leftarrow> node_rotate dbg cb h tree grandparent (\<not> node_side);
             h \<leftarrow> set_color h par Black;
             h \<leftarrow> set_color h grandparent Red;
             Some (h, tree)
           })
        }
      | None \<Rightarrow> do {
          h \<leftarrow> set_color h par Black;
          Some (h, tree)
        }))
   }"

definition node_insert ::
  "bool \<Rightarrow> ('e, 's) callback \<Rightarrow> ('p, 'e, 's) heap \<Rightarrow> 'p option \<Rightarrow> 'p \<Rightarrow>
   (('p, 'e, 's) heap \<times> 'p option) option" where
  "node_insert dbg cb h tree new_node = do {
     h \<leftarrow> set_color h new_node Red;
     h \<leftarrow> modify h new_node (\<lambda>n. n\<lparr>children := (\<lambda>_. None)\<rparr>);
     (case tree of
        Some root \<Rightarrow> do {
          (h, par, node_side, gp) \<leftarrow> insert_descend dbg cb h new_node root None;
          insert_fixup dbg cb h tree new_node par node_side gp
        }
      | None \<Rightarrow> do {
          h \<leftarrow> set_parent h new_node None;
          Some (h, Some new_node)
        })
   }"

section \<open>Removal\<close>

text \<open>The element of the removed node leaves the summaries of the node and its ancestors.\<close>

partial_function (option) sub_ancestors ::
  "('e, 's) callback \<Rightarrow> ('p, 'e, 's) heap \<Rightarrow> 's \<Rightarrow> 'p option \<Rightarrow> ('p, 'e, 's) heap option" where
  "sub_ancestors cb h local node =
     (case node of
        Some n \<Rightarrow> do {
          nn \<leftarrow> h n;
          h \<leftarrow> set_summary h n (sub_assign_summary cb (summary nn) local);
          nn \<leftarrow> h n;
          sub_ancestors cb h local (parent nn)
        }
      | None \<Rightarrow> Some h)"

text \<open>The search for the in-order predecessor, with its parent and side.\<close>

partial_function (option) find_pred ::
  "('p, 'e, 's) heap \<Rightarrow> 'p \<Rightarrow> 'p \<Rightarrow> is_right_child \<Rightarrow> ('p \<times> 'p \<times> is_right_child) option" where
  "find_pred h pred pred_parent pred_side = do {
     pn \<leftarrow> h pred;
     (case children pn True of
        Some next_pred \<Rightarrow> find_pred h next_pred pred True
      | None \<Rightarrow> Some (pred, pred_parent, pred_side))
   }"

text \<open>The predecessor leaves the summaries of the nodes strictly between it and \<open>node\<close>.\<close>

partial_function (option) sub_between ::
  "('e, 's) callback \<Rightarrow> ('p, 'e, 's) heap \<Rightarrow> 'p \<Rightarrow> 's \<Rightarrow> 'p \<Rightarrow> ('p, 'e, 's) heap option" where
  "sub_between cb h node local mid = do {
     mn \<leftarrow> h mid;
     (case parent mn of
        Some mid_parent \<Rightarrow>
          (if mid_parent = node then Some h
           else do {
             mpn \<leftarrow> h mid_parent;
             h \<leftarrow> set_summary h mid_parent (sub_assign_summary cb (summary mpn) local);
             sub_between cb h node local mid_parent
           })
      | None \<Rightarrow> Some h)
   }"

text \<open>
  The slot that stores \<open>old\<close>: the child cell of its parent, or the tree cell.  It is
  checked to hold \<open>old\<close> and overwritten with \<open>new\<close>.
\<close>

definition replace_child ::
  "bool \<Rightarrow> ('p, 'e, 's) heap \<Rightarrow> 'p option \<Rightarrow> 'p option \<Rightarrow> 'p \<Rightarrow> 'p option \<Rightarrow>
   (('p, 'e, 's) heap \<times> 'p option) option" where
  "replace_child dbg h tree par old new =
     (case par of
        Some par \<Rightarrow> do {
          pn \<leftarrow> h par;
          let node_side = (children pn True = Some old);
          dassert dbg (children pn node_side = Some old);
          h \<leftarrow> set_child h par node_side new;
          Some (h, tree)
        }
      | None \<Rightarrow> do {
          dassert dbg (tree = Some old);
          Some (h, new)
        })"

text \<open>
  The case of two children: \<open>node\<close> changes places with its in-order predecessor, colours
  summaries staying where they are.
\<close>

definition swap_with_pred ::
  "bool \<Rightarrow> ('e, 's) callback \<Rightarrow> ('p, 'e, 's) heap \<Rightarrow> 'p option \<Rightarrow> 'p \<Rightarrow> 'p option \<Rightarrow> 'p \<Rightarrow>
   (('p, 'e, 's) heap \<times> 'p option) option" where
  "swap_with_pred dbg cb h tree node par child = do {
     (pred, pred_parent, pred_side) \<leftarrow> find_pred h child node False;
     pn \<leftarrow> h pred;
     h \<leftarrow> sub_between cb h node (element_to_summary cb (element pn)) pred;
     dassert dbg (node \<noteq> pred);
     nn \<leftarrow> h node;
     pn \<leftarrow> h pred;
     h \<leftarrow> set_color h node (color pn);
     h \<leftarrow> set_color h pred (color nn);
     h \<leftarrow> set_summary h node (summary pn);
     h \<leftarrow> set_summary h pred (summary nn);
     nn \<leftarrow> h node;
     pn \<leftarrow> h pred;
     h \<leftarrow> (if pred_parent \<noteq> node then do {
         dassert dbg (pred_side = True);
         h \<leftarrow> modify h node (\<lambda>n. n\<lparr>children := children pn\<rparr>);
         h \<leftarrow> modify h pred (\<lambda>n. n\<lparr>children := children nn\<rparr>);
         h \<leftarrow> set_parent h node (parent pn);
         h \<leftarrow> set_parent h pred (parent nn);
         h \<leftarrow> set_child h pred_parent True (Some node);
         pn \<leftarrow> h pred;
         set_parent_opt h (children pn False) (Some pred)
       } else do {
         dassert dbg (pred_side = False);
         dassert dbg (pred = child);
         h \<leftarrow> set_child h node True (children pn True);
         h \<leftarrow> set_child h pred True (children nn True);
         pn \<leftarrow> h pred;
         h \<leftarrow> set_child h node False (children pn False);
         h \<leftarrow> set_child h pred False (Some node);
         nn \<leftarrow> h node;
         h \<leftarrow> set_parent h pred (parent nn);
         set_parent h node (Some pred)
       });
     pn \<leftarrow> h pred;
     h \<leftarrow> set_parent_opt h (children pn True) (Some pred);
     nn \<leftarrow> h node;
     h \<leftarrow> set_parent_opt h (children nn False) (Some node);
     replace_child dbg h tree par node (Some pred)
   }"

text \<open>The loop that restores the black height invariant.\<close>

partial_function (option) remove_fixup ::
  "bool \<Rightarrow> ('e, 's) callback \<Rightarrow> ('p, 'e, 's) heap \<Rightarrow> 'p option \<Rightarrow> 'p \<Rightarrow> is_right_child \<Rightarrow>
   (('p, 'e, 's) heap \<times> 'p option) option" where
  "remove_fixup dbg cb h tree par node_side = do {
     pn \<leftarrow> h par;
     sibling \<leftarrow> children pn (\<not> node_side);
     sn \<leftarrow> h sibling;
     let close_nephew = children sn node_side;
     let distant_nephew = children sn (\<not> node_side);
     cc \<leftarrow> opt_color h close_nephew;
     dc \<leftarrow> opt_color h distant_nephew;
     let pc = color pn;
     let sc = color sn;
     (if (cc = None \<and> sc = Red) \<or> (sc = Red \<and> dc = None) then None
      else if (cc = Some Red \<and> sc = Red) \<or> (sc = Red \<and> dc = Some Red) then None
      else if pc = Red \<and> sc = Red then None
      else if pc = Black \<and> cc = Some Black \<and> sc = Red \<and> dc = Some Black then do {
        (h, tree) \<leftarrow> node_rotate dbg cb h tree par node_side;
        h \<leftarrow> set_color h par Red;
        h \<leftarrow> set_color h sibling Black;
        remove_fixup dbg cb h tree par node_side
      }
      else if pc = Black \<and> cc \<noteq> Some Red \<and> sc = Black \<and> dc \<noteq> Some Red then do {
        h \<leftarrow> set_color h sibling Red;
        let node = par;
        nn \<leftarrow> h node;
        (case parent nn of
           Some par \<Rightarrow> do {
             pn \<leftarrow> h par;
             let node_side = (children pn True = Some node);
             dassert dbg (children pn node_side = Some node);
             remove_fixup dbg cb h tree par node_side
           }
         | None \<Rightarrow> Some (h, tree))
      }
      else if pc = Red \<and> cc \<noteq> Some Red \<and> sc = Black \<and> dc \<noteq> Some Red then do {
        h \<leftarrow> set_color h par Black;
        h \<leftarrow> set_color h sibling Red;
        Some (h, tree)
      }
      else if sc = Black \<and> dc = Some Red then do {
        distant_nephew \<leftarrow> distant_nephew;
        (h, tree) \<leftarrow> node_rotate dbg cb h tree par node_side;
        sn \<leftarrow> h sibling;
        pn \<leftarrow> h par;
        h \<leftarrow> set_color h sibling (color pn);
        h \<leftarrow> set_color h par (color sn);
        h \<leftarrow> set_color h distant_nephew Black;
        Some (h, tree)
      }
      else do {
        close_nephew \<leftarrow> close_nephew;
        (h, tree) \<leftarrow> node_rotate dbg cb h tree sibling (\<not> node_side);
        h \<leftarrow> set_color h sibling Red;
        h \<leftarrow> set_color h close_nephew Black;
        remove_fixup dbg cb h tree par node_side
      })
   }"

text \<open>
  The part of \<open>remove\<close> after the swap, where \<open>node\<close> has at most one child, on the left.
\<close>

definition unlink ::
  "bool \<Rightarrow> ('e, 's) callback \<Rightarrow> ('p, 'e, 's) heap \<Rightarrow> 'p option \<Rightarrow> 'p \<Rightarrow>
   (('p, 'e, 's) heap \<times> 'p option) option" where
  "unlink dbg cb h tree node = do {
     n \<leftarrow> h node;
     dassert dbg (children n True = None);
     node_side \<leftarrow> (case parent n of
         Some par \<Rightarrow> do { pn \<leftarrow> h par; Some (children pn True = Some node) }
       | None \<Rightarrow> Some False);
     (case (color n, children n False) of
        (Red, child) \<Rightarrow> do {
          dassert dbg (child = None);
          replace_child dbg h tree (parent n) node None
        }
      | (Black, Some child) \<Rightarrow> do {
          cn \<leftarrow> h child;
          dassert dbg (color cn = Red);
          h \<leftarrow> set_parent h child (parent n);
          h \<leftarrow> set_color h child Black;
          replace_child dbg h tree (parent n) node (Some child)
        }
      | (Black, None) \<Rightarrow> do {
          (h, tree) \<leftarrow> replace_child dbg h tree (parent n) node None;
          n \<leftarrow> h node;
          (case parent n of
             None \<Rightarrow> Some (h, tree)
           | Some par \<Rightarrow> remove_fixup dbg cb h tree par node_side)
        })
   }"

definition node_remove ::
  "bool \<Rightarrow> ('e, 's) callback \<Rightarrow> ('p, 'e, 's) heap \<Rightarrow> 'p option \<Rightarrow> 'p \<Rightarrow>
   (('p, 'e, 's) heap \<times> 'p option) option" where
  "node_remove dbg cb h tree node = do {
     n \<leftarrow> h node;
     h \<leftarrow> sub_ancestors cb h (element_to_summary cb (element n)) (Some node);
     n \<leftarrow> h node;
     (case (parent n, children n False, children n True) of
        (None, None, None) \<Rightarrow> do {
          dassert dbg (tree = Some node);
          Some (h, None)
        }
      | (par, Some child, Some _) \<Rightarrow> do {
          (h, tree) \<leftarrow> swap_with_pred dbg cb h tree node par child;
          unlink dbg cb h tree node
        }
      | (_, _, None) \<Rightarrow> unlink dbg cb h tree node
      | (_, None, Some _) \<Rightarrow> do {
          h \<leftarrow> modify h node (\<lambda>n. n\<lparr>children := (\<lambda>b. children n (\<not> b))\<rparr>);
          unlink dbg cb h tree node
        })
   }"

text \<open>The loops are executable by their equations.\<close>

declare
  node_min.simps [code]
  node_max.simps [code]
  climb.simps [code]
  lower_bound_loop.simps [code]
  prefix_sum_loop.simps [code]
  insert_descend.simps [code]
  insert_fixup.simps [code]
  sub_ancestors.simps [code]
  find_pred.simps [code]
  sub_between.simps [code]
  remove_fixup.simps [code]

end
