(* ===== verification/Rb_Shape.thy ===== *)
theory Rb_Shape
  imports Rb_Node
begin

text \<open>
  What a heap of linked nodes stands for.  \<open>tree\<close> is the abstract tree with node
  addresses, \<open>frame\<close> lists form the context of a subtree (its path to the root), and
  \<open>rep\<close> / \<open>rep_ctx\<close> say that a heap stores them, parent pointers included.  The red-black
  and summary invariants are defined on the abstract tree together with their counterparts
  on contexts, so that each splits over \<open>plug\<close>.
\<close>

section \<open>Trees and contexts\<close>

datatype ('p, 'e, 's) tree =
  Leaf | T color 'p 's 'e "('p, 'e, 's) tree" "('p, 'e, 's) tree"

text \<open>\<open>N d c p s e a b\<close>: the node with subtree \<open>a\<close> on side \<open>d\<close> and \<open>b\<close> on the other.\<close>

definition N ::
  "bool \<Rightarrow> color \<Rightarrow> 'p \<Rightarrow> 's \<Rightarrow> 'e \<Rightarrow> ('p, 'e, 's) tree \<Rightarrow> ('p, 'e, 's) tree \<Rightarrow> ('p, 'e, 's) tree" where
  "N d c p s e a b = T c p s e (if d then b else a) (if d then a else b)"

lemma T_as_N: "T c p s e l r = N False c p s e l r"
  by (simp add: N_def)

lemma N_neq_Leaf [simp]: "N d c p s e a b \<noteq> Leaf" "Leaf \<noteq> N d c p s e a b"
  by (simp_all add: N_def)

lemma N_not [simp]: "N (\<not> d) c p s e a b = N d c p s e b a"
  by (simp add: N_def)

lemma N_exhaust: obtains "t = Leaf" | c p s e a b where "t = N d c p s e a b"
proof (cases t)
  case Leaf
  then show ?thesis using that by blast
next
  case (T c p s e l r)
  then have "t = N d c p s e (if d then r else l) (if d then l else r)" by (simp add: N_def)
  then show ?thesis using that by blast
qed

text \<open>A context is the path from a hole to the root, innermost frame first.\<close>

datatype ('p, 'e, 's) frame = Fr bool color 'p 's 'e "('p, 'e, 's) tree"

type_synonym ('p, 'e, 's) ctx = "('p, 'e, 's) frame list"

fun plug :: "('p, 'e, 's) tree \<Rightarrow> ('p, 'e, 's) ctx \<Rightarrow> ('p, 'e, 's) tree" where
  "plug t [] = t"
| "plug t (Fr d c p s e sib # k) = plug (N d c p s e t sib) k"

fun root_ptr :: "('p, 'e, 's) tree \<Rightarrow> 'p option" where
  "root_ptr Leaf = None"
| "root_ptr (T c p s e l r) = Some p"

lemma root_ptr_N [simp]: "root_ptr (N d c p s e a b) = Some p"
  by (simp add: N_def)

lemma root_ptr_None [simp]: "root_ptr t = None \<longleftrightarrow> t = Leaf"
  by (cases t) auto

fun ctx_ptr :: "('p, 'e, 's) ctx \<Rightarrow> 'p option" where
  "ctx_ptr [] = None"
| "ctx_ptr (Fr d c p s e sib # k) = Some p"

fun ctx_slot :: "('p, 'e, 's) ctx \<Rightarrow> ('p \<times> bool) option" where
  "ctx_slot [] = None"
| "ctx_slot (Fr d c p s e sib # k) = Some (p, d)"

subsection \<open>The in-order sequence\<close>

fun nodes :: "('p, 'e, 's) tree \<Rightarrow> ('p \<times> 'e) list" where
  "nodes Leaf = []"
| "nodes (T c p s e l r) = nodes l @ (p, e) # nodes r"

fun kl :: "('p, 'e, 's) ctx \<Rightarrow> ('p \<times> 'e) list" where
  "kl [] = []"
| "kl (Fr d c p s e sib # k) = (if d then kl k @ nodes sib @ [(p, e)] else kl k)"

fun kr :: "('p, 'e, 's) ctx \<Rightarrow> ('p \<times> 'e) list" where
  "kr [] = []"
| "kr (Fr d c p s e sib # k) = (if d then kr k else (p, e) # nodes sib @ kr k)"

lemma nodes_N [simp]:
  "nodes (N d c p s e a b) = (if d then nodes b @ (p, e) # nodes a else nodes a @ (p, e) # nodes b)"
  by (simp add: N_def)

lemma nodes_plug: "nodes (plug t k) = kl k @ nodes t @ kr k"
  by (induction t k rule: plug.induct) auto

lemma nodes_Nil [simp]: "nodes t = [] \<longleftrightarrow> t = Leaf"
  by (cases t) auto

lemma node_in_plug:
  "(p, e) \<in> set (nodes t) \<Longrightarrow> \<exists>c s l r k. plug (T c p s e l r) k = plug t k0"
proof (induction t arbitrary: k0)
  case Leaf
  then show ?case by simp
next
  case (T c q s x l r)
  from T.prems consider "(p, e) \<in> set (nodes l)" | "p = q \<and> e = x" | "(p, e) \<in> set (nodes r)" by auto
  then show ?case
  proof cases
    case 1
    then show ?thesis using T.IH(1) [of "Fr False c q s x r # k0"] by (simp add: N_def)
  next
    case 2
    then show ?thesis by blast
  next
    case 3
    then show ?thesis using T.IH(2) [of "Fr True c q s x l # k0"] by (simp add: N_def)
  qed
qed

lemma node_zipper:
  assumes "(p, e) \<in> set (nodes t)"
  obtains c s l r k where "t = plug (T c p s e l r) k"
  using node_in_plug [OF assms, of "[]"] by (metis plug.simps(1))

subsection \<open>Addresses\<close>

fun ps :: "('p, 'e, 's) tree \<Rightarrow> 'p set" where
  "ps Leaf = {}"
| "ps (T c p s e l r) = insert p (ps l \<union> ps r)"

fun kps :: "('p, 'e, 's) ctx \<Rightarrow> 'p set" where
  "kps [] = {}"
| "kps (Fr d c p s e sib # k) = insert p (ps sib \<union> kps k)"

fun dist :: "('p, 'e, 's) tree \<Rightarrow> bool" where
  "dist Leaf = True"
| "dist (T c p s e l r) \<longleftrightarrow> p \<notin> ps l \<and> p \<notin> ps r \<and> ps l \<inter> ps r = {} \<and> dist l \<and> dist r"

fun kdist :: "('p, 'e, 's) ctx \<Rightarrow> bool" where
  "kdist [] = True"
| "kdist (Fr d c p s e sib # k) \<longleftrightarrow>
     p \<notin> ps sib \<and> p \<notin> kps k \<and> ps sib \<inter> kps k = {} \<and> dist sib \<and> kdist k"

lemma ps_N [simp]: "ps (N d c p s e a b) = insert p (ps a \<union> ps b)"
  by (auto simp: N_def)

lemma dist_N [simp]:
  "dist (N d c p s e a b) \<longleftrightarrow> p \<notin> ps a \<and> p \<notin> ps b \<and> ps a \<inter> ps b = {} \<and> dist a \<and> dist b"
  by (auto simp: N_def)

lemma ps_nodes: "ps t = fst ` set (nodes t)"
  by (induction t) auto

lemma dist_nodes: "dist t \<longleftrightarrow> distinct (map fst (nodes t))"
  by (induction t) (auto simp: ps_nodes)

lemma ps_plug [simp]: "ps (plug t k) = ps t \<union> kps k"
  by (induction t k rule: plug.induct) auto

lemma dist_plug [zip_simps]: "dist (plug t k) \<longleftrightarrow> dist t \<and> kdist k \<and> ps t \<inter> kps k = {}"
  by (induction t k rule: plug.induct) auto

lemma root_ptr_ps: "root_ptr t = Some p \<Longrightarrow> p \<in> ps t"
  by (cases t) auto

lemma root_ptr_notin [simp]: "p \<notin> ps t \<Longrightarrow> root_ptr t \<noteq> Some p"
  by (cases t) auto

lemma ctx_ptr_notin [simp]: "p \<notin> kps k \<Longrightarrow> ctx_ptr k \<noteq> Some p"
  by (cases k rule: ctx_ptr.cases) auto

lemma ctx_ptr_kps: "ctx_ptr k = Some p \<Longrightarrow> p \<in> kps k"
  by (cases k rule: ctx_ptr.cases) auto

lemma disjoint_simps [simp]:
  "insert x A \<inter> B = {} \<longleftrightarrow> x \<notin> B \<and> A \<inter> B = {}"
  "B \<inter> insert x A = {} \<longleftrightarrow> x \<notin> B \<and> B \<inter> A = {}"
  "(A \<union> C) \<inter> B = {} \<longleftrightarrow> A \<inter> B = {} \<and> C \<inter> B = {}"
  "B \<inter> (A \<union> C) = {} \<longleftrightarrow> B \<inter> A = {} \<and> B \<inter> C = {}"
  by auto

section \<open>Heaps that store a tree\<close>

abbreviation (input) mk_node ::
  "bool \<Rightarrow> 'p option \<Rightarrow> 'p option \<Rightarrow> 'p option \<Rightarrow> color \<Rightarrow> 's \<Rightarrow> 'e \<Rightarrow> ('p, 'e, 's) node" where
  "mk_node d x y q c s e \<equiv>
     \<lparr>children = two d x y, parent = q, color = c, summary = s, element = e\<rparr>"

fun rep :: "('p, 'e, 's) heap \<Rightarrow> 'p option \<Rightarrow> ('p, 'e, 's) tree \<Rightarrow> bool" where
  "rep h q Leaf = True"
| "rep h q (T c p s e l r) \<longleftrightarrow>
     h p = Some (mk_node False (root_ptr l) (root_ptr r) q c s e) \<and>
     rep h (Some p) l \<and> rep h (Some p) r"

text \<open>The hole of the context holds the pointer \<open>x\<close>; the tree cell holds \<open>rt\<close>.\<close>

fun rep_ctx ::
  "('p, 'e, 's) heap \<Rightarrow> 'p option \<Rightarrow> 'p option \<Rightarrow> ('p, 'e, 's) ctx \<Rightarrow> bool" where
  "rep_ctx h rt x [] \<longleftrightarrow> rt = x"
| "rep_ctx h rt x (Fr d c p s e sib # k) \<longleftrightarrow>
     h p = Some (mk_node d x (root_ptr sib) (ctx_ptr k) c s e) \<and>
     rep h (Some p) sib \<and> rep_ctx h rt (Some p) k"

lemma rep_N [simp]:
  "rep h q (N d c p s e a b) \<longleftrightarrow>
     h p = Some (mk_node d (root_ptr a) (root_ptr b) q c s e) \<and>
     rep h (Some p) a \<and> rep h (Some p) b"
  by (cases d) (auto simp: N_def two_True_eq)

lemma rep_frame [simp]: "x \<notin> ps t \<Longrightarrow> rep (h(x := n)) q t = rep h q t"
  by (induction t arbitrary: q) auto

lemma rep_ctx_frame [simp]: "x \<notin> kps k \<Longrightarrow> rep_ctx (h(x := n)) rt y k = rep_ctx h rt y k"
  by (induction h rt y k rule: rep_ctx.induct) auto

lemma rep_agree: "(\<forall>x\<in>ps t. h' x = h x) \<Longrightarrow> rep h' q t = rep h q t"
  by (induction t arbitrary: q) auto

lemma rep_ctx_agree: "(\<forall>x\<in>kps k. h' x = h x) \<Longrightarrow> rep_ctx h' rt y k = rep_ctx h rt y k"
proof (induction h rt y k rule: rep_ctx.induct)
  case (2 h rt x d c p s e sib k)
  then have "rep h' (Some p) sib = rep h (Some p) sib" by (intro rep_agree) simp
  with 2 show ?case by simp
qed simp

lemma rep_root: "rep h q t \<Longrightarrow> root_ptr t = Some p \<Longrightarrow> \<exists>n. h p = Some n \<and> parent n = q"
  by (cases t) auto

lemma rep_alloc: "rep h q t \<Longrightarrow> x \<in> ps t \<Longrightarrow> h x \<noteq> None"
  by (induction t arbitrary: q) auto

text \<open>Changing the parent pointer of a stored tree.\<close>

definition set_parent_rep ::
  "('p, 'e, 's) heap \<Rightarrow> ('p, 'e, 's) tree \<Rightarrow> 'p option \<Rightarrow> ('p, 'e, 's) heap" where
  "set_parent_rep h t q = (case root_ptr t of None \<Rightarrow> h
     | Some p \<Rightarrow> (case h p of None \<Rightarrow> h | Some n \<Rightarrow> h(p \<mapsto> n\<lparr>parent := q\<rparr>)))"

lemma set_parent_opt_rep:
  assumes "rep h q0 t"
  shows "set_parent_opt h (root_ptr t) q = Some (set_parent_rep h t q)"
  using assms
  by (cases t) (auto simp: set_parent_opt_def set_parent_def modify_def set_parent_rep_def)

lemma rep_set_parent_rep: "rep h q0 t \<Longrightarrow> dist t \<Longrightarrow> rep (set_parent_rep h t q) q t"
  by (cases t) (auto simp: set_parent_rep_def)

lemma set_parent_rep_other: "x \<notin> ps t \<Longrightarrow> set_parent_rep h t q x = h x"
  by (cases t) (auto simp: set_parent_rep_def split: option.splits)

lemma rep_set_parent_rep_frame: "ps t \<inter> ps u = {} \<Longrightarrow> rep (set_parent_rep h t q) q' u = rep h q' u"
  by (rule rep_agree) (metis disjoint_iff set_parent_rep_other)

lemma rep_ctx_set_parent_rep_frame:
  "ps t \<inter> kps k = {} \<Longrightarrow> rep_ctx (set_parent_rep h t q) rt y k = rep_ctx h rt y k"
  by (rule rep_ctx_agree) (metis disjoint_iff set_parent_rep_other)

text \<open>The heaps differ at most at the addresses in \<open>A\<close>, and none of them loses its node.\<close>

definition frame_ok :: "'p set \<Rightarrow> ('p, 'e, 's) heap \<Rightarrow> ('p, 'e, 's) heap \<Rightarrow> bool" where
  "frame_ok A h h' \<longleftrightarrow> (\<forall>x. x \<notin> A \<longrightarrow> h' x = h x) \<and>
     (\<forall>x n. h x = Some n \<longrightarrow> (\<exists>n'. h' x = Some n' \<and> element n' = element n))"

lemma frame_ok_refl [simp]: "frame_ok A h h"
  by (auto simp: frame_ok_def)

lemma frame_ok_trans: "frame_ok A h h' \<Longrightarrow> frame_ok B h' h'' \<Longrightarrow> A \<subseteq> C \<Longrightarrow> B \<subseteq> C \<Longrightarrow> frame_ok C h h''"
  unfolding frame_ok_def by (metis subsetD)

lemma frame_ok_Un: "frame_ok A h h' \<Longrightarrow> frame_ok B h' h'' \<Longrightarrow> frame_ok (A \<union> B) h h''"
  by (rule frame_ok_trans) auto

lemma frame_ok_mono: "frame_ok A h h' \<Longrightarrow> A \<subseteq> C \<Longrightarrow> frame_ok C h h'"
  unfolding frame_ok_def by (metis subsetD)

lemma frame_ok_upd:
  "h x = Some n \<Longrightarrow> x \<in> A \<Longrightarrow> element n' = element n \<Longrightarrow> frame_ok A h (h(x \<mapsto> n'))"
  by (auto simp: frame_ok_def)

lemma frame_ok_upd_trans:
  "frame_ok A h h' \<Longrightarrow> h' x = Some n \<Longrightarrow> x \<in> A \<Longrightarrow> element n' = element n \<Longrightarrow>
   frame_ok A h (h'(x \<mapsto> n'))"
  by (rule frame_ok_trans [OF _ frame_ok_upd]) auto

text \<open>Writing \<open>x\<close> into the slot of the hole: a child pointer of the innermost frame or the tree cell.\<close>

fun slot_heap :: "('p, 'e, 's) heap \<Rightarrow> ('p, 'e, 's) ctx \<Rightarrow> 'p option \<Rightarrow> ('p, 'e, 's) heap" where
  "slot_heap h [] x = h"
| "slot_heap h (Fr d c p s e sib # k) x =
     h(p \<mapsto> mk_node d x (root_ptr sib) (ctx_ptr k) c s e)"

fun slot_root :: "'p option \<Rightarrow> ('p, 'e, 's) ctx \<Rightarrow> 'p option \<Rightarrow> 'p option" where
  "slot_root rt [] x = x"
| "slot_root rt (f # k) x = rt"

lemma slot_heap_other [simp]: "z \<notin> kps k \<Longrightarrow> slot_heap h k x z = h z"
  by (cases k rule: ctx_ptr.cases) auto

lemma rep_slot_heap [simp]: "ps t \<inter> kps k = {} \<Longrightarrow> rep (slot_heap h k x) q t = rep h q t"
  by (rule rep_agree) (metis disjoint_iff slot_heap_other)

lemma rep_ctx_slot [simp]:
  "rep_ctx h rt y k \<Longrightarrow> kdist k \<Longrightarrow> rep_ctx (slot_heap h k x) (slot_root rt k x) x k"
  by (cases k rule: ctx_ptr.cases) auto

lemma slot_heap_upd_other:
  "z \<notin> kps k \<Longrightarrow> slot_heap (h(z := n)) k x = (slot_heap h k x)(z := n)"
  by (cases k rule: ctx_ptr.cases) (auto simp: fun_upd_twist)

lemma frame_ok_slot_heap:
  "rep_ctx h rt y k \<Longrightarrow> kps k \<subseteq> A \<Longrightarrow> frame_ok A h (slot_heap h k x)"
  by (cases k rule: ctx_ptr.cases) (auto simp: frame_ok_def)

lemma rotate_relink_slot [heap_simps]:
  assumes "rep_ctx h rt (Some p) k" and "p \<notin> kps k"
  shows "rotate_relink dbg h rt (ctx_ptr k) p q = Some (slot_heap h k (Some q), slot_root rt k (Some q))"
proof (cases k rule: ctx_ptr.cases)
  case (2 d c a s e sib k2)
  with assms show ?thesis
    by (cases d) (auto simp: rotate_relink_def write_defs heap_simps)
qed (use assms in \<open>simp add: rotate_relink_def\<close>)

lemma replace_child_slot [heap_simps]:
  assumes "rep_ctx h rt (Some p) k" and "p \<notin> kps k"
  shows "replace_child dbg h rt (ctx_ptr k) p x = Some (slot_heap h k x, slot_root rt k x)"
proof (cases k rule: ctx_ptr.cases)
  case (2 d c a s e sib k2)
  with assms show ?thesis
    by (cases d) (auto simp: replace_child_def write_defs heap_simps)
qed (use assms in \<open>simp add: replace_child_def\<close>)

lemma frame_ok_set_parent_rep: "rep h q0 t \<Longrightarrow> ps t \<subseteq> A \<Longrightarrow> frame_ok A h (set_parent_rep h t q)"
  by (cases t) (auto simp: set_parent_rep_def frame_ok_def)

text \<open>A focus on a subtree: the heap stores subtree and context, all addresses distinct.\<close>

definition zrep ::
  "('p, 'e, 's) heap \<Rightarrow> 'p option \<Rightarrow> ('p, 'e, 's) tree \<Rightarrow> ('p, 'e, 's) ctx \<Rightarrow> bool" where
  "zrep h rt t k \<longleftrightarrow>
     rep h (ctx_ptr k) t \<and> rep_ctx h rt (root_ptr t) k \<and>
     dist t \<and> kdist k \<and> ps t \<inter> kps k = {}"

lemma zrep_up: "zrep h rt t (Fr d c p s e sib # k) \<longleftrightarrow> zrep h rt (N d c p s e t sib) k"
  by (auto simp: zrep_def)

lemma zrep_plug: "zrep h rt t k \<longleftrightarrow> zrep h rt (plug t k) []"
  by (induction t k rule: plug.induct) (simp_all add: zrep_up)

section \<open>Red-black and summary invariants\<close>

fun col :: "('p, 'e, 's) tree \<Rightarrow> color" where
  "col Leaf = Black"
| "col (T c p s e l r) = c"

fun kcol :: "('p, 'e, 's) ctx \<Rightarrow> color" where
  "kcol [] = Black"
| "kcol (Fr d c p s e sib # k) = c"

fun invc :: "('p, 'e, 's) tree \<Rightarrow> bool" where
  "invc Leaf = True"
| "invc (T c p s e l r) \<longleftrightarrow>
     (c = Red \<longrightarrow> col l = Black \<and> col r = Black) \<and> invc l \<and> invc r"

fun kinvc :: "('p, 'e, 's) ctx \<Rightarrow> bool" where
  "kinvc [] = True"
| "kinvc (Fr d c p s e sib # k) \<longleftrightarrow>
     invc sib \<and> (c = Red \<longrightarrow> col sib = Black \<and> kcol k = Black) \<and> kinvc k"

definition cbh :: "color \<Rightarrow> nat" where
  "cbh c = (if c = Black then 1 else 0)"

lemma cbh_simps [simp]: "cbh Black = 1" "cbh Red = 0"
  by (simp_all add: cbh_def)

text \<open>\<open>bh\<close> is the black height of the leftmost path; \<open>invh\<close> says that all paths agree.\<close>

fun bh :: "('p, 'e, 's) tree \<Rightarrow> nat" where
  "bh Leaf = 0"
| "bh (T c p s e l r) = bh l + cbh c"

fun invh :: "('p, 'e, 's) tree \<Rightarrow> bool" where
  "invh Leaf = True"
| "invh (T c p s e l r) \<longleftrightarrow> bh l = bh r \<and> invh l \<and> invh r"

fun kinvh :: "nat \<Rightarrow> ('p, 'e, 's) ctx \<Rightarrow> bool" where
  "kinvh n [] = True"
| "kinvh n (Fr d c p s e sib # k) \<longleftrightarrow> bh sib = n \<and> invh sib \<and> kinvh (n + cbh c) k"

lemma col_N [simp]: "col (N d c p s e a b) = c"
  by (simp add: N_def)

lemma invc_N [simp]:
  "invc (N d c p s e a b) \<longleftrightarrow> (c = Red \<longrightarrow> col a = Black \<and> col b = Black) \<and> invc a \<and> invc b"
  by (auto simp: N_def)

lemma invh_N [simp]: "invh (N d c p s e a b) \<longleftrightarrow> bh a = bh b \<and> invh a \<and> invh b"
  by (auto simp: N_def)

lemma bh_N: "invh (N d c p s e a b) \<Longrightarrow> bh (N d c p s e a b) = bh a + cbh c"
  by (auto simp: N_def)

lemma bh_N_eq [simp]: "bh a = bh b \<Longrightarrow> bh (N d c p s e a b) = bh a + cbh c"
  by (auto simp: N_def)

lemma neq_color [simp]: "c \<noteq> Black \<longleftrightarrow> c = Red" "c \<noteq> Red \<longleftrightarrow> c = Black"
  by (cases c; simp)+

lemma invc_plug [zip_simps]:
  "invc (plug t k) \<longleftrightarrow> invc t \<and> kinvc k \<and> (col t = Red \<longrightarrow> kcol k = Black)"
  by (induction t k rule: plug.induct) auto

lemma invh_plug [zip_simps]: "invh (plug t k) \<longleftrightarrow> invh t \<and> kinvh (bh t) k"
proof (induction t k rule: plug.induct)
  case (2 t d c p s e sib k)
  then show ?case by (cases "bh t = bh sib") auto
qed simp

text \<open>Summaries of an arbitrary additive group; \<open>es\<close> gives the summary of one element.\<close>

fun sm :: "('p, 'e, 's::ab_group_add) tree \<Rightarrow> 's" where
  "sm Leaf = 0"
| "sm (T c p s e l r) = s"

fun sumok :: "('e \<Rightarrow> 's) \<Rightarrow> ('p, 'e, 's::ab_group_add) tree \<Rightarrow> bool" where
  "sumok es Leaf = True"
| "sumok es (T c p s e l r) \<longleftrightarrow> s = es e + sm l + sm r \<and> sumok es l \<and> sumok es r"

fun ksumok :: "('e \<Rightarrow> 's) \<Rightarrow> 's \<Rightarrow> ('p, 'e, 's::ab_group_add) ctx \<Rightarrow> bool" where
  "ksumok es v [] = True"
| "ksumok es v (Fr d c p s e sib # k) \<longleftrightarrow>
     s = es e + v + sm sib \<and> sumok es sib \<and> ksumok es s k"

lemma sm_N [simp]: "sm (N d c p s e a b) = s"
  by (simp add: N_def)

lemma sumok_N [simp]:
  "sumok es (N d c p s e a b) \<longleftrightarrow> s = es e + sm a + sm b \<and> sumok es a \<and> sumok es b"
  by (auto simp: N_def algebra_simps)

lemma sumok_plug [zip_simps]: "sumok es (plug t k) \<longleftrightarrow> sumok es t \<and> ksumok es (sm t) k"
  by (induction t k rule: plug.induct) auto

lemma sm_nodes: "sumok es t \<Longrightarrow> sm t = sum_list (map (es \<circ> snd) (nodes t))"
  by (induction t) (auto simp: algebra_simps)

text \<open>The invariant of a whole tree.  The root may be red: \<open>insert\<close> never repaints it.\<close>

definition rb_inv :: "('e \<Rightarrow> 's::ab_group_add) \<Rightarrow> ('p, 'e, 's) tree \<Rightarrow> bool" where
  "rb_inv es t \<longleftrightarrow> invc t \<and> invh t \<and> sumok es t"

subsection \<open>The tree as an ordered sequence\<close>

text \<open>
  The view a client of the tree has: the tree cell \<open>rt\<close> and the heap \<open>h\<close> hold a valid
  red-black tree whose in-order sequence of addresses and elements is \<open>xs\<close>.
\<close>

definition tree_rep ::
  "('e, 's::ab_group_add) callback \<Rightarrow> ('p, 'e, 's) heap \<Rightarrow> 'p option \<Rightarrow> ('p \<times> 'e) list \<Rightarrow> bool" where
  "tree_rep cb h rt xs \<longleftrightarrow>
     (\<exists>t. zrep h rt t [] \<and> rb_inv (element_to_summary cb) t \<and> nodes t = xs)"

lemma tree_repI:
  "zrep h rt t k \<Longrightarrow> rb_inv (element_to_summary cb) (plug t k) \<Longrightarrow> xs = nodes (plug t k) \<Longrightarrow>
   tree_rep cb h rt xs"
  unfolding tree_rep_def using zrep_plug by blast

lemma tree_rep_zipper:
  assumes "tree_rep cb h rt xs" and "(p, e) \<in> set xs"
  obtains c s l r k where "zrep h rt (T c p s e l r) k"
    and "rb_inv (element_to_summary cb) (plug (T c p s e l r) k)"
    and "xs = kl k @ nodes l @ (p, e) # nodes r @ kr k"
proof -
  from assms(1) obtain t where t: "zrep h rt t []" "rb_inv (element_to_summary cb) t" "nodes t = xs"
    by (auto simp: tree_rep_def)
  obtain c s l r k where "t = plug (T c p s e l r) k" using node_zipper assms(2) t(3) by metis
  with t show ?thesis using that [of c s l r k] by (simp add: zrep_plug [symmetric] nodes_plug)
qed

lemma tree_rep_distinct: "tree_rep cb h rt xs \<Longrightarrow> distinct (map fst xs)"
  by (auto simp: tree_rep_def zrep_def dist_nodes)

lemma tree_rep_elem:
  assumes "tree_rep cb h rt xs" and "(p, e) \<in> set xs"
  shows "\<exists>n. h p = Some n \<and> element n = e"
  using tree_rep_zipper [OF assms] by (metis zrep_def node.select_convs(5) rep.simps(2))

lemma tree_rep_Nil [simp]: "tree_rep cb h rt [] \<longleftrightarrow> rt = None"
  by (auto simp: tree_rep_def zrep_def rb_inv_def)

lemma tree_rep_root: "tree_rep cb h rt xs \<Longrightarrow> rt = None \<longleftrightarrow> xs = []"
  by (auto simp: tree_rep_def zrep_def)

lemma tree_rep_agree:
  assumes "tree_rep cb h rt xs" and "\<forall>x \<in> fst ` set xs. h' x = h x"
  shows "tree_rep cb h' rt xs"
proof -
  from assms(1) obtain t where t: "zrep h rt t []" "rb_inv (element_to_summary cb) t" "nodes t = xs"
    by (auto simp: tree_rep_def)
  with assms(2) have "rep h' q t = rep h q t" for q by (intro rep_agree) (simp add: ps_nodes)
  with t show ?thesis by (auto simp: tree_rep_def zrep_def)
qed

end
