(* ===== verification/Rb_Query.thy ===== *)
theory Rb_Query
  imports Rb_Shape
begin

text \<open>
  The callback interface as a locale, and the read-only operations of the tree: \<open>min\<close>,
  \<open>max\<close>, \<open>predecessor\<close>, \<open>successor\<close>, \<open>lower_bound\<close> and \<open>prefix_sum\<close> return, on
  every valid tree, what the in-order sequence says.
\<close>

section \<open>What a callback promises\<close>

text \<open>
  Summaries form a commutative group: \<open>sub_assign_summary\<close> takes back what
  \<open>add_assign_summary\<close> added.  The code relies on this in \<open>rotate\<close> and \<open>remove\<close>.
\<close>

locale tree_callback =
  fixes cb :: "('e, 's::ab_group_add) callback"
  assumes zero [simp]: "zero_summary cb = 0"
    and add [simp]: "add_assign_summary cb a b = a + b"
    and sub [simp]: "sub_assign_summary cb a b = a - b"

text \<open>The unit type carries the trivial summary of \<open>DefaultCallback\<close> and of two of the core's trees.\<close>

instantiation unit :: ab_group_add
begin

definition zero_unit :: unit where "zero_unit = ()"

definition plus_unit :: "unit \<Rightarrow> unit \<Rightarrow> unit" where "plus_unit a b = ()"

instance
  by standard simp_all

end

interpretation default_cb: tree_callback default_callback
  by unfold_locales (simp_all add: default_callback_def)

section \<open>Locating a node\<close>

lemma split_unique:
  assumes "distinct (map fst (as @ (p, e) # bs))" and "as @ (p, e) # bs = as' @ (p, e) # bs'"
  shows "as = as' \<and> bs = bs'"
proof -
  from assms(1) have "distinct (as @ (p, e) # bs)" using distinct_map by blast
  then have "(p, e) \<notin> set as" "(p, e) \<notin> set bs" by simp_all
  from append_Cons_eq_iff [OF this, of as' bs'] assms(2) show ?thesis by simp
qed

lemma tree_rep_split:
  assumes "tree_rep cb h rt (as @ (p, e) # bs)"
  obtains c s l r k where "zrep h rt (T c p s e l r) k"
    and "rb_inv (element_to_summary cb) (plug (T c p s e l r) k)"
    and "as = kl k @ nodes l" and "bs = nodes r @ kr k"
proof -
  from assms have "(p, e) \<in> set (as @ (p, e) # bs)" by simp
  with assms obtain c s l r k where *: "zrep h rt (T c p s e l r) k"
    "rb_inv (element_to_summary cb) (plug (T c p s e l r) k)"
    "as @ (p, e) # bs = kl k @ nodes l @ (p, e) # nodes r @ kr k"
    by (rule tree_rep_zipper)
  from *(3) have "as = kl k @ nodes l \<and> bs = nodes r @ kr k"
    using split_unique [OF tree_rep_distinct [OF assms], of "kl k @ nodes l" "nodes r @ kr k"] by simp
  with * that show ?thesis by blast
qed

lemma zrep_node:
  "zrep h rt (T c p s e l r) k \<Longrightarrow>
   h p = Some \<lparr>children = two False (root_ptr l) (root_ptr r), parent = ctx_ptr k,
               color = c, summary = s, element = e\<rparr>"
  by (simp add: zrep_def)

lemma zrep_left: "zrep h rt (T c p s e l r) k \<Longrightarrow> zrep h rt l (Fr False c p s e r # k)"
  by (simp add: zrep_up T_as_N)

lemma zrep_right: "zrep h rt (T c p s e l r) k \<Longrightarrow> zrep h rt r (Fr True c p s e l # k)"
  by (simp add: zrep_up T_as_N) (simp add: N_def)

lemma zrep_hole:
  "zrep h rt t k \<Longrightarrow> root_ptr t = Some p \<Longrightarrow> \<exists>n. h p = Some n \<and> parent n = ctx_ptr k"
  by (metis rep_root zrep_def)

lemma zrep_frame:
  "zrep h rt t (Fr d c x s e sib # k) \<Longrightarrow>
   h x = Some (mk_node d (root_ptr t) (root_ptr sib) (ctx_ptr k) c s e) \<and> rep h (Some x) sib"
  by (simp add: zrep_def)

lemma zrep_sibling:
  "zrep h rt t (Fr d c x s e sib # k) \<Longrightarrow> root_ptr t = Some p \<Longrightarrow> root_ptr sib \<noteq> Some p"
  by (auto simp: zrep_def dest: root_ptr_ps)

section \<open>Minimum, maximum, neighbours\<close>

lemma node_min_rep:
  "rep h q t \<Longrightarrow> root_ptr t = Some p \<Longrightarrow> node_min h p = map_option fst (hd_opt (nodes t))"
proof (induction t arbitrary: q p)
  case (T c x s e l r)
  show ?case
  proof (cases l)
    case Leaf
    with T.prems show ?thesis by (subst node_min.simps) simp
  next
    case (T c' x' s' e' l' r')
    then have "node_min h x' = map_option fst (hd_opt (nodes l))"
      using T.prems T.IH(1) [of "Some x" x'] by simp
    with T T.prems show ?thesis by (subst node_min.simps) (auto split: option.splits)
  qed
qed simp

lemma node_max_rep:
  "rep h q t \<Longrightarrow> root_ptr t = Some p \<Longrightarrow> node_max h p = map_option fst (last_opt (nodes t))"
proof (induction t arbitrary: q p)
  case (T c x s e l r)
  show ?case
  proof (cases r)
    case Leaf
    with T.prems show ?thesis by (subst node_max.simps) simp
  next
    case (T c' x' s' e' l' r')
    then have "node_max h x' = map_option fst (last_opt (nodes r))"
      using T.prems T.IH(2) [of "Some x" x'] by simp
    with T T.prems show ?thesis by (subst node_max.simps) (auto split: option.splits)
  qed
qed simp

lemma climb_zrep:
  "zrep h rt t k \<Longrightarrow> root_ptr t = Some p \<Longrightarrow>
   climb d h p = Some (map_option fst (if d then last_opt (kl k) else hd_opt (kr k)))"
proof (induction k arbitrary: t p rule: kps.induct)
  case 1
  then obtain n where "h p = Some n" "parent n = None"
    using zrep_hole by (metis ctx_ptr.simps(1))
  then show ?case by (subst climb.simps) simp
next
  case (2 d' c x s e sib k)
  obtain n where n: "h p = Some n" "parent n = Some x"
    using zrep_hole [OF "2.prems"(1,2)] by auto
  have x: "h x = Some (mk_node d' (Some p) (root_ptr sib) (ctx_ptr k) c s e)"
    using zrep_frame [OF "2.prems"(1)] "2.prems"(2) by simp
  note ne = zrep_sibling [OF "2.prems"(1,2)]
  have up: "zrep h rt (N d' c x s e t sib) k" using 2 by (simp add: zrep_up)
  show ?case
  proof (cases "d' = d")
    case True
    with n x ne show ?thesis by (subst climb.simps) (auto split: option.splits)
  next
    case False
    then have d': "d' = (\<not> d)" by simp
    have "climb d h x = Some (map_option fst (if d then last_opt (kl k) else hd_opt (kr k)))"
      using "2.IH" [OF up] by simp
    with n x ne d' show ?thesis by (subst climb.simps) simp
  qed
qed

lemma successor_zrep:
  assumes z: "zrep h rt (T c p s e l r) k"
  shows "successor h p = Some (map_option fst (hd_opt (nodes r @ kr k)))"
proof (cases r)
  case Leaf
  with z climb_zrep [OF z, of p False] show ?thesis
    by (simp add: successor_def zrep_node [OF z])
next
  case (T c' p' s' e' l' r')
  from z have "rep h (Some p) r" by (simp add: zrep_def)
  from node_min_rep [OF this, of p'] T have "node_min h p' = map_option fst (hd_opt (nodes r))"
    by simp
  with T show ?thesis
    by (auto simp: successor_def zrep_node [OF z] split: option.splits)
qed

lemma predecessor_zrep:
  assumes z: "zrep h rt (T c p s e l r) k"
  shows "predecessor h p = Some (map_option fst (last_opt (kl k @ nodes l)))"
proof (cases l)
  case Leaf
  with z climb_zrep [OF z, of p True] show ?thesis
    by (simp add: predecessor_def zrep_node [OF z])
next
  case (T c' p' s' e' l' r')
  from z have "rep h (Some p) l" by (simp add: zrep_def)
  from node_max_rep [OF this, of p'] T have "node_max h p' = map_option fst (last_opt (nodes l))"
    by simp
  with T show ?thesis
    by (auto simp: predecessor_def zrep_node [OF z] split: option.splits)
qed

lemma tree_rep_successor [list_spec]:
  "tree_rep cb h rt (as @ (p, e) # bs) \<Longrightarrow> successor h p = Some (map_option fst (hd_opt bs))"
  by (erule tree_rep_split) (metis successor_zrep)

lemma tree_rep_predecessor [list_spec]:
  "tree_rep cb h rt (as @ (p, e) # bs) \<Longrightarrow> predecessor h p = Some (map_option fst (last_opt as))"
  by (erule tree_rep_split) (metis predecessor_zrep)

lemma tree_rep_min [list_spec]:
  "tree_rep cb h (Some p) xs \<Longrightarrow> node_min h p = map_option fst (hd_opt xs)"
  by (auto simp: tree_rep_def zrep_def node_min_rep)

lemma tree_rep_max [list_spec]:
  "tree_rep cb h (Some p) xs \<Longrightarrow> node_max h p = map_option fst (last_opt xs)"
  by (auto simp: tree_rep_def zrep_def node_max_rep)

section \<open>Lower bound\<close>

definition below :: "('e \<Rightarrow> ordering) \<Rightarrow> 'p \<times> 'e \<Rightarrow> bool" where
  "below c x \<longleftrightarrow> c (snd x) = Greater"

lemma lower_bound_loop_zrep:
  "zrep h rt t k \<Longrightarrow> root_ptr t = Some p \<Longrightarrow> split_at (below c) (nodes t @ kr k) \<Longrightarrow>
   (\<forall>x\<in>set (kr k). \<not> below c x) \<Longrightarrow>
   lower_bound_loop h c p = Some (map_option fst (find (\<lambda>x. \<not> below c x) (nodes t @ kr k)))"
proof (induction t arbitrary: k p)
  case (T col x s e l r)
  note node = zrep_node [OF T.prems(1)]
  from T.prems have [simp]: "x = p" by simp
  show ?case
  proof (cases "below c (p, e)")
    case False
    show ?thesis
    proof (cases l)
      case Leaf
      with False node show ?thesis
        by (subst lower_bound_loop.simps) (simp add: below_def)
    next
      case (T c' x' s' e' l' r')
      let ?k = "Fr False col p s e r # k"
      have "\<forall>y\<in>set (kr ?k). \<not> below c y"
        using T.prems(3) False split_at_neg [of _ "nodes l" "(p, e)" "nodes r @ kr k"] by auto
      then have "lower_bound_loop h c x' =
          Some (map_option fst (find (\<lambda>x. \<not> below c x) (nodes l @ kr ?k)))"
        using T.prems T zrep_left [OF T.prems(1)] by (intro T.IH(1)) auto
      with False T node show ?thesis
        by (subst lower_bound_loop.simps) (simp add: below_def)
    qed
  next
    case True
    then have l: "\<forall>y\<in>set (nodes l @ [(p, e)]). below c y"
      using T.prems(3) split_at_pos [of _ "nodes l" "(p, e)" "nodes r @ kr k"] by auto
    have drop: "find (\<lambda>x. \<not> below c x) (nodes l @ (p, e) # ys) = find (\<lambda>x. \<not> below c x) ys" for ys
      using l find_drop [of "nodes l @ [(p, e)]" "\<lambda>x. \<not> below c x" ys] by simp
    show ?thesis
    proof (cases r)
      case Leaf
      have "find (\<lambda>x. \<not> below c x) (kr k) = hd_opt (kr k)"
        using T.prems(4) by (rule find_all)
      with drop [of "kr k"] have "find (\<lambda>x. \<not> below c x) (nodes (T col x s e l r) @ kr k) = hd_opt (kr k)"
        using Leaf by simp
      moreover have "lower_bound_loop h c p = successor h p"
        using True node Leaf by (subst lower_bound_loop.simps) (simp add: below_def)
      ultimately show ?thesis using successor_zrep [OF T.prems(1)] Leaf by simp
    next
      case (T c' x' s' e' l' r')
      let ?k = "Fr True col x s e l # k"
      have split: "split_at (below c) (nodes r @ kr ?k)"
        using T.prems(3) split_at_right [of _ "nodes l @ [(p, e)]" "nodes r @ kr k"] by simp
      have "lower_bound_loop h c x' =
          Some (map_option fst (find (\<lambda>x. \<not> below c x) (nodes r @ kr ?k)))"
        using T T.prems(4) by (intro T.IH(2) [OF zrep_right [OF T.prems(1)] _ split]) simp_all
      with True T node drop [of "nodes r @ kr k"] show ?thesis
        by (subst lower_bound_loop.simps) (simp add: below_def)
    qed
  qed
qed simp

text \<open>\<open>lower_bound\<close> finds the first element that is not below the key.\<close>

lemma tree_rep_lower_bound [list_spec]:
  assumes "tree_rep cb h rt xs" and "split_at (below c) xs"
  shows "lower_bound h rt c = Some (map_option fst (find (\<lambda>x. \<not> below c x) xs))"
proof -
  from assms(1) obtain t where t: "zrep h rt t []" "nodes t = xs" by (auto simp: tree_rep_def)
  show ?thesis
  proof (cases t)
    case Leaf
    with t show ?thesis by (auto simp: zrep_def lower_bound_def)
  next
    case (T c' p s e l r)
    with t(1) have "rt = Some p" by (simp add: zrep_def)
    moreover have "lower_bound_loop h c p =
        Some (map_option fst (find (\<lambda>x. \<not> below c x) (nodes t @ kr [])))"
      using lower_bound_loop_zrep [OF t(1), of p c] assms(2) t(2) T by simp
    ultimately show ?thesis using t(2) by (simp add: lower_bound_def)
  qed
qed

section \<open>Prefix sums\<close>

abbreviation total :: "('e \<Rightarrow> 's::ab_group_add) \<Rightarrow> ('p \<times> 'e) list \<Rightarrow> 's" where
  "total es xs \<equiv> sum_list (map (es \<circ> snd) xs)"

lemma sumok_root:
  "rep h q t \<Longrightarrow> root_ptr t = Some p \<Longrightarrow> \<exists>n. h p = Some n \<and> summary n = sm t"
  by (cases t) auto

context tree_callback
begin

lemma prefix_sum_loop_zrep:
  "zrep h rt t k \<Longrightarrow> root_ptr t = Some p \<Longrightarrow> ksumok (element_to_summary cb) v k \<Longrightarrow>
   prefix_sum_loop cb h p acc = Some (acc + total (element_to_summary cb) (kl k))"
proof (induction k arbitrary: t p v acc rule: kps.induct)
  case 1
  then obtain n where "h p = Some n" "parent n = None"
    using zrep_hole by (metis ctx_ptr.simps(1))
  then show ?case by (subst prefix_sum_loop.simps) simp
next
  case (2 d c x s e sib k)
  obtain n where n: "h p = Some n" "parent n = Some x"
    using zrep_hole [OF "2.prems"(1,2)] by auto
  have x: "h x = Some (mk_node d (Some p) (root_ptr sib) (ctx_ptr k) c s e)"
    and sib: "rep h (Some x) sib"
    using zrep_frame [OF "2.prems"(1)] "2.prems"(2) by simp_all
  note ne = zrep_sibling [OF "2.prems"(1,2)]
  have up: "zrep h rt (N d c x s e t sib) k" using 2 by (simp add: zrep_up)
  have ok: "s = element_to_summary cb e + v + sm sib"
    "sumok (element_to_summary cb) sib" "ksumok (element_to_summary cb) s k"
    using "2.prems"(3) unfolding ksumok.simps by blast+
  have IH: "prefix_sum_loop cb h x a = Some (a + total (element_to_summary cb) (kl k))" for a
    using "2.IH" [OF up root_ptr_N ok(3)] .
  have sum_sib: "sm sib = total (element_to_summary cb) (nodes sib)"
    using ok(2) by (rule sm_nodes)
  show ?case
  proof (cases d)
    case False
    with n x ne IH show ?thesis by (subst prefix_sum_loop.simps) simp
  next
    case True
    show ?thesis
    proof (cases sib)
      case Leaf
      with True n x IH show ?thesis
        by (subst prefix_sum_loop.simps) (simp add: algebra_simps)
    next
      case (T c' x' s' e' l' r')
      with sib have "h x' = Some \<lparr>children = two False (root_ptr l') (root_ptr r'),
          parent = Some x, color = c', summary = sm sib, element = e'\<rparr>" by simp
      with True T n x IH sum_sib show ?thesis
        by (subst prefix_sum_loop.simps) (simp add: algebra_simps)
    qed
  qed
qed

lemma prefix_sum_zrep:
  assumes z: "zrep h rt (T c p s e l r) k" and inv: "rb_inv (element_to_summary cb) (plug (T c p s e l r) k)"
  shows "prefix_sum cb h rt (Some p) = Some (total (element_to_summary cb) (kl k @ nodes l))"
proof -
  from inv have ok: "ksumok (element_to_summary cb) s k" "sumok (element_to_summary cb) l"
    by (auto simp: rb_inv_def sumok_plug)
  have loop: "prefix_sum_loop cb h p a = Some (a + total (element_to_summary cb) (kl k))" for a
    using prefix_sum_loop_zrep [OF z] ok(1) by simp
  from sm_nodes [OF ok(2)] have l: "sm l = total (element_to_summary cb) (nodes l)" .
  from z have "rep h (Some p) l" by (simp add: zrep_def)
  then show ?thesis using loop l zrep_node [OF z]
    by (cases l) (auto simp: prefix_sum_def algebra_simps)
qed

text \<open>\<open>prefix_sum\<close> sums the elements before the node.\<close>

lemma tree_rep_prefix_sum:
  assumes "tree_rep cb h rt (as @ (p, e) # bs)"
  shows "prefix_sum cb h rt (Some p) = Some (total (element_to_summary cb) as)"
  using assms by (elim tree_rep_split) (metis prefix_sum_zrep)

lemma tree_rep_prefix_sum_all:
  assumes "tree_rep cb h rt xs"
  shows "prefix_sum cb h rt None = Some (total (element_to_summary cb) xs)"
proof -
  from assms obtain t where t: "zrep h rt t []" "sumok (element_to_summary cb) t" "nodes t = xs"
    by (auto simp: tree_rep_def rb_inv_def)
  then show ?thesis using sm_nodes [OF t(2)] by (cases t) (auto simp: prefix_sum_def zrep_def)
qed

text \<open>The two together: the sum of everything below a key.\<close>

lemma tree_rep_rank:
  assumes t: "tree_rep cb h rt xs" and sp: "split_at (below c) xs"
  shows "prefix_sum cb h rt (map_option fst (find (\<lambda>x. \<not> below c x) xs)) =
    Some (total (element_to_summary cb) (takeWhile (below c) xs))"
proof -
  from sp obtain us vs where xs: "xs = us @ vs" "\<forall>u\<in>set us. below c u" "\<forall>v\<in>set vs. \<not> below c v"
    by (rule split_at_cases)
  then have us: "takeWhile (below c) xs = us" by (simp only: takeWhile_split)
  show ?thesis
  proof (cases vs)
    case Nil
    with xs find_not_split [OF xs(2,3)] tree_rep_prefix_sum_all [OF t] show ?thesis unfolding us by simp
  next
    case (Cons v vs')
    obtain p e where v: "v = (p, e)" by (cases v)
    have "prefix_sum cb h rt (Some p) = Some (total (element_to_summary cb) us)"
      using t unfolding xs(1) Cons v by (rule tree_rep_prefix_sum)
    with find_not_split [OF xs(2,3)] Cons v xs(1) show ?thesis unfolding us by simp
  qed
qed

end

end
