(* ===== verification/Rb_Insert.thy ===== *)
theory Rb_Insert
  imports Rb_Query
begin

text \<open>
  Insertion: the descent finds the ordered place and keeps the summaries, the fix-up loop
  restores the colour invariant, and the sequence becomes the ordered insertion.
\<close>

section \<open>Rotation\<close>

context tree_callback
begin

lemma node_rotate_zrep:
  assumes z: "zrep h rt (N dir c p s e y (N dir c2 q s2 e2 mid x)) k"
  shows "\<exists>h' rt'. node_rotate dbg cb h rt p dir = Some (h', rt') \<and>
     zrep h' rt' (N dir c2 q s e2 (N dir c p (s - s2 + sm mid) e y mid) x) k \<and>
     frame_ok (insert p (insert q (ps mid \<union> kps k))) h h'"
proof (cases mid)
  case Leaf
  with z show ?thesis
    by (auto simp add: zrep_def node_rotate_def write_defs heap_simps slot_heap_upd_other
        intro!: frame_ok_upd_trans frame_ok_slot_heap)
next
  case (T cm m sm' em lm rm)
  with z show ?thesis
    by (auto simp add: zrep_def node_rotate_def write_defs heap_simps slot_heap_upd_other
        intro!: frame_ok_upd_trans frame_ok_slot_heap)
qed

end

text \<open>Repainting the root of the focused subtree, or the innermost frame.\<close>

lemma set_color_focus:
  assumes "zrep h rt (N d c p s e a b) k"
  shows "\<exists>h'. set_color h p c' = Some h' \<and> zrep h' rt (N d c' p s e a b) k \<and> frame_ok {p} h h'"
  using assms
  by (auto simp: zrep_def write_defs heap_simps intro!: frame_ok_upd)

lemma set_color_frame:
  assumes "zrep h rt t (Fr d c p s e sib # k)"
  shows "\<exists>h'. set_color h p c' = Some h' \<and> zrep h' rt t (Fr d c' p s e sib # k) \<and> frame_ok {p} h h'"
  using set_color_focus [of h rt d c p s e t sib k c'] assms by (simp add: zrep_up)

section \<open>The descent\<close>

text \<open>The path the descent takes: right where \<open>g\<close> holds, adding \<open>v\<close> to every summary.\<close>

fun descend ::
  "('e \<Rightarrow> bool) \<Rightarrow> 's::ab_group_add \<Rightarrow> ('p, 'e, 's) tree \<Rightarrow> ('p, 'e, 's) ctx \<Rightarrow> ('p, 'e, 's) ctx" where
  "descend g v Leaf k = k"
| "descend g v (T c p s e l r) k =
     (if g e then descend g v r (Fr True c p (s + v) e l # k)
      else descend g v l (Fr False c p (s + v) e r # k))"

lemma descend_N:
  "descend g v (N (g e) c p s e a b) k = descend g v a (Fr (g e) c p (s + v) e b # k)"
  by (simp add: N_def)

lemma descend_seq: "kl (descend g v t k) @ kr (descend g v t k) = kl k @ nodes t @ kr k"
  by (induction g v t k rule: descend.induct) auto

lemma descend_split:
  "split_at (\<lambda>x. g (snd x)) (nodes t) \<Longrightarrow>
   (\<forall>x\<in>set (kl k). g (snd x)) \<Longrightarrow> (\<forall>x\<in>set (kr k). \<not> g (snd x)) \<Longrightarrow>
   (\<forall>x\<in>set (kl (descend g v t k)). g (snd x)) \<and> (\<forall>x\<in>set (kr (descend g v t k)). \<not> g (snd x))"
proof (induction g v t k rule: descend.induct)
  case (2 g v c p s e l r k)
  let ?g = "\<lambda>x. g (snd x)"
  from "2.prems"(1) have s: "split_at ?g (nodes l @ (p, e) # nodes r)" by simp
  then have lr: "split_at ?g (nodes l)" "split_at ?g (nodes r)"
    by (auto dest: split_at_left split_at_right split_at_tl)
  show ?case
  proof (cases "g e")
    case True
    then have 1: "\<forall>x\<in>set (kl (Fr True c p (s + v) e l # k)). g (snd x)"
      using split_at_pos [OF s] "2.prems"(2) by auto
    have 2: "\<forall>x\<in>set (kr (Fr True c p (s + v) e l # k)). \<not> g (snd x)"
      using "2.prems"(3) by simp
    show ?thesis using "2.IH"(1) [OF True lr(2) 1 2] True by (simp only: descend.simps if_True)
  next
    case False
    then have 2: "\<forall>x\<in>set (kr (Fr False c p (s + v) e r # k)). \<not> g (snd x)"
      using split_at_neg [OF s] "2.prems"(3) by auto
    have 1: "\<forall>x\<in>set (kl (Fr False c p (s + v) e r # k)). g (snd x)"
      using "2.prems"(2) by simp
    show ?thesis using "2.IH"(2) [OF False lr(1) 1 2] False by (simp only: descend.simps if_False)
  qed
qed simp

lemma descend_kinvc: "invc (plug t k) \<Longrightarrow> kinvc (descend g v t k)"
proof (induction g v t k rule: descend.induct)
  case (2 g v c p s e l r k)
  then show ?case by (cases "g e") (simp_all add: invc_plug)
qed (simp add: invc_plug)

lemma descend_kinvh: "invh (plug t k) \<Longrightarrow> kinvh 0 (descend g v t k)"
proof (induction g v t k rule: descend.induct)
  case (2 g v c p s e l r k)
  then show ?case by (cases "g e") (auto simp: invh_plug)
qed (simp add: invh_plug)

lemma descend_ksumok:
  "sumok es t \<Longrightarrow> ksumok es (sm t + v) k \<Longrightarrow> ksumok es v (descend g v t k)"
proof (induction g v t k rule: descend.induct)
  case (2 g v c p s e l r k)
  then show ?case by (cases "g e") (simp_all add: algebra_simps)
qed simp

context tree_callback
begin

lemma insert_descend_zrep:
  assumes "zrep h rt t k" and "root_ptr t = Some p"
    and "h nw = Some \<lparr>children = (\<lambda>_. None), parent = q0, color = Red, summary = v, element = el\<rparr>"
    and "nw \<notin> ps t \<union> kps k"
  shows "\<exists>h' d c pf s e sib k'.
     insert_descend dbg cb h nw p (ctx_slot k) = Some (h', pf, d, ctx_slot k') \<and>
     descend (\<lambda>x. cmp_element cb el x \<noteq> Less) v t k = Fr d c pf s e sib # k' \<and>
     zrep h' rt (T Red nw v el Leaf Leaf) (Fr d c pf s e sib # k') \<and>
     frame_ok (insert nw (ps t \<union> kps k)) h h'"
  using assms
proof (induction t arbitrary: h k p)
  case Leaf
  then show ?case by simp
next
  case (T c x s e l r)
  define g where "g = (\<lambda>x. cmp_element cb el x \<noteq> Less)"
  define a where "a = (if g e then r else l)"
  define b where "b = (if g e then l else r)"
  have t: "T c x s e l r = N (g e) c x s e a b" by (simp add: N_def a_def b_def)
  have px: "p = x" using T.prems(2) by simp
  define h1 where "h1 = h(x \<mapsto> mk_node (g e) (root_ptr a) (root_ptr b) (ctx_ptr k) c (s + v) e)"
  have nx: "nw \<noteq> x" and na: "nw \<notin> ps a" "nw \<notin> ps b" "nw \<notin> kps k"
    using T.prems(4) by (auto simp: a_def b_def)
  have hx: "h x = Some (mk_node (g e) (root_ptr a) (root_ptr b) (ctx_ptr k) c s e)"
    using T.prems(1) unfolding t by (simp add: zrep_def)
  have z1: "zrep h1 rt a (Fr (g e) c x (s + v) e b # k)"
    using T.prems(1) unfolding t by (auto simp: zrep_def h1_def)
  have f1: "frame_ok {x} h h1" using hx by (auto simp: h1_def intro!: frame_ok_upd)
  have side: "(cmp_element cb el e \<noteq> Less) = g e" by (simp add: g_def)
  show ?case
  proof (cases a)
    case Leaf
    then have "insert_descend dbg cb h nw p (ctx_slot k) =
        Some (h1(x \<mapsto> mk_node (g e) (Some nw) (root_ptr b) (ctx_ptr k) c (s + v) e,
          nw \<mapsto> \<lparr>children = (\<lambda>_. None), parent = Some x, color = Red, summary = v, element = el\<rparr>),
          x, g e, ctx_slot k)"
      using hx T.prems(3) nx px side
      by (subst insert_descend.simps) (simp add: write_defs heap_simps h1_def Let_def)
    moreover have "zrep (h1(x \<mapsto> mk_node (g e) (Some nw) (root_ptr b) (ctx_ptr k) c (s + v) e,
          nw \<mapsto> \<lparr>children = (\<lambda>_. None), parent = Some x, color = Red, summary = v, element = el\<rparr>))
          rt (T Red nw v el Leaf Leaf) (Fr (g e) c x (s + v) e b # k)"
      using z1 nx na Leaf by (auto simp: zrep_def)
    moreover have "frame_ok (insert nw (ps (T c x s e l r) \<union> kps k)) h
        (h1(x \<mapsto> mk_node (g e) (Some nw) (root_ptr b) (ctx_ptr k) c (s + v) e,
          nw \<mapsto> \<lparr>children = (\<lambda>_. None), parent = Some x, color = Red, summary = v, element = el\<rparr>))"
      using hx T.prems(3) nx by (auto simp: frame_ok_def h1_def)
    moreover have "descend g v (T c x s e l r) k = Fr (g e) c x (s + v) e b # k"
      unfolding t descend_N using Leaf by simp
    ultimately show ?thesis unfolding g_def by blast
  next
    case (T c' y s' e' l' r')
    then have "insert_descend dbg cb h nw p (ctx_slot k) =
        insert_descend dbg cb h1 nw y (ctx_slot (Fr (g e) c x (s + v) e b # k))"
      using hx T.prems(3) nx px side
      by (subst insert_descend.simps) (simp add: write_defs heap_simps h1_def Let_def)
    moreover have "\<exists>h' d c' pf s' e' sib k'.
       insert_descend dbg cb h1 nw y (ctx_slot (Fr (g e) c x (s + v) e b # k)) =
         Some (h', pf, d, ctx_slot k') \<and>
       descend (\<lambda>x. cmp_element cb el x \<noteq> Less) v a (Fr (g e) c x (s + v) e b # k) =
         Fr d c' pf s' e' sib # k' \<and>
       zrep h' rt (T Red nw v el Leaf Leaf) (Fr d c' pf s' e' sib # k') \<and>
       frame_ok (insert nw (ps a \<union> kps (Fr (g e) c x (s + v) e b # k))) h1 h'"
    proof -
      have 1: "root_ptr a = Some y" using T by simp
      have 2: "h1 nw = Some \<lparr>children = (\<lambda>_. None), parent = q0, color = Red, summary = v, element = el\<rparr>"
        using T.prems(3) nx by (simp add: h1_def)
      have 3: "nw \<notin> ps a \<union> kps (Fr (g e) c x (s + v) e b # k)" using na nx by simp
      show ?thesis
        using T.IH(1) [where h = h1 and k = "Fr (g e) c x (s + v) e b # k" and p = y, OF _ _ 2]
          T.IH(2) [where h = h1 and k = "Fr (g e) c x (s + v) e b # k" and p = y, OF _ _ 2] z1 1 3
        unfolding a_def by (cases "g e") simp_all
    qed
    moreover have "descend g v (T c x s e l r) k = descend g v a (Fr (g e) c x (s + v) e b # k)"
      unfolding t descend_N ..
    moreover have "frame_ok (insert nw (ps (T c x s e l r) \<union> kps k)) h h'"
      if "frame_ok (insert nw (ps a \<union> kps (Fr (g e) c x (s + v) e b # k))) h1 h'" for h'
      by (rule frame_ok_trans [OF f1 that]) (auto simp: a_def b_def)
    ultimately show ?thesis unfolding g_def by metis
  qed
qed

end

section \<open>The fix-up loop\<close>

text \<open>
  The invariant of the loop: everything is in order except that the focused red node may
  have a red parent.
\<close>

definition ins_pre ::
  "('e \<Rightarrow> 's::ab_group_add) \<Rightarrow> ('p, 'e, 's) tree \<Rightarrow> ('p, 'e, 's) ctx \<Rightarrow> bool" where
  "ins_pre es t k \<longleftrightarrow>
     invc t \<and> invh t \<and> sumok es t \<and> kinvc k \<and> kinvh (bh t) k \<and> ksumok es (sm t) k"

lemma ins_pre_plug:
  "ins_pre es t k \<Longrightarrow> col t = Black \<or> kcol k = Black \<Longrightarrow> rb_inv es (plug t k)"
  by (auto simp: ins_pre_def rb_inv_def invc_plug invh_plug sumok_plug)

lemma col_Red_N: "col t = Red \<Longrightarrow> root_ptr t = Some n \<Longrightarrow> \<exists>s e a b. t = N d Red n s e a b"
  by (cases t) (auto simp: N_def intro!: exI [where x = "if d then _ else _"])

text \<open>Reading a side back from the heap.\<close>

lemma read_side:
  assumes "zrep h rt t (Fr d c p s e sib # k)" and "root_ptr t = Some n"
  shows "h p \<bind> (\<lambda>pn. f pn (children pn True = Some n)) =
         f (mk_node d (Some n) (root_ptr sib) (ctx_ptr k) c s e) d"
  using zrep_frame [OF assms(1)] zrep_sibling [OF assms] assms(2) by (cases d) simp_all

lemma read_slot:
  assumes "zrep h rt t k" and "root_ptr t = Some p"
  shows "(case ctx_ptr k of None \<Rightarrow> Some None
          | Some g \<Rightarrow> h g \<bind> (\<lambda>gn. Some (Some (g, children gn True = Some p)))) = Some (ctx_slot k)"
proof (cases k rule: ctx_ptr.cases)
  case (2 d c x s e sib k2)
  with read_side [of h rt t d c x s e sib k2 p "\<lambda>_ b. Some (Some (x, b))"] assms
  show ?thesis by simp
qed simp

context tree_callback
begin

text \<open>The last step: the grandparent moves to the uncle's side.\<close>

lemma insert_last_rotation:
  assumes z: "zrep h rt (N d Black g sg eg (N d Red q sq eq a b) u) k"
  shows "\<exists>h1 rt1 h2 h'. node_rotate dbg cb h rt g (\<not> d) = Some (h1, rt1) \<and>
     set_color h1 q Black = Some h2 \<and> set_color h2 g Red = Some h' \<and>
     zrep h' rt1 (N d Black q sg eq a (N d Red g (sg - sq + sm b) eg b u)) k \<and>
     frame_ok (insert g (insert q (ps b \<union> kps k))) h h'"
proof -
  from z have "zrep h rt (N (\<not> d) Black g sg eg u (N (\<not> d) Red q sq eq b a)) k" by simp
  from node_rotate_zrep [OF this] obtain h1 rt1 where 1:
    "node_rotate dbg cb h rt g (\<not> d) = Some (h1, rt1)"
    "zrep h1 rt1 (N (\<not> d) Red q sg eq (N (\<not> d) Black g (sg - sq + sm b) eg u b) a) k"
    "frame_ok (insert g (insert q (ps b \<union> kps k))) h h1" by blast
  from set_color_focus [OF 1(2), of Black] obtain h2 where 2: "set_color h1 q Black = Some h2"
    "zrep h2 rt1 (N (\<not> d) Black q sg eq (N (\<not> d) Black g (sg - sq + sm b) eg u b) a) k"
    "frame_ok {q} h1 h2" by blast
  then have "zrep h2 rt1 (N d Black g (sg - sq + sm b) eg b u) (Fr (\<not> d) Black q sg eq a # k)"
    by (simp add: zrep_up)
  from set_color_focus [OF this, of Red] obtain h3 where 3: "set_color h2 g Red = Some h3"
    "zrep h3 rt1 (N d Red g (sg - sq + sm b) eg b u) (Fr (\<not> d) Black q sg eq a # k)"
    "frame_ok {g} h2 h3" by blast
  have "frame_ok (insert g (insert q (ps b \<union> kps k))) h h3"
    by (rule frame_ok_trans [OF 1(3) frame_ok_trans [OF 2(3) 3(3), of "{q, g}"]]) auto
  with 1 2 3 show ?thesis by (auto simp: zrep_up)
qed

text \<open>The first of two rotations, when node and parent lie on different sides.\<close>

lemma insert_first_rotation:
  assumes z: "zrep h rt (N d c p s e (N d Red n sn en x mid) sib) k"
  shows "\<exists>h' rt'. node_rotate dbg cb h rt p (\<not> d) = Some (h', rt') \<and>
     zrep h' rt' (N (\<not> d) Red n s en (N (\<not> d) c p (s - sn + sm mid) e sib mid) x) k \<and>
     frame_ok (insert p (insert n (ps mid \<union> kps k))) h h'"
  using node_rotate_zrep [of h rt "\<not> d" c p s e sib Red n sn en mid x k] z by simp

text \<open>A red uncle: parent, uncle and grandparent are repainted.\<close>

lemma insert_recolor:
  assumes z: "zrep h rt (N d Red p s e t sib) (Fr dg Black g sg eg u # k)"
    and u: "u = T Red ud su eu u1 u2"
  shows "\<exists>ha hb h'. set_color h p Black = Some ha \<and> set_color ha ud Black = Some hb \<and>
     set_color hb g Red = Some h' \<and>
     zrep h' rt (N dg Red g sg eg (N d Black p s e t sib) (T Black ud su eu u1 u2)) k \<and>
     frame_ok {p, ud, g} h h'"
proof -
  from set_color_focus [OF z, of Black] obtain ha where a: "set_color h p Black = Some ha"
    "zrep ha rt (N d Black p s e t sib) (Fr dg Black g sg eg u # k)" "frame_ok {p} h ha" by blast
  from a(2) have "zrep ha rt (N False Red ud su eu u1 u2) (Fr (\<not> dg) Black g sg eg (N d Black p s e t sib) # k)"
    by (simp add: zrep_up u T_as_N)
  from set_color_focus [OF this, of Black] obtain hb where b: "set_color ha ud Black = Some hb"
    "zrep hb rt (N False Black ud su eu u1 u2) (Fr (\<not> dg) Black g sg eg (N d Black p s e t sib) # k)"
    "frame_ok {ud} ha hb" by blast
  from b(2) have "zrep hb rt (N dg Black g sg eg (N d Black p s e t sib) (N False Black ud su eu u1 u2)) k"
    by (simp add: zrep_up)
  from set_color_focus [OF this, of Red] obtain h' where c: "set_color hb g Red = Some h'"
    "zrep h' rt (N dg Red g sg eg (N d Black p s e t sib) (N False Black ud su eu u1 u2)) k"
    "frame_ok {g} hb h'" by blast
  have "frame_ok {p, ud, g} h h'"
    by (rule frame_ok_trans [OF a(3) frame_ok_trans [OF b(3) c(3), of "{ud, g}"]]) auto
  with a b c show ?thesis by (auto simp: T_as_N)
qed

lemma insert_fixup_zrep:
  assumes "zrep h rt t (Fr d c p s e sib # k)" and "root_ptr t = Some n" and "col t = Red"
    and "ins_pre (element_to_summary cb) t (Fr d c p s e sib # k)"
  shows "\<exists>h' rt' t'. insert_fixup dbg cb h rt n p d (ctx_slot k) = Some (h', rt') \<and>
     zrep h' rt' t' [] \<and> rb_inv (element_to_summary cb) t' \<and>
     nodes t' = nodes (plug t (Fr d c p s e sib # k)) \<and>
     frame_ok (ps t \<union> kps (Fr d c p s e sib # k)) h h'"
  using assms
proof (induction "length k" arbitrary: h rt t d c p s e sib k n rule: less_induct)
  case less
  let ?es = "element_to_summary cb"
  let ?k = "Fr d c p s e sib # k"
  obtain sn en x mid where t: "t = N d Red n sn en x mid"
    using col_Red_N less.prems(2,3) by metis
  have hn: "h n = Some (mk_node d (root_ptr x) (root_ptr mid) (Some p) Red sn en)"
    and hp: "h p = Some (mk_node d (Some n) (root_ptr sib) (ctx_ptr k) c s e)"
    using less.prems(1) unfolding t by (simp_all add: zrep_def)
  note zup = less.prems(1) [unfolded zrep_up]
  show ?case
  proof (cases c)
    case Black
    have "insert_fixup dbg cb h rt n p d (ctx_slot k) = Some (h, rt)"
      using hn hp Black by (subst insert_fixup.simps) simp
    moreover have "zrep h rt (plug t ?k) []" using less.prems(1) zrep_plug by blast
    moreover have "rb_inv ?es (plug t ?k)"
      using less.prems(4) Black by (intro ins_pre_plug) simp_all
    ultimately show ?thesis by fastforce
  next
    case Red
    show ?thesis
    proof (cases k rule: ctx_ptr.cases)
      case 1
      from set_color_frame [OF less.prems(1), of Black] obtain h' where h': 
        "set_color h p Black = Some h'" "zrep h' rt t (Fr d Black p s e sib # k)" "frame_ok {p} h h'"
        by blast
      have "insert_fixup dbg cb h rt n p d (ctx_slot k) = Some (h', rt)"
        using hn hp Red 1 h' by (subst insert_fixup.simps) simp
      moreover have "zrep h' rt (plug t (Fr d Black p s e sib # k)) []" using h'(2) zrep_plug by blast
      moreover have "rb_inv ?es (plug t (Fr d Black p s e sib # k))"
        using less.prems(4) Red 1 by (intro ins_pre_plug) (auto simp: ins_pre_def)
      moreover have "nodes (plug t (Fr d Black p s e sib # k)) = nodes (plug t ?k)"
        by (simp add: nodes_plug)
      moreover have "frame_ok (ps t \<union> kps ?k) h h'" by (rule frame_ok_mono [OF h'(3)]) simp
      ultimately show ?thesis by metis
    next
      case (2 dg cg g sg eg u k2)
      from less.prems(4) Red 2 have cg: "cg = Black" by (simp add: ins_pre_def)
      have hg: "h g = Some (mk_node dg (Some p) (root_ptr u) (ctx_ptr k2) Black sg eg)"
        using zup unfolding 2 cg by (simp add: zrep_def)
      have hu: "opt_color h (root_ptr u) = Some (case u of Leaf \<Rightarrow> None | T cu _ _ _ _ _ \<Rightarrow> Some cu)"
        using zup unfolding 2 by (cases u) (auto simp: zrep_def opt_color_def)
      show ?thesis
      proof (cases "col u")
        case uR: Red
        then obtain ud su eu u1 u2 where u: "u = T Red ud su eu u1 u2" by (cases u) auto
        define t2 where "t2 = N dg Red g sg eg (N d Black p s e t sib) (T Black ud su eu u1 u2)"
        have ptrs: "ps t2 \<union> kps k2 = ps t \<union> kps ?k" by (auto simp: t2_def 2 u)
        have "zrep h rt (N d Red p s e t sib) (Fr dg Black g sg eg u # k2)"
          using less.prems(1) by (simp add: zrep_up 2 cg Red)
        from insert_recolor [OF this u] obtain ha hb h' where h': "set_color h p Black = Some ha"
          "set_color ha ud Black = Some hb" "set_color hb g Red = Some h'" "zrep h' rt t2 k2"
          "frame_ok {p, ud, g} h h'" unfolding t2_def by blast
        have f': "frame_ok (ps t \<union> kps ?k) h h'" by (rule frame_ok_mono [OF h'(5)]) (simp add: 2 u)
        have pre': "ins_pre ?es t2 k2"
          using less.prems(4) Red uR unfolding t2_def 2 u ins_pre_def by auto
        have seq: "nodes (plug t2 k2) = nodes (plug t ?k)"
          by (simp add: nodes_plug t2_def 2 u)
        have hg': "h' g = Some (mk_node dg (Some p) (Some ud) (ctx_ptr k2) Red sg eg)"
          using h'(4) by (simp add: zrep_def t2_def)
        show ?thesis
        proof (cases k2 rule: ctx_ptr.cases)
          case k2: 1
          have "insert_fixup dbg cb h rt n p d (ctx_slot k) = Some (h', rt)"
            using hn hp hg hu Red h'(1-3) 2 u k2 hg'
            by (subst insert_fixup.simps) (simp add: Let_def)
          moreover have "rb_inv ?es (plug t2 k2)" using pre' k2 by (intro ins_pre_plug) simp_all
          ultimately show ?thesis using h'(4) f' seq k2 by (metis plug.simps(1))
        next
          case k2: (2 d3 c3 p3 s3 e3 sib3 k3)
          have up3: "zrep h' rt (N d3 c3 p3 s3 e3 t2 sib3) k3" using h'(4) by (simp add: k2 zrep_up)
          have side3: "h' p3 = Some (mk_node d3 (Some g) (root_ptr sib3) (ctx_ptr k3) c3 s3 e3)"
            "(two d3 (Some g) (root_ptr sib3) True = Some g) = d3"
            using zrep_frame [of h' rt t2] zrep_sibling [of h' rt t2] h'(4) k2
            by (simp_all add: t2_def) (cases d3; fastforce)
          have "insert_fixup dbg cb h rt n p d (ctx_slot k) = insert_fixup dbg cb h' rt g p3 d3 (ctx_slot k3)"
            using hn hp hg hu Red h'(1-3) 2 u k2 hg' side3 read_slot [OF up3, of p3]
            by (subst insert_fixup.simps) (simp add: Let_def)
          moreover have "\<exists>h'' rt'' t'. insert_fixup dbg cb h' rt g p3 d3 (ctx_slot k3) = Some (h'', rt'') \<and>
             zrep h'' rt'' t' [] \<and> rb_inv ?es t' \<and> nodes t' = nodes (plug t2 k2) \<and>
             frame_ok (ps t2 \<union> kps k2) h' h''"
            using less.hyps [of k3 h' rt t2] h'(4) pre' by (simp add: k2 2 t2_def)
          ultimately show ?thesis using seq ptrs f' frame_ok_trans [OF f'] by (metis order_refl)
        qed
      next
        case uB: Black
        have red: "opt_color h (root_ptr u) \<noteq> Some (Some Red)"
          using hu uB by (cases u) auto
        obtain uc where uc: "opt_color h (root_ptr u) = Some uc" "uc \<noteq> Some Red" using hu red by metis
        show ?thesis
        proof (cases "dg = d")
          case True
          have z1: "zrep h rt (N d Black g sg eg (N d Red p s e t sib) u) k2"
            using less.prems(1) by (simp add: zrep_up 2 cg Red True)
          from insert_last_rotation [OF z1] obtain h1 rt1 h2 h' where *:
            "node_rotate dbg cb h rt g (\<not> d) = Some (h1, rt1)"
            "set_color h1 p Black = Some h2" "set_color h2 g Red = Some h'"
            "zrep h' rt1 (N d Black p sg e t (N d Red g (sg - s + sm sib) eg sib u)) k2"
            "frame_ok (insert g (insert p (ps sib \<union> kps k2))) h h'" by blast
          have "insert_fixup dbg cb h rt n p d (ctx_slot k) = Some (h', rt1)"
            using hn hp hg uc Red 2 True * by (subst insert_fixup.simps) (simp add: Let_def)
          moreover have "rb_inv ?es (plug (N d Black p sg e t (N d Red g (sg - s + sm sib) eg sib u)) k2)"
            using less.prems(4) uB unfolding 2 cg Red True
            by (intro ins_pre_plug) (auto simp: ins_pre_def algebra_simps)
          moreover have "nodes (plug (N d Black p sg e t (N d Red g (sg - s + sm sib) eg sib u)) k2) = nodes (plug t ?k)"
            by (simp add: nodes_plug 2 True)
          moreover have "frame_ok (ps t \<union> kps ?k) h h'" by (rule frame_ok_mono [OF *(5)]) (auto simp: 2)
          ultimately show ?thesis using *(4) zrep_plug by metis
        next
          case False
          then have d: "dg = (\<not> d)" by simp
          have "zrep h rt (N d Red p s e (N d Red n sn en x mid) sib) (Fr dg Black g sg eg u # k2)"
            using less.prems(1) by (simp add: zrep_up 2 cg Red t)
          from insert_first_rotation [OF this] obtain h0 rt0 where r:
            "node_rotate dbg cb h rt p (\<not> d) = Some (h0, rt0)"
            "zrep h0 rt0 (N dg Red n s en (N dg Red p (s - sn + sm mid) e sib mid) x) (Fr dg Black g sg eg u # k2)"
            "frame_ok (insert p (insert n (ps mid \<union> kps (Fr dg Black g sg eg u # k2)))) h h0"
            unfolding d by blast
          have h0: "h0 n = Some (mk_node dg (Some p) (root_ptr x) (Some g) Red s en)"
            "h0 p = Some (mk_node dg (root_ptr sib) (root_ptr mid) (Some n) Red (s - sn + sm mid) e)"
            using r(2) by (simp_all add: zrep_def)
          define t2 where "t2 = N dg Black n sg en (N dg Red p (s - sn + sm mid) e sib mid)
            (N dg Red g (sg - s + sm x) eg x u)"
          from r(2) have "zrep h0 rt0 (N dg Black g sg eg (N dg Red n s en (N dg Red p (s - sn + sm mid) e sib mid) x) u) k2"
            by (simp add: zrep_up)
          from insert_last_rotation [OF this] obtain h1 rt1 h2 h' where *:
            "node_rotate dbg cb h0 rt0 g (\<not> dg) = Some (h1, rt1)"
            "set_color h1 n Black = Some h2" "set_color h2 g Red = Some h'"
            "zrep h' rt1 t2 k2"
            "frame_ok (insert g (insert n (ps x \<union> kps k2))) h0 h'" unfolding t2_def by blast
          have "insert_fixup dbg cb h rt n p d (ctx_slot k) = Some (h', rt1)"
            using hn hp hg uc Red 2 d r(1) h0 *(1-3) by (subst insert_fixup.simps) (simp add: Let_def)
          moreover have "rb_inv ?es (plug t2 k2)"
            using less.prems(4) uB unfolding 2 cg Red t t2_def
            by (intro ins_pre_plug) (auto simp: ins_pre_def algebra_simps)
          moreover have "nodes (plug t2 k2) = nodes (plug t ?k)"
            by (simp add: nodes_plug 2 d t t2_def)
          moreover have "frame_ok (ps t \<union> kps ?k) h h'"
            by (rule frame_ok_trans [OF r(3) *(5)]) (auto simp: 2 t)
          ultimately show ?thesis using *(4) zrep_plug by metis
        qed
      qed
    qed
  qed
qed

end

section \<open>Insertion as a whole\<close>

text \<open>The test that decides the side in the descent: a tie goes to the right.\<close>

definition goes_right :: "('e, 's) callback \<Rightarrow> 'e \<Rightarrow> 'p \<times> 'e \<Rightarrow> bool" where
  "goes_right cb e x \<longleftrightarrow> cmp_element cb e (snd x) \<noteq> Less"

context tree_callback
begin

lemma node_insert_start:
  assumes "h nw = Some nn"
  shows "node_insert dbg cb h rt nw =
    (let h1 = h(nw \<mapsto> nn\<lparr>children := (\<lambda>_. None), color := Red\<rparr>) in
     case rt of
       Some root \<Rightarrow> insert_descend dbg cb h1 nw root None \<bind>
         (\<lambda>(h, par, node_side, gp). insert_fixup dbg cb h rt nw par node_side gp)
     | None \<Rightarrow> Some (h1(nw \<mapsto> nn\<lparr>children := (\<lambda>_. None), color := Red, parent := None\<rparr>), Some nw))"
  using assms by (cases nn) (simp add: node_insert_def write_defs heap_simps Let_def split: option.split)

text \<open>
  The new node enters the sequence after every element it does not precede; no pointer
  outside the tree changes.
\<close>

lemma tree_rep_insert:
  assumes rep: "tree_rep cb h rt xs" and nw: "h nw = Some nn" "nw \<notin> fst ` set xs"
    and s: "summary nn = element_to_summary cb (element nn)"
    and split: "split_at (goes_right cb (element nn)) xs"
  shows "\<exists>h' rt'. node_insert dbg cb h rt nw = Some (h', rt') \<and>
     tree_rep cb h' rt' (list_insert (goes_right cb (element nn)) (nw, element nn) xs) \<and>
     frame_ok (insert nw (fst ` set xs)) h h'"
proof -
  let ?es = "element_to_summary cb" and ?el = "element nn"
  define nn1 where "nn1 = nn\<lparr>children := (\<lambda>_. None), color := Red\<rparr>"
  define h1 where "h1 = h(nw \<mapsto> nn1)"
  have f1: "frame_ok (insert nw (fst ` set xs)) h h1"
    using nw(1) by (auto simp: h1_def nn1_def intro!: frame_ok_upd)
  from rep obtain t where t: "zrep h rt t []" "rb_inv ?es t" "nodes t = xs" by (auto simp: tree_rep_def)
  have nt: "nw \<notin> ps t" using nw(2) t(3) by (simp add: ps_nodes)
  have z1: "zrep h1 rt t []" using t(1) nt by (simp add: zrep_def h1_def)
  show ?thesis
  proof (cases t)
    case Leaf
    define h2 where "h2 = h1(nw \<mapsto> nn1\<lparr>parent := None\<rparr>)"
    have "node_insert dbg cb h rt nw = Some (h2, Some nw)"
      using t(1) Leaf by (simp add: node_insert_start [of h nw nn] nw(1) zrep_def h2_def h1_def nn1_def)
    moreover have "tree_rep cb h2 (Some nw) [(nw, ?el)]"
      unfolding tree_rep_def
      by (rule exI [of _ "T Red nw (?es ?el) ?el Leaf Leaf"])
        (simp add: zrep_def rb_inv_def h2_def nn1_def s)
    moreover have "frame_ok (insert nw (fst ` set xs)) h h2"
      unfolding h2_def by (rule frame_ok_upd_trans [OF f1]) (simp_all add: h1_def)
    ultimately show ?thesis using Leaf t(3) by (auto simp: list_insert_def)
  next
    case (T c p sp e l r)
    then have rt: "rt = Some p" using t(1) by (simp add: zrep_def)
    have hn: "h1 nw = Some \<lparr>children = (\<lambda>_. None), parent = parent nn, color = Red,
        summary = ?es ?el, element = ?el\<rparr>"
      using s by (cases nn) (simp add: h1_def nn1_def)
    let ?g = "\<lambda>x. cmp_element cb ?el x \<noteq> Less"
    have rp: "root_ptr t = Some p" and nt': "nw \<notin> ps t \<union> kps []" using T nt by simp_all
    from insert_descend_zrep [OF z1 rp hn nt', where dbg = dbg]
    obtain h2 d pf cf sf ef sib k where d: "insert_descend dbg cb h1 nw p None = Some (h2, pf, d, ctx_slot k)"
      "descend ?g (?es ?el) t [] = Fr d cf pf sf ef sib # k"
      "zrep h2 rt (T Red nw (?es ?el) ?el Leaf Leaf) (Fr d cf pf sf ef sib # k)"
      "frame_ok (insert nw (ps t)) h1 h2" by (simp only: ctx_slot.simps kps.simps Un_empty_right) blast
    let ?k = "Fr d cf pf sf ef sib # k" and ?n = "T Red nw (?es ?el) ?el Leaf Leaf"
    have inv: "invc t" "invh t" "sumok ?es t" using t(2) by (simp_all add: rb_inv_def)
    have pre: "ins_pre ?es ?n ?k"
      using descend_kinvc [of t "[]" ?g "?es ?el"] descend_kinvh [of t "[]" ?g "?es ?el"]
        descend_ksumok [of ?es t "?es ?el" "[]" ?g] inv
      unfolding d(2) ins_pre_def by auto
    from insert_fixup_zrep [OF d(3) _ _ pre, where n = nw and dbg = dbg]
    obtain h3 rt3 t3 where f: "insert_fixup dbg cb h2 rt nw pf d (ctx_slot k) = Some (h3, rt3)"
      "zrep h3 rt3 t3 []" "rb_inv ?es t3" "nodes t3 = nodes (plug ?n ?k)"
      "frame_ok (ps ?n \<union> kps ?k) h2 h3" by auto
    have seq: "nodes t3 = list_insert (goes_right cb ?el) (nw, ?el) xs"
    proof -
      from descend_split [of ?g t "[]" "?es ?el"] split t(3)
      have "\<forall>x\<in>set (kl ?k). goes_right cb ?el x" "\<forall>x\<in>set (kr ?k). \<not> goes_right cb ?el x"
        unfolding d(2) goes_right_def by auto
      then have "list_insert (goes_right cb ?el) (nw, ?el) (kl ?k @ kr ?k) = kl ?k @ (nw, ?el) # kr ?k"
        by (rule list_insert_split)
      moreover have "kl ?k @ kr ?k = xs" using descend_seq [of ?g "?es ?el" t "[]"] t(3) unfolding d(2) by simp
      ultimately show ?thesis using f(4) by (simp add: nodes_plug)
    qed
    have "ps ?n \<union> kps ?k = fst ` set (nodes (plug ?n ?k))" by (simp add: ps_nodes [symmetric])
    also have "\<dots> = insert nw (fst ` set xs)" using seq f(4) by simp
    finally have "frame_ok (insert nw (fst ` set xs)) h h3"
      using frame_ok_trans [OF f1 frame_ok_trans [OF d(4) f(5)]] by (auto simp: ps_nodes t(3))
    moreover have "node_insert dbg cb h rt nw = Some (h3, rt3)"
      using d(1) f(1) by (simp add: node_insert_start [of h nw nn] nw(1) rt h1_def nn1_def)
    moreover have "tree_rep cb h3 rt3 (list_insert (goes_right cb ?el) (nw, ?el) xs)"
      using f(2,3) seq by (auto simp: tree_rep_def)
    ultimately show ?thesis by blast
  qed
qed

end

end
