(* ===== verification/Rb_Remove.thy ===== *)
theory Rb_Remove
  imports Rb_Insert
begin

text \<open>
  Removal: the element leaves the summaries of its ancestors, a node with two children
  changes places with its predecessor, and the loop restores the black height.
\<close>

section \<open>The fix-up loop\<close>

text \<open>
  The invariant of the loop: the focused subtree, black at its root, is one black node short.
\<close>

definition del_pre ::
  "('e \<Rightarrow> 's::ab_group_add) \<Rightarrow> ('p, 'e, 's) tree \<Rightarrow> ('p, 'e, 's) ctx \<Rightarrow> bool" where
  "del_pre es t k \<longleftrightarrow> col t = Black \<and> invc t \<and> invh t \<and> sumok es t \<and>
     kinvc k \<and> kinvh (Suc (bh t)) k \<and> ksumok es (sm t) k"

text \<open>What the loop delivers.\<close>

definition del_post ::
  "('e \<Rightarrow> 's::ab_group_add) \<Rightarrow> (('p, 'e, 's) heap \<times> 'p option) option \<Rightarrow> ('p \<times> 'e) list \<Rightarrow>
   'p set \<Rightarrow> ('p, 'e, 's) heap \<Rightarrow> bool" where
  "del_post es r xs A h \<longleftrightarrow> (\<exists>h' rt' t'. r = Some (h', rt') \<and> zrep h' rt' t' [] \<and>
     rb_inv es t' \<and> nodes t' = xs \<and> frame_ok A h h')"

lemma del_postI:
  "r = Some (h', rt') \<Longrightarrow> zrep h' rt' t k \<Longrightarrow> rb_inv es (plug t k) \<Longrightarrow> nodes (plug t k) = xs \<Longrightarrow>
   frame_ok A h h' \<Longrightarrow> del_post es r xs A h"
  unfolding del_post_def using zrep_plug by blast

lemma del_post_frame:
  "del_post es r xs A h1 \<Longrightarrow> frame_ok B h h1 \<Longrightarrow> A \<subseteq> C \<Longrightarrow> B \<subseteq> C \<Longrightarrow> del_post es r xs C h"
  unfolding del_post_def using frame_ok_trans by blast

lemma bh_pos_N: "0 < bh t \<Longrightarrow> \<exists>c p s e a b. t = N d c p s e a b"
  by (metis N_exhaust bh.simps(1) less_irrefl)

lemma opt_color_None [simp]: "opt_color h None = Some None"
  by (simp add: opt_color_def)

lemma opt_color_rep:
  "rep h q t \<Longrightarrow> opt_color h (root_ptr t) = Some (if t = Leaf then None else Some (col t))"
  by (cases t) (auto simp: opt_color_def)

context tree_callback
begin

text \<open>The reads at the head of the loop body.\<close>

lemma remove_fixup_reads:
  assumes "zrep h rt t (Fr d c p s e (N d cs q s2 e2 close distant) # k)"
  shows "h p = Some (mk_node d (root_ptr t) (Some q) (ctx_ptr k) c s e)"
    and "h q = Some (mk_node d (root_ptr close) (root_ptr distant) (Some p) cs s2 e2)"
    and "opt_color h (root_ptr close) = Some (if close = Leaf then None else Some (col close))"
    and "opt_color h (root_ptr distant) = Some (if distant = Leaf then None else Some (col distant))"
  using assms by (auto simp: zrep_def opt_color_rep)

text \<open>A red distant nephew: one rotation ends the loop.\<close>

lemma remove_fixup_distant:
  assumes z: "zrep h rt t (Fr d c p s e (N d Black q s2 e2 close (N d Red x sx ex xa xb)) # k)"
    and pre: "del_pre (element_to_summary cb) t
       (Fr d c p s e (N d Black q s2 e2 close (N d Red x sx ex xa xb)) # k)"
  shows "del_post (element_to_summary cb) (remove_fixup dbg cb h rt p d)
     (nodes (plug t (Fr d c p s e (N d Black q s2 e2 close (N d Red x sx ex xa xb)) # k)))
     (ps t \<union> kps (Fr d c p s e (N d Black q s2 e2 close (N d Red x sx ex xa xb)) # k)) h"
proof -
  note reads = remove_fixup_reads [OF z]
  let ?s = "s - s2 + sm close"
  from node_rotate_zrep [OF z [unfolded zrep_up], where dbg = dbg] obtain h1 rt1 where 1:
    "node_rotate dbg cb h rt p d = Some (h1, rt1)"
    "zrep h1 rt1 (N d Black q s e2 (N d c p ?s e t close) (N d Red x sx ex xa xb)) k"
    "frame_ok (insert p (insert q (ps close \<union> kps k))) h h1" by blast
  have h1: "h1 q = Some (mk_node d (Some p) (Some x) (ctx_ptr k) Black s e2)"
    "h1 p = Some (mk_node d (root_ptr t) (root_ptr close) (Some q) c ?s e)"
    using 1(2) by (simp_all add: zrep_def)
  from set_color_focus [OF 1(2), of c] obtain h2 where 2: "set_color h1 q c = Some h2"
    "zrep h2 rt1 (N d c q s e2 (N d c p ?s e t close) (N d Red x sx ex xa xb)) k"
    "frame_ok {q} h1 h2" by blast
  from 2(2) have "zrep h2 rt1 (N d c p ?s e t close) (Fr d c q s e2 (N d Red x sx ex xa xb) # k)"
    by (simp add: zrep_up)
  from set_color_focus [OF this, of Black] obtain h3 where 3: "set_color h2 p Black = Some h3"
    "zrep h3 rt1 (N d Black p ?s e t close) (Fr d c q s e2 (N d Red x sx ex xa xb) # k)"
    "frame_ok {p} h2 h3" by blast
  from 3(2) have "zrep h3 rt1 (N d Red x sx ex xa xb) (Fr (\<not> d) c q s e2 (N d Black p ?s e t close) # k)"
    by (simp add: zrep_up)
  from set_color_focus [OF this, of Black] obtain h4 where 4: "set_color h3 x Black = Some h4"
    "zrep h4 rt1 (N d Black x sx ex xa xb) (Fr (\<not> d) c q s e2 (N d Black p ?s e t close) # k)"
    "frame_ok {x} h3 h4" by blast
  note f = frame_ok_Un [OF frame_ok_Un [OF frame_ok_Un [OF 1(3) 2(3)] 3(3)] 4(3)]
  show ?thesis
  proof (rule del_postI [OF _ 4(2)])
    show "remove_fixup dbg cb h rt p d = Some (h4, rt1)"
      using reads 1(1) 2(1) 3(1) 4(1) h1
      by (subst remove_fixup.simps) (simp add: Let_def)
    show "rb_inv (element_to_summary cb)
       (plug (N d Black x sx ex xa xb) (Fr (\<not> d) c q s e2 (N d Black p ?s e t close) # k))"
      using pre by (auto simp: del_pre_def rb_inv_def invc_plug invh_plug sumok_plug algebra_simps)
  qed (use f in \<open>auto simp: nodes_plug elim!: frame_ok_mono\<close>)
qed

text \<open>A red close nephew: a rotation of the sibling leads to the previous case.\<close>

lemma remove_fixup_close:
  assumes z: "zrep h rt t (Fr d c p s e (N d Black q s2 e2 (N d Red y sy ey ya yb) distant) # k)"
    and pre: "del_pre (element_to_summary cb) t
       (Fr d c p s e (N d Black q s2 e2 (N d Red y sy ey ya yb) distant) # k)"
    and dist: "col distant = Black"
  shows "del_post (element_to_summary cb) (remove_fixup dbg cb h rt p d)
     (nodes (plug t (Fr d c p s e (N d Black q s2 e2 (N d Red y sy ey ya yb) distant) # k)))
     (ps t \<union> kps (Fr d c p s e (N d Black q s2 e2 (N d Red y sy ey ya yb) distant) # k)) h"
proof -
  note reads = remove_fixup_reads [OF z]
  let ?s = "s2 - sy + sm yb"
  have "zrep h rt (N (\<not> d) Black q s2 e2 distant (N (\<not> d) Red y sy ey yb ya)) (Fr (\<not> d) c p s e t # k)"
    using z by (simp add: zrep_up)
  from node_rotate_zrep [OF this, where dbg = dbg] obtain h1 rt1 where 1:
    "node_rotate dbg cb h rt q (\<not> d) = Some (h1, rt1)"
    "zrep h1 rt1 (N (\<not> d) Red y s2 ey (N (\<not> d) Black q ?s e2 distant yb) ya) (Fr (\<not> d) c p s e t # k)"
    "frame_ok (insert q (insert y (ps yb \<union> kps (Fr (\<not> d) c p s e t # k)))) h h1" by blast
  from 1(2) have "zrep h1 rt1 (N (\<not> d) Black q ?s e2 distant yb)
      (Fr (\<not> d) Red y s2 ey ya # Fr (\<not> d) c p s e t # k)"
    by (simp add: zrep_up)
  from set_color_focus [OF this, of Red] obtain h2 where 2: "set_color h1 q Red = Some h2"
    "zrep h2 rt1 (N (\<not> d) Red q ?s e2 distant yb) (Fr (\<not> d) Red y s2 ey ya # Fr (\<not> d) c p s e t # k)"
    "frame_ok {q} h1 h2" by blast
  from 2(2) have "zrep h2 rt1 (N (\<not> d) Red y s2 ey (N (\<not> d) Red q ?s e2 distant yb) ya) (Fr (\<not> d) c p s e t # k)"
    by (simp add: zrep_up)
  from set_color_focus [OF this, of Black] obtain h3 where 3: "set_color h2 y Black = Some h3"
    "zrep h3 rt1 (N (\<not> d) Black y s2 ey (N (\<not> d) Red q ?s e2 distant yb) ya) (Fr (\<not> d) c p s e t # k)"
    "frame_ok {y} h2 h3" by blast
  let ?k = "Fr d c p s e (N d Black y s2 ey ya (N d Red q ?s e2 yb distant)) # k"
  have z3: "zrep h3 rt1 t ?k" using 3(2) by (simp add: zrep_up)
  have pre3: "del_pre (element_to_summary cb) t ?k"
    using pre dist by (auto simp: del_pre_def algebra_simps)
  have loop: "remove_fixup dbg cb h rt p d = remove_fixup dbg cb h3 rt1 p d"
    using reads dist 1(1) 2(1) 3(1) by (subst remove_fixup.simps) (simp add: Let_def)
  have seq: "nodes (plug t (Fr d c p s e (N d Black q s2 e2 (N d Red y sy ey ya yb) distant) # k)) =
      nodes (plug t ?k)"
    by (simp add: nodes_plug)
  show ?thesis unfolding loop seq
    by (rule del_post_frame [OF remove_fixup_distant [OF z3 pre3]
          frame_ok_Un [OF frame_ok_Un [OF 1(3) 2(3)] 3(3)]]) auto
qed

text \<open>A red parent with black nephews: repainting ends the loop.\<close>

lemma remove_fixup_red_parent:
  assumes z: "zrep h rt t (Fr d Red p s e (N d Black q s2 e2 close distant) # k)"
    and pre: "del_pre (element_to_summary cb) t (Fr d Red p s e (N d Black q s2 e2 close distant) # k)"
    and black: "col close = Black" "col distant = Black"
  shows "del_post (element_to_summary cb) (remove_fixup dbg cb h rt p d)
     (nodes (plug t (Fr d Red p s e (N d Black q s2 e2 close distant) # k)))
     (ps t \<union> kps (Fr d Red p s e (N d Black q s2 e2 close distant) # k)) h"
proof -
  note reads = remove_fixup_reads [OF z]
  from set_color_frame [OF z, of Black] obtain h1 where 1: "set_color h p Black = Some h1"
    "zrep h1 rt t (Fr d Black p s e (N d Black q s2 e2 close distant) # k)" "frame_ok {p} h h1" by blast
  from 1(2) have "zrep h1 rt (N d Black q s2 e2 close distant) (Fr (\<not> d) Black p s e t # k)"
    by (simp add: zrep_up)
  from set_color_focus [OF this, of Red] obtain h2 where 2: "set_color h1 q Red = Some h2"
    "zrep h2 rt (N d Red q s2 e2 close distant) (Fr (\<not> d) Black p s e t # k)" "frame_ok {q} h1 h2" by blast
  show ?thesis
  proof (rule del_postI [OF _ 2(2)])
    show "remove_fixup dbg cb h rt p d = Some (h2, rt)"
      using reads black 1(1) 2(1) by (subst remove_fixup.simps) (simp add: Let_def)
    show "rb_inv (element_to_summary cb) (plug (N d Red q s2 e2 close distant) (Fr (\<not> d) Black p s e t # k))"
      using pre black by (auto simp: del_pre_def rb_inv_def invc_plug invh_plug sumok_plug algebra_simps)
  qed (use frame_ok_Un [OF 1(3) 2(3)] in \<open>auto simp: nodes_plug elim!: frame_ok_mono\<close>)
qed

text \<open>With a black sibling, a red parent or a red nephew, the loop ends without climbing.\<close>

lemma remove_fixup_black_sibling:
  assumes z: "zrep h rt t (Fr d c p s e (N d Black q s2 e2 close distant) # k)"
    and pre: "del_pre (element_to_summary cb) t (Fr d c p s e (N d Black q s2 e2 close distant) # k)"
    and red: "c = Red \<or> col close = Red \<or> col distant = Red"
  shows "del_post (element_to_summary cb) (remove_fixup dbg cb h rt p d)
     (nodes (plug t (Fr d c p s e (N d Black q s2 e2 close distant) # k)))
     (ps t \<union> kps (Fr d c p s e (N d Black q s2 e2 close distant) # k)) h"
proof -
  have redN: "\<exists>x sx ex xa xb. u = N d Red x sx ex xa xb" if red: "col u = Red" for u :: "('c, 'e, 's) tree"
  proof -
    obtain x where "root_ptr u = Some x" using red by (cases u) auto
    with col_Red_N [OF red] show ?thesis by blast
  qed
  consider (distant) "col distant = Red" | (close) "col distant = Black" "col close = Red"
    | (parent) "col distant = Black" "col close = Black" "c = Red"
    using red neq_color by metis
  then show ?thesis
  proof cases
    case distant
    with redN obtain x sx ex xa xb where "distant = N d Red x sx ex xa xb" by blast
    with z pre show ?thesis using remove_fixup_distant by simp
  next
    case close
    with redN obtain x sx ex xa xb where "close = N d Red x sx ex xa xb" by blast
    with z pre close(1) show ?thesis using remove_fixup_close by simp
  next
    case parent
    with z pre show ?thesis using remove_fixup_red_parent by simp
  qed
qed

text \<open>A red sibling: a rotation gives the node a black sibling and a red parent.\<close>

lemma remove_fixup_red_sibling:
  assumes z: "zrep h rt t (Fr d c p s e (N d Red q s2 e2 close distant) # k)"
    and pre: "del_pre (element_to_summary cb) t (Fr d c p s e (N d Red q s2 e2 close distant) # k)"
  shows "del_post (element_to_summary cb) (remove_fixup dbg cb h rt p d)
     (nodes (plug t (Fr d c p s e (N d Red q s2 e2 close distant) # k)))
     (ps t \<union> kps (Fr d c p s e (N d Red q s2 e2 close distant) # k)) h"
proof -
  note reads = remove_fixup_reads [OF z]
  let ?s = "s - s2 + sm close"
  from pre have c: "c = Black" and cols: "col close = Black" "col distant = Black"
    and bhs: "bh close = Suc (bh t)" "bh distant = Suc (bh t)"
    by (auto simp: del_pre_def)
  then obtain y sy ey ya yb where y: "close = N d Black y sy ey ya yb"
    using bh_pos_N [of close] by (metis col_N zero_less_Suc)
  from bhs have nl: "close \<noteq> Leaf" "distant \<noteq> Leaf" by auto
  from node_rotate_zrep [OF z [unfolded zrep_up], where dbg = dbg] obtain h1 rt1 where 1:
    "node_rotate dbg cb h rt p d = Some (h1, rt1)"
    "zrep h1 rt1 (N d Red q s e2 (N d c p ?s e t close) distant) k"
    "frame_ok (insert p (insert q (ps close \<union> kps k))) h h1" by blast
  from 1(2) have "zrep h1 rt1 (N d c p ?s e t close) (Fr d Red q s e2 distant # k)"
    by (simp add: zrep_up)
  from set_color_focus [OF this, of Red] obtain h2 where 2: "set_color h1 p Red = Some h2"
    "zrep h2 rt1 (N d Red p ?s e t close) (Fr d Red q s e2 distant # k)" "frame_ok {p} h1 h2" by blast
  from set_color_frame [OF 2(2), of Black] obtain h3 where 3: "set_color h2 q Black = Some h3"
    "zrep h3 rt1 (N d Red p ?s e t close) (Fr d Black q s e2 distant # k)" "frame_ok {q} h2 h3" by blast
  let ?k = "Fr d Red p ?s e (N d Black y sy ey ya yb) # Fr d Black q s e2 distant # k"
  have z3: "zrep h3 rt1 t ?k" using 3(2) by (simp add: zrep_up y)
  have pre3: "del_pre (element_to_summary cb) t ?k"
    using pre cols bhs by (auto simp: del_pre_def y c algebra_simps)
  have loop: "remove_fixup dbg cb h rt p d = remove_fixup dbg cb h3 rt1 p d"
    using reads cols nl c 1(1) 2(1) 3(1) by (subst remove_fixup.simps) (simp add: Let_def)
  have seq: "nodes (plug t (Fr d c p s e (N d Red q s2 e2 close distant) # k)) = nodes (plug t ?k)"
    by (simp add: nodes_plug y)
  have "del_post (element_to_summary cb) (remove_fixup dbg cb h3 rt1 p d) (nodes (plug t ?k))
      (ps t \<union> kps ?k) h3"
    using remove_fixup_black_sibling [OF z3 pre3] by simp
  then show ?thesis unfolding loop seq
    by (rule del_post_frame [OF _ frame_ok_Un [OF frame_ok_Un [OF 1(3) 2(3)] 3(3)]]) (auto simp: y)
qed

text \<open>All black: the sibling is repainted and the shortage moves to the parent.\<close>

lemma remove_fixup_climb:
  assumes z: "zrep h rt t (Fr d Black p s e (N d Black q s2 e2 close distant) # k)"
    and black: "col close = Black" "col distant = Black"
  shows "\<exists>h1. zrep h1 rt (N d Black p s e t (N d Red q s2 e2 close distant)) k \<and>
     frame_ok {q} h h1 \<and>
     remove_fixup dbg cb h rt p d =
       (case ctx_slot k of None \<Rightarrow> Some (h1, rt) | Some (p2, d2) \<Rightarrow> remove_fixup dbg cb h1 rt p2 d2)"
proof -
  note reads = remove_fixup_reads [OF z]
  from z have "zrep h rt (N d Black q s2 e2 close distant) (Fr (\<not> d) Black p s e t # k)"
    by (simp add: zrep_up)
  from set_color_focus [OF this, of Red] obtain h1 where 1: "set_color h q Red = Some h1"
    "zrep h1 rt (N d Red q s2 e2 close distant) (Fr (\<not> d) Black p s e t # k)" "frame_ok {q} h h1" by blast
  from 1(2) have z1: "zrep h1 rt (N d Black p s e t (N d Red q s2 e2 close distant)) k"
    by (simp add: zrep_up)
  then have hp: "h1 p = Some (mk_node d (root_ptr t) (Some q) (ctx_ptr k) Black s e)"
    by (simp add: zrep_def)
  have "remove_fixup dbg cb h rt p d =
       (case ctx_slot k of None \<Rightarrow> Some (h1, rt) | Some (p2, d2) \<Rightarrow> remove_fixup dbg cb h1 rt p2 d2)"
  proof (cases k rule: ctx_ptr.cases)
    case k: 1
    with reads black 1(1) hp show ?thesis by (subst remove_fixup.simps) (simp add: Let_def)
  next
    case k: (2 d2 c2 p2 s2' e2' sib k2)
    note side = zrep_frame [OF z1 [unfolded k]] zrep_sibling [OF z1 [unfolded k] root_ptr_N]
    have two: "(two d2 (Some p) (root_ptr sib) True = Some p) = d2"
      using side(2) by (cases d2) simp_all
    with k reads black 1(1) hp side show ?thesis by (subst remove_fixup.simps) (simp add: Let_def)
  qed
  with z1 1(3) show ?thesis by blast
qed

text \<open>The loop as a whole: the shortage moves up until one of the cases above absorbs it.\<close>

lemma remove_fixup_zrep:
  assumes "zrep h rt t (Fr d c p s e sib # k)"
    and "del_pre (element_to_summary cb) t (Fr d c p s e sib # k)"
  shows "del_post (element_to_summary cb) (remove_fixup dbg cb h rt p d)
     (nodes (plug t (Fr d c p s e sib # k))) (ps t \<union> kps (Fr d c p s e sib # k)) h"
  using assms
proof (induction k arbitrary: h rt t d c p s e sib rule: measure_induct_rule [of length])
  case (less k h rt t d c p s e sib)
  let ?es = "element_to_summary cb"
  from less.prems(2) have "bh sib = Suc (bh t)" by (simp add: del_pre_def)
  then obtain cs q s2 e2 close distant where sib: "sib = N d cs q s2 e2 close distant"
    using bh_pos_N [of sib] by (metis zero_less_Suc)
  show ?case
  proof (cases "cs = Red \<or> c = Red \<or> col close = Red \<or> col distant = Red")
    case True
    show ?thesis
    proof (cases cs)
      case Red
      show ?thesis
        using less.prems unfolding sib Red by (rule remove_fixup_red_sibling)
    next
      case Black
      with True have "c = Red \<or> col close = Red \<or> col distant = Red" by simp
      with less.prems show ?thesis unfolding sib Black by (rule remove_fixup_black_sibling)
    qed
  next
    case False
    then have black: "cs = Black" "c = Black" "col close = Black" "col distant = Black" by auto
    define t2 where "t2 = N d Black p s e t (N d Red q s2 e2 close distant)"
    from remove_fixup_climb [OF less.prems(1) [unfolded sib black(1,2)] black(3,4), where dbg = dbg]
    obtain h1 where 1: "zrep h1 rt t2 k" "frame_ok {q} h h1"
      "remove_fixup dbg cb h rt p d =
       (case ctx_slot k of None \<Rightarrow> Some (h1, rt) | Some (p2, d2) \<Rightarrow> remove_fixup dbg cb h1 rt p2 d2)"
      unfolding t2_def by blast
    have seq: "nodes (plug t (Fr d c p s e sib # k)) = nodes (plug t2 k)"
      by (simp add: nodes_plug t2_def sib)
    have pre2: "del_pre ?es t2 k" if "k \<noteq> []"
      using less.prems(2) by (auto simp: del_pre_def t2_def sib black)
    have post: "del_post ?es (remove_fixup dbg cb h rt p d) (nodes (plug t2 k)) (ps t2 \<union> kps k) h1"
    proof (cases k rule: ctx_ptr.cases)
      case k: 1
      show ?thesis
      proof (rule del_postI [OF _ 1(1)])
        show "rb_inv ?es (plug t2 k)"
          using less.prems(2) by (auto simp: k del_pre_def rb_inv_def t2_def sib black)
      qed (use k 1(3) in simp_all)
    next
      case k: (2 d2 c2 p2 s2' e2' sib2 k2)
      have "remove_fixup dbg cb h rt p d = remove_fixup dbg cb h1 rt p2 d2" using 1(3) k by simp
      with less.IH [of k2 h1 rt t2] 1(1) pre2 k show ?thesis by simp
    qed
    show ?thesis unfolding seq
      by (rule del_post_frame [OF post 1(2)]) (auto simp: t2_def sib)
  qed
qed
end

section \<open>Summaries on the way to the root\<close>

text \<open>A context whose summaries all lose \<open>v\<close>.\<close>

fun ksub :: "'s::ab_group_add \<Rightarrow> ('p, 'e, 's) ctx \<Rightarrow> ('p, 'e, 's) ctx" where
  "ksub v [] = []"
| "ksub v (Fr d c p s e sib # k) = Fr d c p (s - v) e sib # ksub v k"

lemma ksub_head [simp]:
  "ctx_ptr (ksub v k) = ctx_ptr k" "kcol (ksub v k) = kcol k" "ksub v k = [] \<longleftrightarrow> k = []"
  by (cases k rule: kcol.cases; simp)+

lemma ksub_seq [simp]: "kl (ksub v k) = kl k" "kr (ksub v k) = kr k" "kps (ksub v k) = kps k"
  by (induction v k rule: ksub.induct) auto

lemma ksub_inv [simp]: "kdist (ksub v k) = kdist k" "kinvc (ksub v k) = kinvc k"
  by (induction v k rule: ksub.induct) auto

lemma ksub_kinvh [simp]: "kinvh n (ksub v k) = kinvh n k"
  by (induction v k arbitrary: n rule: ksub.induct) auto

lemma ksub_ksumok: "ksumok es w k \<Longrightarrow> ksumok es (w - v) (ksub v k)"
  by (induction v k arbitrary: w rule: ksub.induct) (auto simp: algebra_simps)

lemma set_summary_focus:
  assumes "zrep h rt (N d c p s e a b) k"
  shows "\<exists>h'. set_summary h p s' = Some h' \<and> zrep h' rt (N d c p s' e a b) k \<and> frame_ok {p} h h'"
  using assms
  by (auto simp: zrep_def write_defs heap_simps intro!: frame_ok_upd)

context tree_callback
begin

lemma sub_ancestors_zrep:
  "zrep h rt (N d c p s e a b) k \<Longrightarrow>
   \<exists>h'. sub_ancestors cb h v (Some p) = Some h' \<and> zrep h' rt (N d c p (s - v) e a b) (ksub v k) \<and>
     frame_ok (insert p (kps k)) h h'"
proof (induction k arbitrary: h d c p s e a b rule: kps.induct)
  case (1 h d c p s e a b)
  then have hp: "h p = Some (mk_node d (root_ptr a) (root_ptr b) None c s e)" by (simp add: zrep_def)
  from set_summary_focus [OF 1, of "s - v"] obtain h1 where 1: "set_summary h p (s - v) = Some h1"
    "zrep h1 rt (N d c p (s - v) e a b) []" "frame_ok {p} h h1" by blast
  from 1(2) have hp1: "h1 p = Some (mk_node d (root_ptr a) (root_ptr b) None c (s - v) e)"
    by (simp add: zrep_def)
  have "sub_ancestors cb h1 v None = Some h1" by (subst sub_ancestors.simps) simp
  with hp hp1 1 show ?case by (subst sub_ancestors.simps) simp
next
  case (2 d' c' x s' e' sib k h d c p s e a b)
  then have hp: "h p = Some (mk_node d (root_ptr a) (root_ptr b) (Some x) c s e)" by (simp add: zrep_def)
  from set_summary_focus [OF "2.prems", of "s - v"] obtain h1 where 1: "set_summary h p (s - v) = Some h1"
    "zrep h1 rt (N d c p (s - v) e a b) (Fr d' c' x s' e' sib # k)" "frame_ok {p} h h1" by blast
  from 1(2) have hp1: "h1 p = Some (mk_node d (root_ptr a) (root_ptr b) (Some x) c (s - v) e)"
    by (simp add: zrep_def)
  from "2.IH" [OF 1(2) [unfolded zrep_up]] obtain h2 where 2: "sub_ancestors cb h1 v (Some x) = Some h2"
    "zrep h2 rt (N d' c' x (s' - v) e' (N d c p (s - v) e a b) sib) (ksub v k)"
    "frame_ok (insert x (kps k)) h1 h2" by blast
  have "sub_ancestors cb h v (Some p) = Some h2"
    using hp hp1 1(1) 2(1) by (subst sub_ancestors.simps) simp
  moreover have "frame_ok (insert p (kps (Fr d' c' x s' e' sib # k))) h h2"
    by (rule frame_ok_mono [OF frame_ok_Un [OF 1(3) 2(3)]]) auto
  ultimately show ?case using 2(2) by (auto simp: zrep_up)
qed

end

section \<open>The predecessor\<close>

fun on_right :: "('p, 'e, 's) frame \<Rightarrow> bool" where
  "on_right (Fr d c p s e sib) = d"

lemma kps_append [simp]: "kps (k1 @ k2) = kps k1 \<union> kps k2"
  by (induction k1 rule: kps.induct) auto

lemma kdist_append [simp]: "kdist (k1 @ k2) \<longleftrightarrow> kdist k1 \<and> kdist k2 \<and> kps k1 \<inter> kps k2 = {}"
  by (induction k1 rule: kps.induct) auto

lemma kl_append [simp]: "kl (k1 @ k2) = kl k2 @ kl k1"
  by (induction k1 rule: kps.induct) auto

lemma kr_append [simp]: "kr (k1 @ k2) = kr k1 @ kr k2"
  by (induction k1 rule: kps.induct) auto

lemma plug_append [simp]: "plug t (k1 @ k2) = plug (plug t k1) k2"
  by (induction t k1 rule: plug.induct) auto

lemma kr_on_right: "\<forall>f\<in>set k. on_right f \<Longrightarrow> kr k = []"
  by (induction k rule: kps.induct) auto

lemma find_pred_rep:
  assumes "rep h q0 l" and "root_ptr l = Some child"
  shows "\<exists>c q s e l' k1. l = plug (T c q s e l' Leaf) k1 \<and> (\<forall>f\<in>set k1. on_right f) \<and>
    find_pred h child pp side = Some (q, case ctx_ptr k1 of None \<Rightarrow> pp | Some x \<Rightarrow> x, k1 \<noteq> [] \<or> side)"
  using assms
proof (induction l arbitrary: q0 child pp side)
  case (T c x s e l r)
  show ?case
  proof (cases r)
    case Leaf
    with T.prems have "find_pred h child pp side = Some (x, pp, side)"
      by (subst find_pred.simps) simp
    with Leaf show ?thesis by (intro exI [of _ c] exI [of _ x] exI [of _ s] exI [of _ e]
        exI [of _ l] exI [of _ "[]"]) simp
  next
    case (T c' y s' e' l' r')
    with T.prems have r: "rep h (Some x) r" "root_ptr r = Some y" by simp_all
    from T.IH(2) [OF r, of x True] obtain c2 q s2 e2 l2 k1 where
      *: "r = plug (T c2 q s2 e2 l2 Leaf) k1" "\<forall>f\<in>set k1. on_right f"
      "find_pred h y x True = Some (q, case ctx_ptr k1 of None \<Rightarrow> x | Some z \<Rightarrow> z, True)" by auto
    have "find_pred h child pp side = find_pred h y x True"
      using T T.prems by (subst find_pred.simps) simp
    moreover have "ctx_ptr (k1 @ [Fr True c x s e l]) = (case ctx_ptr k1 of None \<Rightarrow> Some x | Some z \<Rightarrow> Some z)"
      by (cases k1 rule: ctx_ptr.cases) simp_all
    ultimately show ?thesis using *
      by (intro exI [of _ c2] exI [of _ q] exI [of _ s2] exI [of _ e2] exI [of _ l2]
          exI [of _ "k1 @ [Fr True c x s e l]"]) (auto simp: N_def split: option.splits)
  qed
qed simp

context tree_callback
begin

lemma sub_between_zrep:
  "zrep h rt (N d c q s e a b) (k1 @ Fr d' c' p s' e' sib # k) \<Longrightarrow>
   \<exists>h'. sub_between cb h p v q = Some h' \<and>
     zrep h' rt (N d c q s e a b) (ksub v k1 @ Fr d' c' p s' e' sib # k) \<and> frame_ok (kps k1) h h'"
proof (induction k1 arbitrary: h d c q s e a b rule: kps.induct)
  case (1 h d c q s e a b)
  then have "h q = Some (mk_node d (root_ptr a) (root_ptr b) (Some p) c s e)" by (simp add: zrep_def)
  with 1 show ?case by (subst sub_between.simps) simp
next
  case (2 d2 c2 x s2 e2 sib2 k1 h d c q s e a b)
  then have hq: "h q = Some (mk_node d (root_ptr a) (root_ptr b) (Some x) c s e)" and px: "x \<noteq> p"
    by (auto simp: zrep_def)
  from "2.prems" have "zrep h rt (N d2 c2 x s2 e2 (N d c q s e a b) sib2) (k1 @ Fr d' c' p s' e' sib # k)"
    by (simp add: zrep_up)
  then have hx: "h x = Some (mk_node d2 (Some q) (root_ptr sib2)
      (ctx_ptr (k1 @ Fr d' c' p s' e' sib # k)) c2 s2 e2)"
    by (simp add: zrep_def)
  from set_summary_focus [OF \<open>zrep h rt (N d2 c2 x s2 e2 _ _) _\<close>, of "s2 - v"] obtain h1 where
    1: "set_summary h x (s2 - v) = Some h1"
    "zrep h1 rt (N d2 c2 x (s2 - v) e2 (N d c q s e a b) sib2) (k1 @ Fr d' c' p s' e' sib # k)"
    "frame_ok {x} h h1" by blast
  from "2.IH" [OF 1(2)] obtain h2 where 2: "sub_between cb h1 p v x = Some h2"
    "zrep h2 rt (N d2 c2 x (s2 - v) e2 (N d c q s e a b) sib2) (ksub v k1 @ Fr d' c' p s' e' sib # k)"
    "frame_ok (kps k1) h1 h2" by blast
  have "sub_between cb h p v q = Some h2"
    using hq hx px 1(1) 2(1) by (subst sub_between.simps) simp
  moreover have "frame_ok (kps (Fr d2 c2 x s2 e2 sib2 # k1)) h h2"
    by (rule frame_ok_mono [OF frame_ok_Un [OF 1(3) 2(3)]]) auto
  ultimately show ?case using 2(2) by (auto simp: zrep_up)
qed

end

end
