(* ===== verification/Rb_Swap.thy ===== *)
theory Rb_Swap
  imports Rb_Remove
begin

text \<open>
  The part of \<open>remove\<close> that lets a node with two children change places with its in-order
  predecessor: all pointers of the two nodes, of their children and of their parents are
  exchanged, while colours and summaries stay with the positions.
\<close>

section \<open>The swap with the predecessor\<close>

text \<open>
  A segment of a path: the context \<open>k\<close> with pointer \<open>x\<close> in its hole, whose topmost
  node is \<open>m\<close> and has the parent \<open>q\<close>.
\<close>

fun rep_seg ::
  "('p, 'e, 's) heap \<Rightarrow> 'p option \<Rightarrow> 'p option \<Rightarrow> 'p option \<Rightarrow> ('p, 'e, 's) ctx \<Rightarrow> bool" where
  "rep_seg h q m x [] \<longleftrightarrow> m = x"
| "rep_seg h q m x (Fr d c p s e sib # k) \<longleftrightarrow>
     h p = Some (mk_node d x (root_ptr sib) (case ctx_ptr k of None \<Rightarrow> q | Some y \<Rightarrow> Some y) c s e) \<and>
     rep h (Some p) sib \<and> rep_seg h q m (Some p) k"

lemma ctx_ptr_append [simp]:
  "ctx_ptr (k1 @ k2) = (case ctx_ptr k1 of None \<Rightarrow> ctx_ptr k2 | Some y \<Rightarrow> Some y)"
  by (cases k1 rule: ctx_ptr.cases) simp_all

lemma rep_ctx_append:
  "rep_ctx h rt x (k1 @ k2) \<longleftrightarrow> (\<exists>m. rep_seg h (ctx_ptr k2) m x k1 \<and> rep_ctx h rt m k2)"
  by (induction k1 arbitrary: x rule: kps.induct) auto

lemma rep_seg_agree: "(\<forall>z\<in>kps k. h' z = h z) \<Longrightarrow> rep_seg h' q m x k = rep_seg h q m x k"
proof (induction h q m x k rule: rep_seg.induct)
  case (2 h q m x d c p s e sib k)
  then have "rep h' (Some p) sib = rep h (Some p) sib" by (intro rep_agree) simp
  with 2 show ?case by simp
qed simp

lemma rep_seg_upd [simp]: "z \<notin> kps k \<Longrightarrow> rep_seg (h(z := n)) q m x k = rep_seg h q m x k"
  by (rule rep_seg_agree) auto

lemma rep_seg_set_parent_rep:
  "ps t \<inter> kps k = {} \<Longrightarrow> rep_seg (set_parent_rep h t p) q m x k = rep_seg h q m x k"
  by (rule rep_seg_agree) (metis disjoint_iff set_parent_rep_other)

text \<open>A new pointer in the hole.\<close>

lemma rep_seg_hole:
  assumes "rep_seg h q m x k" and "kdist k" and "ctx_ptr k = Some p" and "ctx_slot k = Some (p, d)"
  shows "\<exists>n. h p = Some n \<and> rep_seg (h(p \<mapsto> n\<lparr>children := (children n)(d := y)\<rparr>)) q m y k"
  using assms by (cases k rule: ctx_ptr.cases) auto

text \<open>A new parent of the topmost node.\<close>

lemma rep_seg_top:
  assumes "rep_seg h q m x k" and "kdist k" and "k \<noteq> []"
  shows "\<exists>w n. m = Some w \<and> w \<in> kps k \<and> h w = Some n \<and> rep_seg (h(w \<mapsto> n\<lparr>parent := q'\<rparr>)) q' m x k"
  using assms
proof (induction k arbitrary: x rule: kps.induct)
  case (2 d c p s e sib k)
  show ?case
  proof (cases "k = []")
    case True
    with 2 have "h p = Some (mk_node d x (root_ptr sib) q c s e)" "rep h (Some p) sib" "m = Some p" "p \<notin> ps sib"
      by simp_all
    with True show ?thesis
      by (intro exI [of _ p] exI [of _ "mk_node d x (root_ptr sib) q c s e"]) (simp del: fun_upd_apply add: fun_upd_same)
  next
    case False
    then obtain y where y: "ctx_ptr k = Some y" by (cases k rule: ctx_ptr.cases) auto
    have "rep_seg h q m (Some p) k" "kdist k" using "2.prems" by simp_all
    from "2.IH" [OF this False] obtain w n where
      w: "m = Some w" "w \<in> kps k" "h w = Some n" "rep_seg (h(w \<mapsto> n\<lparr>parent := q'\<rparr>)) q' m (Some p) k"
      by blast
    from w(2) "2.prems" have "w \<noteq> p" "w \<notin> ps sib" by auto
    with "2.prems" w y show ?thesis
      by (intro exI [of _ w] exI [of _ n]) (simp del: fun_upd_apply add: fun_upd_other)
  qed
qed simp

lemma frame_ok_of_upds:
  assumes "\<forall>z. z \<notin> A \<longrightarrow> h' z = h z" and "\<forall>z n. h z = Some n \<longrightarrow> (\<exists>n'. h' z = Some n' \<and> element n' = element n)"
  shows "frame_ok A h h'"
  using assms by (simp add: frame_ok_def)

text \<open>The exchange of the pointers when the predecessor is not a child of the node.\<close>

lemma swap_far:
  assumes z: "zrep h rt (T c' q s' e' l' Leaf) (k1 @ Fr False c p s e r # k)"
    and k1: "\<forall>f\<in>set k1. on_right f" "ctx_ptr k1 = Some x"
  shows "\<exists>w h2 h3 h4 h5 h6 rt6.
     h p = Some (mk_node False (Some w) (root_ptr r) (ctx_ptr k) c s e) \<and>
     h q = Some (mk_node False (root_ptr l') None (Some x) c' s' e') \<and>
     x \<noteq> p \<and> x \<noteq> q \<and> p \<noteq> q \<and>
     set_child (h(p \<mapsto> mk_node False (root_ptr l') None (Some x) c' s' e,
            q \<mapsto> mk_node False (Some w) (root_ptr r) (ctx_ptr k) c s e')) x True (Some p) = Some h2 \<and>
     h2 q = Some (mk_node False (Some w) (root_ptr r) (ctx_ptr k) c s e') \<and>
     set_parent_opt h2 (Some w) (Some q) = Some h3 \<and>
     h3 q = Some (mk_node False (Some w) (root_ptr r) (ctx_ptr k) c s e') \<and>
     set_parent_opt h3 (root_ptr r) (Some q) = Some h4 \<and>
     h4 p = Some (mk_node False (root_ptr l') None (Some x) c' s' e) \<and>
     set_parent_opt h4 (root_ptr l') (Some p) = Some h5 \<and>
     replace_child dbg h5 rt (ctx_ptr k) p (Some q) = Some (h6, rt6) \<and>
     zrep h6 rt6 (T c' p s' e l' Leaf) (k1 @ Fr False c q s e' r # k) \<and>
     frame_ok (insert p (insert q (ps l' \<union> kps k1 \<union> ps r \<union> kps k))) h h6"
proof -
  from z have hq: "h q = Some (mk_node False (root_ptr l') None (Some x) c' s' e')"
    and l': "rep h (Some q) l'" "dist l'" and d: "kdist k1" "kdist k" "dist r"
    and disj: "q \<notin> ps l'" "q \<notin> kps k1" "p \<noteq> q" "p \<notin> kps k1" "p \<notin> ps l'" "p \<notin> ps r" "p \<notin> kps k"
      "q \<notin> ps r" "q \<notin> kps k" "ps l' \<inter> kps k1 = {}" "ps l' \<inter> ps r = {}" "ps l' \<inter> kps k = {}"
      "kps k1 \<inter> ps r = {}" "kps k1 \<inter> kps k = {}" "ps r \<inter> kps k = {}"
    using k1(2) by (auto simp: zrep_def)
  from z obtain m where seg: "rep_seg h (Some p) m (Some q) k1"
    and hp: "h p = Some (mk_node False m (root_ptr r) (ctx_ptr k) c s e)"
    and r: "rep h (Some p) r" and k: "rep_ctx h rt (Some p) k"
    by (auto simp: zrep_def rep_ctx_append)
  define h1 where "h1 = h(p \<mapsto> mk_node False (root_ptr l') None (Some x) c' s' e,
            q \<mapsto> mk_node False m (root_ptr r) (ctx_ptr k) c s e')"
  have x: "x \<in> kps k1" using k1(2) by (rule ctx_ptr_kps)
  have slot: "ctx_slot k1 = Some (x, True)" using k1 by (cases k1 rule: ctx_ptr.cases) auto
  have seg1: "rep_seg h1 (Some p) m (Some q) k1" using seg disj by (simp add: h1_def)
  from rep_seg_hole [OF seg1 d(1) k1(2) slot, of "Some p"] obtain nx where nx: "h1 x = Some nx"
    and seg2: "rep_seg (h1(x \<mapsto> nx\<lparr>children := (children nx)(True := Some p)\<rparr>)) (Some p) m (Some p) k1"
    by blast
  define h2 where "h2 = h1(x \<mapsto> nx\<lparr>children := (children nx)(True := Some p)\<rparr>)"
  have "k1 \<noteq> []" using k1(2) by auto
  from rep_seg_top [OF seg2 [folded h2_def] d(1) this, where q' = "Some q"] obtain w nw where
    w: "m = Some w" "w \<in> kps k1" "h2 w = Some nw"
    "rep_seg (h2(w \<mapsto> nw\<lparr>parent := Some q\<rparr>)) (Some q) m (Some p) k1" by blast
  define h3 where "h3 = h2(w \<mapsto> nw\<lparr>parent := Some q\<rparr>)"
  define h4 where "h4 = set_parent_rep h3 r (Some q)"
  define h5 where "h5 = set_parent_rep h4 l' (Some p)"
  define h6 where "h6 = slot_heap h5 k (Some q)"
  define rt6 where "rt6 = slot_root rt k (Some q)"
  have ne: "x \<noteq> p" "x \<noteq> q" "w \<noteq> p" "w \<noteq> q" using x w(2) disj by auto
  have xw: "x \<notin> ps l'" "x \<notin> ps r" "x \<notin> kps k" "w \<notin> ps l'" "w \<notin> ps r" "w \<notin> kps k"
    using x w(2) disj by blast+
  have pq: "h3 p = Some (mk_node False (root_ptr l') None (Some x) c' s' e)"
    "h3 q = Some (mk_node False (Some w) (root_ptr r) (ctx_ptr k) c s e')"
    "h2 q = Some (mk_node False (Some w) (root_ptr r) (ctx_ptr k) c s e')"
    using ne disj(3) w(1) by (simp_all add: h3_def h2_def h1_def)
  have pq6: "h6 p = h3 p" "h6 q = h3 q" "h4 p = h3 p" "h4 q = h3 q"
    using disj by (simp_all add: h6_def h5_def h4_def set_parent_rep_other)
  have r3: "rep h3 (Some p) r" using r disj xw by (simp add: h3_def h2_def h1_def)
  have l3: "rep h3 (Some q) l'" using l'(1) disj xw by (simp add: h3_def h2_def h1_def)
  have k3: "rep_ctx h3 rt (Some p) k" using k disj xw by (simp add: h3_def h2_def h1_def)
  have s3: "rep_seg h3 (Some q) m (Some p) k1" using w(4) by (simp add: h3_def)
  have l4: "rep h4 (Some q) l'" using l3 disj by (simp add: h4_def rep_set_parent_rep_frame Int_commute)
  have k5: "rep_ctx h5 rt (Some p) k"
    using k3 disj by (simp add: h5_def h4_def rep_ctx_set_parent_rep_frame Int_commute)
  have s6: "rep_seg h6 (Some q) m (Some p) k1"
  proof -
    have "rep_seg h5 (Some q) m (Some p) k1"
      using s3 disj by (simp add: h5_def h4_def rep_seg_set_parent_rep Int_commute)
    moreover have "\<forall>z\<in>kps k1. h6 z = h5 z"
      using disj(14) by (metis disjoint_iff h6_def slot_heap_other)
    ultimately show ?thesis using rep_seg_agree by metis
  qed
  have r6: "rep h6 (Some q) r"
    using r3 d(3) disj rep_set_parent_rep [OF r3]
    by (simp add: h6_def h5_def h4_def rep_set_parent_rep_frame Int_commute)
  have l6: "rep h6 (Some p) l'"
    using l'(2) disj rep_set_parent_rep [OF l4] by (simp add: h6_def h5_def Int_commute)
  have k6: "rep_ctx h6 rt6 (Some q) k" using k5 d(2) by (simp add: h6_def rt6_def)
  have z6: "zrep h6 rt6 (T c' p s' e l' Leaf) (k1 @ Fr False c q s e' r # k)"
    using s6 r6 l6 k6 pq6 pq k1(2) d l'(2) disj w(1) ne
    by (auto simp: zrep_def rep_ctx_append Int_commute)
  have E1: "set_child h1 x True (Some p) = Some h2"
    using nx by (simp add: write_defs heap_simps h2_def)
  have E2: "set_parent_opt h2 (Some w) (Some q) = Some h3"
    using w(3) by (simp add: write_defs heap_simps h3_def)
  have E3: "set_parent_opt h3 (root_ptr r) (Some q) = Some h4"
    using set_parent_opt_rep [OF r3] by (simp add: h4_def)
  have E4: "set_parent_opt h4 (root_ptr l') (Some p) = Some h5"
    using set_parent_opt_rep [OF l4] by (simp add: h5_def)
  have E5: "replace_child dbg h5 rt (ctx_ptr k) p (Some q) = Some (h6, rt6)"
    using replace_child_slot [OF k5] disj by (simp add: h6_def rt6_def)
  have F: "frame_ok (insert p (insert q (ps l' \<union> kps k1 \<union> ps r \<union> kps k))) h h6" (is "frame_ok ?A _ _")
  proof -
    have "frame_ok ?A h h1"
      unfolding h1_def using hp hq disj
      by (intro frame_ok_upd_trans [OF frame_ok_upd]) auto
    moreover have "frame_ok ?A h1 h2" unfolding h2_def using nx x by (intro frame_ok_upd) auto
    moreover have "frame_ok ?A h2 h3" unfolding h3_def using w(2,3) by (intro frame_ok_upd) auto
    moreover have "frame_ok ?A h3 h4" unfolding h4_def by (rule frame_ok_set_parent_rep [OF r3]) auto
    moreover have "frame_ok ?A h4 h5" unfolding h5_def by (rule frame_ok_set_parent_rep [OF l4]) auto
    moreover have "frame_ok ?A h5 h6" unfolding h6_def by (rule frame_ok_slot_heap [OF k5]) auto
    ultimately show ?thesis by (meson frame_ok_trans subset_refl)
  qed
  show ?thesis
    using hp hq ne disj(3) E1 E2 E3 E4 E5 z6 F pq pq6 unfolding h1_def w(1)
    by (intro exI [of _ w] exI [of _ h2] exI [of _ h3] exI [of _ h4] exI [of _ h5] exI [of _ h6]
        exI [of _ rt6]) simp
qed

lemma swap_near:
  assumes z: "zrep h rt (T c' q s' e' l' Leaf) (Fr False c p s e r # k)"
  shows "\<exists>h4 h5 h6 rt6.
     h p = Some (mk_node False (Some q) (root_ptr r) (ctx_ptr k) c s e) \<and>
     h q = Some (mk_node False (root_ptr l') None (Some p) c' s' e') \<and> p \<noteq> q \<and>
     set_parent_opt (h(p \<mapsto> mk_node False (root_ptr l') None (Some q) c' s' e,
            q \<mapsto> mk_node False (Some p) (root_ptr r) (ctx_ptr k) c s e')) (root_ptr r) (Some q) = Some h4 \<and>
     h4 p = Some (mk_node False (root_ptr l') None (Some q) c' s' e) \<and>
     set_parent_opt h4 (root_ptr l') (Some p) = Some h5 \<and>
     replace_child dbg h5 rt (ctx_ptr k) p (Some q) = Some (h6, rt6) \<and>
     zrep h6 rt6 (T c' p s' e l' Leaf) (Fr False c q s e' r # k) \<and>
     frame_ok (insert p (insert q (ps l' \<union> ps r \<union> kps k))) h h6"
proof -
  from z have hq: "h q = Some (mk_node False (root_ptr l') None (Some p) c' s' e')"
    and hp: "h p = Some (mk_node False (Some q) (root_ptr r) (ctx_ptr k) c s e)"
    and l': "rep h (Some q) l'" "dist l'" and r: "rep h (Some p) r" "dist r"
    and k: "rep_ctx h rt (Some p) k" "kdist k"
    and disj: "q \<notin> ps l'" "p \<noteq> q" "p \<notin> ps l'" "p \<notin> ps r" "p \<notin> kps k"
      "q \<notin> ps r" "q \<notin> kps k" "ps l' \<inter> ps r = {}" "ps l' \<inter> kps k = {}" "ps r \<inter> kps k = {}"
    by (auto simp: zrep_def)
  define h3 where "h3 = h(p \<mapsto> mk_node False (root_ptr l') None (Some q) c' s' e,
            q \<mapsto> mk_node False (Some p) (root_ptr r) (ctx_ptr k) c s e')"
  define h4 where "h4 = set_parent_rep h3 r (Some q)"
  define h5 where "h5 = set_parent_rep h4 l' (Some p)"
  define h6 where "h6 = slot_heap h5 k (Some q)"
  define rt6 where "rt6 = slot_root rt k (Some q)"
  have pq: "h3 p = Some (mk_node False (root_ptr l') None (Some q) c' s' e)"
    "h3 q = Some (mk_node False (Some p) (root_ptr r) (ctx_ptr k) c s e')"
    using disj by (simp_all add: h3_def)
  have pq6: "h6 p = h3 p" "h6 q = h3 q" "h4 p = h3 p"
    using disj by (simp_all add: h6_def h5_def h4_def set_parent_rep_other)
  have r3: "rep h3 (Some p) r" using r disj by (simp add: h3_def)
  have l3: "rep h3 (Some q) l'" using l'(1) disj by (simp add: h3_def)
  have k3: "rep_ctx h3 rt (Some p) k" using k disj by (simp add: h3_def)
  have l4: "rep h4 (Some q) l'" using l3 disj by (simp add: h4_def rep_set_parent_rep_frame Int_commute)
  have k5: "rep_ctx h5 rt (Some p) k"
    using k3 disj by (simp add: h5_def h4_def rep_ctx_set_parent_rep_frame Int_commute)
  have r6: "rep h6 (Some q) r"
    using r3 r(2) disj rep_set_parent_rep [OF r3]
    by (simp add: h6_def h5_def h4_def rep_set_parent_rep_frame Int_commute)
  have l6: "rep h6 (Some p) l'"
    using l'(2) disj rep_set_parent_rep [OF l4] by (simp add: h6_def h5_def Int_commute)
  have k6: "rep_ctx h6 rt6 (Some q) k" using k5 k(2) by (simp add: h6_def rt6_def)
  have z6: "zrep h6 rt6 (T c' p s' e l' Leaf) (Fr False c q s e' r # k)"
    using r6 l6 k6 pq6 pq l'(2) r(2) k(2) disj by (auto simp: zrep_def Int_commute)
  have F: "frame_ok (insert p (insert q (ps l' \<union> ps r \<union> kps k))) h h6" (is "frame_ok ?A _ _")
  proof -
    have "frame_ok ?A h h3"
      unfolding h3_def using hp hq disj
      by (intro frame_ok_upd_trans [OF frame_ok_upd]) auto
    moreover have "frame_ok ?A h3 h4" unfolding h4_def by (rule frame_ok_set_parent_rep [OF r3]) auto
    moreover have "frame_ok ?A h4 h5" unfolding h5_def by (rule frame_ok_set_parent_rep [OF l4]) auto
    moreover have "frame_ok ?A h5 h6" unfolding h6_def by (rule frame_ok_slot_heap [OF k5]) auto
    ultimately show ?thesis by (meson frame_ok_trans subset_refl)
  qed
  have "set_parent_opt h3 (root_ptr r) (Some q) = Some h4"
    "set_parent_opt h4 (root_ptr l') (Some p) = Some h5"
    "replace_child dbg h5 rt (ctx_ptr k) p (Some q) = Some (h6, rt6)"
    using set_parent_opt_rep [OF r3] set_parent_opt_rep [OF l4] replace_child_slot [OF k5] disj
    by (simp_all add: h4_def h5_def h6_def rt6_def)
  with hp hq disj(2) z6 F pq pq6 show ?thesis unfolding h3_def
    by (intro exI [of _ h4] exI [of _ h5] exI [of _ h6] exI [of _ rt6]) simp
qed

text \<open>The node to be removed, already out of the summaries of its ancestors.\<close>

definition del_ready ::
  "('e \<Rightarrow> 's::ab_group_add) \<Rightarrow> color \<Rightarrow> 'p \<Rightarrow> 's \<Rightarrow> 'e \<Rightarrow> ('p, 'e, 's) tree \<Rightarrow> ('p, 'e, 's) tree \<Rightarrow>
   ('p, 'e, 's) ctx \<Rightarrow> bool" where
  "del_ready es c p s e l r k \<longleftrightarrow>
     invc (plug (T c p s e l r) k) \<and> invh (plug (T c p s e l r) k) \<and>
     sumok es l \<and> sumok es r \<and> ksumok es (sm l + sm r) k"

lemma on_right_ksub [simp]: "(\<forall>f\<in>set (ksub v k). on_right f) \<longleftrightarrow> (\<forall>f\<in>set k. on_right f)"
  by (induction v k rule: ksub.induct) auto

text \<open>Colours and black heights do not depend on addresses, elements and summaries.\<close>

lemma ksub_same_colors:
  assumes "col t' = col t" "bh t' = bh t" "invc t' = invc t" "invh t' = invh t"
  shows "col (plug t' (ksub v k)) = col (plug t k) \<and> bh (plug t' (ksub v k)) = bh (plug t k) \<and>
    invc (plug t' (ksub v k)) = invc (plug t k) \<and> invh (plug t' (ksub v k)) = invh (plug t k)"
  using assms
proof (induction v k arbitrary: t t' rule: ksub.induct)
  case (2 v d c p s e sib k)
  from "2.prems" show ?case
    by (simp only: ksub.simps plug.simps, intro "2.IH") (auto simp: N_def)
qed simp

lemma sumok_ksub_plug:
  assumes "sumok es (plug (T c' q s' e' l' Leaf) k1)"
  shows "ksumok es (sm l') (ksub (es e') k1)"
    and "sm (plug l' (ksub (es e') k1)) = sm (plug (T c' q s' e' l' Leaf) k1) - es e'"
proof -
  let ?l = "plug (T c' q s' e' l' Leaf) k1"
  from assms have *: "s' = es e' + sm l'" "sumok es l'" "ksumok es s' k1" by (auto simp: sumok_plug)
  from ksub_ksumok [OF *(3), of "es e'"] *(1) show ks: "ksumok es (sm l') (ksub (es e') k1)" by simp
  then have "sumok es (plug l' (ksub (es e') k1))" using *(2) by (simp add: sumok_plug)
  from sm_nodes [OF this] sm_nodes [OF assms]
  show "sm (plug l' (ksub (es e') k1)) = sm ?l - es e'"
    by (simp add: nodes_plug algebra_simps)
qed

lemma del_ready_swap:
  assumes "del_ready es c p s e (plug (T c' q s' e' l' Leaf) k1) r k"
    and "s = sm (plug (T c' q s' e' l' Leaf) k1) + sm r"
  shows "del_ready es c' p s' e l' Leaf (ksub (es e') k1 @ Fr False c q s e' r # k)"
proof -
  let ?l = "plug (T c' q s' e' l' Leaf) k1" and ?K = "ksub (es e') k1 @ Fr False c q s e' r # k"
  let ?l' = "plug (T c' p s' e l' Leaf) (ksub (es e') k1)"
  from assms(1) have pre: "invc (plug (T c p s e ?l r) k)" "invh (plug (T c p s e ?l r) k)"
    "sumok es ?l" "sumok es r" "ksumok es (sm ?l + sm r) k"
    by (auto simp: del_ready_def)
  have same: "col ?l' = col ?l" "bh ?l' = bh ?l" "invc ?l' = invc ?l" "invh ?l' = invh ?l"
    using ksub_same_colors [of "T c' p s' e l' Leaf" "T c' q s' e' l' Leaf" "es e'" k1] by auto
  have "invc (plug (T c' p s' e l' Leaf) ?K) \<and> invh (plug (T c' p s' e l' Leaf) ?K)"
    using pre(1,2) same by (auto simp: N_def invc_plug invh_plug)
  moreover have "ksumok es (sm l') ?K"
  proof -
    have l': "sumok es l'" using pre(3) by (simp add: sumok_plug)
    have "sumok es (plug (plug l' (ksub (es e') k1)) (Fr False c q s e' r # k))"
      using sumok_ksub_plug [OF pre(3)] l' pre(4,5) assms(2)
      by (simp add: sumok_plug algebra_simps)
    then have "sumok es (plug l' ?K)" by simp
    then show ?thesis by (simp add: sumok_plug del: plug_append)
  qed
  ultimately show ?thesis using pre(3) by (simp add: del_ready_def sumok_plug del: plug_append)
qed

lemma two_upd_both: "f(True := b, False := a) = two False a b"
  by (auto simp: two_def)

context tree_callback
begin

lemma swap_with_pred_zrep:
  assumes z: "zrep h rt (T c p s e l r) k" and child: "root_ptr l = Some child"
    and ready: "del_ready (element_to_summary cb) c p s e l r k" and s: "s = sm l + sm r"
  shows "\<exists>h' rt' c' s' l' k'. swap_with_pred dbg cb h rt p (ctx_ptr k) child = Some (h', rt') \<and>
     zrep h' rt' (T c' p s' e l' Leaf) k' \<and> del_ready (element_to_summary cb) c' p s' e l' Leaf k' \<and>
     nodes (plug l' k') = kl k @ nodes l @ nodes r @ kr k \<and>
     insert p (ps l' \<union> kps k') = insert p (ps l \<union> ps r \<union> kps k) \<and>
     frame_ok (insert p (ps l \<union> ps r \<union> kps k)) h h'"
proof -
  from z have "rep h (Some p) l" by (simp add: zrep_def)
  from find_pred_rep [OF this child, of p False] obtain c' q s' e' l' k1 where
    l: "l = plug (T c' q s' e' l' Leaf) k1" and k1: "\<forall>f\<in>set k1. on_right f"
    and fp: "find_pred h child p False = Some (q, case ctx_ptr k1 of None \<Rightarrow> p | Some x \<Rightarrow> x, k1 \<noteq> [] \<or> False)"
    by blast
  let ?v = "element_to_summary cb e'"
  have zq: "zrep h rt (T c' q s' e' l' Leaf) (k1 @ Fr False c p s e r # k)"
    using z unfolding l by (simp add: zrep_plug [of _ _ "T c p s e _ _"] zrep_plug [of _ _ "T c' q s' e' l' Leaf"] N_def)
  then have hq: "\<exists>n. h q = Some n \<and> element n = e'" by (simp add: zrep_def)
  from sub_between_zrep [OF zq [unfolded T_as_N], of ?v] obtain h1 where
    sb: "sub_between cb h p ?v q = Some h1"
    and z1: "zrep h1 rt (T c' q s' e' l' Leaf) (ksub ?v k1 @ Fr False c p s e r # k)"
    and f1: "frame_ok (kps k1) h h1" by (auto simp: T_as_N)
  have ready': "del_ready (element_to_summary cb) c' p s' e l' Leaf (ksub ?v k1 @ Fr False c q s e' r # k)"
    by (rule del_ready_swap [OF ready [unfolded l] s [unfolded l]])
  have seq: "nodes (plug l' (ksub ?v k1 @ Fr False c q s e' r # k)) = kl k @ nodes l @ nodes r @ kr k"
    by (simp add: l nodes_plug kr_on_right k1)
  have addr: "insert p (ps l' \<union> kps (ksub ?v k1 @ Fr False c q s e' r # k)) = insert p (ps l \<union> ps r \<union> kps k)"
    by (auto simp: l)
  show ?thesis
  proof (cases "ctx_ptr k1")
    case None
    then have k1_Nil: "k1 = []" by (cases k1 rule: ctx_ptr.cases) auto
    from swap_near [of h1 rt c' q s' e' l' c p s e r k dbg] z1 obtain h4 h5 h6 rt6 where sw:
     "h1 p = Some (mk_node False (Some q) (root_ptr r) (ctx_ptr k) c s e)"
     "h1 q = Some (mk_node False (root_ptr l') None (Some p) c' s' e')" "p \<noteq> q"
     "set_parent_opt (h1(p \<mapsto> mk_node False (root_ptr l') None (Some q) c' s' e,
            q \<mapsto> mk_node False (Some p) (root_ptr r) (ctx_ptr k) c s e')) (root_ptr r) (Some q) = Some h4"
     "h4 p = Some (mk_node False (root_ptr l') None (Some q) c' s' e)"
     "set_parent_opt h4 (root_ptr l') (Some p) = Some h5"
     "replace_child dbg h5 rt (ctx_ptr k) p (Some q) = Some (h6, rt6)"
     "zrep h6 rt6 (T c' p s' e l' Leaf) (Fr False c q s e' r # k)"
     "frame_ok (insert p (insert q (ps l' \<union> ps r \<union> kps k))) h1 h6"
      by (auto simp: k1_Nil)
    have q: "q = child" using child by (simp add: l k1_Nil)
    have "swap_with_pred dbg cb h rt p (ctx_ptr k) child = Some (h6, rt6)"
      using fp sb hq sw(1-7) None
      by (auto simp: swap_with_pred_def k1_Nil set_color_def set_summary_def set_parent_def set_child_def
          heap_simps q [symmetric] fun_upd_twist [of q p] two_upd_both)
    moreover have "frame_ok (insert p (ps l \<union> ps r \<union> kps k)) h h6"
      by (rule frame_ok_trans [OF f1 sw(9)]) (auto simp: l k1_Nil)
    ultimately show ?thesis using sw(8) ready' seq addr
      by (intro exI [of _ h6] exI [of _ rt6] exI [of _ c'] exI [of _ s'] exI [of _ l']
          exI [of _ "ksub ?v k1 @ Fr False c q s e' r # k"]) (simp add: k1_Nil)
  next
    case (Some x)
    then have k1_x: "k1 \<noteq> []" "ctx_ptr (ksub ?v k1) = Some x" by auto
    from swap_far [of h1 rt c' q s' e' l' "ksub ?v k1" c p s e r k x dbg] z1 k1 k1_x(2)
    obtain w h2 h3 h4 h5 h6 rt6 where sw:
     "h1 p = Some (mk_node False (Some w) (root_ptr r) (ctx_ptr k) c s e)"
     "h1 q = Some (mk_node False (root_ptr l') None (Some x) c' s' e')"
     "x \<noteq> p" "x \<noteq> q" "p \<noteq> q"
     "set_child (h1(p \<mapsto> mk_node False (root_ptr l') None (Some x) c' s' e,
            q \<mapsto> mk_node False (Some w) (root_ptr r) (ctx_ptr k) c s e')) x True (Some p) = Some h2"
     "h2 q = Some (mk_node False (Some w) (root_ptr r) (ctx_ptr k) c s e')"
     "set_parent_opt h2 (Some w) (Some q) = Some h3"
     "h3 q = Some (mk_node False (Some w) (root_ptr r) (ctx_ptr k) c s e')"
     "set_parent_opt h3 (root_ptr r) (Some q) = Some h4"
     "h4 p = Some (mk_node False (root_ptr l') None (Some x) c' s' e)"
     "set_parent_opt h4 (root_ptr l') (Some p) = Some h5"
     "replace_child dbg h5 rt (ctx_ptr k) p (Some q) = Some (h6, rt6)"
     "zrep h6 rt6 (T c' p s' e l' Leaf) (ksub ?v k1 @ Fr False c q s e' r # k)"
     "frame_ok (insert p (insert q (ps l' \<union> kps (ksub ?v k1) \<union> ps r \<union> kps k))) h1 h6"
      by auto
    have "swap_with_pred dbg cb h rt p (ctx_ptr k) child = Some (h6, rt6)"
      using fp sb hq sw(1-13) Some k1_x(1)
      by (auto simp: swap_with_pred_def set_color_def set_summary_def set_parent_def heap_simps
          fun_upd_twist [of q p])
    moreover have "frame_ok (insert p (ps l \<union> ps r \<union> kps k)) h h6"
      by (rule frame_ok_trans [OF f1 sw(15)]) (auto simp: l)
    ultimately show ?thesis using sw(14) ready' seq addr
      by (intro exI [of _ h6] exI [of _ rt6] exI [of _ c'] exI [of _ s'] exI [of _ l']
          exI [of _ "ksub ?v k1 @ Fr False c q s e' r # k"]) simp
  qed
qed

end

end
