(* ===== verification/Rb_Delete.thy ===== *)
theory Rb_Delete
  imports Rb_Swap
begin

text \<open>
  The last part of \<open>remove\<close>, which takes a node with at most one child out of the tree,
  and the operation as a whole: the in-order sequence loses the node and keeps its order.
\<close>

section \<open>Unlinking\<close>

lemma del_ready_Leaf_right:
  fixes l :: "('p, 'e, 's::ab_group_add) tree"
  assumes "del_ready es c p s e l Leaf k"
  shows "invc l" "invh l" "bh l = 0" "sumok es l" "ksumok es (sm l) k" "kinvc k" "kinvh (cbh c) k"
    "c = Red \<Longrightarrow> l = Leaf" "c = Red \<Longrightarrow> kcol k = Black"
    "l \<noteq> Leaf \<Longrightarrow> \<exists>q s e. l = T Red q s e Leaf Leaf"
proof -
  from assms show *: "invc l" "invh l" "bh l = 0" "sumok es l" "ksumok es (sm l) k" "kinvc k"
    "c = Red \<Longrightarrow> kcol k = Black"
    by (auto simp: del_ready_def invc_plug invh_plug)
  from assms *(3) show "kinvh (cbh c) k" by (simp add: del_ready_def invc_plug invh_plug)
  have bl: "u = Leaf" if "col u = Black" "bh u = 0" for u :: "('p, 'e, 's) tree"
    using that by (cases u) auto
  from assms have "c = Red \<Longrightarrow> col l = Black" by (auto simp: del_ready_def invc_plug)
  with bl *(3) show "c = Red \<Longrightarrow> l = Leaf" by blast
  show "\<exists>q s e. l = T Red q s e Leaf Leaf" if "l \<noteq> Leaf"
  proof (cases l)
    case (T cl q sl el a b)
    with *(3) have "cl = Red" "bh a = 0" by (auto simp: cbh_def split: if_splits)
    moreover from this T *(1,2) have "col a = Black" "col b = Black" "bh b = 0" by auto
    ultimately show ?thesis using T bl by blast
  qed (use that in simp)
qed

context tree_callback
begin

lemma unlink_zrep:
  assumes z: "zrep h rt (T c p s e l Leaf) k"
    and ready: "del_ready (element_to_summary cb) c p s e l Leaf k"
  shows "del_post (element_to_summary cb) (unlink dbg cb h rt p) (nodes (plug l k))
     (insert p (ps l \<union> kps k)) h"
proof -
  let ?es = "element_to_summary cb"
  note inv = del_ready_Leaf_right [OF ready]
  from z have hp: "h p = Some (mk_node False (root_ptr l) None (ctx_ptr k) c s e)"
    and l: "rep h (Some p) l" "dist l" and k: "rep_ctx h rt (Some p) k" "kdist k"
    and disj: "p \<notin> ps l" "p \<notin> kps k" "ps l \<inter> kps k = {}"
    by (auto simp: zrep_def)
  have side: "(case ctx_ptr k of
         Some par \<Rightarrow> h par \<bind> (\<lambda>pn. Some (children pn True = Some p))
       | None \<Rightarrow> Some False) = Some (case ctx_slot k of None \<Rightarrow> False | Some (x, d) \<Rightarrow> d)"
  proof (cases k rule: ctx_ptr.cases)
    case (2 d c' x s' e' sib k2)
    with read_side [of h rt "T c p s e l Leaf" d c' x s' e' sib k2 p "\<lambda>_ b. Some b"] z
    show ?thesis by simp
  qed simp
  let ?h1 = "slot_heap h k None" and ?rt1 = "slot_root rt k None"
  have rc: "replace_child dbg h rt (ctx_ptr k) p None = Some (?h1, ?rt1)"
    using k disj by (simp add: replace_child_slot)
  have z1: "zrep ?h1 ?rt1 Leaf k" using k by (simp add: zrep_def)
  have f1: "frame_ok (insert p (ps l \<union> kps k)) h ?h1" by (rule frame_ok_slot_heap [OF k(1)]) auto
  show ?thesis
  proof (cases "l = Leaf")
    case False
    with inv(8) have c: "c = Black" by (cases c) auto
    from inv(10) False obtain q sq eq where q: "l = T Red q sq eq Leaf Leaf" by blast
    define h2 where "h2 = h(q \<mapsto> mk_node False None None (ctx_ptr k) Black sq eq)"
    have hq: "h q = Some (mk_node False None None (Some p) Red sq eq)" using l q by simp
    have w: "set_parent h q (ctx_ptr k) \<bind> (\<lambda>h. set_color h q Black) = Some h2"
      using hq by (simp add: write_defs heap_simps h2_def)
    have k2: "rep_ctx h2 rt (Some p) k" using k disj q by (simp add: h2_def)
    have "replace_child dbg h2 rt (ctx_ptr k) p (Some q) = Some (slot_heap h2 k (Some q), slot_root rt k (Some q))"
      using k2 disj by (simp add: replace_child_slot)
    then have "unlink dbg cb h rt p = Some (slot_heap h2 k (Some q), slot_root rt k (Some q))"
      using hp hq c q side w by (simp add: unlink_def write_defs heap_simps h2_def)
    moreover have "zrep (slot_heap h2 k (Some q)) (slot_root rt k (Some q)) (T Black q sq eq Leaf Leaf) k"
      using k2 k disj q by (simp add: zrep_def h2_def)
    moreover have "rb_inv ?es (plug (T Black q sq eq Leaf Leaf) k)"
      using inv(4-7) c q by (simp add: rb_inv_def invc_plug invh_plug sumok_plug)
    moreover have "frame_ok (insert p (ps l \<union> kps k)) h (slot_heap h2 k (Some q))"
      by (rule frame_ok_trans [OF frame_ok_upd [of h q _ "ps l"] frame_ok_slot_heap [OF k2 [unfolded h2_def]],
            folded h2_def]) (use hq q in auto)
    ultimately show ?thesis by (intro del_postI) (auto simp: nodes_plug q)
  next
    case l: True
    show ?thesis
    proof (cases "c = Red \<or> k = []")
      case True
      have "unlink dbg cb h rt p = Some (?h1, ?rt1)"
      proof (cases c)
        case Red
        with hp l side rc show ?thesis by (simp add: unlink_def)
      next
        case Black
        with True have "k = []" by simp
        with Black hp l side rc show ?thesis by (simp add: unlink_def)
      qed
      moreover have "rb_inv ?es (plug Leaf k)"
        using inv(4-7,9) True l by (auto simp: rb_inv_def invc_plug invh_plug sumok_plug)
      ultimately show ?thesis using z1 f1 l by (intro del_postI) auto
    next
      case False
      then obtain d c' x s' e' sib k2 where k2: "k = Fr d c' x s' e' sib # k2"
        by (cases k rule: ctx_ptr.cases) auto
      have c: "c = Black" using False by (cases c) auto
      have pre: "del_pre ?es Leaf k" using inv(4-7) l c by (simp add: del_pre_def)
      from disj have "?h1 p = h p" by simp
      then have "unlink dbg cb h rt p = remove_fixup dbg cb ?h1 ?rt1 x d"
        using hp l side rc c k2 by (simp add: unlink_def)
      with remove_fixup_zrep [of ?h1 ?rt1 Leaf d c' x s' e' sib k2 dbg] z1 pre k2
      have "del_post ?es (unlink dbg cb h rt p) (nodes (plug Leaf k)) (ps (Leaf :: ('a,'e,'s) tree) \<union> kps k) ?h1" by simp
      from del_post_frame [OF this f1] show ?thesis using l by auto
    qed
  qed
qed

section \<open>Removal as a whole\<close>

text \<open>The two children of a node that has only a right one change sides.\<close>

lemma swap_sides:
  assumes "zrep h rt (T c p s e Leaf r) k"
  shows "\<exists>n h'. h p = Some n \<and> modify h p (\<lambda>n'. n'\<lparr>children := (\<lambda>b. children n (\<not> b))\<rparr>) = Some h' \<and>
    zrep h' rt (T c p s e r Leaf) k \<and> frame_ok {p} h h'"
proof -
  from assms have hp: "h p = Some (mk_node False None (root_ptr r) (ctx_ptr k) c s e)" by (simp add: zrep_def)
  have "(\<lambda>b. two False None (root_ptr r) (\<not> b)) = two False (root_ptr r) None"
    by (auto simp: two_def)
  with assms hp show ?thesis by (auto simp: heap_simps zrep_def intro!: frame_ok_upd)
qed

lemma del_ready_sides: "del_ready es c p s e Leaf r k \<Longrightarrow> del_ready es c p s e r Leaf k"
  by (auto simp: del_ready_def invc_plug invh_plug)

lemma node_remove_zrep:
  assumes z: "zrep h rt (T c p s e l r) k" and inv: "rb_inv (element_to_summary cb) (plug (T c p s e l r) k)"
  shows "del_post (element_to_summary cb) (node_remove dbg cb h rt p)
    (kl k @ nodes l @ nodes r @ kr k) (insert p (ps l \<union> ps r \<union> kps k)) h"
    (is "del_post ?es _ ?xs ?A h")
proof -
  let ?s = "s - ?es e"
  from z have hp: "h p = Some (mk_node False (root_ptr l) (root_ptr r) (ctx_ptr k) c s e)" by (simp add: zrep_def)
  from sub_ancestors_zrep [OF z [unfolded T_as_N], of "?es e"] obtain h1 where
    sa: "sub_ancestors cb h (?es e) (Some p) = Some h1" and z1: "zrep h1 rt (T c p ?s e l r) (ksub (?es e) k)"
    and f1: "frame_ok (insert p (kps k)) h h1" by (auto simp: T_as_N)
  from z1 have hp1: "h1 p = Some (mk_node False (root_ptr l) (root_ptr r) (ctx_ptr k) c ?s e)"
    by (simp add: zrep_def)
  from inv have s: "?s = sm l + sm r" and sums: "sumok ?es l" "sumok ?es r" "ksumok ?es s k"
    by (auto simp: rb_inv_def sumok_plug)
  have ready: "del_ready ?es c p ?s e l r (ksub (?es e) k)"
    using inv sums ksub_ksumok [OF sums(3), of "?es e"] unfolding s
    by (auto simp: del_ready_def rb_inv_def invc_plug invh_plug)
  note start = hp sa hp1
  consider (none) "l = Leaf" "r = Leaf" "k = []"
    | (left) "r = Leaf" "l \<noteq> Leaf \<or> k \<noteq> []"
    | (right) "l = Leaf" "r \<noteq> Leaf"
    | (both) "l \<noteq> Leaf" "r \<noteq> Leaf" by blast
  then show ?thesis
  proof cases
    case none
    with z have "rt = Some p" by (simp add: zrep_def)
    with none start have "node_remove dbg cb h rt p = Some (h1, None)" by (simp add: node_remove_def)
    with none f1 show ?thesis
      by (intro del_postI [where t = Leaf and k = "[]"]) (auto simp: zrep_def rb_inv_def)
  next
    case left
    with start have "node_remove dbg cb h rt p = unlink dbg cb h1 rt p"
      unfolding node_remove_def by (cases "root_ptr l"; cases "ctx_ptr k"; simp split: option.splits)
        (cases k rule: ctx_ptr.cases; simp)
    moreover have "del_post ?es (unlink dbg cb h1 rt p) ?xs (insert p (ps l \<union> kps k)) h1"
      using unlink_zrep [of h1 rt c p ?s e l "ksub (?es e) k" dbg] z1 ready left by (simp add: nodes_plug)
    ultimately show ?thesis using del_post_frame [OF _ f1, where C = ?A] by auto
  next
    case right
    from swap_sides [OF z1 [unfolded right(1)]] obtain n h2 where 2: "h1 p = Some n"
      "modify h1 p (\<lambda>n'. n'\<lparr>children := (\<lambda>b. children n (\<not> b))\<rparr>) = Some h2"
      "zrep h2 rt (T c p ?s e r Leaf) (ksub (?es e) k)" "frame_ok {p} h1 h2" by blast
    from right obtain y where y: "root_ptr r = Some y" by (cases r) auto
    have "node_remove dbg cb h rt p = unlink dbg cb h2 rt p"
      using 2(1,2) hp1 start right(1) y by (cases "ctx_ptr k") (auto simp: heap_simps node_remove_def)
    moreover have "del_post ?es (unlink dbg cb h2 rt p) ?xs (insert p (ps r \<union> kps k)) h2"
      using unlink_zrep [of h2 rt c p ?s e r "ksub (?es e) k" dbg] 2(3)
        del_ready_sides [OF ready [unfolded right(1)]] right(1)
      by (simp add: nodes_plug)
    ultimately show ?thesis
      using del_post_frame [OF _ frame_ok_Un [OF f1 2(4)], where C = ?A] by auto
  next
    case both
    then obtain x y where xy: "root_ptr l = Some x" "root_ptr r = Some y" by (cases l; cases r) auto
    from swap_with_pred_zrep [OF z1 xy(1) ready s, of dbg] obtain h2 rt2 c' s' l' k' where 2:
      "swap_with_pred dbg cb h1 rt p (ctx_ptr k) x = Some (h2, rt2)"
      "zrep h2 rt2 (T c' p s' e l' Leaf) k'" "del_ready ?es c' p s' e l' Leaf k'"
      "nodes (plug l' k') = ?xs" "insert p (ps l' \<union> kps k') = ?A" "frame_ok ?A h1 h2" by auto
    have "node_remove dbg cb h rt p = unlink dbg cb h2 rt2 p"
      using start xy 2(1) by (cases "ctx_ptr k") (auto simp: node_remove_def)
    with unlink_zrep [OF 2(2,3), of dbg] 2(4,5) have "del_post ?es (node_remove dbg cb h rt p) ?xs ?A h2" by simp
    then show ?thesis
      by (rule del_post_frame [OF _ frame_ok_Un [OF f1 2(6)]]) auto
  qed
qed

text \<open>
  The removed node leaves the sequence; nothing else moves, and only the tree's own nodes
  are written.
\<close>

lemma tree_rep_remove:
  assumes "tree_rep cb h rt (as @ (p, e) # bs)"
  shows "\<exists>h' rt'. node_remove dbg cb h rt p = Some (h', rt') \<and> tree_rep cb h' rt' (as @ bs) \<and>
    frame_ok (fst ` set (as @ (p, e) # bs)) h h'"
proof -
  obtain c s l r k where
    z: "zrep h rt (T c p s e l r) k" "rb_inv (element_to_summary cb) (plug (T c p s e l r) k)"
    "as = kl k @ nodes l" "bs = nodes r @ kr k" by (rule tree_rep_split [OF assms])
  from node_remove_zrep [OF z(1,2), of dbg] obtain h' rt' t' where
    "node_remove dbg cb h rt p = Some (h', rt')" "zrep h' rt' t' []" "rb_inv (element_to_summary cb) t'"
    "nodes t' = as @ bs" "frame_ok (insert p (ps l \<union> ps r \<union> kps k)) h h'"
    by (auto simp: del_post_def z(3,4))
  moreover have "insert p (ps l \<union> ps r \<union> kps k) = fst ` set (as @ (p, e) # bs)"
    using ps_nodes [of "plug (T c p s e l r) k"] by (simp add: nodes_plug z(3,4))
  ultimately show ?thesis by (auto simp: tree_rep_def)
qed

end

end
