(* ===== verification/Rb_Balance.thy ===== *)
theory Rb_Balance
  imports Rb_Delete
begin

text \<open>
  Balance: a node of a tree with \<open>n\<close> nodes is at most \<open>2 * log (n + 1)\<close> parent links away from
  the root, which bounds the work of every operation.
\<close>

section \<open>Height and black height\<close>

fun ht :: "('p, 'e, 's) tree \<Rightarrow> nat" where
  "ht Leaf = 0"
| "ht (T c p s e l r) = Suc (max (ht l) (ht r))"

lemma ht_N [simp]: "ht (N d c p s e a b) = Suc (max (ht a) (ht b))"
  by (simp add: N_def max.commute)

lemma ht_bh: "invc t \<Longrightarrow> invh t \<Longrightarrow> ht t \<le> 2 * bh t + (if col t = Red then 1 else 0)"
  by (induction t) (auto split: if_splits)

lemma bh_nodes: "invh t \<Longrightarrow> 2 ^ bh t \<le> length (nodes t) + 1"
proof (induction t)
  case (T c p s e l r)
  then have "2 ^ bh l \<le> length (nodes l) + 1" "2 ^ bh l \<le> length (nodes r) + 1" by simp_all
  then show ?case by (cases c) simp_all
qed simp

lemma ht_plug: "length k + ht t \<le> ht (plug t k)"
proof (induction k arbitrary: t)
  case (Cons f k)
  obtain d c p s e sib where f: "f = Fr d c p s e sib" by (cases f)
  have "length k + ht (N d c p s e t sib) \<le> ht (plug t (f # k))" using Cons.IH [of "N d c p s e t sib"] by (simp only: f plug.simps)
  then show ?case by simp
qed simp

section \<open>Following parent pointers\<close>

fun ancestor :: "('p, 'e, 's) heap \<Rightarrow> nat \<Rightarrow> 'p \<Rightarrow> 'p option" where
  "ancestor h 0 p = Some p"
| "ancestor h (Suc n) p = (case h p of None \<Rightarrow> None | Some nd \<Rightarrow>
     (case parent nd of None \<Rightarrow> None | Some q \<Rightarrow> ancestor h n q))"

lemma ancestor_zrep: "zrep h rt (T c p s e l r) k \<Longrightarrow> ancestor h (length k) p = rt"
proof (induction k arbitrary: c p s e l r)
  case Nil
  then show ?case by (simp add: zrep_def)
next
  case (Cons f k)
  obtain d c' q s' e' sib where f: "f = Fr d c' q s' e' sib" by (cases f)
  from Cons.prems have "h p = Some (mk_node False (root_ptr l) (root_ptr r) (Some q) c s e)"
    by (simp add: zrep_def f)
  moreover have "ancestor h (length k) q = rt"
    using Cons.prems Cons.IH unfolding f zrep_up N_def by blast
  ultimately show ?case by simp
qed

lemma depth_bound:
  assumes "tree_rep cb h rt xs" and "p \<in> fst ` set xs"
  shows "\<exists>k. ancestor h k p = rt \<and> 2 ^ (k div 2) \<le> length xs + 1"
proof -
  from assms(2) obtain e as bs where as: "xs = as @ (p, e) # bs" by (force dest: split_list)
  obtain c s l r k where
    z: "zrep h rt (T c p s e l r) k" "rb_inv (element_to_summary cb) (plug (T c p s e l r) k)"
    and "as = kl k @ nodes l" "bs = nodes r @ kr k"
    by (rule tree_rep_split [OF assms(1) [unfolded as]])
  then have xs: "xs = nodes (plug (T c p s e l r) k)" by (simp add: as nodes_plug)
  let ?t = "plug (T c p s e l r) k"
  from z(2) have "invc ?t" "invh ?t" by (simp_all add: rb_inv_def)
  with ht_bh [of ?t] have "ht ?t \<le> 2 * bh ?t + 1" by (auto split: if_splits)
  with ht_plug [of k "T c p s e l r"] have "length k div 2 \<le> bh ?t" by simp
  then have "(2::nat) ^ (length k div 2) \<le> 2 ^ bh ?t" by simp
  also have "\<dots> \<le> length xs + 1" using bh_nodes [OF \<open>invh ?t\<close>] xs by simp
  finally show ?thesis using ancestor_zrep [OF z(1)] by blast
qed

end
