(* ===== verification/Rb_Validate.thy ===== *)
theory Rb_Validate
  imports Rb_Balance
begin

text \<open>
  The test module of \<open>src/utils/rbtree.rs\<close>: the iterators, the printed form and the validator of trees, which run on the
  same nodes and pointers.  The validator accepts every tree that the operations leave behind, and the iterators go
  through its sequence.
\<close>

section \<open>Iterators\<close>

text \<open>
  \<open>std::iter::from_fn\<close> yields while its closure returns an item; the closure moves the cursor before it does.  The lists
  are what \<open>collect\<close> gives.
\<close>

partial_function (option) iter_loop ::
  "('p \<Rightarrow> 'p option option) \<Rightarrow> 'p option \<Rightarrow> 'p list option" where
  "iter_loop step cursor = (case cursor of
     None \<Rightarrow> Some []
   | Some current \<Rightarrow> do {
       cursor \<leftarrow> step current;
       rest \<leftarrow> iter_loop step cursor;
       Some (current # rest)
     })"

definition node_iter :: "('p, 'e, 's) heap \<Rightarrow> 'p option \<Rightarrow> 'p list option" where
  "node_iter h p_node = do {
     cursor \<leftarrow> (case p_node of None \<Rightarrow> Some None | Some pn \<Rightarrow> map_option Some (node_min h pn));
     iter_loop (successor h) cursor
   }"

definition node_iter_rev :: "('p, 'e, 's) heap \<Rightarrow> 'p option \<Rightarrow> 'p list option" where
  "node_iter_rev h p_node = do {
     cursor \<leftarrow> (case p_node of None \<Rightarrow> Some None | Some pn \<Rightarrow> map_option Some (node_max h pn));
     iter_loop (predecessor h) cursor
   }"

lemma iter_loop_simps [simp]:
  "iter_loop step None = Some []"
  "iter_loop step (Some p) = do { c \<leftarrow> step p; rest \<leftarrow> iter_loop step c; Some (p # rest) }"
  by (subst iter_loop.simps, simp)+

lemma iter_from:
  "tree_rep cb h rt (as @ xs) \<Longrightarrow> iter_loop (successor h) (map_option fst (hd_opt xs)) = Some (map fst xs)"
proof (induction xs arbitrary: as)
  case (Cons x xs)
  obtain p e where x: "x = (p, e)" by (cases x)
  with Cons.IH [of "as @ [x]"] Cons.prems tree_rep_successor [of cb h rt as p e xs] show ?case by simp
qed simp

lemma iter_rev_from:
  "tree_rep cb h rt (xs @ bs) \<Longrightarrow> iter_loop (predecessor h) (map_option fst (last_opt xs)) = Some (map fst (rev xs))"
proof (induction xs arbitrary: bs rule: rev_induct)
  case (snoc x xs)
  obtain p e where x: "x = (p, e)" by (cases x)
  with snoc.IH [of "x # bs"] snoc.prems tree_rep_predecessor [of cb h rt xs p e bs] show ?case by simp
qed simp

lemma node_iter_nodes:
  assumes "tree_rep cb h rt xs"
  shows "node_iter h rt = Some (map fst xs)" "node_iter_rev h rt = Some (map fst (rev xs))"
proof -
  have "node_iter h rt = Some (map fst xs) \<and> node_iter_rev h rt = Some (map fst (rev xs))"
  proof (cases rt)
    case None
    with tree_rep_root [OF assms] show ?thesis by (simp add: node_iter_def node_iter_rev_def)
  next
    case (Some r)
    with tree_rep_root [OF assms] have "xs \<noteq> []" by simp
    moreover from this have "hd_opt xs = Some (hd xs)" by (cases xs) simp_all
    moreover from \<open>xs \<noteq> []\<close> have "last_opt xs = Some (last xs)" by (cases xs rule: rev_cases) (simp_all add: last_opt_def)
    ultimately show ?thesis
      using iter_from [of cb h rt "[]" xs] iter_rev_from [of cb h rt xs "[]"] assms Some
        tree_rep_min [of cb h r xs] tree_rep_max [of cb h r xs]
      by (simp add: node_iter_def node_iter_rev_def)
  qed
  then show "node_iter h rt = Some (map fst xs)" "node_iter_rev h rt = Some (map fst (rev xs))" by blast+
qed

section \<open>The printed form\<close>

text \<open>\<open>dump\<close> writes a line for every node and every absent child, with its depth; here the lines are a list.\<close>

partial_function (option) node_dump ::
  "('p, 'e, 's) heap \<Rightarrow> 'p option \<Rightarrow> nat \<Rightarrow> (nat \<times> ('p \<times> 'e \<times> 's \<times> color) option) list option" where
  "node_dump h p_node level = (case p_node of
     None \<Rightarrow> Some [(level, None)]
   | Some p_node \<Rightarrow> do {
       node \<leftarrow> h p_node;
       left \<leftarrow> node_dump h (children node False) (level + 1);
       right \<leftarrow> node_dump h (children node True) (level + 1);
       Some ((level, Some (p_node, element node, summary node, color node)) # left @ right)
     })"

lemma node_dump_rep: "rep h q t \<Longrightarrow> \<exists>lines. node_dump h (root_ptr t) level = Some lines"
proof (induction t arbitrary: q level)
  case Leaf
  show ?case by (subst node_dump.simps) simp
next
  case (T c p s e l r)
  from T.prems have "rep h (Some p) l" "rep h (Some p) r" by simp_all
  from T.IH(1) [OF this(1), of "Suc level"] T.IH(2) [OF this(2), of "Suc level"] T.prems show ?case
    by (subst node_dump.simps) auto
qed

section \<open>The validator\<close>

definition assert :: "bool \<Rightarrow> unit option" where
  "assert c = (if c then Some () else None)"

lemma assert_True [simp]: "assert True = Some ()"
  by (simp add: assert_def)

lemma assert_intro: "c \<Longrightarrow> assert c = Some ()"
  by (simp add: assert_def)

text \<open>\<open>Vec::pop\<close> and \<open>unwrap\<close>\<close>

definition pop_unwrap :: "'a list \<Rightarrow> 'a list option" where
  "pop_unwrap xs = (if xs = [] then None else Some (butlast xs))"

lemma pop_unwrap_snoc [simp]: "pop_unwrap (xs @ [x]) = Some xs"
  by (simp add: pop_unwrap_def)

text \<open>The closure \<open>report_path\<close>, with the variable it captures.\<close>

definition report_path :: "'p list option \<Rightarrow> 'p list \<Rightarrow> 'p list option option" where
  "report_path found_black_path complete_black_path = (case found_black_path of
     Some found \<Rightarrow> do { assert (length complete_black_path = length found); Some (Some found) }
   | None \<Rightarrow> Some (Some complete_black_path))"

text \<open>The part about the parent, and the recursion with the state of the closure and the two paths.\<close>

definition validate_parent :: "('p, 'e, 's) heap \<Rightarrow> 'p \<Rightarrow> ('p, 'e, 's) node \<Rightarrow> unit option" where
  "validate_parent h p_node node = (case parent node of
     None \<Rightarrow> Some ()
   | Some p_parent \<Rightarrow> do {
       par \<leftarrow> h p_parent;
       assert (children par False = Some p_node \<or> children par True = Some p_node);
       if color par = Red then assert (color node = Black) else Some ()
     })"

partial_function (option) validate_node ::
  "('e, 's) callback \<Rightarrow> ('p, 'e, 's) heap \<Rightarrow> 'p \<Rightarrow> 'p list option \<Rightarrow> 'p list \<Rightarrow> 'p list \<Rightarrow>
   ('p list option \<times> 'p list \<times> 'p list) option" where
  "validate_node cb h p_node found black_path visited_path = do {
     node \<leftarrow> h p_node;
     validate_parent h p_node node;
     assert (p_node \<notin> set visited_path);
     let black_path = (if color node = Black then black_path @ [p_node] else black_path);
     let visited_path = visited_path @ [p_node];
     let s = element_to_summary cb (element node);
     (s, found, black_path, visited_path) \<leftarrow> (case children node False of
         Some child \<Rightarrow> do {
           (found, black_path, visited_path) \<leftarrow> validate_node cb h child found black_path visited_path;
           c \<leftarrow> h child;
           Some (add_assign_summary cb s (summary c), found, black_path, visited_path)
         }
       | None \<Rightarrow> do {
           found \<leftarrow> report_path found black_path;
           Some (s, found, black_path, visited_path)
         });
     (s, found, black_path, visited_path) \<leftarrow> (case children node True of
         Some child \<Rightarrow> do {
           (found, black_path, visited_path) \<leftarrow> validate_node cb h child found black_path visited_path;
           c \<leftarrow> h child;
           Some (add_assign_summary cb s (summary c), found, black_path, visited_path)
         }
       | None \<Rightarrow> do {
           found \<leftarrow> report_path found black_path;
           Some (s, found, black_path, visited_path)
         });
     black_path \<leftarrow> (if color node = Black then pop_unwrap black_path else Some black_path);
     visited_path \<leftarrow> pop_unwrap visited_path;
     assert (s = summary node);
     Some (found, black_path, visited_path)
   }"

text \<open>The number of times an item occurs, as the map \<open>counts\<close> has it.\<close>

definition count_entries :: "'p list \<Rightarrow> 'p \<Rightarrow> nat" where
  "count_entries qs p = fold (\<lambda>q n. if q = p then n + 1 else n) qs 0"

definition validate :: "('e, 's) callback \<Rightarrow> ('p, 'e, 's) heap \<Rightarrow> 'p option \<Rightarrow> unit option" where
  "validate cb h tree = do {
     (case tree of
        Some node \<Rightarrow> map_option (\<lambda>_. ()) (validate_node cb h node None [] [])
      | None \<Rightarrow> Some ());
     qs \<leftarrow> node_iter h tree;
     assert (\<forall>p\<in>set qs. count_entries qs p = 1)
   }"

section \<open>The validator accepts valid trees\<close>

text \<open>After a subtree has been visited, a path has been found, as long as all others.\<close>

definition found_after :: "'p list option \<Rightarrow> nat \<Rightarrow> 'p list option \<Rightarrow> bool" where
  "found_after found n found' \<longleftrightarrow> (\<exists>f. found' = Some f \<and> length f = n) \<and> (found \<noteq> None \<longrightarrow> found' = found)"

lemma report_path_ok:
  "(\<And>f. found = Some f \<Longrightarrow> length f = length black) \<Longrightarrow> \<exists>found'. report_path found black = Some found' \<and> found_after found (length black) found'"
  by (cases found) (auto simp: report_path_def found_after_def assert_def)

definition child_ok :: "('p, 'e, 's) heap \<Rightarrow> 'p option \<Rightarrow> ('p, 'e, 's) tree \<Rightarrow> bool" where
  "child_ok h q t \<longleftrightarrow> (\<forall>pq. q = Some pq \<longrightarrow> t = Leaf \<or> (\<exists>pn. h pq = Some pn \<and>
     (children pn False = root_ptr t \<or> children pn True = root_ptr t) \<and> (color pn = Red \<longrightarrow> col t = Black)))"

context tree_callback
begin

text \<open>One child: its subtree has been validated, or its absence reported.\<close>

definition validate_child where
  "validate_child h c s found black visited = (case c of
     Some child \<Rightarrow> do {
       (found, black, visited) \<leftarrow> validate_node cb h child found black visited;
       n \<leftarrow> h child;
       Some (add_assign_summary cb s (summary n), found, black, visited)
     }
   | None \<Rightarrow> do {
       found \<leftarrow> report_path found black;
       Some (s, found, black, visited)
     })"

lemma validate_node_alt:
  "validate_node cb h p found black visited = do {
     n \<leftarrow> h p;
     validate_parent h p n;
     assert (p \<notin> set visited);
     let black = (if color n = Black then black @ [p] else black);
     let visited = visited @ [p];
     let s = element_to_summary cb (element n);
     (s, found, black, visited) \<leftarrow> validate_child h (children n False) s found black visited;
     (s, found, black, visited) \<leftarrow> validate_child h (children n True) s found black visited;
     black \<leftarrow> (if color n = Black then pop_unwrap black else Some black);
     visited \<leftarrow> pop_unwrap visited;
     assert (s = summary n);
     Some (found, black, visited)
   }"
  by (subst validate_node.simps) (simp only: validate_child_def)

lemma validate_subtree:
  assumes "rep h q t" "child_ok h q t" "dist t" "invc t" "invh t" "sumok (element_to_summary cb) t"
    and "set visited \<inter> ps t = {}" "\<And>f. found = Some f \<Longrightarrow> length f = length black + bh t"
  shows "\<exists>found'. validate_child h (root_ptr t) s found black visited = Some (s + sm t, found', black, visited) \<and>
    found_after found (length black + bh t) found'"
  using assms
proof (induction t arbitrary: q s found black visited)
  case Leaf
  with report_path_ok [of found black] show ?case by (auto simp: validate_child_def)
next
  case (T c p s0 e l r)
  let ?n = "mk_node False (root_ptr l) (root_ptr r) q c s0 e"
  let ?black = "if c = Black then black @ [p] else black" and ?v = "visited @ [p]"
  from T.prems(1) have n: "h p = Some ?n" and rl: "rep h (Some p) l" and rr: "rep h (Some p) r" by simp_all
  from T.prems(2) n have vp: "validate_parent h p ?n = Some ()"
    by (auto simp: validate_parent_def child_ok_def assert_def split: option.splits)
  have ok: "child_ok h (Some p) l" "child_ok h (Some p) r" using T.prems(4) n by (auto simp: child_ok_def)
  have len: "length ?black + bh l = length black + bh (T c p s0 e l r)" "length ?black + bh r = length black + bh (T c p s0 e l r)"
    using T.prems(5) by (cases c; simp)+
  have sub: "dist l" "dist r" "invc l" "invc r" "invh l" "invh r" "sumok (element_to_summary cb) l" "sumok (element_to_summary cb) r"
    "set ?v \<inter> ps l = {}" "set ?v \<inter> ps r = {}" "p \<notin> set visited" "s0 = element_to_summary cb e + sm l + sm r"
    using T.prems(3-7) by auto
  have "\<exists>f. validate_child h (root_ptr l) (element_to_summary cb e) found ?black ?v = Some (element_to_summary cb e + sm l, f, ?black, ?v) \<and>
      found_after found (length ?black + bh l) f"
    by (rule T.IH(1) [OF rl ok(1) sub(1,3,5,7,9)]) (use T.prems(8) len(1) in simp)
  then obtain f1 where
    f1: "validate_child h (root_ptr l) (element_to_summary cb e) found ?black ?v = Some (element_to_summary cb e + sm l, f1, ?black, ?v)"
      "found_after found (length ?black + bh l) f1" by blast
  have "\<exists>f. validate_child h (root_ptr r) (element_to_summary cb e + sm l) f1 ?black ?v = Some (element_to_summary cb e + sm l + sm r, f, ?black, ?v) \<and>
      found_after f1 (length ?black + bh r) f"
    by (rule T.IH(2) [OF rr ok(2) sub(2,4,6,8,10)]) (use f1(2) len in \<open>auto simp: found_after_def\<close>)
  then obtain f2 where
    f2: "validate_child h (root_ptr r) (element_to_summary cb e + sm l) f1 ?black ?v = Some (s0, f2, ?black, ?v)"
      "found_after f1 (length ?black + bh r) f2" using sub(12) by auto
  have pop: "(if color ?n = Black then pop_unwrap ?black else Some ?black) = Some black" by simp
  have "validate_node cb h p found black visited = Some (f2, black, visited)"
    unfolding validate_node_alt using n vp sub(11) f1(1) f2(1) pop by (simp add: assert_intro)
  moreover have "found_after found (length black + bh (T c p s0 e l r)) f2"
    using f1(2) f2(2) len by (auto simp: found_after_def)
  ultimately show ?case using n by (auto simp: validate_child_def)
qed

lemma count_entries_fold: "fold (\<lambda>q n. if q = p then n + 1 else n) qs k = k + length (filter (\<lambda>q. q = p) qs)"
  by (induction qs arbitrary: k) auto

lemma count_entries_distinct: "distinct qs \<Longrightarrow> p \<in> set qs \<Longrightarrow> count_entries qs p = 1"
proof -
  assume "distinct qs" "p \<in> set qs"
  then have "filter (\<lambda>q. q = p) qs = [p]" by (induction qs) (auto simp: filter_empty_conv)
  then show ?thesis by (simp add: count_entries_def count_entries_fold)
qed

lemma validate_ok:
  assumes "tree_rep cb h rt xs"
  shows "validate cb h rt = Some ()"
proof -
  from assms obtain t where t: "rep h None t" "rt = root_ptr t" "dist t" "rb_inv (element_to_summary cb) t"
    by (auto simp: tree_rep_def zrep_def)
  have "(case rt of Some node \<Rightarrow> map_option (\<lambda>_. ()) (validate_node cb h node None [] []) | None \<Rightarrow> Some ()) = Some ()"
  proof (cases t)
    case (T c p s e l r)
    have "child_ok h None t" by (simp add: child_ok_def)
    with validate_subtree [OF t(1) _ t(3), where visited = "[]" and found = None and black = "[]" and s = 0] t(4) T t(2) show ?thesis
      by (auto simp: rb_inv_def validate_child_def split: option.splits bind_splits)
  qed (simp add: t(2))
  moreover have "\<forall>p\<in>set (map fst xs). count_entries (map fst xs) p = 1"
    using count_entries_distinct [OF tree_rep_distinct [OF assms]] by blast
  ultimately show ?thesis using node_iter_nodes(1) [OF assms] by (simp add: validate_def assert_intro)
qed

text \<open>
  Conversely, what the validator finds: a subtree through which it has passed has the colours, the black height and the
  summaries of a valid one.
\<close>

lemma report_path_Some: "report_path found black = Some found' \<Longrightarrow> found_after found (length black) found'"
  by (auto simp: report_path_def found_after_def assert_def Option.bind_eq_Some_conv split: option.splits if_splits)

lemma validate_subtree_only:
  assumes "rep h q t" "validate_child h (root_ptr t) s found black visited = Some (s', found', black', visited')"
  shows "black' = black \<and> visited' = visited \<and> s' = s + sm t \<and> found_after found (length black + bh t) found' \<and>
    invc t \<and> invh t \<and> sumok (element_to_summary cb) t \<and>
    (\<forall>pq pn. q = Some pq \<longrightarrow> h pq = Some pn \<longrightarrow> color pn = Red \<longrightarrow> col t = Black)"
  using assms
proof (induction t arbitrary: q s found black visited s' found' black' visited')
  case Leaf
  then show ?case by (auto simp: validate_child_def Option.bind_eq_Some_conv dest: report_path_Some)
next
  case (T c p s0 e l r)
  let ?n = "mk_node False (root_ptr l) (root_ptr r) q c s0 e"
  let ?black = "if c = Black then black @ [p] else black" and ?v = "visited @ [p]"
  from T.prems(1) have n: "h p = Some ?n" and rl: "rep h (Some p) l" and rr: "rep h (Some p) r" by simp_all
  from T.prems(2) n have s': "s' = s + s0" and node: "validate_node cb h p found black visited = Some (found', black', visited')"
    by (auto simp: validate_child_def Option.bind_eq_Some_conv)
  from node n obtain s1 f1 b1 v1 s2 b2 v2 where
    vp: "validate_parent h p ?n = Some ()"
    and 1: "validate_child h (root_ptr l) (element_to_summary cb e) found ?black ?v = Some (s1, f1, b1, v1)"
    and 2: "validate_child h (root_ptr r) s1 f1 b1 v1 = Some (s2, found', b2, v2)"
    and pop: "(if c = Black then pop_unwrap b2 else Some b2) = Some black'" "pop_unwrap v2 = Some visited'" "s2 = s0"
    unfolding validate_node_alt by (auto simp: Option.bind_eq_Some_conv Let_def assert_def split: if_splits)
  from T.IH(1) [OF rl 1] n have L: "b1 = ?black" "v1 = ?v" "s1 = element_to_summary cb e + sm l"
    "found_after found (length ?black + bh l) f1" "invc l" "invh l" "sumok (element_to_summary cb) l" "c = Red \<longrightarrow> col l = Black"
    by simp_all
  from T.IH(2) [OF rr 2] n have R: "b2 = ?black" "v2 = ?v" "s2 = s1 + sm r" "found_after f1 (length ?black + bh r) found'"
    "invc r" "invh r" "sumok (element_to_summary cb) r" "c = Red \<longrightarrow> col r = Black" by (simp_all add: L)
  from L(4) R(4) have bh: "bh l = bh r" "found_after found (length black + bh (T c p s0 e l r)) found'"
    by (cases c; force simp: found_after_def)+
  have parent: "\<forall>pq pn. q = Some pq \<longrightarrow> h pq = Some pn \<longrightarrow> color pn = Red \<longrightarrow> c = Black"
    using vp by (auto simp: validate_parent_def assert_def Option.bind_eq_Some_conv split: if_splits)
  from pop L R have "black' = black" "visited' = visited" by (auto split: if_splits)
  then show ?case using L R bh parent s' pop(3) by (simp add: L(3))
qed

theorem validate_iff:
  assumes "zrep h rt t []"
  shows "validate cb h rt = Some () \<longleftrightarrow> rb_inv (element_to_summary cb) t"
proof
  assume "rb_inv (element_to_summary cb) t"
  with assms have "tree_rep cb h rt (nodes t)" by (auto simp: tree_rep_def)
  then show "validate cb h rt = Some ()" by (rule validate_ok)
next
  assume v: "validate cb h rt = Some ()"
  from assms have t: "rep h None t" "rt = root_ptr t" by (simp_all add: zrep_def)
  show "rb_inv (element_to_summary cb) t"
  proof (cases t)
    case (T c p s e l r)
    with v t obtain f b vi where "validate_node cb h p None [] [] = Some (f, b, vi)"
      by (auto simp: validate_def Option.bind_eq_Some_conv)
    with t T have "validate_child h (root_ptr t) 0 None [] [] = Some (s, f, b, vi)" by (simp add: validate_child_def)
    from validate_subtree_only [OF t(1) this] show ?thesis by (simp add: rb_inv_def)
  qed (simp add: rb_inv_def)
qed

end

end
