(* ===== verification/Rb_Correct.thy ===== *)
theory Rb_Correct
  imports Rb_Validate
begin

text \<open>
  The properties of the tree operations, stated over the in-order sequence that a tree cell and the node heap
  represent, those of the validator, and the example from which their witnesses are taken.
\<close>

section \<open>An example tree\<close>

text \<open>The nodes at 4, 5 and 6 of a tree of numbers, with the number of elements as summary.\<close>

definition count_callback :: "(nat, int) callback" where
  "count_callback = \<lparr>zero_summary = 0, element_to_summary = (\<lambda>_. 1), add_assign_summary = (+),
     sub_assign_summary = (-), cmp_element = cmp\<rparr>"

interpretation count_cb: tree_callback count_callback
  by unfold_locales (simp_all add: count_callback_def)

definition example_node :: "(nat, nat, int) node" where "example_node = node_new 15 1"

definition example_heap :: "(nat, nat, int) heap" where
  "example_heap = [4 \<mapsto> node_new 10 1, 5 \<mapsto> node_new 20 1, 6 \<mapsto> example_node]"

lemma example_empty: "tree_rep count_callback example_heap None []"
  by (simp add: tree_rep_def zrep_def rb_inv_def exI [of _ Leaf])

definition example_tree :: "(nat, nat, int) heap \<times> nat option" where
  "example_tree = the (do {
     (h, rt) \<leftarrow> node_insert True count_callback example_heap None 4;
     node_insert True count_callback h rt 5
   })"

lemma example_rep:
  "tree_rep count_callback (fst example_tree) (snd example_tree) [(4, 10), (5, 20)]" "fst example_tree 6 = Some (example_node)"
proof -
  have n1: "example_heap 4 = Some (node_new 10 1)" by (simp add: example_heap_def)
  from count_cb.tree_rep_insert [OF example_empty n1, of True] obtain h1 rt1 where
    1: "node_insert True count_callback example_heap None 4 = Some (h1, rt1)"
      "tree_rep count_callback h1 rt1 [(4, 10)]" "frame_ok {4} example_heap h1"
    by (auto simp: count_callback_def node_new_def list_insert_def)
  have h1: "h1 5 = Some (node_new 20 1)" "h1 6 = Some (example_node)"
    using 1(3) by (simp_all add: frame_ok_def example_heap_def)
  have sp: "split_at (goes_right count_callback 20) [(4::nat, 10::nat)]" by (simp add: split_at_def)
  from count_cb.tree_rep_insert [OF 1(2) h1(1), of True] sp obtain h2 rt2 where
    2: "node_insert True count_callback h1 rt1 5 = Some (h2, rt2)"
      "tree_rep count_callback h2 rt2 (list_insert (goes_right count_callback 20) (5, 20) [(4, 10)])" "frame_ok {4, 5} h1 h2"
    by (auto simp: count_callback_def node_new_def insert_commute)
  have "list_insert (goes_right count_callback 20) (5::nat, 20::nat) [(4, 10)] = [(4, 10), (5, 20)]"
    by (simp add: list_insert_def goes_right_def count_callback_def cmp_def)
  moreover have "fst example_tree = h2" "snd example_tree = rt2" by (simp_all add: example_tree_def 1(1) 2(1))
  moreover have "h2 6 = Some (example_node)" using 2(3) h1(2) by (simp add: frame_ok_def)
  ultimately show "tree_rep count_callback (fst example_tree) (snd example_tree) [(4, 10), (5, 20)]"
    "fst example_tree 6 = Some (example_node)" using 2(2) by simp_all
qed

lemma example_root: "snd example_tree = Some 4"
  by code_simp

lemma hd_opt_alt: "hd_opt xs = (if xs = [] then None else Some (hd xs))"
  by (cases xs) simp_all

lemma last_opt_alt: "last_opt xs = (if xs = [] then None else Some (last xs))"
  by (cases xs rule: rev_cases) (simp_all add: last_opt_def)

section \<open>The operations on red-black trees\<close>

text \<open>C15. \<open>Node::insert\<close> of a node that is not linked: it returns, the tree is a valid red-black tree again, and its
  sequence has the new node after all nodes that the callback does not order after it.  Nodes outside the
  tree are not written, and no element changes.\<close>

theorem insert_correct:
  assumes "tree_callback cb" and "tree_rep cb h rt xs" and "h nw = Some nn" and "nw \<notin> fst ` set xs"
    and "summary nn = element_to_summary cb (element nn)" and "split_at (goes_right cb (element nn)) xs"
  shows "\<exists>h' rt'. node_insert dbg cb h rt nw = Some (h', rt') \<and>
    tree_rep cb h' rt' (takeWhile (goes_right cb (element nn)) xs @ (nw, element nn) #
      dropWhile (goes_right cb (element nn)) xs) \<and>
    frame_ok (insert nw (fst ` set xs)) h h'"
  using tree_callback.tree_rep_insert [OF assms, of dbg] unfolding list_insert_def .

theorem insert_correct_witness:
  "\<exists>h' rt'. node_insert True count_callback (fst example_tree) (snd example_tree) 6 = Some (h', rt') \<and>
    tree_rep count_callback h' rt' (takeWhile (goes_right count_callback (element (example_node))) [(4, 10), (5, 20)] @
      (6, element (example_node)) # dropWhile (goes_right count_callback (element (example_node))) [(4, 10), (5, 20)]) \<and>
    frame_ok (insert 6 (fst ` set [(4, 10::nat), (5, 20::nat)])) (fst example_tree) h'"
  by (rule insert_correct [OF count_cb.tree_callback_axioms example_rep])
    (simp_all add: example_node_def node_new_def count_callback_def split_at_def goes_right_def cmp_def)

text \<open>C16. \<open>Node::remove\<close> of a node of the tree: it returns, and what remains is a valid red-black tree with the
  sequence of the other nodes.\<close>

theorem remove_correct:
  assumes "tree_callback cb" and "tree_rep cb h rt (as @ (p, e) # bs)"
  shows "\<exists>h' rt'. node_remove dbg cb h rt p = Some (h', rt') \<and> tree_rep cb h' rt' (as @ bs) \<and>
    frame_ok (fst ` set (as @ (p, e) # bs)) h h'"
  by (rule tree_callback.tree_rep_remove [OF assms])

theorem remove_correct_witness:
  "\<exists>h' rt'. node_remove True count_callback (fst example_tree) (snd example_tree) 4 = Some (h', rt') \<and>
    tree_rep count_callback h' rt' ([] @ [(5, 20)]) \<and>
    frame_ok (fst ` set ([] @ (4, 10::nat) # [(5, 20::nat)])) (fst example_tree) h'"
  by (rule remove_correct [OF count_cb.tree_callback_axioms]) (simp add: example_rep)

text \<open>\<open>Node::lower_bound\<close> with a test that is monotone along the tree: the first node for which the
  search key is not greater, in the sequence of the tree.\<close>

lemma lower_bound_correct:
  assumes "tree_rep cb h rt xs" and "split_at (below c) xs"
  shows "lower_bound h rt c = Some (map_option fst (find (\<lambda>x. \<not> below c x) xs))"
  by (rule tree_rep_lower_bound [OF assms])

text \<open>\<open>Node::min\<close>, \<open>max\<close>, \<open>predecessor\<close> and \<open>successor\<close> move along the sequence of the tree.\<close>

lemma neighbours_correct:
  assumes "tree_rep cb h (Some rt) (as @ (p, e) # bs)"
  shows "node_min h rt = Some (fst (hd (as @ [(p, e)]))) \<and> node_max h rt = Some (fst (last ((p, e) # bs))) \<and>
    predecessor h p = Some (if as = [] then None else Some (fst (last as))) \<and>
    successor h p = Some (if bs = [] then None else Some (fst (hd bs)))"
  using tree_rep_min [OF assms] tree_rep_max [OF assms] tree_rep_predecessor [OF assms] tree_rep_successor [OF assms]
  by (auto simp: hd_opt_alt last_opt_alt hd_append split: if_splits)

text \<open>\<open>Node::prefix_sum\<close>: the sum of the summaries of the elements before a node, or of all elements.\<close>

lemma prefix_sum_correct:
  assumes "tree_callback cb" and "tree_rep cb h rt (as @ (p, e) # bs)"
  shows "prefix_sum cb h rt (Some p) = Some (\<Sum>x\<leftarrow>as. element_to_summary cb (snd x)) \<and>
    prefix_sum cb h rt None = Some (\<Sum>x\<leftarrow>as @ (p, e) # bs. element_to_summary cb (snd x))"
  using tree_callback.tree_rep_prefix_sum [OF assms] tree_callback.tree_rep_prefix_sum_all [OF assms]
  by (simp add: comp_def)

text \<open>C38. \<open>Node::lower_bound\<close> with a test that is monotone along the tree finds the first node for which the search key
  is not greater, and \<open>Node::prefix_sum\<close> of its result, also if there is no such node, is the sum of the summaries of
  exactly the elements below the key.\<close>

theorem search_and_sum_correct:
  assumes "tree_callback cb" and "tree_rep cb h rt xs" and "split_at (below c) xs"
  shows "lower_bound h rt c = Some (map_option fst (find (\<lambda>x. \<not> below c x) xs)) \<and>
    prefix_sum cb h rt (map_option fst (find (\<lambda>x. \<not> below c x) xs)) =
      Some (\<Sum>x\<leftarrow>takeWhile (below c) xs. element_to_summary cb (snd x))"
  using tree_rep_lower_bound [OF assms(2,3)] tree_callback.tree_rep_rank [OF assms] by (simp add: comp_def)

theorem search_and_sum_correct_witness:
  "lower_bound (fst example_tree) (snd example_tree) (cmp 12) = Some (Some 5) \<and>
    prefix_sum count_callback (fst example_tree) (snd example_tree) (Some 5) = Some 1"
  using search_and_sum_correct [OF count_cb.tree_callback_axioms example_rep(1), of "cmp 12"]
  by (simp add: split_at_def below_def count_callback_def)

section \<open>The validator\<close>

text \<open>C39. \<open>Node::validate\<close>, the test module's check of a whole tree, is exact: run on a heap that links the nodes of a tree,
  it returns without a failed assertion if and only if no red node has a red child, all paths have the same number of black
  nodes, and every summary is the sum over its subtree.\<close>

theorem validate_exact:
  assumes "tree_callback cb" and "zrep h rt t []"
  shows "validate cb h rt = Some () \<longleftrightarrow> rb_inv (element_to_summary cb) t"
  by (rule tree_callback.validate_iff [OF assms])

text \<open>A single node passes with the right summary and fails with a wrong one.\<close>

theorem validate_exact_witness:
  "validate count_callback [4 \<mapsto> node_new 10 1] (Some (4::nat)) = Some () \<and>
    validate count_callback [4 \<mapsto> node_new 10 2] (Some (4::nat)) \<noteq> Some ()"
  using validate_exact [OF count_cb.tree_callback_axioms, of "[4 \<mapsto> node_new 10 1]" "Some (4::nat)" "T Black 4 1 10 Leaf Leaf"]
    validate_exact [OF count_cb.tree_callback_axioms, of "[4 \<mapsto> node_new 10 2]" "Some (4::nat)" "T Black 4 2 10 Leaf Leaf"]
  by (simp add: zrep_def rb_inv_def node_new_def count_callback_def)

end
