(* ===== verification/Tree_Order.thy ===== *)
theory Tree_Order
  imports Rb_Delete
begin

text \<open>
  Trees whose callback orders their elements.  A client sees such a tree as a sorted list of
  addresses and elements (\<open>olist\<close>), or only as the set of linked addresses (\<open>linked\<close>), and
  the heap through the elements it stores (\<open>view\<close>).
\<close>

section \<open>The elements stored in a heap\<close>

definition view :: "('p, 'e, 's) heap \<Rightarrow> 'p \<Rightarrow> 'e option" where
  "view h p = map_option element (h p)"

lemma view_upd [simp]:
  "view (h(p := x)) = (view h)(p := map_option element x)"
  by (auto simp: view_def fun_eq_iff)

lemma view_None [simp]: "view h p = None \<longleftrightarrow> h p = None"
  by (simp add: view_def)

lemma view_Some: "view h p = Some e \<longleftrightarrow> (\<exists>n. h p = Some n \<and> element n = e)"
  by (auto simp: view_def)

lemma view_frame_ok:
  assumes "frame_ok A h h'" and "\<forall>x\<in>A. h x \<noteq> None"
  shows "view h' = view h"
proof
  fix x
  show "view h' x = view h x"
  proof (cases "h x")
    case None
    with assms(2) have "x \<notin> A" by auto
    with assms(1) show ?thesis by (simp add: frame_ok_def view_def)
  next
    case (Some n)
    with assms(1) obtain n' where "h' x = Some n'" "element n' = element n"
      unfolding frame_ok_def by blast
    with Some show ?thesis by (simp add: view_def)
  qed
qed

lemma tree_rep_view: "tree_rep cb h rt xs \<Longrightarrow> (p, e) \<in> set xs \<Longrightarrow> view h p = Some e"
  using tree_rep_elem by (fastforce simp: view_Some)

text \<open>Where the elements are known, the sequence is determined by its addresses.\<close>

lemma tree_rep_in_iff:
  assumes "tree_rep cb h rt xs"
  shows "(p, e) \<in> set xs \<longleftrightarrow> p \<in> fst ` set xs \<and> view h p = Some e"
  using tree_rep_view [OF assms] by force

section \<open>A heap node whose element changes in place\<close>

lemma rep_upd_element:
  assumes "zrep h rt (T c p s e l r) k" and "h p = Some n"
  shows "zrep (h(p \<mapsto> n\<lparr>element := e'\<rparr>)) rt (T c p s e' l r) k"
  using assms by (auto simp: zrep_def)

lemma tree_rep_element:
  assumes "tree_rep cb h rt (as @ (p, e) # bs)" and "h p = Some n"
    and "element_to_summary cb e' = element_to_summary cb e"
  shows "tree_rep cb (h(p \<mapsto> n\<lparr>element := e'\<rparr>)) rt (as @ (p, e') # bs)"
proof -
  obtain c s l r k where z: "zrep h rt (T c p s e l r) k"
    "rb_inv (element_to_summary cb) (plug (T c p s e l r) k)"
    "as = kl k @ nodes l" "bs = nodes r @ kr k" by (rule tree_rep_split [OF assms(1)])
  have "rb_inv (element_to_summary cb) (plug (T c p s e' l r) k)"
    using z(2) assms(3) by (auto simp: rb_inv_def invc_plug invh_plug sumok_plug)
  with rep_upd_element [OF z(1) assms(2)] show ?thesis
    by (rule tree_repI) (simp add: nodes_plug z(3,4))
qed

section \<open>Trees kept in an order\<close>

definition olist ::
  "('e, 's::ab_group_add) callback \<Rightarrow> ('e \<Rightarrow> 'e \<Rightarrow> bool) \<Rightarrow> ('p, 'e, 's) heap \<Rightarrow> 'p option \<Rightarrow>
   ('p \<times> 'e) list \<Rightarrow> bool" where
  "olist cb le h rt xs \<longleftrightarrow> tree_rep cb h rt xs \<and> sorted_wrt (\<lambda>x y. le (snd x) (snd y)) xs"

text \<open>
  What an ordered tree needs of its callback: the comparison of a new element with the
  existing ones is monotone and respects the order \<open>le\<close>.
\<close>

locale ordered_tree = tree_callback cb for cb :: "('e, 's::ab_group_add) callback" +
  fixes le :: "'e \<Rightarrow> 'e \<Rightarrow> bool"
  assumes goes_right_le: "cmp_element cb x y \<noteq> Less \<Longrightarrow> le y x"
    and goes_left_le: "cmp_element cb x y = Less \<Longrightarrow> le x y"
    and goes_right_mono: "le y z \<Longrightarrow> cmp_element cb x z \<noteq> Less \<Longrightarrow> cmp_element cb x y \<noteq> Less"
begin

lemma olist_split: "olist cb le h rt xs \<Longrightarrow> split_at (goes_right cb e) xs"
  unfolding olist_def split_at_def goes_right_def
  by (elim conjE sorted_wrt_mono_rel [rotated]) (rule impI, rule goes_right_mono)

lemma sorted_list_insert:
  assumes "sorted_wrt (\<lambda>x y. le (snd x) (snd y)) xs" and "split_at (goes_right cb (snd x)) xs"
  shows "sorted_wrt (\<lambda>x y. le (snd x) (snd y)) (list_insert (goes_right cb (snd x)) x xs)"
proof -
  let ?g = "goes_right cb (snd x)"
  have l: "\<forall>y\<in>set (takeWhile ?g xs). ?g y" by (auto dest: set_takeWhileD)
  have r: "\<forall>y\<in>set (dropWhile ?g xs). \<not> ?g y" by (rule split_at_dropWhile [OF assms(2)])
  have "sorted_wrt (\<lambda>x y. le (snd x) (snd y)) (takeWhile ?g xs @ dropWhile ?g xs)" using assms(1) by simp
  then have "sorted_wrt (\<lambda>x y. le (snd x) (snd y)) (takeWhile ?g xs)"
    "sorted_wrt (\<lambda>x y. le (snd x) (snd y)) (dropWhile ?g xs)"
    "\<forall>y\<in>set (takeWhile ?g xs). \<forall>z\<in>set (dropWhile ?g xs). le (snd y) (snd z)"
    unfolding sorted_wrt_append by blast+
  moreover have "\<forall>y\<in>set (takeWhile ?g xs). le (snd y) (snd x)" "\<forall>y\<in>set (dropWhile ?g xs). le (snd x) (snd y)"
    using l r goes_right_le goes_left_le by (auto simp: goes_right_def)
  ultimately show ?thesis unfolding list_insert_def by (simp add: sorted_wrt_append)
qed

lemma olist_insert:
  assumes o: "olist cb le h rt xs" and p: "h p = Some n" "p \<notin> fst ` set xs"
    and s: "summary n = element_to_summary cb (element n)"
  shows "\<exists>h' rt'. node_insert dbg cb h rt p = Some (h', rt') \<and>
    olist cb le h' rt' (list_insert (goes_right cb (element n)) (p, element n) xs) \<and> view h' = view h \<and>
    (\<forall>x. x \<notin> insert p (fst ` set xs) \<longrightarrow> h' x = h x)"
proof -
  from o have t: "tree_rep cb h rt xs" and srt: "sorted_wrt (\<lambda>x y. le (snd x) (snd y)) xs"
    by (auto simp: olist_def)
  from tree_rep_insert [OF t p s olist_split [OF o], of dbg] obtain h' rt' where
    *: "node_insert dbg cb h rt p = Some (h', rt')"
    "tree_rep cb h' rt' (list_insert (goes_right cb (element n)) (p, element n) xs)"
    "frame_ok (insert p (fst ` set xs)) h h'" by blast
  have "\<forall>x\<in>insert p (fst ` set xs). h x \<noteq> None" using p(1) tree_rep_elem [OF t] by fastforce
  from view_frame_ok [OF *(3) this] have "view h' = view h" .
  moreover have "\<forall>x. x \<notin> insert p (fst ` set xs) \<longrightarrow> h' x = h x" using *(3) by (simp add: frame_ok_def)
  moreover have "sorted_wrt (\<lambda>x y. le (snd x) (snd y)) (list_insert (goes_right cb (element n)) (p, element n) xs)"
    using sorted_list_insert [OF srt, of "(p, element n)"] olist_split [OF o] by simp
  ultimately show ?thesis using * by (auto simp: olist_def)
qed

lemma olist_remove:
  assumes "olist cb le h rt (as @ (p, e) # bs)"
  shows "\<exists>h' rt'. node_remove dbg cb h rt p = Some (h', rt') \<and> olist cb le h' rt' (as @ bs) \<and>
    view h' = view h \<and> (\<forall>x. x \<notin> fst ` set (as @ (p, e) # bs) \<longrightarrow> h' x = h x)"
proof -
  from assms have t: "tree_rep cb h rt (as @ (p, e) # bs)"
    and srt: "sorted_wrt (\<lambda>x y. le (snd x) (snd y)) (as @ (p, e) # bs)"
    by (auto simp: olist_def)
  from tree_rep_remove [OF t, of dbg] obtain h' rt' where
    *: "node_remove dbg cb h rt p = Some (h', rt')" "tree_rep cb h' rt' (as @ bs)"
    "frame_ok (fst ` set (as @ (p, e) # bs)) h h'" by blast
  have "\<forall>x\<in>fst ` set (as @ (p, e) # bs). h x \<noteq> None" using tree_rep_elem [OF t] by fastforce
  from view_frame_ok [OF *(3) this] have "view h' = view h" .
  moreover have "\<forall>x. x \<notin> fst ` set (as @ (p, e) # bs) \<longrightarrow> h' x = h x" using *(3) by (simp add: frame_ok_def)
  ultimately show ?thesis using * srt by (auto simp: olist_def sorted_wrt_append)
qed

end

text \<open>A node that is not linked may be overwritten.\<close>

lemma olist_upd_other:
  "olist cb le h rt xs \<Longrightarrow> p \<notin> fst ` set xs \<Longrightarrow> olist cb le (h(p := x)) rt xs"
  unfolding olist_def by (auto elim!: tree_rep_agree) force

lemma olist_distinct: "olist cb le h rt xs \<Longrightarrow> distinct (map fst xs)"
  unfolding olist_def using tree_rep_distinct by blast

lemma olist_in_iff:
  "olist cb le h rt xs \<Longrightarrow> (p, e) \<in> set xs \<longleftrightarrow> p \<in> fst ` set xs \<and> view h p = Some e"
  unfolding olist_def using tree_rep_in_iff by metis

lemma olist_at:
  assumes "olist cb le h rt xs" and "p \<in> fst ` set xs"
  obtains as e bs where "xs = as @ (p, e) # bs" and "view h p = Some e"
    and "p \<notin> fst ` set (as @ bs)" and "fst ` set (as @ bs) = fst ` set xs - {p}"
proof -
  from assms obtain e where "(p, e) \<in> set xs" by auto
  then obtain as bs where xs: "xs = as @ (p, e) # bs" by (metis split_list)
  with olist_distinct [OF assms(1)] have "p \<notin> fst ` set (as @ bs)" by auto
  moreover from this xs have "fst ` set (as @ bs) = fst ` set xs - {p}" by auto
  moreover have "view h p = Some e" using olist_in_iff [OF assms(1)] xs by auto
  ultimately show ?thesis using that xs by blast
qed

section \<open>Trees as sets of linked addresses\<close>

definition linked ::
  "('e, 's::ab_group_add) callback \<Rightarrow> ('e \<Rightarrow> 'e \<Rightarrow> bool) \<Rightarrow> 'p set \<Rightarrow> ('p, 'e, 's) heap \<Rightarrow> 'p option \<Rightarrow> bool"
  where "linked cb le D h rt \<longleftrightarrow> (\<exists>xs. olist cb le h rt xs \<and> fst ` set xs = D)"

lemma linked_upd_other:
  "linked cb le D h rt \<Longrightarrow> p \<notin> D \<Longrightarrow> linked cb le D (h(p := x)) rt"
  unfolding linked_def by (elim exE conjE, rule exI, rule conjI, rule olist_upd_other) auto

lemma linked_alloc: "linked cb le D h rt \<Longrightarrow> p \<in> D \<Longrightarrow> h p \<noteq> None"
  unfolding linked_def olist_def by (auto dest!: tree_rep_elem)

lemma linked_empty: "linked cb le {} h rt \<longleftrightarrow> rt = None"
  by (auto simp: linked_def olist_def)

lemma linked_element:
  assumes "linked cb le D h rt" and "p \<in> D" and "h p = Some n"
    and "element_to_summary cb e' = element_to_summary cb (element n)"
    and "\<And>x. le e' x = le (element n) x" "\<And>x. le x e' = le x (element n)"
  shows "linked cb le D (h(p \<mapsto> n\<lparr>element := e'\<rparr>)) rt"
proof -
  from assms(1) obtain xs where xs: "olist cb le h rt xs" "fst ` set xs = D" by (auto simp: linked_def)
  with assms(2) have "p \<in> fst ` set xs" by simp
  then obtain as e bs where *: "xs = as @ (p, e) # bs" "view h p = Some e"
    by (rule olist_at [OF xs(1)]) blast
  with assms(3) have e: "e = element n" by (simp add: view_def)
  have "tree_rep cb h rt (as @ (p, e) # bs)" using xs(1) *(1) by (simp add: olist_def)
  from tree_rep_element [OF this assms(3)] assms(4) e
  have "tree_rep cb (h(p \<mapsto> n\<lparr>element := e'\<rparr>)) rt (as @ (p, e') # bs)" by simp
  moreover have "sorted_wrt (\<lambda>x y. le (snd x) (snd y)) (as @ (p, e') # bs)"
    using xs(1) assms(5,6) e * by (simp add: olist_def sorted_wrt_append)
  moreover have "fst ` set (as @ (p, e') # bs) = D" using xs(2) * by auto
  ultimately show ?thesis unfolding linked_def olist_def by blast
qed

context ordered_tree
begin

lemma linked_insert:
  assumes "linked cb le D h rt" and p: "h p = Some n" "p \<notin> D"
    and s: "summary n = element_to_summary cb (element n)"
  shows "\<exists>h' rt'. node_insert dbg cb h rt p = Some (h', rt') \<and> linked cb le (insert p D) h' rt' \<and> view h' = view h \<and>
    (\<forall>x. x \<notin> insert p D \<longrightarrow> h' x = h x)"
proof -
  from assms(1) obtain xs where xs: "olist cb le h rt xs" "fst ` set xs = D" by (auto simp: linked_def)
  with olist_insert [OF xs(1) p(1) _ s, of dbg] p(2) obtain h' rt' where
    "node_insert dbg cb h rt p = Some (h', rt')" "view h' = view h" "\<forall>x. x \<notin> insert p D \<longrightarrow> h' x = h x"
    "olist cb le h' rt' (list_insert (goes_right cb (element n)) (p, element n) xs)" by blast
  with xs(2) show ?thesis unfolding linked_def by fastforce
qed

lemma linked_remove:
  assumes "linked cb le D h rt" and "p \<in> D"
  shows "\<exists>h' rt'. node_remove dbg cb h rt p = Some (h', rt') \<and> linked cb le (D - {p}) h' rt' \<and> view h' = view h \<and>
    (\<forall>x. x \<notin> D \<longrightarrow> h' x = h x)"
proof -
  from assms obtain xs where xs: "olist cb le h rt xs" "fst ` set xs = D" by (auto simp: linked_def)
  with assms(2) have "p \<in> fst ` set xs" by simp
  then obtain as e bs where *: "xs = as @ (p, e) # bs" "fst ` set (as @ bs) = D - {p}"
    unfolding xs(2) [symmetric] by (rule olist_at [OF xs(1)]) metis
  from olist_remove [OF xs(1) [unfolded *(1)], of dbg] obtain h' rt' where
    "node_remove dbg cb h rt p = Some (h', rt')" "olist cb le h' rt' (as @ bs)" "view h' = view h"
    "\<forall>x. x \<notin> D \<longrightarrow> h' x = h x" using xs(2) unfolding *(1) by blast
  with *(2) show ?thesis unfolding linked_def by blast
qed

end

end
