(* ===== verification/Rb_Session.thy ===== *)
theory Rb_Session
  imports Rb_Correct Tree_Order
begin

text \<open>
  Trees that are built by any insertions and removals stay balanced.
\<close>

section \<open>Sessions\<close>

text \<open>
  The heap and the root cell after any sequence of insertions and removals, with the addresses \<open>D\<close> of the linked nodes.
  Nodes that are not linked may be allocated, initialised and freed.
\<close>

inductive tree_session ::
  "bool \<Rightarrow> ('e, 's::ab_group_add) callback \<Rightarrow> ('p, 'e, 's) heap \<Rightarrow> 'p option \<Rightarrow> 'p set \<Rightarrow> bool"
  for dbg :: bool and cb :: "('e, 's) callback" where
  empty: "tree_session dbg cb h None {}"
| unlinked: "tree_session dbg cb h rt D \<Longrightarrow> p \<notin> D \<Longrightarrow> tree_session dbg cb (h(p := x)) rt D"
| insertion: "tree_session dbg cb h rt D \<Longrightarrow> p \<notin> D \<Longrightarrow> h p = Some n \<Longrightarrow> summary n = element_to_summary cb (element n) \<Longrightarrow>
    node_insert dbg cb h rt p = Some (h', rt') \<Longrightarrow> tree_session dbg cb h' rt' (insert p D)"
| removal: "tree_session dbg cb h rt D \<Longrightarrow> p \<in> D \<Longrightarrow> node_remove dbg cb h rt p = Some (h', rt') \<Longrightarrow>
    tree_session dbg cb h' rt' (D - {p})"

lemma session_linked:
  assumes "ordered_tree cb le" and "tree_session dbg cb h rt D"
  shows "linked cb le D h rt"
  using assms(2)
proof (induction rule: tree_session.induct)
  case (empty h)
  show ?case by (simp add: linked_empty)
next
  case (unlinked h rt D p x)
  then show ?case by (intro linked_upd_other)
next
  case (insertion h rt D p n h' rt')
  from ordered_tree.linked_insert [OF assms(1) insertion.IH insertion.hyps(3,2,4), of dbg] insertion.hyps(5)
  show ?case by simp
next
  case (removal h rt D p h' rt')
  from ordered_tree.linked_remove [OF assms(1) removal.IH removal.hyps(2), of dbg] removal.hyps(3)
  show ?case by simp
qed

section \<open>Paths down the tree\<close>

text \<open>Following child pointers, as all loops from the root do.\<close>

fun follow :: "('p, 'e, 's) heap \<Rightarrow> is_right_child list \<Rightarrow> 'p \<Rightarrow> 'p option" where
  "follow h [] p = Some p"
| "follow h (d # ds) p = (case h p of None \<Rightarrow> None | Some n \<Rightarrow>
     (case children n d of None \<Rightarrow> None | Some q \<Rightarrow> follow h ds q))"

lemma follow_height: "rep h q t \<Longrightarrow> root_ptr t = Some p \<Longrightarrow> follow h ds p = Some p' \<Longrightarrow> length ds < ht t"
proof (induction ds arbitrary: q t p)
  case Nil
  then show ?case by (cases t) auto
next
  case (Cons d ds)
  then obtain c s e l r where t: "t = T c p s e l r" by (cases t) auto
  let ?sub = "if d then r else l"
  from Cons.prems t obtain x where x: "root_ptr ?sub = Some x" "follow h ds x = Some p'"
    by (cases d) (auto split: option.splits)
  have "rep h (Some p) ?sub" using Cons.prems(1) t by (cases d) auto
  from Cons.IH [OF this x] have "length ds < ht ?sub" .
  also have "\<dots> \<le> max (ht l) (ht r)" by simp
  finally show ?case by (simp add: t)
qed

lemma height_bound:
  assumes "tree_rep cb h rt xs"
  obtains t where "rep h None t" "rt = root_ptr t" "2 ^ ((ht t - 1) div 2) \<le> length xs + 1"
proof -
  from assms obtain t where t: "rep h None t" "rt = root_ptr t" "rb_inv (element_to_summary cb) t" "nodes t = xs"
    by (auto simp: tree_rep_def zrep_def)
  then have "invc t" "invh t" by (simp_all add: rb_inv_def)
  with ht_bh [of t] have "(ht t - 1) div 2 \<le> bh t" by (auto split: if_splits)
  then have "(2::nat) ^ ((ht t - 1) div 2) \<le> 2 ^ bh t" by simp
  also have "\<dots> \<le> length xs + 1" using bh_nodes [OF \<open>invh t\<close>] t(4) by simp
  finally show ?thesis using that t by blast
qed

lemma follow_bound:
  assumes "tree_rep cb h (Some root) xs" and "follow h ds root = Some p"
  shows "2 ^ (length ds div 2) \<le> length xs + 1"
proof -
  obtain t where t: "rep h None t" "Some root = root_ptr t" "2 ^ ((ht t - 1) div 2) \<le> length xs + 1"
    by (rule height_bound [OF assms(1)])
  from follow_height [OF t(1) t(2) [symmetric] assms(2)] have "length ds div 2 \<le> (ht t - 1) div 2" by (simp add: div_le_mono)
  then have "(2::nat) ^ (length ds div 2) \<le> 2 ^ ((ht t - 1) div 2)" by simp
  with t(3) show ?thesis by (rule order_trans [rotated])
qed

section \<open>The property\<close>

text \<open>C40. Balance.  After any sequence of insertions and removals, starting with the empty tree, a node of a tree with \<open>n\<close> nodes is
  \<open>k\<close> parent links below the root with \<open>2 ^ (k div 2) \<le> n + 1\<close>, and a path of child pointers from the root is as
  short: the paths that the loops of the operations take, up or down, have at most about \<open>2 * log (n + 1)\<close> links.\<close>

theorem depth_is_logarithmic:
  assumes "ordered_tree cb le" and "tree_session dbg cb h rt D"
  shows "(\<forall>p\<in>D. \<exists>k. ancestor h k p = rt \<and> 2 ^ (k div 2) \<le> card D + 1) \<and>
    (\<forall>root ds p. rt = Some root \<longrightarrow> follow h ds root = Some p \<longrightarrow> 2 ^ (length ds div 2) \<le> card D + 1)"
proof -
  from session_linked [OF assms] obtain xs where xs: "tree_rep cb h rt xs" "fst ` set xs = D"
    by (auto simp: linked_def olist_def)
  have "card D = length xs" using tree_rep_distinct [OF xs(1)] xs(2) by (metis distinct_card length_map list.set_map)
  with depth_bound [OF xs(1)] follow_bound [of cb h _ xs] xs show ?thesis by metis
qed

lemma count_ordered: "ordered_tree count_callback (\<le>)"
  by unfold_locales (auto simp: count_callback_def cmp_def split: if_splits)

lemma example_second:
  "map_option snd (do {
     (h, rt) \<leftarrow> node_insert True count_callback example_heap None 4;
     node_insert True count_callback h rt 5
   }) = Some (Some 4)"
  by code_simp

lemma example_session: "tree_session True count_callback (fst example_tree) (snd example_tree) {4, 5}"
proof -
  have "example_heap 4 = Some (node_new 10 1)" by (simp add: example_heap_def)
  from count_cb.tree_rep_insert [OF example_empty this, of True] obtain h1 rt1 where
    1: "node_insert True count_callback example_heap None 4 = Some (h1, rt1)" "frame_ok {4} example_heap h1"
    by (auto simp: count_callback_def node_new_def)
  have 2: "tree_session True count_callback h1 rt1 {4}"
    by (rule tree_session.insertion [OF tree_session.empty _ _ _ 1(1), where n = "node_new 10 1"])
      (simp_all add: example_heap_def node_new_def count_callback_def)
  have 3: "h1 5 = Some (node_new 20 1)" using 1(2) by (simp add: frame_ok_def example_heap_def)
  have 4: "node_insert True count_callback h1 rt1 5 = Some (fst example_tree, snd example_tree)"
    using example_second 1(1) by (auto simp: example_tree_def)
  have "tree_session True count_callback (fst example_tree) (snd example_tree) (insert 5 {4})"
    by (rule tree_session.insertion [OF 2 _ 3 _ 4]) (simp_all add: node_new_def count_callback_def)
  then show ?thesis by (simp add: insert_commute)
qed

theorem depth_is_logarithmic_witness:
  "\<exists>k. ancestor (fst example_tree) k 5 = snd example_tree \<and> 2 ^ (k div 2) \<le> card {4, 5 :: nat} + 1"
  using depth_is_logarithmic [OF count_ordered example_session] by blast

end
