(* ===== verification/Rb_Test.thy ===== *)
theory Rb_Test
  imports Rb_Validate "HOL-Library.Word"
begin

text \<open>
  The test \<open>qc_btree\<close> of \<open>src/utils/rbtree.rs\<close>, which runs the tree against \<open>BTreeSet\<close>: a function of the list of command
  bytes, with every assertion of the test and of the validator as a possible fault.  It passes for every list of commands.
  A node is at the address that is its index in the vector \<open>nodes\<close>, whose boxes do not move.  The sums are 64-bit words;
  that a debug build would panic when one overflows is not represented (it takes \<open>2 ^ 56\<close> elements).
\<close>

section \<open>The elements and the callback\<close>

datatype test_element = TestElement (test_key: "8 word") (test_index: nat)

text \<open>The derived order is lexicographic.\<close>

instantiation test_element :: linorder
begin

definition less_eq_test_element :: "test_element \<Rightarrow> test_element \<Rightarrow> bool" where
  "less_eq_test_element a b \<longleftrightarrow> test_key a < test_key b \<or> test_key a = test_key b \<and> test_index a \<le> test_index b"

definition less_test_element :: "test_element \<Rightarrow> test_element \<Rightarrow> bool" where
  "less_test_element a b \<longleftrightarrow> test_key a < test_key b \<or> test_key a = test_key b \<and> test_index a < test_index b"

instance
  by standard (auto simp: less_eq_test_element_def less_test_element_def test_element.expand)

end

definition test_callback :: "(test_element, 64 word) callback" where
  "test_callback = \<lparr>
     zero_summary = 0,
     element_to_summary = (\<lambda>element. ucast (test_key element)),
     add_assign_summary = (\<lambda>lhs rhs. lhs + rhs),
     sub_assign_summary = (\<lambda>lhs rhs. lhs - rhs),
     cmp_element = (\<lambda>e1 e2. cmp (test_key e1) (test_key e2))\<rparr>"

interpretation test_cb: tree_callback test_callback
  by unfold_locales (simp_all add: test_callback_def)

section \<open>The test\<close>

text \<open>\<open>Vec::swap_remove\<close>: the last item takes the place of the removed one.\<close>

definition swap_remove :: "'a list \<Rightarrow> nat \<Rightarrow> ('a \<times> 'a list) option" where
  "swap_remove xs i = (if i < length xs then Some (xs ! i, butlast (xs[i := last xs])) else None)"

record qc_state =
  node_heap :: "(nat, test_element, 64 word) heap"
  node_count :: nat
  inserted_node_is :: "nat list"
  expected :: "test_element set"
  keys_worth_checking :: "8 word set"
  tree_cell :: "nat option"

definition qc_new :: qc_state where
  "qc_new = \<lparr>node_heap = Map.empty, node_count = 0, inserted_node_is = [], expected = {}, keys_worth_checking = {},
     tree_cell = None\<rparr>"

definition qc_remove :: "bool \<Rightarrow> 8 word \<Rightarrow> qc_state \<Rightarrow> qc_state option" where
  "qc_remove dbg cmd s = do {
     (node_i, inserted) \<leftarrow> swap_remove (inserted_node_is s) (unat cmd mod length (inserted_node_is s));
     node \<leftarrow> node_heap s node_i;
     (h, tree) \<leftarrow> node_remove dbg test_callback (node_heap s) (tree_cell s) node_i;
     Some (s\<lparr>node_heap := h, tree_cell := tree, inserted_node_is := inserted, expected := expected s - {element node}\<rparr>)
   }"

definition qc_insert :: "bool \<Rightarrow> 8 word \<Rightarrow> qc_state \<Rightarrow> qc_state option" where
  "qc_insert dbg key s = (
     let element = TestElement key (node_count s);
       summary = element_to_summary test_callback element;
       node_ptr = node_count s;
       h = (node_heap s)(node_ptr \<mapsto> node_new element summary)
     in do {
       (h, tree) \<leftarrow> node_insert dbg test_callback h (tree_cell s) node_ptr;
       Some (s\<lparr>node_heap := h, tree_cell := tree, node_count := node_count s + 1,
         inserted_node_is := inserted_node_is s @ [node_count s],
         expected := insert element (expected s), keys_worth_checking := insert (test_key element) (keys_worth_checking s)\<rparr>)
     })"

text \<open>\<open>map(|p_node| p_node.as_ref().element)\<close>\<close>

fun elements_at :: "('p, 'e, 's) heap \<Rightarrow> 'p list \<Rightarrow> 'e list option" where
  "elements_at h [] = Some []"
| "elements_at h (p # qs) = do { n \<leftarrow> h p; es \<leftarrow> elements_at h qs; Some (element n # es) }"

definition expected_prefix_sum :: "test_element list \<Rightarrow> 8 word \<Rightarrow> 64 word" where
  "expected_prefix_sum es key = (\<Sum>e\<leftarrow>filter (\<lambda>e. test_key e < key) es. ucast (test_key e))"

fun check_prefix_sums :: "qc_state \<Rightarrow> test_element list \<Rightarrow> 8 word list \<Rightarrow> unit option" where
  "check_prefix_sums s es [] = Some ()"
| "check_prefix_sums s es (key # keys) = do {
     lower_bound \<leftarrow> lower_bound (node_heap s) (tree_cell s) (\<lambda>e. cmp key (test_key e));
     got \<leftarrow> prefix_sum test_callback (node_heap s) (tree_cell s) lower_bound;
     assert (got = expected_prefix_sum es key);
     check_prefix_sums s es keys
   }"

definition qc_check :: "qc_state \<Rightarrow> unit option" where
  "qc_check s = do {
     node_dump (node_heap s) (tree_cell s) 1;
     validate test_callback (node_heap s) (tree_cell s);
     let es = sorted_list_of_set (expected s);
     qs \<leftarrow> node_iter (node_heap s) (tree_cell s);
     tree_elements \<leftarrow> elements_at (node_heap s) qs;
     assert (tree_elements = es);
     qs \<leftarrow> node_iter_rev (node_heap s) (tree_cell s);
     tree_elements \<leftarrow> elements_at (node_heap s) qs;
     assert (rev tree_elements = es);
     check_prefix_sums s es (sorted_list_of_set (keys_worth_checking s))
   }"

text \<open>An insertion takes a second byte; when there is none, the test ends.\<close>

fun qc_btree :: "bool \<Rightarrow> 8 word list \<Rightarrow> qc_state \<Rightarrow> qc_state option" where
  "qc_btree dbg [] s = Some s"
| "qc_btree dbg (cmd # cmds) s = (
     if cmd mod 2 = 0 \<and> inserted_node_is s \<noteq> [] then do {
       s \<leftarrow> qc_remove dbg cmd s;
       qc_check s;
       qc_btree dbg cmds s
     } else (case cmds of
       [] \<Rightarrow> Some s
     | key # cmds \<Rightarrow> do {
         s \<leftarrow> qc_insert dbg key s;
         qc_check s;
         qc_btree dbg cmds s
       }))"

section \<open>The invariant of the test\<close>

definition qc_rep :: "qc_state \<Rightarrow> (nat \<times> test_element) list \<Rightarrow> bool" where
  "qc_rep s xs \<longleftrightarrow> tree_rep test_callback (node_heap s) (tree_cell s) xs \<and> sorted_wrt (<) (map snd xs) \<and>
     expected s = snd ` set xs \<and> fst ` set xs = set (inserted_node_is s) \<and> distinct (inserted_node_is s) \<and>
     (\<forall>i\<in>set (inserted_node_is s). i < node_count s) \<and>
     (\<forall>i < node_count s. \<exists>n. node_heap s i = Some n \<and> test_index (element n) = i)"

lemma qc_rep_new: "qc_rep qc_new []"
  by (simp add: qc_rep_def qc_new_def)

lemma swap_remove_ok:
  assumes "i < length xs" and "distinct xs"
  obtains ys where "swap_remove xs i = Some (xs ! i, ys)" and "distinct ys" and "set ys = set xs - {xs ! i}"
proof -
  obtain zs l where xs: "xs = zs @ [l]" using assms(1) by (cases xs rule: rev_cases) auto
  show ?thesis
  proof (cases "i = length zs")
    case True
    with xs assms that [of zs] show ?thesis by (simp add: swap_remove_def)
  next
    case False
    with assms(1) xs have i: "i < length zs" by simp
    have "butlast (xs[i := last xs]) = zs[i := l]" using i by (simp add: xs list_update_append)
    moreover have "distinct (zs[i := l])" "set (zs[i := l]) = set xs - {xs ! i}"
      using assms(2) i by (auto simp: xs distinct_list_update nth_append set_update_distinct)
    ultimately show ?thesis using that assms(1) by (simp add: swap_remove_def)
  qed
qed

lemma sorted_list_of_rep:
  "sorted_wrt (<) (map snd xs) \<Longrightarrow> sorted_list_of_set (snd ` set xs) = map snd (xs :: ('a \<times> 'b::linorder) list)"
  using sorted_list_of_set.idem_if_sorted_distinct [of "map snd xs"] by (simp add: strict_sorted_iff)

text \<open>With every index below the new one, the callback's comparison of keys is the order of the elements.\<close>

lemma goes_right_less:
  "test_index (snd x) < i \<Longrightarrow> goes_right test_callback (TestElement k i) x \<longleftrightarrow> snd x < TestElement k i"
  by (auto simp: goes_right_def test_callback_def less_test_element_def not_less)

lemma list_insert_cong: "(\<And>x. x \<in> set xs \<Longrightarrow> g x = g' x) \<Longrightarrow> list_insert g y xs = list_insert g' y xs"
  by (simp add: list_insert_def cong: takeWhile_cong dropWhile_cong)

lemma sorted_split:
  "sorted_wrt (<) (map snd xs) \<Longrightarrow> (\<And>x y. snd x < snd y \<Longrightarrow> g y \<Longrightarrow> g x) \<Longrightarrow> split_at g (xs :: ('a \<times> 'b::linorder) list)"
  unfolding split_at_def sorted_wrt_map by (erule sorted_wrt_mono_rel [rotated]) blast

lemma sorted_insert:
  assumes "sorted_wrt (<) (map snd xs)" and "e \<notin> snd ` set xs"
  shows "sorted_wrt (<) (map snd (list_insert (\<lambda>x. snd x < e) (p, e :: 'b::linorder) xs))"
proof -
  have "split_at (\<lambda>x. snd x < e) xs" by (rule sorted_split [OF assms(1)]) auto
  then obtain us vs where xs: "xs = us @ vs" "\<forall>u\<in>set us. snd u < e" "\<forall>v\<in>set vs. \<not> snd v < e"
    by (rule split_at_cases)
  then have "\<forall>v\<in>set vs. e < snd v" using assms(2) by (auto simp: not_less le_less image_iff)
  with xs assms(1) show ?thesis
    by (auto simp: list_insert_split sorted_wrt_append)
qed

lemma qc_rep_index: "qc_rep s xs \<Longrightarrow> (p, e) \<in> set xs \<Longrightarrow> p < node_count s \<and> test_index e = p"
proof -
  assume s: "qc_rep s xs" and x: "(p, e) \<in> set xs"
  from s have "fst ` set xs = set (inserted_node_is s)" by (simp add: qc_rep_def)
  with x have "p \<in> set (inserted_node_is s)" by force
  with s have p: "p < node_count s" by (simp add: qc_rep_def)
  with s obtain n where n: "node_heap s p = Some n" "test_index (element n) = p" by (auto simp: qc_rep_def)
  from s have "tree_rep test_callback (node_heap s) (tree_cell s) xs" by (simp add: qc_rep_def)
  from tree_rep_elem [OF this x] n p show ?thesis by auto
qed

lemma frame_ok_index:
  "frame_ok A h h' \<Longrightarrow> \<forall>i<k. \<exists>n. h i = Some n \<and> test_index (element n) = i \<Longrightarrow>
   \<forall>i<(k::nat). \<exists>n. h' i = Some n \<and> test_index (element n) = i"
  unfolding frame_ok_def by fastforce

lemma qc_remove_rep:
  assumes s: "qc_rep s xs" and ne: "inserted_node_is s \<noteq> []"
  obtains s' ys where "qc_remove dbg cmd s = Some s'" and "qc_rep s' ys"
proof -
  let ?i = "unat cmd mod length (inserted_node_is s)"
  from s have dis: "distinct (inserted_node_is s)" by (simp add: qc_rep_def)
  have lt: "?i < length (inserted_node_is s)" using ne by simp
  from swap_remove_ok [OF lt dis] obtain is' where
    is': "swap_remove (inserted_node_is s) ?i = Some (inserted_node_is s ! ?i, is')" "distinct is'"
      "set is' = set (inserted_node_is s) - {inserted_node_is s ! ?i}" .
  define p where "p = inserted_node_is s ! ?i"
  have "p \<in> set (inserted_node_is s)" using lt by (simp add: p_def)
  with s have "p \<in> fst ` set xs" by (simp add: qc_rep_def)
  then obtain e where "(p, e) \<in> set xs" by auto
  then obtain as bs where xs: "xs = as @ (p, e) # bs" by (auto dest: split_list)
  from s have t: "tree_rep test_callback (node_heap s) (tree_cell s) (as @ (p, e) # bs)" by (simp add: qc_rep_def xs)
  from test_cb.tree_rep_remove [OF t, of dbg] obtain h' rt' where
    r: "node_remove dbg test_callback (node_heap s) (tree_cell s) p = Some (h', rt')"
      "tree_rep test_callback h' rt' (as @ bs)" "frame_ok (fst ` set (as @ (p, e) # bs)) (node_heap s) h'" by blast
  from tree_rep_elem [OF t, of p e] obtain n where n: "node_heap s p = Some n" "element n = e" by auto
  let ?s = "s\<lparr>node_heap := h', tree_cell := rt', inserted_node_is := is', expected := expected s - {e}\<rparr>"
  have "qc_remove dbg cmd s = Some ?s" using is'(1) n r(1) by (simp add: qc_remove_def p_def)
  moreover have "qc_rep ?s (as @ bs)"
  proof -
    have srt: "sorted_wrt (<) (map snd xs)" using s by (simp add: qc_rep_def)
    then have 1: "sorted_wrt (<) (map snd (as @ bs))" "e \<notin> snd ` set (as @ bs)"
      by (auto simp: xs sorted_wrt_append)
    have 2: "p \<notin> fst ` set (as @ bs)" using tree_rep_distinct [OF t] by auto
    have "set (inserted_node_is s) = insert p (fst ` set (as @ bs))" "expected s = insert e (snd ` set (as @ bs))"
      using s by (simp_all add: qc_rep_def xs)
    with 1(2) 2 is'(3) have 3: "fst ` set (as @ bs) = set is'" "expected s - {e} = snd ` set (as @ bs)"
      by (simp_all add: p_def [symmetric])
    have 4: "\<forall>i<node_count s. \<exists>n. h' i = Some n \<and> test_index (element n) = i"
      by (rule frame_ok_index [OF r(3)]) (use s in \<open>simp add: qc_rep_def\<close>)
    have 5: "\<forall>i\<in>set is'. i < node_count s" using s is'(3) by (simp add: qc_rep_def)
    show ?thesis unfolding qc_rep_def using r(2) 1(1) 3 4 5 is'(2) by simp
  qed
  ultimately show ?thesis by (rule that)
qed

lemma qc_insert_rep:
  assumes s: "qc_rep s xs"
  obtains s' ys where "qc_insert dbg key s = Some s'" and "qc_rep s' ys"
proof -
  let ?p = "node_count s" and ?e = "TestElement key (node_count s)"
  let ?n = "node_new ?e (element_to_summary test_callback ?e) :: (nat, test_element, 64 word) node"
  let ?h = "(node_heap s)(?p \<mapsto> ?n)"
  have idx: "test_index (snd x) < ?p \<and> fst x < ?p" if "x \<in> set xs" for x
    using qc_rep_index [OF s, of "fst x" "snd x"] that by simp
  then have fresh: "?p \<notin> fst ` set xs" "?e \<notin> snd ` set xs" by fastforce+
  have srt: "sorted_wrt (<) (map snd xs)" using s by (simp add: qc_rep_def)
  have right: "goes_right test_callback ?e x \<longleftrightarrow> snd x < ?e" if "x \<in> set xs" for x
    using goes_right_less idx [OF that] by blast
  from s have "tree_rep test_callback (node_heap s) (tree_cell s) xs" by (simp add: qc_rep_def)
  then have t: "tree_rep test_callback ?h (tree_cell s) xs"
    by (rule tree_rep_agree) (use fresh(1) in \<open>metis fun_upd_apply\<close>)
  have sp: "split_at (goes_right test_callback (element ?n)) xs"
    by (rule sorted_split [OF srt])
      (auto simp: node_new_def goes_right_def test_callback_def less_test_element_def)
  from test_cb.tree_rep_insert [OF t _ fresh(1) _ sp, of dbg] obtain h' rt' where
    r: "node_insert dbg test_callback ?h (tree_cell s) ?p = Some (h', rt')"
      "tree_rep test_callback h' rt' (list_insert (goes_right test_callback ?e) (?p, ?e) xs)"
      "frame_ok (insert ?p (fst ` set xs)) ?h h'" by (auto simp: node_new_def)
  let ?s = "s\<lparr>node_heap := h', tree_cell := rt', node_count := ?p + 1, inserted_node_is := inserted_node_is s @ [?p],
    expected := insert ?e (expected s), keys_worth_checking := insert key (keys_worth_checking s)\<rparr>"
  have eq: "list_insert (goes_right test_callback ?e) (?p, ?e) xs = list_insert (\<lambda>x. snd x < ?e) (?p, ?e) xs"
    by (rule list_insert_cong) (rule right)
  have "qc_insert dbg key s = Some ?s" using r(1) by (simp add: qc_insert_def Let_def)
  moreover have "qc_rep ?s (list_insert (\<lambda>x. snd x < ?e) (?p, ?e) xs)"
  proof -
    have "\<forall>i<?p. \<exists>n. ?h i = Some n \<and> test_index (element n) = i" using s by (simp add: qc_rep_def)
    then have "\<forall>i<Suc ?p. \<exists>n. ?h i = Some n \<and> test_index (element n) = i" by (auto simp: less_Suc_eq node_new_def)
    then have 1: "\<forall>i<Suc ?p. \<exists>n. h' i = Some n \<and> test_index (element n) = i"
      using frame_ok_index [OF r(3)] by blast
    have 2: "\<forall>i\<in>set (inserted_node_is s). i < ?p" using s by (simp add: qc_rep_def)
    then have 3: "?p \<notin> set (inserted_node_is s)" by auto
    from s have "expected s = snd ` set xs" "fst ` set xs = set (inserted_node_is s)" "distinct (inserted_node_is s)"
      by (simp_all add: qc_rep_def)
    with r(2) 1 2 3 sorted_insert [OF srt fresh(2), of ?p] show ?thesis unfolding qc_rep_def eq by (simp add: less_SucI)
  qed
  ultimately show ?thesis by (rule that)
qed

section \<open>The checks\<close>

lemma elements_at_rep: "\<forall>(p, e)\<in>set xs. \<exists>n. h p = Some n \<and> element n = e \<Longrightarrow> elements_at h (map fst xs) = Some (map snd xs)"
  by (induction xs) auto

lemma check_key:
  assumes t: "tree_rep test_callback h rt xs" and srt: "sorted_wrt (<) (map snd xs)"
  obtains q where "lower_bound h rt (\<lambda>e. cmp key (test_key e)) = Some q"
    and "prefix_sum test_callback h rt q = Some (expected_prefix_sum (map snd xs) key)"
proof -
  let ?c = "\<lambda>e. cmp key (test_key e)"
  have sp: "split_at (below ?c) xs"
    by (rule sorted_split [OF srt]) (auto simp: below_def less_test_element_def)
  then obtain us vs where xs: "xs = us @ vs" "\<forall>u\<in>set us. below ?c u" "\<forall>v\<in>set vs. \<not> below ?c v"
    by (rule split_at_cases)
  then have "takeWhile (below ?c) xs = us" by (simp only: takeWhile_split)
  with xs have "filter (\<lambda>e. test_key e < key) (map snd xs) = map snd (takeWhile (below ?c) xs)"
    by (auto simp: below_def filter_map comp_def filter_id_conv filter_empty_conv)
  then have "expected_prefix_sum (map snd xs) key = total (element_to_summary test_callback) (takeWhile (below ?c) xs)"
    by (simp add: expected_prefix_sum_def test_callback_def comp_def)
  with test_cb.tree_rep_rank [OF t sp] show ?thesis by (intro that [OF tree_rep_lower_bound [OF t sp]]) simp
qed

lemma check_prefix_sums_ok:
  assumes "tree_rep test_callback (node_heap s) (tree_cell s) xs" and "sorted_wrt (<) (map snd xs)"
  shows "check_prefix_sums s (map snd xs) keys = Some ()"
proof (induction keys)
  case (Cons key keys)
  obtain q where "lower_bound (node_heap s) (tree_cell s) (\<lambda>e. cmp key (test_key e)) = Some q"
    "prefix_sum test_callback (node_heap s) (tree_cell s) q = Some (expected_prefix_sum (map snd xs) key)"
    by (rule check_key [OF assms])
  with Cons show ?case by simp
qed simp

lemma qc_check_ok:
  assumes s: "qc_rep s xs"
  shows "qc_check s = Some ()"
proof -
  from s have t: "tree_rep test_callback (node_heap s) (tree_cell s) xs" and srt: "sorted_wrt (<) (map snd xs)"
    by (simp_all add: qc_rep_def)
  have es: "sorted_list_of_set (expected s) = map snd xs" using s sorted_list_of_rep [OF srt] by (simp add: qc_rep_def)
  have at: "elements_at (node_heap s) (map fst xs) = Some (map snd xs)"
    "elements_at (node_heap s) (map fst (rev xs)) = Some (map snd (rev xs))"
    by (rule elements_at_rep; use tree_rep_elem [OF t] in auto)+
  from t obtain u where "rep (node_heap s) None u" "tree_cell s = root_ptr u" by (auto simp: tree_rep_def zrep_def)
  with node_dump_rep [of "node_heap s" None u 1] obtain lines where
    "node_dump (node_heap s) (tree_cell s) 1 = Some lines" by auto
  with test_cb.validate_ok [OF t] node_iter_nodes [OF t] at es check_prefix_sums_ok [OF t srt] show ?thesis
    by (simp add: qc_check_def rev_map)
qed

lemma qc_btree_ok: "qc_rep s xs \<Longrightarrow> \<exists>s' ys. qc_btree dbg cmds s = Some s' \<and> qc_rep s' ys"
proof (induction dbg cmds s arbitrary: xs rule: qc_btree.induct)
  case (2 dbg cmd cmds s)
  show ?case
  proof (cases "cmd mod 2 = 0 \<and> inserted_node_is s \<noteq> []")
    case True
    then obtain s' ys where "qc_remove dbg cmd s = Some s'" "qc_rep s' ys" using qc_remove_rep [OF "2.prems"] by metis
    with "2.IH"(1) [OF True this(1)] qc_check_ok [OF this(2)] show ?thesis
      by (simp only: qc_btree.simps if_P [OF True] bind.bind_lunit)
  next
    case False
    show ?thesis
    proof (cases cmds)
      case (Cons key cmds')
      obtain s' ys where "qc_insert dbg key s = Some s'" "qc_rep s' ys" using qc_insert_rep [OF "2.prems"] by metis
      with "2.IH"(2) [OF False Cons this(1)] qc_check_ok [OF this(2)] Cons show ?thesis
        by (simp only: qc_btree.simps if_not_P [OF False] list.case bind.bind_lunit)
    next
      case Nil
      with "2.prems" show ?thesis by (simp only: qc_btree.simps if_not_P [OF False] list.case) blast
    qed
  qed
qed auto

text \<open>C17. The test \<open>qc_btree\<close> passes for every list of command bytes, in a debug and in a release build: no operation
  of the tree faults or fails to return, no assertion of the validator or of the test fails, and the tree at the end lists
  the elements of the reference set in order.\<close>

theorem qc_btree_passes:
  "\<exists>s qs. qc_btree dbg cmds qc_new = Some s \<and> node_iter (node_heap s) (tree_cell s) = Some qs \<and>
     elements_at (node_heap s) qs = Some (sorted_list_of_set (expected s))"
proof -
  from qc_btree_ok [OF qc_rep_new] obtain s xs where s: "qc_btree dbg cmds qc_new = Some s" "qc_rep s xs" by blast
  then have t: "tree_rep test_callback (node_heap s) (tree_cell s) xs" and srt: "sorted_wrt (<) (map snd xs)"
    by (simp_all add: qc_rep_def)
  have "elements_at (node_heap s) (map fst xs) = Some (map snd xs)"
    by (rule elements_at_rep) (use tree_rep_elem [OF t] in auto)
  with s node_iter_nodes(1) [OF t] sorted_list_of_rep [OF srt] show ?thesis by (simp add: qc_rep_def)
qed

end
