(* ===== verification/Core_State.thy ===== *)
theory Core_State
  imports Rb_Delete "HOL-Library.Word"
begin

text \<open>
  The data of \<open>src/core/rbtree.rs\<close>: the three trees of a core, the four kinds of lock
  states, and the tree callbacks.  The nodes of the trees live inside lock states, so the
  heaps of the trees are the node cells of the lock states: the cell \<open>UnsafeCell<Option<Node>>\<close>
  of the lock state at address \<open>l\<close> is the heap's value at \<open>l\<close>, \<open>None\<close> included.
\<close>

section \<open>Ranges and tree elements\<close>

text \<open>\<open>core::ops::Range\<close>\<close>

datatype 'i range = Range (rng_start: 'i) (rng_end: 'i)

type_synonym 'i read_element = "'i \<times> 8 word"

text \<open>\<open>LockStatePtr\<close>\<close>

datatype 'l lock_state_ptr = Read 'l | Write 'l

text \<open>\<open>Pending\<close>\<close>

record ('l, 'i, 'pr, 'ip) pending =
  p_range :: "'i range"
  p_priority :: 'pr
  p_parent :: "'l lock_state_ptr"
  p_in_progress :: 'ip

section \<open>Callbacks of the three trees\<close>

definition read_node_callback :: "('i::linorder read_element, 64 word) callback" where
  "read_node_callback =
     \<lparr>zero_summary = 0, element_to_summary = (\<lambda>e. scast (snd e)), add_assign_summary = (\<lambda>a b. a + b),
      sub_assign_summary = (\<lambda>a b. a - b), cmp_element = (\<lambda>e1 e2. cmp (fst e1) (fst e2))\<rparr>"

definition write_node_callback :: "('i::linorder range, unit) callback" where
  "write_node_callback =
     \<lparr>zero_summary = (), element_to_summary = (\<lambda>_. ()), add_assign_summary = (\<lambda>_ _. ()),
      sub_assign_summary = (\<lambda>_ _. ()), cmp_element = (\<lambda>e1 e2. cmp (rng_start e1) (rng_start e2))\<rparr>"

text \<open>Tied pending borrows are kept in the reverse insertion order.\<close>

definition pending_node_callback ::
  "(('l, 'i::linorder, 'pr::linorder, 'ip) pending, unit) callback" where
  "pending_node_callback =
     \<lparr>zero_summary = (), element_to_summary = (\<lambda>_. ()), add_assign_summary = (\<lambda>_ _. ()),
      sub_assign_summary = (\<lambda>_ _. ()),
      cmp_element = (\<lambda>new existing.
        then_ord (then_ord (cmp (rng_start (p_range new)) (rng_start (p_range existing)))
                           (cmp (p_priority new) (p_priority existing)))
                 Less)\<rparr>"

interpretation read_cb: tree_callback read_node_callback
  by unfold_locales (simp_all add: read_node_callback_def)

interpretation write_cb: tree_callback write_node_callback
  by unfold_locales (simp_all add: write_node_callback_def)

interpretation pending_cb: tree_callback pending_node_callback
  by unfold_locales (simp_all add: pending_node_callback_def)

section \<open>Cores and lock states\<close>

text \<open>\<open>RbTreeIntervalRwLockCore\<close>: the tree cells.  A read borrow has two nodes.\<close>

record 'l core =
  reads :: "('l \<times> bool) option"
  writes :: "'l option"
  pendings :: "'l option"

text \<open>
  All lock states, field by field.  The kinds of \<open>*LockStateInner\<close> have different fields;
  a field that a kind lacks stays \<open>None\<close>.  \<open>read_cell s (l, False)\<close> and \<open>read_cell s (l, True)\<close>
  are the two elements of the array in the field \<open>read\<close>.
\<close>

record ('c, 'l, 'i, 'pr, 'ip) lock_states =
  parent_cell :: "'l \<Rightarrow> 'c option"
  read_cell :: "('l \<times> bool, 'i read_element, 64 word) heap"
  write_cell :: "('l, 'i range, unit) heap"
  pending_cell :: "('l, ('l, 'i, 'pr, 'ip) pending, unit) heap"

text \<open>\<open>RbTreeIntervalRwLockCore::new\<close> and the \<open>Default\<close> lock states\<close>

definition core_new :: "'l core" where
  "core_new = \<lparr>reads = None, writes = None, pendings = None\<rparr>"

definition lock_states_default :: "('c, 'l, 'i, 'pr, 'ip) lock_states" where
  "lock_states_default =
     \<lparr>parent_cell = (\<lambda>_. None), read_cell = (\<lambda>_. None), write_cell = (\<lambda>_. None),
      pending_cell = (\<lambda>_. None)\<rparr>"

text \<open>The panics, and an abort inside \<open>abort_on_unwind\<close>.\<close>

datatype fault = InvalidRange | LockStateInUse | IncorrectParent | StillLinked | StillLocked | Aborted

text \<open>\<open>abort_on_unwind\<close>: a fault inside the closure ends the program.\<close>

definition abort_on_unwind :: "'a option \<Rightarrow> fault + 'a" where
  "abort_on_unwind r = (case r of None \<Rightarrow> Inl Aborted | Some x \<Rightarrow> Inr x)"

lemma abort_on_unwind_Some [simp]: "abort_on_unwind (Some x) = Inr x"
  by (simp add: abort_on_unwind_def)

text \<open>\<open>LockCallback\<close>: the output, with the \<open>InProgress\<close> object of a lock that is blocked.\<close>

record ('out, 'ip) lock_callback =
  on_in_progress :: "'out \<times> 'ip"
  on_complete :: 'out

text \<open>\<open>UnlockCallback::complete\<close> acts on the caller's environment.\<close>

type_synonym ('ip, 'w) unlock_callback = "'ip \<Rightarrow> 'w \<Rightarrow> 'w"

text \<open>\<open>LockState\<close>\<close>

datatype 'ip lock_progress = InProgress 'ip | Complete

section \<open>Tree operations on a core\<close>

type_synonym ('c, 'l, 'i, 'pr, 'ip) world = "'l core \<times> ('c, 'l, 'i, 'pr, 'ip) lock_states"

definition insert_read ::
  "bool \<Rightarrow> 'l core \<Rightarrow> ('c, 'l, 'i::linorder, 'pr, 'ip) lock_states \<Rightarrow> 'l \<times> bool \<Rightarrow>
   ('c, 'l, 'i, 'pr, 'ip) world option" where
  "insert_read dbg c s p = do {
     (h, rt) \<leftarrow> node_insert dbg read_node_callback (read_cell s) (reads c) p;
     Some (c\<lparr>reads := rt\<rparr>, s\<lparr>read_cell := h\<rparr>)
   }"

definition remove_read ::
  "bool \<Rightarrow> 'l core \<Rightarrow> ('c, 'l, 'i::linorder, 'pr, 'ip) lock_states \<Rightarrow> 'l \<times> bool \<Rightarrow>
   ('c, 'l, 'i, 'pr, 'ip) world option" where
  "remove_read dbg c s p = do {
     (h, rt) \<leftarrow> node_remove dbg read_node_callback (read_cell s) (reads c) p;
     Some (c\<lparr>reads := rt\<rparr>, s\<lparr>read_cell := h\<rparr>)
   }"

definition insert_write ::
  "bool \<Rightarrow> 'l core \<Rightarrow> ('c, 'l, 'i::linorder, 'pr, 'ip) lock_states \<Rightarrow> 'l \<Rightarrow>
   ('c, 'l, 'i, 'pr, 'ip) world option" where
  "insert_write dbg c s p = do {
     (h, rt) \<leftarrow> node_insert dbg write_node_callback (write_cell s) (writes c) p;
     Some (c\<lparr>writes := rt\<rparr>, s\<lparr>write_cell := h\<rparr>)
   }"

definition remove_write ::
  "bool \<Rightarrow> 'l core \<Rightarrow> ('c, 'l, 'i::linorder, 'pr, 'ip) lock_states \<Rightarrow> 'l \<Rightarrow>
   ('c, 'l, 'i, 'pr, 'ip) world option" where
  "remove_write dbg c s p = do {
     (h, rt) \<leftarrow> node_remove dbg write_node_callback (write_cell s) (writes c) p;
     Some (c\<lparr>writes := rt\<rparr>, s\<lparr>write_cell := h\<rparr>)
   }"

definition insert_pending ::
  "bool \<Rightarrow> 'l core \<Rightarrow> ('c, 'l, 'i::linorder, 'pr::linorder, 'ip) lock_states \<Rightarrow> 'l \<Rightarrow>
   ('c, 'l, 'i, 'pr, 'ip) world option" where
  "insert_pending dbg c s p = do {
     (h, rt) \<leftarrow> node_insert dbg pending_node_callback (pending_cell s) (pendings c) p;
     Some (c\<lparr>pendings := rt\<rparr>, s\<lparr>pending_cell := h\<rparr>)
   }"

definition remove_pending ::
  "bool \<Rightarrow> 'l core \<Rightarrow> ('c, 'l, 'i::linorder, 'pr::linorder, 'ip) lock_states \<Rightarrow> 'l \<Rightarrow>
   ('c, 'l, 'i, 'pr, 'ip) world option" where
  "remove_pending dbg c s p = do {
     (h, rt) \<leftarrow> node_remove dbg pending_node_callback (pending_cell s) (pendings c) p;
     Some (c\<lparr>pendings := rt\<rparr>, s\<lparr>pending_cell := h\<rparr>)
   }"

text \<open>\<open>*cell = Some(Node::new(..))\<close> for each kind of cell.\<close>

definition new_read_nodes ::
  "bool \<Rightarrow> ('c, 'l, 'i, 'pr, 'ip) lock_states \<Rightarrow> 'l \<Rightarrow> 'i \<Rightarrow> 'i \<Rightarrow>
   ('c, 'l, 'i, 'pr, 'ip) lock_states option" where
  "new_read_nodes dbg s l a b = do {
     dassert dbg (read_cell s (l, False) = None);
     Some (s\<lparr>read_cell := (read_cell s)
        ((l, False) \<mapsto> node_new (a, 1) 1, (l, True) \<mapsto> node_new (b, -1) (-1))\<rparr>)
   }"

definition new_write_node ::
  "bool \<Rightarrow> ('c, 'l, 'i, 'pr, 'ip) lock_states \<Rightarrow> 'l \<Rightarrow> 'i range \<Rightarrow>
   ('c, 'l, 'i, 'pr, 'ip) lock_states option" where
  "new_write_node dbg s l r = do {
     dassert dbg (write_cell s l = None);
     Some (s\<lparr>write_cell := (write_cell s)(l \<mapsto> node_new r ())\<rparr>)
   }"

definition new_pending_node ::
  "bool \<Rightarrow> ('c, 'l, 'i, 'pr, 'ip) lock_states \<Rightarrow> 'l \<Rightarrow> ('l, 'i, 'pr, 'ip) pending \<Rightarrow>
   ('c, 'l, 'i, 'pr, 'ip) lock_states option" where
  "new_pending_node dbg s l p = do {
     dassert dbg (pending_cell s l = None);
     Some (s\<lparr>pending_cell := (pending_cell s)(l \<mapsto> node_new p ())\<rparr>)
   }"

text \<open>\<open>*cell = None\<close> for the array of read nodes.\<close>

definition clear_read :: "('c, 'l, 'i, 'pr, 'ip) lock_states \<Rightarrow> 'l \<Rightarrow> ('c, 'l, 'i, 'pr, 'ip) lock_states" where
  "clear_read s l = s\<lparr>read_cell := (read_cell s)((l, False) := None, (l, True) := None)\<rparr>"

text \<open>Claiming and unclaiming a lock state.\<close>

definition set_parent_cell ::
  "('c, 'l, 'i, 'pr, 'ip) lock_states \<Rightarrow> 'l \<Rightarrow> 'c option \<Rightarrow> ('c, 'l, 'i, 'pr, 'ip) lock_states" where
  "set_parent_cell s l x = s\<lparr>parent_cell := (parent_cell s)(l := x)\<rparr>"

end
