(* ===== verification/Core_Ops.thy ===== *)
theory Core_Ops
  imports Core_State
begin

text \<open>
  The operations of \<open>RbTreeIntervalRwLockCore\<close>.  \<open>self\<close> is the address of the core, \<open>c\<close> its
  tree cells, \<open>s\<close> the lock states and \<open>l\<close> the lock state passed in.  Guards and their
  order, the order of tree updates and callback calls are those of the source.
\<close>

section \<open>Searching for conflicts\<close>

definition first_write_borrow_in_range ::
  "'l core \<Rightarrow> ('c, 'l, 'i::linorder, 'pr, 'ip) lock_states \<Rightarrow> 'i range \<Rightarrow> 'i option option" where
  "first_write_borrow_in_range c s rng = do {
     write_node \<leftarrow> lower_bound (write_cell s) (writes c)
       (\<lambda>e. then_ord (cmp (rng_start rng) (rng_end e)) Greater);
     (case write_node of
        None \<Rightarrow> Some None
      | Some p \<Rightarrow> do {
          n \<leftarrow> write_cell s p;
          Some (if rng_start (element n) < rng_end rng
                then Some (max (rng_start (element n)) (rng_start rng)) else None)
        })
   }"

definition first_read_borrow_in_range ::
  "bool \<Rightarrow> 'l core \<Rightarrow> ('c, 'l, 'i::linorder, 'pr, 'ip) lock_states \<Rightarrow> 'i range \<Rightarrow> 'i option option" where
  "first_read_borrow_in_range dbg c s rng = do {
     read_node \<leftarrow> lower_bound (read_cell s) (reads c)
       (\<lambda>e. then_ord (cmp (rng_start rng) (fst e)) Greater);
     (case read_node of
        Some p \<Rightarrow> do {
          n \<leftarrow> read_cell s p;
          dassert dbg (rng_start rng < fst (element n));
          num_reads_at_start \<leftarrow> prefix_sum read_node_callback (read_cell s) (reads c) (Some p);
          (if 0 < sint num_reads_at_start then Some (Some (rng_start rng))
           else do {
             let read_starts_in_middle = fst (element n) < rng_end rng;
             dassert dbg (snd (element n) = 1);
             Some (if read_starts_in_middle then Some (fst (element n)) else None)
           })
        }
      | None \<Rightarrow> Some None)
   }"

text \<open>The smaller of two conflicts, either of which may be absent.\<close>

definition first_conflict :: "'i::linorder option \<Rightarrow> 'i option \<Rightarrow> 'i option" where
  "first_conflict a b =
     (case (a, b) of
        (None, None) \<Rightarrow> None
      | (Some i, None) \<Rightarrow> Some i
      | (None, Some i) \<Rightarrow> Some i
      | (Some i0, Some i1) \<Rightarrow> Some (min i0 i1))"

section \<open>Locking\<close>

text \<open>The indivisible part of \<open>lock_read\<close> and \<open>lock_write\<close> that stores the pending borrow.\<close>

definition remember_pending ::
  "bool \<Rightarrow> 'l \<Rightarrow> ('l, 'i, 'pr, 'ip) pending option \<Rightarrow> ('c, 'l, 'i::linorder, 'pr::linorder, 'ip) world \<Rightarrow>
   ('c, 'l, 'i, 'pr, 'ip) world option" where
  "remember_pending dbg l pend = (\<lambda>(c, s).
     case pend of
       None \<Rightarrow> Some (c, s)
     | Some p \<Rightarrow> do {
         s \<leftarrow> new_pending_node dbg s l p;
         insert_pending dbg c s l
       })"

definition borrow_read ::
  "bool \<Rightarrow> 'l \<Rightarrow> 'i range \<Rightarrow> ('c, 'l, 'i::linorder, 'pr, 'ip) world \<Rightarrow>
   ('c, 'l, 'i, 'pr, 'ip) world option" where
  "borrow_read dbg l r = (\<lambda>(c, s). do {
     s \<leftarrow> new_read_nodes dbg s l (rng_start r) (rng_end r);
     (c, s) \<leftarrow> insert_read dbg c s (l, False);
     insert_read dbg c s (l, True)
   })"

definition borrow_write ::
  "bool \<Rightarrow> 'l \<Rightarrow> 'i range \<Rightarrow> ('c, 'l, 'i::linorder, 'pr, 'ip) world \<Rightarrow>
   ('c, 'l, 'i, 'pr, 'ip) world option" where
  "borrow_write dbg l r = (\<lambda>(c, s). do {
     s \<leftarrow> new_write_node dbg s l r;
     insert_write dbg c s l
   })"

text \<open>What a lock operation borrows now, what it waits for, and what it returns.\<close>

definition plan_lock ::
  "'l lock_state_ptr \<Rightarrow> 'i range \<Rightarrow> 'pr \<Rightarrow> ('out, 'ip) lock_callback \<Rightarrow> 'i option \<Rightarrow>
   'out \<times> ('l, 'i, 'pr, 'ip) pending option \<times> 'i range option" where
  "plan_lock ptr rng priority callback conflict =
     (let (output, pend) =
        (case conflict of
           Some first_conflict_index \<Rightarrow>
             (fst (on_in_progress callback),
              Some \<lparr>p_range = Range first_conflict_index (rng_end rng), p_priority = priority,
                    p_parent = ptr, p_in_progress = snd (on_in_progress callback)\<rparr>)
         | None \<Rightarrow> (on_complete callback, None));
        borrow_range =
          (case pend of
             Some p \<Rightarrow> (if rng_start (p_range p) \<noteq> rng_start rng
                         then Some (Range (rng_start rng) (rng_start (p_range p))) else None)
           | None \<Rightarrow> Some rng)
      in (output, pend, borrow_range))"

definition lock_read ::
  "bool \<Rightarrow> 'c \<Rightarrow> 'i range \<Rightarrow> 'pr \<Rightarrow> 'l \<Rightarrow> ('out, 'ip) lock_callback \<Rightarrow>
   ('c, 'l, 'i::linorder, 'pr::linorder, 'ip) world \<Rightarrow>
   fault + 'out \<times> ('c, 'l, 'i, 'pr, 'ip) world" where
  "lock_read dbg self rng priority l callback = (\<lambda>(c, s).
     if dbg \<and> \<not> rng_start rng < rng_end rng then Inl InvalidRange
     else case first_write_borrow_in_range c s rng of
       None \<Rightarrow> Inl Aborted
     | Some conflict \<Rightarrow>
         (let (output, pend, borrow_range) = plan_lock (Read l) rng priority callback conflict
          in if parent_cell s l \<noteq> None then Inl LockStateInUse
             else
               let s = set_parent_cell s l (Some self)
               in abort_on_unwind (do {
                    (c, s) \<leftarrow> (case borrow_range of
                        Some r \<Rightarrow> borrow_read dbg l r (c, s)
                      | None \<Rightarrow> Some (c, s));
                    w \<leftarrow> remember_pending dbg l pend (c, s);
                    Some (output, w)
                  })))"

definition lock_write ::
  "bool \<Rightarrow> 'c \<Rightarrow> 'i range \<Rightarrow> 'pr \<Rightarrow> 'l \<Rightarrow> ('out, 'ip) lock_callback \<Rightarrow>
   ('c, 'l, 'i::linorder, 'pr::linorder, 'ip) world \<Rightarrow>
   fault + 'out \<times> ('c, 'l, 'i, 'pr, 'ip) world" where
  "lock_write dbg self rng priority l callback = (\<lambda>(c, s).
     if dbg \<and> \<not> rng_start rng < rng_end rng then Inl InvalidRange
     else case do {
       i0 \<leftarrow> first_write_borrow_in_range c s rng;
       i1 \<leftarrow> first_read_borrow_in_range dbg c s rng;
       Some (first_conflict i0 i1)
     } of
       None \<Rightarrow> Inl Aborted
     | Some conflict \<Rightarrow>
         (let (output, pend, borrow_range) = plan_lock (Write l) rng priority callback conflict
          in if parent_cell s l \<noteq> None then Inl LockStateInUse
             else
               let s = set_parent_cell s l (Some self)
               in abort_on_unwind (do {
                    (c, s) \<leftarrow> (case borrow_range of
                        Some r \<Rightarrow> borrow_write dbg l r (c, s)
                      | None \<Rightarrow> Some (c, s));
                    w \<leftarrow> remember_pending dbg l pend (c, s);
                    Some (output, w)
                  })))"

definition try_lock_read ::
  "bool \<Rightarrow> 'c \<Rightarrow> 'i range \<Rightarrow> 'l \<Rightarrow> ('c, 'l, 'i::linorder, 'pr, 'ip) world \<Rightarrow>
   fault + bool \<times> ('c, 'l, 'i, 'pr, 'ip) world" where
  "try_lock_read dbg self rng l = (\<lambda>(c, s).
     if dbg \<and> \<not> rng_start rng < rng_end rng then Inl InvalidRange
     else case first_write_borrow_in_range c s rng of
       None \<Rightarrow> Inl Aborted
     | Some (Some _) \<Rightarrow> Inr (False, c, s)
     | Some None \<Rightarrow>
         (if parent_cell s l \<noteq> None then Inl LockStateInUse
          else
            let s = set_parent_cell s l (Some self)
            in abort_on_unwind (do {
                 w \<leftarrow> borrow_read dbg l rng (c, s);
                 Some (True, w)
               })))"

text \<open>The search for a read conflict is skipped when there is a write conflict.\<close>

definition try_lock_write ::
  "bool \<Rightarrow> 'c \<Rightarrow> 'i range \<Rightarrow> 'l \<Rightarrow> ('c, 'l, 'i::linorder, 'pr, 'ip) world \<Rightarrow>
   fault + bool \<times> ('c, 'l, 'i, 'pr, 'ip) world" where
  "try_lock_write dbg self rng l = (\<lambda>(c, s).
     if dbg \<and> \<not> rng_start rng < rng_end rng then Inl InvalidRange
     else case do {
       i0 \<leftarrow> first_write_borrow_in_range c s rng;
       (if i0 \<noteq> None then Some True
        else do {
          i1 \<leftarrow> first_read_borrow_in_range dbg c s rng;
          Some (i1 \<noteq> None)
        })
     } of
       None \<Rightarrow> Inl Aborted
     | Some True \<Rightarrow> Inr (False, c, s)
     | Some False \<Rightarrow>
         (if parent_cell s l \<noteq> None then Inl LockStateInUse
          else
            let s = set_parent_cell s l (Some self)
            in abort_on_unwind (do {
                 w \<leftarrow> borrow_write dbg l rng (c, s);
                 Some (True, w)
               })))"

section \<open>Resuming a pending borrow\<close>

text \<open>\<open>*cell.take()\<close> on a pending cell\<close>

definition take_pending ::
  "('c, 'l, 'i, 'pr, 'ip) lock_states \<Rightarrow> 'l \<Rightarrow>
   ('l, 'i, 'pr, 'ip) pending option \<times> ('c, 'l, 'i, 'pr, 'ip) lock_states" where
  "take_pending s l =
     (map_option element (pending_cell s l), s\<lparr>pending_cell := (pending_cell s)(l := None)\<rparr>)"

definition state_addr :: "'l lock_state_ptr \<Rightarrow> 'l" where
  "state_addr ptr = (case ptr of Read l \<Rightarrow> l | Write l \<Rightarrow> l)"

text \<open>The second endpoint of a read borrow moves to \<open>i\<close>: removed, rewritten and inserted again.\<close>

definition move_read_end ::
  "bool \<Rightarrow> 'l \<Rightarrow> 'i \<Rightarrow> ('c, 'l, 'i::linorder, 'pr, 'ip) world \<Rightarrow>
   ('c, 'l, 'i, 'pr, 'ip) world option" where
  "move_read_end dbg l i = (\<lambda>(c, s). do {
     (c, s) \<leftarrow> remove_read dbg c s (l, True);
     h \<leftarrow> modify (read_cell s) (l, True) (\<lambda>n. n\<lparr>element := (i, snd (element n))\<rparr>);
     h \<leftarrow> modify h (l, True) (\<lambda>n. n\<lparr>summary := -1\<rparr>);
     insert_read dbg c (s\<lparr>read_cell := h\<rparr>) (l, True)
   })"

definition set_write_end ::
  "'l \<Rightarrow> 'i \<Rightarrow> ('c, 'l, 'i, 'pr, 'ip) lock_states \<Rightarrow> ('c, 'l, 'i, 'pr, 'ip) lock_states option" where
  "set_write_end l i s = do {
     h \<leftarrow> modify (write_cell s) l (\<lambda>n. n\<lparr>element := Range (rng_start (element n)) i\<rparr>);
     Some (s\<lparr>write_cell := h\<rparr>)
   }"

definition expand_write ::
  "bool \<Rightarrow> 'c \<Rightarrow> 'l \<Rightarrow> 'i \<Rightarrow> 'i \<Rightarrow> ('c, 'l, 'i::linorder, 'pr, 'ip) world \<Rightarrow>
   ('c, 'l, 'i, 'pr, 'ip) world option" where
  "expand_write dbg self l start new_end = (\<lambda>(c, s). do {
     dassert dbg (parent_cell s l = Some self);
     (case write_cell s l of
        Some _ \<Rightarrow> do { s \<leftarrow> set_write_end l new_end s; Some (c, s) }
      | None \<Rightarrow> do {
          s \<leftarrow> new_write_node dbg s l (Range start new_end);
          insert_write dbg c s l
        })
   })"

definition expand_read ::
  "bool \<Rightarrow> 'c \<Rightarrow> 'l \<Rightarrow> 'i \<Rightarrow> 'i \<Rightarrow> ('c, 'l, 'i::linorder, 'pr, 'ip) world \<Rightarrow>
   ('c, 'l, 'i, 'pr, 'ip) world option" where
  "expand_read dbg self l start new_end = (\<lambda>(c, s). do {
     dassert dbg (parent_cell s l = Some self);
     (case read_cell s (l, True) of
        Some _ \<Rightarrow> move_read_end dbg l new_end (c, s)
      | None \<Rightarrow> do {
          s \<leftarrow> new_read_nodes dbg s l start new_end;
          (c, s) \<leftarrow> insert_read dbg c s (l, False);
          insert_read dbg c s (l, True)
        })
   })"

definition resume_borrow ::
  "bool \<Rightarrow> 'c \<Rightarrow> ('ip, 'w) unlock_callback \<Rightarrow> 'l \<Rightarrow>
   ('c, 'l, 'i::linorder, 'pr::linorder, 'ip) world \<times> 'w \<Rightarrow>
   (('c, 'l, 'i, 'pr, 'ip) world \<times> 'w) option" where
  "resume_borrow dbg self callback pending_node = (\<lambda>((c, s), w). do {
     pn \<leftarrow> pending_cell s pending_node;
     let par = p_parent (element pn);
     let rng = p_range (element pn);
     first_conflict_write_index \<leftarrow> first_write_borrow_in_range c s rng;
     first_conflict_read_index \<leftarrow> (case par of
         Write _ \<Rightarrow> first_read_borrow_in_range dbg c s rng
       | Read _ \<Rightarrow> Some None);
     let conflict = first_conflict first_conflict_write_index first_conflict_read_index;
     (if conflict = Some (rng_start rng) then Some ((c, s), w)
      else do {
        (c, s) \<leftarrow> remove_pending dbg c s pending_node;
        ((c, s), w) \<leftarrow> (case conflict of
            Some first_conflict_index \<Rightarrow> do {
              h \<leftarrow> modify (pending_cell s) pending_node (\<lambda>n. n\<lparr>element :=
                (element n)\<lparr>p_range := Range first_conflict_index (rng_end (p_range (element n)))\<rparr>\<rparr>);
              (c, s) \<leftarrow> insert_pending dbg c (s\<lparr>pending_cell := h\<rparr>) pending_node;
              Some ((c, s), w)
            }
          | None \<Rightarrow> do {
              dassert dbg (pending_cell s (state_addr par) \<noteq> None \<and> state_addr par = pending_node);
              let (pend, s) = take_pending s (state_addr par);
              pend \<leftarrow> pend;
              Some ((c, s), callback (p_in_progress pend) w)
            });
        let new_end = (case conflict of None \<Rightarrow> rng_end rng | Some i \<Rightarrow> i);
        (c, s) \<leftarrow> (case par of
            Write l \<Rightarrow> expand_write dbg self l (rng_start rng) new_end (c, s)
          | Read l \<Rightarrow> expand_read dbg self l (rng_start rng) new_end (c, s));
        Some ((c, s), w)
      })
   })"

section \<open>Unlocking\<close>

definition cancel_borrow ::
  "bool \<Rightarrow> 'l \<Rightarrow> ('c, 'l, 'i::linorder, 'pr::linorder, 'ip) world \<Rightarrow>
   (('l, 'i, 'pr, 'ip) pending option \<times> ('c, 'l, 'i, 'pr, 'ip) world) option" where
  "cancel_borrow dbg l = (\<lambda>(c, s).
     case pending_cell s l of
       None \<Rightarrow> Some (None, c, s)
     | Some _ \<Rightarrow> do {
         (c, s) \<leftarrow> remove_pending dbg c s l;
         let (p, s) = take_pending s l;
         Some (p, c, s)
       })"

text \<open>\<open>Option::filter\<close> with the test \<open>range.start >= start\<close> on a pending node.\<close>

definition filter_start ::
  "('c, 'l, 'i::linorder, 'pr, 'ip) lock_states \<Rightarrow> 'i \<Rightarrow> 'l option \<Rightarrow> 'l option option" where
  "filter_start s start node =
     (case node of
        None \<Rightarrow> Some None
      | Some p \<Rightarrow> do {
          n \<leftarrow> pending_cell s p;
          Some (if start \<le> rng_start (p_range (element n)) then Some p else None)
        })"

text \<open>The maximum pending node that is below \<open>(end, -\<infinity>)\<close> and not below \<open>start\<close>.\<close>

definition last_pending_before ::
  "'l core \<Rightarrow> ('c, 'l, 'i::linorder, 'pr, 'ip) lock_states \<Rightarrow> 'i \<Rightarrow> 'i \<Rightarrow> 'l option option" where
  "last_pending_before c s start endi = do {
     lb \<leftarrow> lower_bound (pending_cell s) (pendings c) (\<lambda>e. cmp endi (rng_start (p_range e)));
     node \<leftarrow> (case lb of
         Some node \<Rightarrow> predecessor (pending_cell s) node
       | None \<Rightarrow> (case pendings c of
           None \<Rightarrow> Some None
         | Some root \<Rightarrow> do { m \<leftarrow> node_max (pending_cell s) root; Some (Some m) }));
     filter_start s start node
   }"

text \<open>Unborrowing \<open>index..endi\<close> before the pending borrow at \<open>index\<close> is resumed; the remaining end and
  whether the borrow is gone are returned.\<close>

definition write_cut_step ::
  "bool \<Rightarrow> 'l \<Rightarrow> 'i \<Rightarrow> 'i \<Rightarrow> 'i \<Rightarrow> bool \<Rightarrow> ('c, 'l, 'i::linorder, 'pr, 'ip) world \<Rightarrow>
   (('c, 'l, 'i, 'pr, 'ip) world \<times> 'i \<times> bool) option" where
  "write_cut_step dbg l start index endi complete cs =
     (if \<not> complete then
        (if index = start then do {
           (c, s) \<leftarrow> remove_write dbg (fst cs) (snd cs) l;
           Some ((c, s\<lparr>write_cell := (write_cell s)(l := None)\<rparr>), endi, True)
         } else do {
           s \<leftarrow> set_write_end l index (snd cs);
           Some ((fst cs, s), index, complete)
         })
      else Some (cs, endi, complete))"

definition read_cut_step ::
  "bool \<Rightarrow> 'l \<Rightarrow> 'i \<Rightarrow> 'i \<Rightarrow> 'i \<Rightarrow> bool \<Rightarrow> ('c, 'l, 'i::linorder, 'pr, 'ip) world \<Rightarrow>
   (('c, 'l, 'i, 'pr, 'ip) world \<times> 'i \<times> bool) option" where
  "read_cut_step dbg l start index endi complete cs =
     (if \<not> complete then
        (if index = endi then Some (cs, endi, complete)
         else if index = start then do {
           (c, s) \<leftarrow> remove_read dbg (fst cs) (snd cs) (l, True);
           (c, s) \<leftarrow> remove_read dbg c s (l, False);
           Some ((c, clear_read s l), endi, True)
         } else do {
           cs \<leftarrow> move_read_end dbg l index cs;
           Some (cs, index, complete)
         })
      else Some (cs, endi, complete))"

text \<open>The loops return the state, the environment and whether the borrow is gone.\<close>

partial_function (option) unlock_read_loop ::
  "bool \<Rightarrow> 'c \<Rightarrow> ('ip, 'w) unlock_callback \<Rightarrow> 'l \<Rightarrow> 'i \<Rightarrow> 'i \<Rightarrow> bool \<Rightarrow> 'l option \<Rightarrow>
   ('c, 'l, 'i::linorder, 'pr::linorder, 'ip) world \<Rightarrow> 'w \<Rightarrow>
   (('c, 'l, 'i, 'pr, 'ip) world \<times> 'w \<times> bool) option" where
  "unlock_read_loop dbg self callback l start endi complete maybe_pending_node cs w =
     (case maybe_pending_node of
        None \<Rightarrow> Some (cs, w, complete)
      | Some pending_node \<Rightarrow> do {
          prev \<leftarrow> predecessor (pending_cell (snd cs)) pending_node;
          next_maybe_pending_node \<leftarrow> filter_start (snd cs) start prev;
          pn \<leftarrow> pending_cell (snd cs) pending_node;
          let index = rng_start (p_range (element pn));
          dassert dbg (start \<le> index \<and> index \<le> endi);
          (cs, endi, complete) \<leftarrow> read_cut_step dbg l start index endi complete cs;
          (cs, w) \<leftarrow> resume_borrow dbg self callback pending_node (cs, w);
          unlock_read_loop dbg self callback l start endi complete next_maybe_pending_node cs w
        })"

definition unlock_read_inner ::
  "bool \<Rightarrow> 'c \<Rightarrow> ('ip, 'w) unlock_callback \<Rightarrow> 'l \<Rightarrow>
   ('c, 'l, 'i::linorder, 'pr::linorder, 'ip) world \<Rightarrow> 'w \<Rightarrow>
   (('c, 'l, 'i, 'pr, 'ip) world \<times> 'w) option" where
  "unlock_read_inner dbg self callback l cs w =
     (case read_cell (snd cs) (l, False) of
        None \<Rightarrow> Some (cs, w)
      | Some n0 \<Rightarrow> do {
          n1 \<leftarrow> read_cell (snd cs) (l, True);
          let start = fst (element n0);
          let endi = fst (element n1);
          maybe_pending_node \<leftarrow> last_pending_before (fst cs) (snd cs) start endi;
          (cs, w, complete) \<leftarrow>
            unlock_read_loop dbg self callback l start endi False maybe_pending_node cs w;
          (if \<not> complete then do {
             (c, s) \<leftarrow> remove_read dbg (fst cs) (snd cs) (l, False);
             (c, s) \<leftarrow> remove_read dbg c s (l, True);
             Some ((c, clear_read s l), w)
           } else Some (cs, w))
        })"

partial_function (option) unlock_write_loop ::
  "bool \<Rightarrow> 'c \<Rightarrow> ('ip, 'w) unlock_callback \<Rightarrow> 'l \<Rightarrow> 'i \<Rightarrow> 'i \<Rightarrow> bool \<Rightarrow> 'l option \<Rightarrow>
   ('c, 'l, 'i::linorder, 'pr::linorder, 'ip) world \<Rightarrow> 'w \<Rightarrow>
   (('c, 'l, 'i, 'pr, 'ip) world \<times> 'w \<times> bool) option" where
  "unlock_write_loop dbg self callback l start endi complete maybe_pending_node cs w =
     (case maybe_pending_node of
        None \<Rightarrow> Some (cs, w, complete)
      | Some pending_node \<Rightarrow> do {
          prev \<leftarrow> predecessor (pending_cell (snd cs)) pending_node;
          next_maybe_pending_node \<leftarrow> filter_start (snd cs) start prev;
          pn \<leftarrow> pending_cell (snd cs) pending_node;
          let index = rng_start (p_range (element pn));
          dassert dbg (start \<le> index \<and> index \<le> endi);
          (cs, endi, complete) \<leftarrow> write_cut_step dbg l start index endi complete cs;
          (cs, w) \<leftarrow> resume_borrow dbg self callback pending_node (cs, w);
          unlock_write_loop dbg self callback l start endi complete next_maybe_pending_node cs w
        })"

definition unlock_write_inner ::
  "bool \<Rightarrow> 'c \<Rightarrow> ('ip, 'w) unlock_callback \<Rightarrow> 'l \<Rightarrow>
   ('c, 'l, 'i::linorder, 'pr::linorder, 'ip) world \<Rightarrow> 'w \<Rightarrow>
   (('c, 'l, 'i, 'pr, 'ip) world \<times> 'w) option" where
  "unlock_write_inner dbg self callback l cs w =
     (case write_cell (snd cs) l of
        None \<Rightarrow> Some (cs, w)
      | Some n \<Rightarrow> do {
          let start = rng_start (element n);
          let endi = rng_end (element n);
          maybe_pending_node \<leftarrow> last_pending_before (fst cs) (snd cs) start endi;
          (cs, w, complete) \<leftarrow>
            unlock_write_loop dbg self callback l start endi False maybe_pending_node cs w;
          (if \<not> complete then do {
             (c, s) \<leftarrow> remove_write dbg (fst cs) (snd cs) l;
             Some ((c, s\<lparr>write_cell := (write_cell s)(l := None)\<rparr>), w)
           } else Some (cs, w))
        })"

text \<open>The four unlock operations: check of the parent, the indivisible part, unclaiming.\<close>

definition unlock_read ::
  "bool \<Rightarrow> 'c \<Rightarrow> 'l \<Rightarrow> ('ip, 'w) unlock_callback \<Rightarrow>
   ('c, 'l, 'i::linorder, 'pr::linorder, 'ip) world \<times> 'w \<Rightarrow>
   fault + 'ip option \<times> ('c, 'l, 'i, 'pr, 'ip) world \<times> 'w" where
  "unlock_read dbg self l callback = (\<lambda>(cs, w).
     if parent_cell (snd cs) l \<noteq> Some self then Inl IncorrectParent
     else abort_on_unwind (do {
       (p, cs) \<leftarrow> cancel_borrow dbg l cs;
       ((c, s), w) \<leftarrow> unlock_read_inner dbg self callback l cs w;
       Some (map_option p_in_progress p, (c, set_parent_cell s l None), w)
     }))"

definition unlock_write ::
  "bool \<Rightarrow> 'c \<Rightarrow> 'l \<Rightarrow> ('ip, 'w) unlock_callback \<Rightarrow>
   ('c, 'l, 'i::linorder, 'pr::linorder, 'ip) world \<times> 'w \<Rightarrow>
   fault + 'ip option \<times> ('c, 'l, 'i, 'pr, 'ip) world \<times> 'w" where
  "unlock_write dbg self l callback = (\<lambda>(cs, w).
     if parent_cell (snd cs) l \<noteq> Some self then Inl IncorrectParent
     else abort_on_unwind (do {
       (p, cs) \<leftarrow> cancel_borrow dbg l cs;
       ((c, s), w) \<leftarrow> unlock_write_inner dbg self callback l cs w;
       Some (map_option p_in_progress p, (c, set_parent_cell s l None), w)
     }))"

definition unlock_try_read ::
  "bool \<Rightarrow> 'c \<Rightarrow> 'l \<Rightarrow> ('ip, 'w) unlock_callback \<Rightarrow>
   ('c, 'l, 'i::linorder, 'pr::linorder, 'ip) world \<times> 'w \<Rightarrow>
   fault + ('c, 'l, 'i, 'pr, 'ip) world \<times> 'w" where
  "unlock_try_read dbg self l callback = (\<lambda>(cs, w).
     if parent_cell (snd cs) l \<noteq> Some self then Inl IncorrectParent
     else abort_on_unwind (do {
       ((c, s), w) \<leftarrow> unlock_read_inner dbg self callback l cs w;
       Some ((c, set_parent_cell s l None), w)
     }))"

definition unlock_try_write ::
  "bool \<Rightarrow> 'c \<Rightarrow> 'l \<Rightarrow> ('ip, 'w) unlock_callback \<Rightarrow>
   ('c, 'l, 'i::linorder, 'pr::linorder, 'ip) world \<times> 'w \<Rightarrow>
   fault + ('c, 'l, 'i, 'pr, 'ip) world \<times> 'w" where
  "unlock_try_write dbg self l callback = (\<lambda>(cs, w).
     if parent_cell (snd cs) l \<noteq> Some self then Inl IncorrectParent
     else abort_on_unwind (do {
       ((c, s), w) \<leftarrow> unlock_write_inner dbg self callback l cs w;
       Some ((c, set_parent_cell s l None), w)
     }))"

section \<open>Inspection and destructors\<close>

text \<open>
  \<open>inspect_read_mut\<close> and \<open>inspect_write_mut\<close> read the same field.  They return a mutable
  reference; \<open>set_in_progress\<close> is a write through it.
\<close>

definition inspect_mut ::
  "'c \<Rightarrow> 'l \<Rightarrow> ('c, 'l, 'i, 'pr, 'ip) world \<Rightarrow> fault + 'ip lock_progress" where
  "inspect_mut self l = (\<lambda>(c, s).
     if parent_cell s l \<noteq> Some self then Inl IncorrectParent
     else Inr (case pending_cell s l of
         Some pending_node \<Rightarrow> InProgress (p_in_progress (element pending_node))
       | None \<Rightarrow> Complete))"

definition set_in_progress ::
  "'l \<Rightarrow> 'ip \<Rightarrow> ('c, 'l, 'i, 'pr, 'ip) world \<Rightarrow> ('c, 'l, 'i, 'pr, 'ip) world option" where
  "set_in_progress l x = (\<lambda>(c, s). do {
     h \<leftarrow> modify (pending_cell s) l (\<lambda>n. n\<lparr>element := (element n)\<lparr>p_in_progress := x\<rparr>\<rparr>);
     Some (c, s\<lparr>pending_cell := h\<rparr>)
   })"

text \<open>\<open>Drop\<close> of a core and \<open>EarlyDrop\<close> of a lock state\<close>

definition core_drop :: "'l core \<Rightarrow> fault + unit" where
  "core_drop c =
     (if reads c \<noteq> None \<or> writes c \<noteq> None \<or> pendings c \<noteq> None then Inl StillLocked else Inr ())"

definition early_drop :: "('c, 'l, 'i, 'pr, 'ip) lock_states \<Rightarrow> 'l \<Rightarrow> fault + unit" where
  "early_drop s l = (if parent_cell s l \<noteq> None then Inl StillLinked else Inr ())"

text \<open>The loops are executable by their equations.\<close>

declare
  unlock_read_loop.simps [code]
  unlock_write_loop.simps [code]

end
