(* ===== verification/Core_View.thy ===== *)
theory Core_View
  imports Core_Ops Tree_Order
begin

text \<open>
  From the lock states and trees of a core to a table of borrows.  Each elementary move of the
  core (borrowing, unborrowing, moving an endpoint, storing and dropping a pending borrow)
  succeeds on a well-formed core and is an update of that table.
\<close>

section \<open>The orders of the three trees\<close>

definition read_le :: "'i::linorder read_element \<Rightarrow> 'i read_element \<Rightarrow> bool" where
  "read_le x y \<longleftrightarrow> fst x \<le> fst y"

definition write_le :: "'i::linorder range \<Rightarrow> 'i range \<Rightarrow> bool" where
  "write_le x y \<longleftrightarrow> rng_start x \<le> rng_start y"

definition pending_le ::
  "('l, 'i::linorder, 'pr::linorder, 'ip) pending \<Rightarrow> ('l, 'i, 'pr, 'ip) pending \<Rightarrow> bool" where
  "pending_le x y \<longleftrightarrow> rng_start (p_range x) < rng_start (p_range y) \<or>
     rng_start (p_range x) = rng_start (p_range y) \<and> p_priority x \<le> p_priority y"

interpretation read_tree: ordered_tree read_node_callback read_le
  by unfold_locales (auto simp: read_node_callback_def read_le_def)

interpretation write_tree: ordered_tree write_node_callback write_le
  by unfold_locales (auto simp: write_node_callback_def write_le_def)

interpretation pending_tree: ordered_tree pending_node_callback pending_le
  by unfold_locales (auto simp: pending_node_callback_def pending_le_def)

section \<open>The table of borrows\<close>

text \<open>
  What the lock states say, without the trees: who owns a lock state, the region it has
  borrowed for reading or writing, and the borrow that is still pending.
\<close>

record ('c, 'l, 'i, 'pr, 'ip) table =
  owner :: "'l \<Rightarrow> 'c option"
  rd :: "'l \<Rightarrow> ('i \<times> 'i) option"
  wr :: "'l \<Rightarrow> ('i \<times> 'i) option"
  pd :: "'l \<Rightarrow> ('l, 'i, 'pr, 'ip) pending option"

definition read_pair :: "('l \<times> bool \<Rightarrow> 'i read_element option) \<Rightarrow> 'l \<Rightarrow> ('i \<times> 'i) option" where
  "read_pair v l = (case (v (l, False), v (l, True)) of
     (Some (a, _), Some (b, _)) \<Rightarrow> Some (a, b) | _ \<Rightarrow> None)"

definition write_range :: "('l \<Rightarrow> 'i range option) \<Rightarrow> 'l \<Rightarrow> ('i \<times> 'i) option" where
  "write_range v l = map_option (\<lambda>r. (rng_start r, rng_end r)) (v l)"

definition table_of :: "('c, 'l, 'i, 'pr, 'ip) lock_states \<Rightarrow> ('c, 'l, 'i, 'pr, 'ip) table" where
  "table_of s = \<lparr>owner = parent_cell s, rd = read_pair (view (read_cell s)),
     wr = write_range (view (write_cell s)),
     pd = view (pending_cell s)\<rparr>"

text \<open>The array of read nodes is there as a whole or not at all, with a lower and an upper bound.\<close>

definition pairs_ok :: "('l \<times> bool \<Rightarrow> 'i read_element option) \<Rightarrow> bool" where
  "pairs_ok v \<longleftrightarrow> (\<forall>l. v (l, False) = None \<and> v (l, True) = None \<or>
     (\<exists>a b. v (l, False) = Some (a, 1) \<and> v (l, True) = Some (b, -1)))"

text \<open>
  The trees of the core at address \<open>self\<close> hold the borrows of the lock states it owns, and
  the pending borrows in the order \<open>qs\<close>.
\<close>

definition good ::
  "'c \<Rightarrow> 'l core \<Rightarrow> ('c, 'l, 'i::linorder, 'pr::linorder, 'ip) lock_states \<Rightarrow>
   ('l \<times> ('l, 'i, 'pr, 'ip) pending) list \<Rightarrow> bool" where
  "good self c s qs \<longleftrightarrow>
     linked read_node_callback read_le
       ({l. owner (table_of s) l = Some self \<and> rd (table_of s) l \<noteq> None} \<times> UNIV) (read_cell s) (reads c) \<and>
     linked write_node_callback write_le
       {l. owner (table_of s) l = Some self \<and> wr (table_of s) l \<noteq> None} (write_cell s) (writes c) \<and>
     olist pending_node_callback pending_le (pending_cell s) (pendings c) qs \<and>
     fst ` set qs = {l. owner (table_of s) l = Some self \<and> pd (table_of s) l \<noteq> None} \<and>
     pairs_ok (view (read_cell s))"

lemma table_of_simps [simp]:
  "owner (table_of s) = parent_cell s"
  "rd (table_of s) = read_pair (view (read_cell s))"
  "wr (table_of s) = write_range (view (write_cell s))"
  "pd (table_of s) = view (pending_cell s)"
  by (simp_all add: table_of_def)

lemma read_pair_upd [simp]:
  "read_pair (v((l, False) \<mapsto> (a, x), (l, True) \<mapsto> (b, y))) = (read_pair v)(l \<mapsto> (a, b))"
  "read_pair (v((l, False) := None, (l, True) := None)) = (read_pair v)(l := None)"
  by (auto simp: read_pair_def fun_eq_iff split: option.splits)

lemma write_range_upd [simp]:
  "write_range (v(l := x)) = (write_range v)(l := map_option (\<lambda>r. (rng_start r, rng_end r)) x)"
  by (auto simp: write_range_def)

lemma write_range_None: "write_range v l = None \<longleftrightarrow> v l = None"
  by (simp add: write_range_def)

lemma pairs_ok_Some:
  "pairs_ok v \<Longrightarrow> read_pair v l = Some (a, b) \<longleftrightarrow> v (l, False) = Some (a, 1) \<and> v (l, True) = Some (b, -1)"
  by (auto simp: pairs_ok_def read_pair_def split: option.splits) (metis option.sel prod.inject option.distinct(1))+

lemma pairs_ok_None:
  "pairs_ok v \<Longrightarrow> read_pair v l = None \<longleftrightarrow> v (l, False) = None \<and> v (l, True) = None"
  by (auto simp: pairs_ok_def read_pair_def split: option.splits) (metis option.distinct(1))+

lemma pairs_ok_upd:
  "pairs_ok v \<Longrightarrow> pairs_ok (v((l, False) \<mapsto> (a, 1), (l, True) \<mapsto> (b, -1)))"
  "pairs_ok v \<Longrightarrow> pairs_ok (v((l, False) := None, (l, True) := None))"
  by (auto simp: pairs_ok_def)

section \<open>Moves of the core and what they do to the table\<close>

lemma table_of_read: "table_of (s\<lparr>read_cell := h\<rparr>) = (table_of s)\<lparr>rd := read_pair (view h)\<rparr>"
  by (simp add: table_of_def)

lemma table_of_write: "table_of (s\<lparr>write_cell := h\<rparr>) = (table_of s)\<lparr>wr := write_range (view h)\<rparr>"
  by (simp add: table_of_def)

lemma table_of_pending: "table_of (s\<lparr>pending_cell := h\<rparr>) = (table_of s)\<lparr>pd := view h\<rparr>"
  by (simp add: table_of_def)

subsection \<open>Read borrows\<close>

lemma borrow_read_ok:
  assumes g: "good self c s qs" and own: "owner (table_of s) l = Some self" and none: "rd (table_of s) l = None"
  shows "\<exists>c' s'. borrow_read dbg l (Range a b) (c, s) = Some (c', s') \<and> good self c' s' qs \<and>
    table_of s' = (table_of s)\<lparr>rd := (rd (table_of s))(l \<mapsto> (a, b))\<rparr>"
proof -
  let ?D = "{l. owner (table_of s) l = Some self \<and> rd (table_of s) l \<noteq> None} \<times> (UNIV :: bool set)"
  let ?n0 = "node_new (a, 1) 1 :: ('b \<times> bool, 'c read_element, 64 word) node"
  let ?n1 = "node_new (b, -1) (-1) :: ('b \<times> bool, 'c read_element, 64 word) node"
  define h0 where "h0 = (read_cell s)((l, False) \<mapsto> ?n0, (l, True) \<mapsto> ?n1)"
  have D: "(l, False) \<notin> ?D" "(l, True) \<notin> ?D" using none by auto
  from g have pairs: "pairs_ok (view (read_cell s))" by (simp add: good_def)
  have cell: "read_cell s (l, False) = None"
    using none pairs_ok_None [OF pairs, of l] by simp
  from g have "linked read_node_callback read_le ?D h0 (reads c)"
    unfolding h0_def good_def using D by (intro linked_upd_other) auto
  from read_tree.linked_insert [OF this, of "(l, False)" ?n0 dbg] D
  obtain h1 rt1 where 1: "node_insert dbg read_node_callback h0 (reads c) (l, False) = Some (h1, rt1)"
    "linked read_node_callback read_le (insert (l, False) ?D) h1 rt1" "view h1 = view h0"
    "\<forall>x. x \<notin> insert (l, False) ?D \<longrightarrow> h1 x = h0 x"
    by (auto simp: h0_def node_new_def read_node_callback_def)
  then have "h1 (l, True) = Some ?n1" using D by (simp add: h0_def)
  from read_tree.linked_insert [OF 1(2) this, of dbg] D
  obtain h2 rt2 where 2: "node_insert dbg read_node_callback h1 rt1 (l, True) = Some (h2, rt2)"
    "linked read_node_callback read_le (insert (l, True) (insert (l, False) ?D)) h2 rt2" "view h2 = view h1"
    by (auto simp: node_new_def read_node_callback_def)
  have v: "view h2 = (view (read_cell s))((l, False) \<mapsto> (a, 1), (l, True) \<mapsto> (b, -1))"
    by (simp add: 1(3) 2(3) h0_def node_new_def)
  let ?s' = "s\<lparr>read_cell := h2\<rparr>"
  have tab': "table_of ?s' = (table_of s)\<lparr>rd := (rd (table_of s))(l \<mapsto> (a, b))\<rparr>" by (simp add: table_of_read v)
  have "insert (l, True) (insert (l, False) ?D) = {l. owner (table_of ?s') l = Some self \<and> rd (table_of ?s') l \<noteq> None} \<times> UNIV"
    using own unfolding tab' by (auto simp del: table_of_simps)
  then have "good self (c\<lparr>reads := rt2\<rparr>) ?s' qs"
    using g 2(2) pairs_ok_upd(1) [OF pairs] by (simp add: good_def v)
  moreover have "borrow_read dbg l (Range a b) (c, s) = Some (c\<lparr>reads := rt2\<rparr>, ?s')"
    using 1(1) 2(1) cell by (simp add: borrow_read_def new_read_nodes_def insert_read_def h0_def)
  ultimately show ?thesis using tab' by blast
qed

lemma unborrow_read_ok:
  assumes g: "good self c s qs" and own: "owner (table_of s) l = Some self" and some: "rd (table_of s) l \<noteq> None"
  shows "\<exists>c1 s1 c2 s2. remove_read dbg c s (l, side) = Some (c1, s1) \<and>
    remove_read dbg c1 s1 (l, \<not> side) = Some (c2, s2) \<and> good self c2 (clear_read s2 l) qs \<and>
    table_of (clear_read s2 l) = (table_of s)\<lparr>rd := (rd (table_of s))(l := None)\<rparr>"
proof -
  let ?D = "{l. owner (table_of s) l = Some self \<and> rd (table_of s) l \<noteq> None} \<times> (UNIV :: bool set)"
  from g have pairs: "pairs_ok (view (read_cell s))" by (simp add: good_def)
  from g have "linked read_node_callback read_le ?D (read_cell s) (reads c)" by (simp add: good_def)
  from read_tree.linked_remove [OF this, of "(l, side)" dbg] own some obtain h1 rt1 where
    1: "node_remove dbg read_node_callback (read_cell s) (reads c) (l, side) = Some (h1, rt1)"
    "linked read_node_callback read_le (?D - {(l, side)}) h1 rt1" "view h1 = view (read_cell s)"
    by auto
  from read_tree.linked_remove [OF 1(2), of "(l, \<not> side)" dbg] own some obtain h2 rt2 where
    2: "node_remove dbg read_node_callback h1 rt1 (l, \<not> side) = Some (h2, rt2)"
    "linked read_node_callback read_le (?D - {(l, side)} - {(l, \<not> side)}) h2 rt2" "view h2 = view (read_cell s)"
    by (auto simp: 1(3))
  let ?h3 = "h2((l, False) := None, (l, True) := None)"
  let ?s2 = "s\<lparr>read_cell := h2\<rparr>"
  have tab': "table_of (clear_read ?s2 l) = (table_of s)\<lparr>rd := (rd (table_of s))(l := None)\<rparr>"
    by (simp add: clear_read_def table_of_read 2(3))
  have D': "?D - {(l, side)} - {(l, \<not> side)} =
      {l'. owner (table_of (clear_read ?s2 l)) l' = Some self \<and> rd (table_of (clear_read ?s2 l)) l' \<noteq> None} \<times> UNIV"
    unfolding tab' by (cases side) auto
  have "linked read_node_callback read_le (?D - {(l, side)} - {(l, \<not> side)}) ?h3 rt2"
    by (cases side) (intro linked_upd_other 2(2); simp)+
  with g D' have "good self (c\<lparr>reads := rt2\<rparr>) (clear_read ?s2 l) qs"
    using pairs_ok_upd(2) [OF pairs] by (simp add: good_def clear_read_def 2(3))
  moreover have "remove_read dbg c s (l, side) = Some (c\<lparr>reads := rt1\<rparr>, s\<lparr>read_cell := h1\<rparr>)"
    "remove_read dbg (c\<lparr>reads := rt1\<rparr>) (s\<lparr>read_cell := h1\<rparr>) (l, \<not> side) = Some (c\<lparr>reads := rt2\<rparr>, ?s2)"
    using 1(1) 2(1) by (simp_all add: remove_read_def)
  ultimately show ?thesis using tab' by blast
qed

lemma move_read_end_ok:
  assumes g: "good self c s qs" and own: "owner (table_of s) l = Some self" and some: "rd (table_of s) l = Some (a, b)"
  shows "\<exists>c' s'. move_read_end dbg l i (c, s) = Some (c', s') \<and> good self c' s' qs \<and>
    table_of s' = (table_of s)\<lparr>rd := (rd (table_of s))(l \<mapsto> (a, i))\<rparr>"
proof -
  let ?D = "{l. owner (table_of s) l = Some self \<and> rd (table_of s) l \<noteq> None} \<times> (UNIV :: bool set)"
  from g have pairs: "pairs_ok (view (read_cell s))" by (simp add: good_def)
  from some pairs have cells: "view (read_cell s) (l, False) = Some (a, 1)" "view (read_cell s) (l, True) = Some (b, -1)"
    by (simp_all add: pairs_ok_Some)
  from g have "linked read_node_callback read_le ?D (read_cell s) (reads c)" by (simp add: good_def)
  from read_tree.linked_remove [OF this, of "(l, True)" dbg] own some obtain h1 rt1 where
    1: "node_remove dbg read_node_callback (read_cell s) (reads c) (l, True) = Some (h1, rt1)"
    "linked read_node_callback read_le (?D - {(l, True)}) h1 rt1" "view h1 = view (read_cell s)"
    by auto
  from 1(3) cells(2) obtain n where n: "h1 (l, True) = Some n" "element n = (b, -1)"
    by (metis view_Some)
  let ?n = "n\<lparr>element := (i, -1), summary := -1\<rparr>"
  have "linked read_node_callback read_le (?D - {(l, True)}) (h1((l, True) \<mapsto> ?n)) rt1"
    by (intro linked_upd_other 1(2)) simp
  from read_tree.linked_insert [OF this, of "(l, True)" ?n dbg] obtain h2 rt2 where
    2: "node_insert dbg read_node_callback (h1((l, True) \<mapsto> ?n)) rt1 (l, True) = Some (h2, rt2)"
    "linked read_node_callback read_le (insert (l, True) (?D - {(l, True)})) h2 rt2"
    "view h2 = view (h1((l, True) \<mapsto> ?n))"
    by (auto simp: read_node_callback_def)
  have v: "view h2 = (view (read_cell s))((l, False) \<mapsto> (a, 1), (l, True) \<mapsto> (i, -1))"
    using cells by (auto simp: 2(3) 1(3) fun_eq_iff)
  let ?s' = "s\<lparr>read_cell := h2\<rparr>"
  have tab': "table_of ?s' = (table_of s)\<lparr>rd := (rd (table_of s))(l \<mapsto> (a, i))\<rparr>" by (simp add: table_of_read v)
  have "insert (l, True) (?D - {(l, True)}) = {l. owner (table_of ?s') l = Some self \<and> rd (table_of ?s') l \<noteq> None} \<times> UNIV"
    using own some unfolding tab' by (auto simp del: table_of_simps)
  then have "good self (c\<lparr>reads := rt2\<rparr>) ?s' qs"
    using g 2(2) pairs_ok_upd(1) [OF pairs, of l a i] by (simp add: good_def v)
  moreover have "move_read_end dbg l i (c, s) = Some (c\<lparr>reads := rt2\<rparr>, ?s')"
    using 1(1) 2(1) n by (simp add: move_read_end_def remove_read_def insert_read_def heap_simps)
  ultimately show ?thesis using tab' by blast
qed

subsection \<open>Write borrows\<close>

lemma borrow_write_ok:
  assumes g: "good self c s qs" and own: "owner (table_of s) l = Some self" and none: "wr (table_of s) l = None"
  shows "\<exists>c' s'. borrow_write dbg l (Range a b) (c, s) = Some (c', s') \<and> good self c' s' qs \<and>
    table_of s' = (table_of s)\<lparr>wr := (wr (table_of s))(l \<mapsto> (a, b))\<rparr>"
proof -
  let ?D = "{l. owner (table_of s) l = Some self \<and> wr (table_of s) l \<noteq> None}"
  let ?n = "node_new (Range a b) () :: ('b, 'c range, unit) node"
  define h0 where "h0 = (write_cell s)(l \<mapsto> ?n)"
  have D: "l \<notin> ?D" using none by auto
  have cell: "write_cell s l = None" using none by (simp add: write_range_None)
  from g have "linked write_node_callback write_le ?D h0 (writes c)"
    unfolding h0_def good_def using D by (intro linked_upd_other) auto
  from write_tree.linked_insert [OF this, of l ?n dbg] D
  obtain h1 rt1 where 1: "node_insert dbg write_node_callback h0 (writes c) l = Some (h1, rt1)"
    "linked write_node_callback write_le (insert l ?D) h1 rt1" "view h1 = view h0"
    by (auto simp: h0_def node_new_def write_node_callback_def)
  let ?s' = "s\<lparr>write_cell := h1\<rparr>"
  have tab': "table_of ?s' = (table_of s)\<lparr>wr := (wr (table_of s))(l \<mapsto> (a, b))\<rparr>"
    by (auto simp: table_of_write 1(3) h0_def node_new_def)
  have "insert l ?D = {l. owner (table_of ?s') l = Some self \<and> wr (table_of ?s') l \<noteq> None}"
    using own unfolding tab' by (auto simp del: table_of_simps)
  then have "good self (c\<lparr>writes := rt1\<rparr>) ?s' qs"
    using g 1(2) by (simp add: good_def)
  moreover have "borrow_write dbg l (Range a b) (c, s) = Some (c\<lparr>writes := rt1\<rparr>, ?s')"
    using 1(1) cell by (simp add: borrow_write_def new_write_node_def insert_write_def h0_def)
  ultimately show ?thesis using tab' by blast
qed

lemma unborrow_write_ok:
  assumes g: "good self c s qs" and own: "owner (table_of s) l = Some self" and some: "wr (table_of s) l \<noteq> None"
  shows "\<exists>c1 s1. remove_write dbg c s l = Some (c1, s1) \<and>
    good self c1 (s1\<lparr>write_cell := (write_cell s1)(l := None)\<rparr>) qs \<and>
    table_of (s1\<lparr>write_cell := (write_cell s1)(l := None)\<rparr>) = (table_of s)\<lparr>wr := (wr (table_of s))(l := None)\<rparr>"
proof -
  let ?D = "{l. owner (table_of s) l = Some self \<and> wr (table_of s) l \<noteq> None}"
  from g have "linked write_node_callback write_le ?D (write_cell s) (writes c)" by (simp add: good_def)
  from write_tree.linked_remove [OF this, of l dbg] own some obtain h1 rt1 where
    1: "node_remove dbg write_node_callback (write_cell s) (writes c) l = Some (h1, rt1)"
    "linked write_node_callback write_le (?D - {l}) h1 rt1" "view h1 = view (write_cell s)"
    by auto
  let ?s' = "s\<lparr>write_cell := h1(l := None)\<rparr>"
  have tab': "table_of ?s' = (table_of s)\<lparr>wr := (wr (table_of s))(l := None)\<rparr>"
    by (auto simp: table_of_write 1(3))
  have "?D - {l} = {l. owner (table_of ?s') l = Some self \<and> wr (table_of ?s') l \<noteq> None}"
    using own unfolding tab' by (auto simp del: table_of_simps)
  moreover have "linked write_node_callback write_le (?D - {l}) (h1(l := None)) rt1"
    by (intro linked_upd_other 1(2)) simp
  ultimately have "good self (c\<lparr>writes := rt1\<rparr>) ?s' qs"
    using g by (simp add: good_def)
  moreover have "remove_write dbg c s l = Some (c\<lparr>writes := rt1\<rparr>, s\<lparr>write_cell := h1\<rparr>)"
    using 1(1) by (simp add: remove_write_def)
  ultimately show ?thesis using tab' by simp
qed

lemma set_write_end_ok:
  assumes g: "good self c s qs" and own: "owner (table_of s) l = Some self" and some: "wr (table_of s) l = Some (a, b)"
  shows "\<exists>s'. set_write_end l i s = Some s' \<and> good self c s' qs \<and>
    table_of s' = (table_of s)\<lparr>wr := (wr (table_of s))(l \<mapsto> (a, i))\<rparr>"
proof -
  let ?D = "{l. owner (table_of s) l = Some self \<and> wr (table_of s) l \<noteq> None}"
  from some obtain n where n: "write_cell s l = Some n" "element n = Range a b"
    by (auto simp: write_range_def view_def)
  let ?n = "n\<lparr>element := Range a i\<rparr>"
  from g have "linked write_node_callback write_le ?D (write_cell s) (writes c)" by (simp add: good_def)
  moreover have "l \<in> ?D" using own some by simp
  ultimately have 1: "linked write_node_callback write_le ?D ((write_cell s)(l \<mapsto> ?n)) (writes c)"
    using n by (intro linked_element) (simp_all add: write_le_def write_node_callback_def)
  let ?s' = "s\<lparr>write_cell := (write_cell s)(l \<mapsto> ?n)\<rparr>"
  have tab': "table_of ?s' = (table_of s)\<lparr>wr := (wr (table_of s))(l \<mapsto> (a, i))\<rparr>"
    by (auto simp: table_of_write)
  have "?D = {l. owner (table_of ?s') l = Some self \<and> wr (table_of ?s') l \<noteq> None}"
    using own some unfolding tab' by (auto simp del: table_of_simps)
  then have "good self c ?s' qs"
    using g 1 by (simp add: good_def)
  moreover have "set_write_end l i s = Some ?s'"
    using n by (simp add: set_write_end_def heap_simps)
  ultimately show ?thesis using tab' by blast
qed

subsection \<open>Pending borrows\<close>

lemma pending_summary [simp]: "element_to_summary pending_node_callback e = ()"
  by (simp add: pending_node_callback_def)

lemma insert_pending_ok:
  assumes o: "olist pending_node_callback pending_le (pending_cell s) (pendings c) qs"
    and l: "view (pending_cell s) l = Some p" "l \<notin> fst ` set qs"
    and rest: "linked read_node_callback read_le
       ({l. owner (table_of s) l = Some self \<and> rd (table_of s) l \<noteq> None} \<times> UNIV) (read_cell s) (reads c)"
      "linked write_node_callback write_le
       {l. owner (table_of s) l = Some self \<and> wr (table_of s) l \<noteq> None} (write_cell s) (writes c)"
      "pairs_ok (view (read_cell s))"
    and dom: "insert l (fst ` set qs) = {l. owner (table_of s) l = Some self \<and> pd (table_of s) l \<noteq> None}"
  shows "\<exists>c' s'. insert_pending dbg c s l = Some (c', s') \<and>
    good self c' s' (list_insert (goes_right pending_node_callback p) (l, p) qs) \<and> table_of s' = table_of s"
proof -
  from l(1) obtain n where n: "pending_cell s l = Some n" "element n = p" by (metis view_Some)
  from pending_tree.olist_insert [OF o n(1) l(2), of dbg] n(2) obtain h rt where
    1: "node_insert dbg pending_node_callback (pending_cell s) (pendings c) l = Some (h, rt)"
    "olist pending_node_callback pending_le h rt (list_insert (goes_right pending_node_callback p) (l, p) qs)"
    "view h = view (pending_cell s)" by auto
  let ?s' = "s\<lparr>pending_cell := h\<rparr>"
  have tab': "table_of ?s' = table_of s"
    by (simp add: table_of_def 1(3))
  have "good self (c\<lparr>pendings := rt\<rparr>) ?s' (list_insert (goes_right pending_node_callback p) (l, p) qs)"
    unfolding good_def tab' using rest dom 1(2) by simp
  moreover have "insert_pending dbg c s l = Some (c\<lparr>pendings := rt\<rparr>, ?s')"
    using 1(1) by (simp add: insert_pending_def)
  ultimately show ?thesis using tab' by blast
qed

lemma remember_pending_ok:
  assumes g: "good self c s qs" and own: "owner (table_of s) l = Some self" and none: "pd (table_of s) l = None"
  shows "\<exists>c' s'. remember_pending dbg l (Some p) (c, s) = Some (c', s') \<and>
    good self c' s' (list_insert (goes_right pending_node_callback p) (l, p) qs) \<and>
    table_of s' = (table_of s)\<lparr>pd := (pd (table_of s))(l \<mapsto> p)\<rparr>"
proof -
  let ?n = "node_new p () :: ('b, ('b, 'c, 'd, 'e) pending, unit) node"
  let ?s1 = "s\<lparr>pending_cell := (pending_cell s)(l \<mapsto> ?n)\<rparr>"
  have tab1: "table_of ?s1 = (table_of s)\<lparr>pd := (pd (table_of s))(l \<mapsto> p)\<rparr>"
    by (simp add: table_of_pending node_new_def)
  from g none have l: "l \<notin> fst ` set qs" by (auto simp: good_def)
  have "olist pending_node_callback pending_le (pending_cell ?s1) (pendings c) qs"
    using g l by (simp add: good_def olist_upd_other)
  moreover have "insert l (fst ` set qs) = {l. owner (table_of ?s1) l = Some self \<and> pd (table_of ?s1) l \<noteq> None}"
    using g own unfolding tab1 good_def by (auto simp del: table_of_simps)
  moreover have "view (pending_cell ?s1) l = Some p" by (simp add: node_new_def)
  moreover have "linked read_node_callback read_le
       ({l. owner (table_of ?s1) l = Some self \<and> rd (table_of ?s1) l \<noteq> None} \<times> UNIV) (read_cell ?s1) (reads c)"
      "linked write_node_callback write_le
       {l. owner (table_of ?s1) l = Some self \<and> wr (table_of ?s1) l \<noteq> None} (write_cell ?s1) (writes c)"
      "pairs_ok (view (read_cell ?s1))"
    using g by (simp_all add: good_def)
  ultimately obtain c' s' where "insert_pending dbg c ?s1 l = Some (c', s')"
    "good self c' s' (list_insert (goes_right pending_node_callback p) (l, p) qs)" "table_of s' = table_of ?s1"
    using insert_pending_ok [of ?s1 c qs l p self dbg] l by blast
  with tab1 none show ?thesis by (simp add: remember_pending_def new_pending_node_def)
qed

text \<open>A pending borrow leaves its tree while its cell keeps the node.\<close>

lemma remove_pending_ok:
  assumes g: "good self c s (as @ (l, p) # bs)"
  shows "\<exists>h rt. remove_pending dbg c s l = Some (c\<lparr>pendings := rt\<rparr>, s\<lparr>pending_cell := h\<rparr>) \<and>
    olist pending_node_callback pending_le h rt (as @ bs) \<and> view h = view (pending_cell s) \<and>
    view h l = Some p \<and> l \<notin> fst ` set (as @ bs) \<and>
    fst ` set (as @ bs) = fst ` set (as @ (l, p) # bs) - {l}"
proof -
  from g have o: "olist pending_node_callback pending_le (pending_cell s) (pendings c) (as @ (l, p) # bs)"
    by (simp add: good_def)
  from pending_tree.olist_remove [OF o, of dbg] obtain h rt where
    "node_remove dbg pending_node_callback (pending_cell s) (pendings c) l = Some (h, rt)"
    "olist pending_node_callback pending_le h rt (as @ bs)" "view h = view (pending_cell s)" by blast
  moreover have "view (pending_cell s) l = Some p" using olist_in_iff [OF o] by auto
  moreover have "l \<notin> fst ` set (as @ bs)" "fst ` set (as @ bs) = fst ` set (as @ (l, p) # bs) - {l}"
    using olist_distinct [OF o] by auto
  ultimately show ?thesis by (auto simp: remove_pending_def)
qed

lemma drop_pending_ok:
  assumes g: "good self c s (as @ (l, p) # bs)"
  shows "\<exists>c' s'. remove_pending dbg c s l = Some (c', s') \<and> pending_cell s' l \<noteq> None \<and>
    (let (p', s'') = take_pending s' l in p' = Some p \<and> good self c' s'' (as @ bs) \<and>
      table_of s'' = (table_of s)\<lparr>pd := (pd (table_of s))(l := None)\<rparr>)"
proof -
  from remove_pending_ok [OF g, of dbg] obtain h rt where
    1: "remove_pending dbg c s l = Some (c\<lparr>pendings := rt\<rparr>, s\<lparr>pending_cell := h\<rparr>)"
    "olist pending_node_callback pending_le h rt (as @ bs)" "view h = view (pending_cell s)"
    "view h l = Some p" "l \<notin> fst ` set (as @ bs)" "fst ` set (as @ bs) = fst ` set (as @ (l, p) # bs) - {l}"
    by blast
  let ?s'' = "s\<lparr>pending_cell := h(l := None)\<rparr>"
  have tab': "table_of ?s'' = (table_of s)\<lparr>pd := (pd (table_of s))(l := None)\<rparr>"
    by (simp add: table_of_pending 1(3))
  have "olist pending_node_callback pending_le (h(l := None)) rt (as @ bs)"
    using 1(2,5) by (rule olist_upd_other)
  moreover have "fst ` set (as @ bs) = {l. owner (table_of ?s'') l = Some self \<and> pd (table_of ?s'') l \<noteq> None}"
    using g unfolding tab' 1(6) by (auto simp: good_def simp del: table_of_simps)
  ultimately have "good self (c\<lparr>pendings := rt\<rparr>) ?s'' (as @ bs)"
    using g by (simp add: good_def)
  moreover have "h l \<noteq> None" using 1(4) by (auto simp: view_Some)
  ultimately show ?thesis using 1(1,4) tab'
    by (auto simp: take_pending_def view_def)
qed

lemma move_pending_ok:
  assumes g: "good self c s (as @ (l, p) # bs)"
  shows "\<exists>c1 s1 h c2 s2. remove_pending dbg c s l = Some (c1, s1) \<and>
    modify (pending_cell s1) l (\<lambda>n. n\<lparr>element := (element n)\<lparr>p_range := Range i (rng_end (p_range (element n)))\<rparr>\<rparr>) = Some h \<and>
    insert_pending dbg c1 (s1\<lparr>pending_cell := h\<rparr>) l = Some (c2, s2) \<and>
    (let p' = p\<lparr>p_range := Range i (rng_end (p_range p))\<rparr> in
      good self c2 s2 (list_insert (goes_right pending_node_callback p') (l, p') (as @ bs)) \<and>
      table_of s2 = (table_of s)\<lparr>pd := (pd (table_of s))(l \<mapsto> p')\<rparr>)"
proof -
  from remove_pending_ok [OF g, of dbg] obtain h rt where
    1: "remove_pending dbg c s l = Some (c\<lparr>pendings := rt\<rparr>, s\<lparr>pending_cell := h\<rparr>)"
    "olist pending_node_callback pending_le h rt (as @ bs)" "view h = view (pending_cell s)"
    "view h l = Some p" "l \<notin> fst ` set (as @ bs)" "fst ` set (as @ bs) = fst ` set (as @ (l, p) # bs) - {l}"
    by blast
  from 1(4) obtain n where n: "h l = Some n" "element n = p" by (metis view_Some)
  let ?p' = "p\<lparr>p_range := Range i (rng_end (p_range p))\<rparr>"
  let ?h1 = "h(l \<mapsto> n\<lparr>element := ?p'\<rparr>)"
  let ?s1 = "s\<lparr>pending_cell := ?h1\<rparr>"
  have tab1: "table_of ?s1 = (table_of s)\<lparr>pd := (pd (table_of s))(l \<mapsto> ?p')\<rparr>"
    by (simp add: table_of_pending 1(3))
  have "owner (table_of s) l = Some self" using g by (auto simp: good_def)
  then have "insert l (fst ` set (as @ bs)) = {l. owner (table_of ?s1) l = Some self \<and> pd (table_of ?s1) l \<noteq> None}"
    using g unfolding tab1 1(6) by (auto simp: good_def simp del: table_of_simps)
  moreover have "olist pending_node_callback pending_le (pending_cell ?s1) rt (as @ bs)"
    using olist_upd_other [OF 1(2,5)] by simp
  moreover have "view (pending_cell ?s1) l = Some ?p'" by simp
  moreover have "linked read_node_callback read_le
       ({l. owner (table_of ?s1) l = Some self \<and> rd (table_of ?s1) l \<noteq> None} \<times> UNIV)
       (read_cell ?s1) (reads (c\<lparr>pendings := rt\<rparr>))"
      "linked write_node_callback write_le
       {l. owner (table_of ?s1) l = Some self \<and> wr (table_of ?s1) l \<noteq> None}
       (write_cell ?s1) (writes (c\<lparr>pendings := rt\<rparr>))"
      "pairs_ok (view (read_cell ?s1))"
    using g by (simp_all add: good_def)
  moreover note 1(5)
  ultimately obtain c2 s2 where
    "insert_pending dbg (c\<lparr>pendings := rt\<rparr>) ?s1 l = Some (c2, s2)"
    "good self c2 s2 (list_insert (goes_right pending_node_callback ?p') (l, ?p') (as @ bs))"
    "table_of s2 = table_of ?s1"
    using insert_pending_ok [of ?s1 "c\<lparr>pendings := rt\<rparr>" "as @ bs" l ?p' self dbg] by simp blast
  with 1(1) n tab1 show ?thesis by (auto simp: heap_simps Let_def)
qed

end
