(* ===== verification/Core_Search.thy ===== *)
theory Core_Search
  imports Core_View
begin

text \<open>
  The invariants of the table of borrows, and the two searches of the core: each returns the
  first conflicting index of the range.  The search for read borrows counts the borrows that
  are open at the start of the range by a prefix sum of the endpoints.
\<close>

section \<open>What a table of borrows must satisfy\<close>

definition w_covers :: "('c, 'l, 'i::linorder, 'pr, 'ip) table \<Rightarrow> 'l \<Rightarrow> 'i \<Rightarrow> bool" where
  "w_covers t l i \<longleftrightarrow> (\<exists>a b. wr t l = Some (a, b) \<and> a \<le> i \<and> i < b)"

definition r_covers :: "('c, 'l, 'i::linorder, 'pr, 'ip) table \<Rightarrow> 'l \<Rightarrow> 'i \<Rightarrow> bool" where
  "r_covers t l i \<longleftrightarrow> (\<exists>a b. rd t l = Some (a, b) \<and> a \<le> i \<and> i < b)"

definition w_at :: "'c \<Rightarrow> ('c, 'l, 'i::linorder, 'pr, 'ip) table \<Rightarrow> 'i \<Rightarrow> bool" where
  "w_at self t i \<longleftrightarrow> (\<exists>l. owner t l = Some self \<and> w_covers t l i)"

definition r_at :: "'c \<Rightarrow> ('c, 'l, 'i::linorder, 'pr, 'ip) table \<Rightarrow> 'i \<Rightarrow> bool" where
  "r_at self t i \<longleftrightarrow> (\<exists>l. owner t l = Some self \<and> r_covers t l i)"

text \<open>Borrowed regions are not empty.\<close>

definition regions_ok :: "('c, 'l, 'i::linorder, 'pr, 'ip) table \<Rightarrow> bool" where
  "regions_ok t \<longleftrightarrow> (\<forall>l a b. (rd t l = Some (a, b) \<longrightarrow> a < b) \<and> (wr t l = Some (a, b) \<longrightarrow> a < b))"

text \<open>An index that is borrowed for writing is not borrowed by any other lock of the same core.\<close>

definition excl :: "'c \<Rightarrow> ('c, 'l, 'i::linorder, 'pr, 'ip) table \<Rightarrow> bool" where
  "excl self t \<longleftrightarrow> (\<forall>l l' i. owner t l = Some self \<longrightarrow> owner t l' = Some self \<longrightarrow> l \<noteq> l' \<longrightarrow>
     w_covers t l i \<longrightarrow> \<not> w_covers t l' i \<and> \<not> r_covers t l' i)"

text \<open>The number of read borrows of a core fits the \<open>isize\<close> that counts them.\<close>

definition small :: "'c \<Rightarrow> ('c, 'l, 'i, 'pr, 'ip) table \<Rightarrow> bool" where
  "small self t \<longleftrightarrow> finite {l. owner t l = Some self} \<and> card {l. owner t l = Some self} < 2 ^ 63"

text \<open>\<open>r\<close> is the first index of \<open>x..y\<close> that satisfies \<open>C\<close>.\<close>

definition first_in :: "('i::linorder \<Rightarrow> bool) \<Rightarrow> 'i \<Rightarrow> 'i \<Rightarrow> 'i option \<Rightarrow> bool" where
  "first_in C x y r \<longleftrightarrow> (case r of
       None \<Rightarrow> (\<forall>j. x \<le> j \<longrightarrow> j < y \<longrightarrow> \<not> C j)
     | Some i \<Rightarrow> x \<le> i \<and> i < y \<and> C i \<and> (\<forall>j. x \<le> j \<longrightarrow> j < i \<longrightarrow> \<not> C j))"

section \<open>The search for a write borrow\<close>

lemma find_split:
  "find P xs = Some x \<longleftrightarrow> (\<exists>us vs. xs = us @ x # vs \<and> P x \<and> (\<forall>y\<in>set us. \<not> P y))"
proof (induction xs)
  case (Cons y ys)
  show ?case
  proof (cases "P y")
    case True
    then show ?thesis by (auto simp: Cons_eq_append_conv)
  next
    case False
    with Cons show ?thesis by (auto simp: Cons_eq_append_conv) (metis set_ConsD)+
  qed
qed simp

lemma find_None: "find P xs = None \<longleftrightarrow> (\<forall>y\<in>set xs. \<not> P y)"
  by (metis find_None_iff)

lemma disjoint_regions:
  assumes "excl self t" and "owner t l = Some self" "owner t l' = Some self" "l \<noteq> l'"
    and "wr t l = Some (a, b)" "wr t l' = Some (c, d)" "regions_ok t" "a \<le> c"
  shows "b \<le> c"
proof (rule ccontr)
  assume "\<not> b \<le> c"
  with assms have "w_covers t l c" "w_covers t l' c" by (auto simp: w_covers_def regions_ok_def)
  with assms(1-4) show False unfolding excl_def by blast
qed

text \<open>The nodes of the write tree are the write borrows, which do not overlap.\<close>

definition write_ranges :: "'c \<Rightarrow> ('c, 'l, 'i::linorder, 'pr, 'ip) table \<Rightarrow> ('l \<times> 'i range) list \<Rightarrow> bool" where
  "write_ranges self t ws \<longleftrightarrow> sorted_wrt (\<lambda>u v. rng_end (snd u) \<le> rng_start (snd v)) ws \<and>
     (\<forall>l e. (l, e) \<in> set ws \<longleftrightarrow> owner t l = Some self \<and> wr t l = Some (rng_start e, rng_end e))"

lemma write_ranges_in:
  "write_ranges self t ws \<Longrightarrow> (l, e) \<in> set ws \<longleftrightarrow> owner t l = Some self \<and> wr t l = Some (rng_start e, rng_end e)"
  by (simp only: write_ranges_def)

lemma good_write_ranges:
  assumes g: "good self c s qs" and inv: "regions_ok (table_of s)" "excl self (table_of s)"
  obtains ws where "olist write_node_callback write_le (write_cell s) (writes c) ws" and "write_ranges self (table_of s) ws"
proof -
  let ?t = "table_of s"
  from g obtain ws where o: "olist write_node_callback write_le (write_cell s) (writes c) ws"
    and dom: "fst ` set ws = {l. owner ?t l = Some self \<and> wr ?t l \<noteq> None}"
    by (auto simp: good_def linked_def)
  have mem: "(l, e) \<in> set ws \<longleftrightarrow> owner ?t l = Some self \<and> wr ?t l = Some (rng_start e, rng_end e)" for l e
  proof -
    have "(l, e) \<in> set ws \<longleftrightarrow> l \<in> fst ` set ws \<and> view (write_cell s) l = Some e" using olist_in_iff [OF o, of l e] by force
    also have "view (write_cell s) l = Some e \<longleftrightarrow> wr ?t l = Some (rng_start e, rng_end e)"
      by (auto simp: write_range_def range.expand split: option.splits)
    finally show ?thesis unfolding dom by auto
  qed
  have "sorted_wrt (\<lambda>u v. fst u \<noteq> fst v \<and> rng_start (snd u) \<le> rng_start (snd v)) ws"
    using o olist_distinct [OF o] by (auto simp: olist_def write_le_def sorted_wrt_iff_nth_less distinct_conv_nth)
  then have "sorted_wrt (\<lambda>u v. rng_end (snd u) \<le> rng_start (snd v)) ws"
  proof (rule sorted_wrt_mono_rel [rotated])
    fix u v
    assume "u \<in> set ws" "v \<in> set ws" and uv: "fst u \<noteq> fst v \<and> rng_start (snd u) \<le> rng_start (snd v)"
    with mem [of "fst u" "snd u"] mem [of "fst v" "snd v"] show "rng_end (snd u) \<le> rng_start (snd v)"
      using disjoint_regions [OF inv(2), of "fst u" "fst v"] inv(1) by (simp del: table_of_simps)
  qed
  with mem have "write_ranges self ?t ws" by (simp add: write_ranges_def del: table_of_simps)
  with o show ?thesis by (rule that)
qed

lemma first_write_ok:
  fixes s :: "('c, 'l, 'i::linorder, 'pr::linorder, 'ip) lock_states"
  assumes g: "good self c s qs" and inv: "regions_ok (table_of s)" "excl self (table_of s)" and xy: "x < y"
  shows "\<exists>r. first_write_borrow_in_range c s (Range x y) = Some r \<and> first_in (w_at self (table_of s)) x y r"
proof -
  let ?t = "table_of s" and ?f = "\<lambda>e :: 'i range. then_ord (cmp x (rng_end e)) Greater"
  obtain ws where o: "olist write_node_callback write_le (write_cell s) (writes c) ws" and rs: "write_ranges self ?t ws"
    by (rule good_write_ranges [OF g inv])
  have below: "below ?f z \<longleftrightarrow> rng_end (snd z) \<le> x" for z :: "'l \<times> 'i range"
    by (auto simp: below_def)
  have pos: "rng_start (snd z) < rng_end (snd z)" if "z \<in> set ws" for z
    using write_ranges_in [OF rs, of "fst z" "snd z"] that inv(1) by (auto simp: regions_ok_def simp del: table_of_simps)
  have srt: "sorted_wrt (\<lambda>u v. rng_end (snd u) \<le> rng_start (snd v)) ws" using rs by (simp only: write_ranges_def)
  then have "split_at (below ?f) ws"
    unfolding split_at_def by (rule sorted_wrt_mono_rel [rotated]) (use pos in \<open>force simp: below\<close>)
  from tree_rep_lower_bound [OF _ this] o have lb: "lower_bound (write_cell s) (writes c) ?f =
      Some (map_option fst (find (\<lambda>z. \<not> below ?f z) ws))"
    by (auto simp: olist_def)
  have covered: "\<exists>e. (l, e) \<in> set ws \<and> rng_start e \<le> j \<and> j < rng_end e" if "owner ?t l = Some self" "w_covers ?t l j" for l j
  proof -
    from that(2) obtain a b where ab: "wr ?t l = Some (a, b)" "a \<le> j" "j < b" by (auto simp: w_covers_def simp del: table_of_simps)
    then have "(l, Range a b) \<in> set ws" unfolding write_ranges_in [OF rs] using that(1) by simp
    with ab show ?thesis by (intro exI [of _ "Range a b"]) simp
  qed
  show ?thesis
  proof (cases "find (\<lambda>z. \<not> below ?f z) ws")
    case None
    then have "\<forall>z\<in>set ws. rng_end (snd z) \<le> x" by (simp add: find_None below)
    then have "\<not> w_at self ?t j" if "x \<le> j" for j
      using covered that by (fastforce simp: w_at_def simp del: table_of_simps)
    with None lb show ?thesis by (simp add: first_write_borrow_in_range_def first_in_def)
  next
    case (Some z)
    obtain l e where z: "z = (l, e)" by force
    with Some obtain us vs where ws: "ws = us @ (l, e) # vs" and e: "x < rng_end e"
      and us: "\<forall>y\<in>set us. rng_end (snd y) \<le> x"
      by (auto simp: find_split below)
    have e_in: "(l, e) \<in> set ws" using ws by simp
    have vs: "\<forall>v\<in>set vs. rng_end e \<le> rng_start (snd v)" using srt by (simp add: ws sorted_wrt_append)
    have free: "\<not> w_at self ?t j" if j: "x \<le> j" "j < rng_start e" for j
    proof
      assume "w_at self ?t j"
      then obtain l' e' where e': "(l', e') \<in> set ws" "rng_start e' \<le> j" "j < rng_end e'"
        using covered unfolding w_at_def by meson
      then consider "(l', e') \<in> set us" | "e' = e" | "(l', e') \<in> set vs" using ws by auto
      then show False using us vs e' j pos [OF e_in] by cases (fastforce+)
    qed
    from e_in o have "view (write_cell s) l = Some e" by (auto simp: olist_def tree_rep_view)
    then obtain n where n: "write_cell s l = Some n" "element n = e" by (metis view_Some)
    have res: "first_write_borrow_in_range c s (Range x y) =
        Some (if rng_start e < y then Some (max (rng_start e) x) else None)"
      using lb Some z n by (simp add: first_write_borrow_in_range_def)
    have "w_at self ?t (max (rng_start e) x)"
      using e_in e pos [OF e_in] unfolding write_ranges_in [OF rs] by (auto simp: w_at_def w_covers_def simp del: table_of_simps)
    then show ?thesis unfolding res using free xy by (auto simp: first_in_def less_max_iff_disj)
  qed
qed

section \<open>The search for a read borrow\<close>

lemma read_summary [simp]: "element_to_summary read_node_callback e = scast (snd e)"
  by (simp add: read_node_callback_def)

lemma scast_unit [simp]: "scast (1 :: 8 word) = (1 :: 64 word)" "scast (-1 :: 8 word) = (-1 :: 64 word)"
  by (simp_all add: scast_eq)

text \<open>The summary of a prefix is the number of lower bounds minus the number of upper bounds in it.\<close>

lemma total_endpoints:
  fixes us :: "(('l \<times> bool) \<times> 'i::linorder read_element) list"
  assumes "distinct (map fst us)"
    and "\<forall>l e. ((l, False), e) \<in> set us \<longrightarrow> snd e = 1" "\<forall>l e. ((l, True), e) \<in> set us \<longrightarrow> snd e = -1"
  shows "total (element_to_summary read_node_callback) us =
    (of_int (int (card {l. (l, False) \<in> fst ` set us}) - int (card {l. (l, True) \<in> fst ` set us})) :: 64 word)"
  using assms
proof (induction us)
  case (Cons u us)
  obtain l side e where u: "u = ((l, side), e)" by (metis prod.exhaust)
  let ?S = "\<lambda>b vs. {l. (l, b) \<in> fst ` set vs}"
  have fin: "finite (?S b us)" for b
  proof -
    have "?S b us \<subseteq> fst ` fst ` set us" by force
    then show ?thesis using finite_subset by blast
  qed
  have new: "l \<notin> ?S side us" using Cons.prems(1) u by auto
  have S: "?S side (u # us) = insert l (?S side us)" "?S (\<not> side) (u # us) = ?S (\<not> side) us"
    by (auto simp: u)
  have IH: "total (element_to_summary read_node_callback) us =
      of_int (int (card (?S False us)) - int (card (?S True us)))"
    by (rule Cons.IH) (use Cons.prems in auto)
  have step: "total (element_to_summary read_node_callback) (u # us) =
      scast (snd e) + total (element_to_summary read_node_callback) us"
    by (simp add: u)
  have "scast (snd e) + of_int (int (card (?S False us)) - int (card (?S True us))) =
      (of_int (int (card (?S False (u # us))) - int (card (?S True (u # us)))) :: 64 word)"
  proof (cases side)
    case True
    then have "snd e = -1" using Cons.prems(3) u by (metis (full_types) list.set_intros(1))
    with S fin new True show ?thesis by (simp del: image_insert list.set)
  next
    case False
    then have "snd e = 1" using Cons.prems(2) u by (metis (full_types) list.set_intros(1))
    with S fin new False show ?thesis by (simp del: image_insert list.set)
  qed
  then show ?case unfolding step IH .
qed simp

text \<open>The nodes of the read tree are the endpoints of the read borrows.\<close>

definition read_ends :: "'c \<Rightarrow> ('c, 'l, 'i::linorder, 'pr, 'ip) table \<Rightarrow> (('l \<times> bool) \<times> 'i read_element) list \<Rightarrow> bool" where
  "read_ends self t rs \<longleftrightarrow> sorted_wrt (\<lambda>u v. fst (snd u) \<le> fst (snd v)) rs \<and> distinct (map fst rs) \<and>
     (\<forall>l side e. ((l, side), e) \<in> set rs \<longleftrightarrow>
       (\<exists>a b. owner t l = Some self \<and> rd t l = Some (a, b) \<and> e = (if side then (b, -1) else (a, 1))))"

lemma read_ends_in:
  "read_ends self t rs \<Longrightarrow> ((l, side), e) \<in> set rs \<longleftrightarrow>
     (\<exists>a b. owner t l = Some self \<and> rd t l = Some (a, b) \<and> e = (if side then (b, -1) else (a, 1)))"
  by (simp only: read_ends_def)

lemma good_read_ends:
  assumes g: "good self c s qs"
  obtains rs where "olist read_node_callback read_le (read_cell s) (reads c) rs" and "read_ends self (table_of s) rs"
proof -
  let ?t = "table_of s"
  from g obtain rs where o: "olist read_node_callback read_le (read_cell s) (reads c) rs"
    and dom: "fst ` set rs = {l. owner ?t l = Some self \<and> rd ?t l \<noteq> None} \<times> UNIV"
    and pairs: "pairs_ok (view (read_cell s))"
    by (auto simp: good_def linked_def)
  have "((l, side), e) \<in> set rs \<longleftrightarrow> (\<exists>a b. owner ?t l = Some self \<and> rd ?t l = Some (a, b) \<and> e = (if side then (b, -1) else (a, 1)))"
    (is "?L \<longleftrightarrow> ?R") for l side e
  proof -
    have views: "view (read_cell s) (l, side) = Some (if side then (b, -1) else (a, 1))" if "rd ?t l = Some (a, b)" for a b
      using pairs_ok_Some [OF pairs] that by (cases side) simp_all
    show ?thesis
    proof
      assume L: ?L
      then have "(l, side) \<in> fst ` set rs" by force
      then obtain a b where "owner ?t l = Some self" "rd ?t l = Some (a, b)" unfolding dom by auto
      with views olist_in_iff [OF o, of "(l, side)" e] L show ?R by auto
    next
      assume ?R
      then obtain a b where R: "owner ?t l = Some self" "rd ?t l = Some (a, b)" "e = (if side then (b, -1) else (a, 1))" by blast
      then have "(l, side) \<in> fst ` set rs" unfolding dom by auto
      with views [OF R(2)] olist_in_iff [OF o, of "(l, side)" e] R(3) show ?L by blast
    qed
  qed
  with o olist_distinct [OF o] have "read_ends self ?t rs" by (simp add: read_ends_def olist_def read_le_def del: table_of_simps)
  with o show ?thesis by (rule that)
qed

text \<open>A prefix of the endpoints counts the borrows that are open where it ends.\<close>

lemma total_open:
  fixes t :: "('c, 'l, 'i::linorder, 'pr, 'ip) table"
  assumes ends: "read_ends self t (us @ vs)" and us: "\<forall>u\<in>set us. fst (snd u) \<le> x" and vs: "\<forall>v\<in>set vs. x < fst (snd v)"
    and inv: "regions_ok t" "small self t"
  shows "total (element_to_summary read_node_callback) us =
      (of_int (int (card {l. owner t l = Some self \<and> r_covers t l x})) :: 64 word)"
    and "sint (of_int (int (card {l. owner t l = Some self \<and> r_covers t l x})) :: 64 word) =
      int (card {l. owner t l = Some self \<and> r_covers t l x})"
    and "card {l. owner t l = Some self \<and> r_covers t l x} = 0 \<longleftrightarrow> \<not> r_at self t x"
proof -
  let ?O = "{l. owner t l = Some self \<and> r_covers t l x}"
  let ?S = "\<lambda>side. {l. (l, side) \<in> fst ` set us}"
  have mem: "((l, side), e) \<in> set us \<longleftrightarrow> fst e \<le> x \<and>
      (\<exists>a b. owner t l = Some self \<and> rd t l = Some (a, b) \<and> e = (if side then (b, -1) else (a, 1)))" for l side e
  proof -
    have "((l, side), e) \<in> set us \<longleftrightarrow> fst e \<le> x \<and> ((l, side), e) \<in> set (us @ vs)" using us vs by force
    then show ?thesis unfolding read_ends_in [OF ends] .
  qed
  have S: "?S side = {l. \<exists>e. ((l, side), e) \<in> set us}" for side by force
  have A: "?S False = {l. owner t l = Some self \<and> (\<exists>a b. rd t l = Some (a, b) \<and> a \<le> x)}" unfolding S mem by auto
  have B: "?S True = {l. owner t l = Some self \<and> (\<exists>a b. rd t l = Some (a, b) \<and> b \<le> x)}" unfolding S mem by auto
  have fin: "finite {l. owner t l = Some self}" and few: "card {l. owner t l = Some self} < 2 ^ 63" using inv(2) by (simp_all add: small_def)
  have finA: "finite (?S False)" and finB: "finite (?S True)" and finO: "finite ?O" using fin unfolding A B by (auto intro: finite_subset)
  have BA: "?S True \<subseteq> ?S False" using inv(1) unfolding A B regions_ok_def by fastforce
  have O: "?O = ?S False - ?S True" unfolding A B r_covers_def by auto
  have "distinct (map fst us)" using ends by (simp add: read_ends_def)
  from total_endpoints [OF this] have "total (element_to_summary read_node_callback) us =
      (of_int (int (card (?S False)) - int (card (?S True))) :: 64 word)" by (simp add: mem split_paired_all)
  also have "int (card (?S False)) - int (card (?S True)) = int (card ?O)"
    unfolding O using BA finA finB by (simp add: card_Diff_subset card_mono of_nat_diff)
  finally show "total (element_to_summary read_node_callback) us = (of_int (int (card ?O)) :: 64 word)" .
  have "card ?O \<le> card {l. owner t l = Some self}" by (rule card_mono [OF fin]) auto
  with few have "card ?O < 2 ^ 63" by simp
  then show "sint (of_int (int (card ?O)) :: 64 word) = int (card ?O)"
    by (subst sint_sbintrunc', subst signed_take_bit_int_eq_self) simp_all
  show "card ?O = 0 \<longleftrightarrow> \<not> r_at self t x" using finO by (auto simp: r_at_def)
qed

text \<open>If no borrow is open, the next endpoint is the start of the next borrow.\<close>

lemma next_borrow:
  assumes ends: "read_ends self t (us @ ((l, side), e) # vs)" and us: "\<forall>u\<in>set us. fst (snd u) \<le> x" and e: "x < fst e"
    and none: "\<not> r_at self t x" and inv: "regions_ok t"
  shows "snd e = 1" "r_at self t (fst e)" "\<And>j. x \<le> j \<Longrightarrow> j < fst e \<Longrightarrow> \<not> r_at self t j"
proof -
  let ?rs = "us @ ((l, side), e) # vs"
  have mem: "((l, side), e) \<in> set ?rs \<longleftrightarrow> (\<exists>a b. owner t l = Some self \<and> rd t l = Some (a, b) \<and> e = (if side then (b, -1) else (a, 1)))"
    for l side e by (rule read_ends_in [OF ends])
  have after: "fst (snd v) \<le> x \<or> fst e \<le> fst (snd v)" if "v \<in> set ?rs" for v
    using ends us that by (auto simp: read_ends_def sorted_wrt_append)
  have late: "fst e \<le> a" if "owner t l' = Some self" "rd t l' = Some (a, b)" "x < b" for l' a b
  proof -
    have "((l', False), (a, 1)) \<in> set ?rs" unfolding mem using that by auto
    from after [OF this] have "a \<le> x \<or> fst e \<le> a" by simp
    moreover have "\<not> a \<le> x" using none that by (auto simp: r_at_def r_covers_def)
    ultimately show ?thesis by simp
  qed
  from mem [of l side e] obtain a b where ab: "owner t l = Some self" "rd t l = Some (a, b)" "e = (if side then (b, -1) else (a, 1))"
    by auto
  then have "a < b" using inv by (simp add: regions_ok_def)
  have "\<not> side"
  proof
    assume side
    with ab e have "x < b" "fst e = b" by simp_all
    with late [OF ab(1,2)] \<open>a < b\<close> show False by simp
  qed
  with ab \<open>a < b\<close> show "snd e = 1" "r_at self t (fst e)" by (auto simp: r_at_def r_covers_def)
  show "\<not> r_at self t j" if "x \<le> j" "j < fst e" for j
    using late that by (fastforce simp: r_at_def r_covers_def)
qed

lemma first_read_ok:
  fixes s :: "('c, 'l, 'i::linorder, 'pr::linorder, 'ip) lock_states"
  assumes g: "good self c s qs" and inv: "regions_ok (table_of s)" "small self (table_of s)" and xy: "x < y"
  shows "\<exists>r. first_read_borrow_in_range dbg c s (Range x y) = Some r \<and> first_in (r_at self (table_of s)) x y r"
proof -
  let ?t = "table_of s" and ?f = "\<lambda>e :: 'i read_element. then_ord (cmp x (fst e)) Greater"
  obtain rs where o: "olist read_node_callback read_le (read_cell s) (reads c) rs" and ends: "read_ends self ?t rs"
    by (rule good_read_ends [OF g])
  have below: "below ?f z \<longleftrightarrow> fst (snd z) \<le> x" for z :: "('l \<times> bool) \<times> 'i read_element"
    by (auto simp: below_def)
  have srt: "sorted_wrt (\<lambda>u v. fst (snd u) \<le> fst (snd v)) rs" using ends by (simp only: read_ends_def)
  then have "split_at (below ?f) rs"
    unfolding split_at_def by (rule sorted_wrt_mono_rel [rotated]) (auto simp: below)
  from tree_rep_lower_bound [OF _ this] o have lb: "lower_bound (read_cell s) (reads c) ?f =
      Some (map_option fst (find (\<lambda>z. \<not> below ?f z) rs))"
    by (auto simp: olist_def)
  show ?thesis
  proof (cases "find (\<lambda>z. \<not> below ?f z) rs")
    case None
    then have all: "\<forall>z\<in>set rs. fst (snd z) \<le> x" by (simp add: find_None below)
    have "b \<le> x" if "owner ?t l = Some self" "rd ?t l = Some (a, b)" for l a b
    proof -
      have "((l, True), (b, -1)) \<in> set rs" unfolding read_ends_in [OF ends] using that by auto
      with all show ?thesis by force
    qed
    then have "\<not> r_at self ?t j" if "x \<le> j" for j
      using that by (fastforce simp: r_at_def r_covers_def simp del: table_of_simps)
    with None lb show ?thesis by (simp add: first_read_borrow_in_range_def first_in_def)
  next
    case (Some z)
    obtain l side e where z: "z = ((l, side), e)" by (metis prod.exhaust)
    with Some obtain us vs where rs: "rs = us @ ((l, side), e) # vs" and e: "x < fst e"
      and us: "\<forall>y\<in>set us. fst (snd y) \<le> x"
      by (auto simp: find_split below)
    have vs: "\<forall>v\<in>set (((l, side), e) # vs). x < fst (snd v)" using srt e by (auto simp: rs sorted_wrt_append)
    note opened = total_open [OF ends [unfolded rs] us vs inv]
    let ?n = "card {l. owner ?t l = Some self \<and> r_covers ?t l x}"
    have ps: "prefix_sum read_node_callback (read_cell s) (reads c) (Some (l, side)) = Some (of_int (int ?n))"
      using read_cb.tree_rep_prefix_sum [of "read_cell s" "reads c" us "(l, side)" e vs] o opened(1)
      by (simp add: olist_def rs del: table_of_simps)
    have "((l, side), e) \<in> set rs" by (simp add: rs)
    with o have "view (read_cell s) (l, side) = Some e" by (auto simp: olist_def tree_rep_view)
    then obtain n where n: "read_cell s (l, side) = Some n" "element n = e" by (metis view_Some)
    show ?thesis
    proof (cases "r_at self ?t x")
      case True
      with opened(3) have "0 < ?n" by simp
      with lb Some z n e ps opened(2) have "first_read_borrow_in_range dbg c s (Range x y) = Some (Some x)"
        by (simp add: first_read_borrow_in_range_def del: table_of_simps)
      with True xy show ?thesis by (auto simp: first_in_def)
    next
      case False
      with opened(3) have zero: "?n = 0" by simp
      note succ = next_borrow [OF ends [unfolded rs] us e False inv(1)]
      have "first_read_borrow_in_range dbg c s (Range x y) = Some (if fst e < y then Some (fst e) else None)"
        using lb Some z n e ps opened(2) zero succ(1) by (simp add: first_read_borrow_in_range_def del: table_of_simps)
      then show ?thesis using succ(2,3) e by (auto simp: first_in_def)
    qed
  qed
qed

end
