(* ===== verification/Core_Resume.thy ===== *)
theory Core_Resume
  imports Core_Search
begin

text \<open>
  \<open>resume_borrow\<close> on a well-formed core: it never faults, finds the first conflict of the
  pending borrow and updates the table of borrows as \<open>resume_table\<close> says.
\<close>

section \<open>Well-formed lock states\<close>

text \<open>
  The states of a lock in the comment of \<open>ReadLockStateInner\<close>: unused, pending with or
  without a borrowed region, complete.  A pending borrow continues the borrowed region.
\<close>

definition lock_ok :: "('c, 'l, 'i::linorder, 'pr, 'ip) table \<Rightarrow> 'l \<Rightarrow> bool" where
  "lock_ok t l \<longleftrightarrow>
     (owner t l = None \<longrightarrow> rd t l = None \<and> wr t l = None \<and> pd t l = None) \<and>
     (rd t l = None \<or> wr t l = None) \<and>
     (\<forall>p. pd t l = Some p \<longrightarrow> rng_start (p_range p) < rng_end (p_range p) \<and>
        (p_parent p = Read l \<and> wr t l = None \<and> (\<forall>a b. rd t l = Some (a, b) \<longrightarrow> b = rng_start (p_range p)) \<or>
         p_parent p = Write l \<and> rd t l = None \<and> (\<forall>a b. wr t l = Some (a, b) \<longrightarrow> b = rng_start (p_range p))))"

definition table_ok :: "('c, 'l, 'i::linorder, 'pr, 'ip) table \<Rightarrow> bool" where
  "table_ok t \<longleftrightarrow> regions_ok t \<and> (\<forall>l. lock_ok t l)"

section \<open>Conflicts of a read or write borrow\<close>

definition conflict_at ::
  "'c \<Rightarrow> ('c, 'l, 'i::linorder, 'pr, 'ip) table \<Rightarrow> 'l lock_state_ptr \<Rightarrow> 'i \<Rightarrow> bool" where
  "conflict_at self t ptr i \<longleftrightarrow> w_at self t i \<or> (\<exists>l. ptr = Write l) \<and> r_at self t i"

lemma first_conflict_in:
  assumes "first_in P x y a" and "first_in Q x y b"
  shows "first_in (\<lambda>i. P i \<or> Q i) x y (first_conflict a b)"
  using assms by (auto simp: first_in_def first_conflict_def min_def split: option.splits)

section \<open>Resuming a pending borrow in the table\<close>

definition extend ::
  "('c, 'l, 'i, 'pr, 'ip) table \<Rightarrow> 'l lock_state_ptr \<Rightarrow> 'i \<Rightarrow> 'i \<Rightarrow> ('c, 'l, 'i, 'pr, 'ip) table" where
  "extend t ptr x e = (case ptr of
       Write l \<Rightarrow> t\<lparr>wr := (wr t)(l \<mapsto> (case wr t l of Some (a, _) \<Rightarrow> (a, e) | None \<Rightarrow> (x, e)))\<rparr>
     | Read l \<Rightarrow> t\<lparr>rd := (rd t)(l \<mapsto> (case rd t l of Some (a, _) \<Rightarrow> (a, e) | None \<Rightarrow> (x, e)))\<rparr>)"

abbreviation moved :: "('l, 'i, 'pr, 'ip) pending \<Rightarrow> 'i \<Rightarrow> ('l, 'i, 'pr, 'ip) pending" where
  "moved p i \<equiv> p\<lparr>p_range := Range i (rng_end (p_range p))\<rparr>"

definition resume_table ::
  "('c, 'l, 'i, 'pr, 'ip) table \<Rightarrow> 'l \<Rightarrow> ('l, 'i, 'pr, 'ip) pending \<Rightarrow> 'i option \<Rightarrow>
   ('c, 'l, 'i, 'pr, 'ip) table" where
  "resume_table t l p r =
     (if r = Some (rng_start (p_range p)) then t
      else extend (t\<lparr>pd := (pd t)(l := map_option (moved p) r)\<rparr>) (p_parent p) (rng_start (p_range p))
             (case r of None \<Rightarrow> rng_end (p_range p) | Some i \<Rightarrow> i))"

text \<open>Where the borrow is put among the pending borrows that come after it.\<close>

definition requeue ::
  "'l \<Rightarrow> ('l, 'i::linorder, 'pr::linorder, 'ip) pending \<Rightarrow> 'i option \<Rightarrow> ('l \<times> ('l, 'i, 'pr, 'ip) pending) list \<Rightarrow>
   ('l \<times> ('l, 'i, 'pr, 'ip) pending) list" where
  "requeue l p r bs = (case r of None \<Rightarrow> bs
     | Some i \<Rightarrow> list_insert (goes_right pending_node_callback (moved p i)) (l, moved p i) bs)"

lemma set_requeue: "set (requeue l p r bs) = set bs \<union> (case r of None \<Rightarrow> {} | Some i \<Rightarrow> {(l, moved p i)})"
  by (auto simp: requeue_def split: option.splits)

lemma requeue_None [simp]: "requeue l p None bs = bs"
  by (simp add: requeue_def)

lemma expand_write_ok:
  assumes g: "good self c s qs" and own: "owner (table_of s) l = Some self"
  shows "\<exists>c' s'. expand_write dbg self l x e (c, s) = Some (c', s') \<and> good self c' s' qs \<and>
    table_of s' = extend (table_of s) (Write l) x e"
proof (cases "wr (table_of s) l")
  case None
  then have "write_cell s l = None" by (simp add: write_range_None)
  with borrow_write_ok [OF g own None, of dbg x e] own None show ?thesis
    by (simp add: expand_write_def borrow_write_def extend_def)
next
  case (Some ab)
  then obtain a b where ab: "wr (table_of s) l = Some (a, b)" by (cases ab) auto
  then have "write_cell s l \<noteq> None" using write_range_None [of "view (write_cell s)" l] by auto
  with set_write_end_ok [OF g own ab, of e] own ab show ?thesis
    by (auto simp: expand_write_def extend_def)
qed

lemma expand_read_ok:
  assumes g: "good self c s qs" and own: "owner (table_of s) l = Some self"
  shows "\<exists>c' s'. expand_read dbg self l x e (c, s) = Some (c', s') \<and> good self c' s' qs \<and>
    table_of s' = extend (table_of s) (Read l) x e"
proof -
  from g have pairs: "pairs_ok (view (read_cell s))" by (simp add: good_def)
  show ?thesis
  proof (cases "rd (table_of s) l")
    case None
    then have "read_cell s (l, True) = None" using pairs_ok_None [OF pairs, of l] by simp
    with borrow_read_ok [OF g own None, of dbg x e] own None show ?thesis
      by (simp add: expand_read_def borrow_read_def extend_def)
  next
    case (Some ab)
    then obtain a b where ab: "rd (table_of s) l = Some (a, b)" by (cases ab) auto
    then have "read_cell s (l, True) \<noteq> None" using pairs_ok_Some [OF pairs, of l a b] by (auto simp: view_def)
    with move_read_end_ok [OF g own ab, of dbg e] own ab show ?thesis
      by (auto simp: expand_read_def extend_def)
  qed
qed

lemma list_insert_append:
  "\<forall>x\<in>set as. g x \<Longrightarrow> list_insert g y (as @ bs) = as @ list_insert g y bs"
  by (simp add: list_insert_def)

lemma good_pending:
  assumes "good self c s qs" and "(l, p) \<in> set qs"
  shows "pd (table_of s) l = Some p" "owner (table_of s) l = Some self"
proof -
  have "l \<in> fst ` set qs" using assms(2) by force
  then show "owner (table_of s) l = Some self" using assms(1) by (simp add: good_def)
  show "pd (table_of s) l = Some p"
    using assms olist_in_iff [of pending_node_callback pending_le "pending_cell s" "pendings c" qs l p]
    by (simp add: good_def)
qed

text \<open>Extending a borrow by the kind of its pointer.\<close>

lemma expand_ok:
  assumes "ptr = Read l \<or> ptr = Write l" and "good self c s qs" and "owner (table_of s) l = Some self"
  shows "\<exists>c' s'. (case ptr of Write l \<Rightarrow> expand_write dbg self l x e (c, s) | Read l \<Rightarrow> expand_read dbg self l x e (c, s)) =
      Some (c', s') \<and> good self c' s' qs \<and> table_of s' = extend (table_of s) ptr x e"
  using assms(1) expand_write_ok [OF assms(2,3), of dbg x e] expand_read_ok [OF assms(2,3), of dbg x e] by auto

text \<open>The two searches find the first conflict.\<close>

lemma resume_search:
  assumes g: "good self c s qs" and ok: "table_ok (table_of s)" "excl self (table_of s)" "small self (table_of s)" and xy: "x < y"
  obtains r0 r1 where "first_write_borrow_in_range c s (Range x y) = Some r0"
    and "(case ptr of Write _ \<Rightarrow> first_read_borrow_in_range dbg c s (Range x y) | Read _ \<Rightarrow> Some None) = Some r1"
    and "first_in (conflict_at self (table_of s) ptr) x y (first_conflict r0 r1)"
proof -
  let ?t = "table_of s"
  have reg: "regions_ok ?t" using ok(1) by (simp add: table_ok_def)
  from first_write_ok [OF g reg ok(2) xy] obtain r0 where
    r0: "first_write_borrow_in_range c s (Range x y) = Some r0" "first_in (w_at self ?t) x y r0" by blast
  obtain r1 where
    r1: "(case ptr of Write _ \<Rightarrow> first_read_borrow_in_range dbg c s (Range x y) | Read _ \<Rightarrow> Some None) = Some r1"
      "first_in (\<lambda>i. (\<exists>l. ptr = Write l) \<and> r_at self ?t i) x y r1"
  proof (cases ptr)
    case (Read l')
    then show ?thesis using that [of None] by (simp add: first_in_def)
  next
    case (Write l')
    then show ?thesis using first_read_ok [OF g reg ok(3) xy, of dbg] that by auto
  qed
  from first_conflict_in [OF r0(2) r1(2)] have "first_in (conflict_at self ?t ptr) x y (first_conflict r0 r1)"
    unfolding conflict_at_def .
  with r0(1) r1(1) show ?thesis by (rule that)
qed

lemma resume_borrow_eq:
  assumes "pending_cell s l = Some n" "element n = p"
    and "first_write_borrow_in_range c s (p_range p) = Some r0"
    and "(case p_parent p of Write _ \<Rightarrow> first_read_borrow_in_range dbg c s (p_range p) | Read _ \<Rightarrow> Some None) = Some r1"
  shows "resume_borrow dbg self callback l ((c, s), w) = (let r = first_conflict r0 r1; x = rng_start (p_range p) in
    if r = Some x then Some ((c, s), w)
    else do {
        (c, s) \<leftarrow> remove_pending dbg c s l;
        ((c, s), w) \<leftarrow> (case r of
            Some first_conflict_index \<Rightarrow> do {
              h \<leftarrow> modify (pending_cell s) l (\<lambda>n. n\<lparr>element :=
                (element n)\<lparr>p_range := Range first_conflict_index (rng_end (p_range (element n)))\<rparr>\<rparr>);
              (c, s) \<leftarrow> insert_pending dbg c (s\<lparr>pending_cell := h\<rparr>) l;
              Some ((c, s), w)
            }
          | None \<Rightarrow> do {
              dassert dbg (pending_cell s (state_addr (p_parent p)) \<noteq> None \<and> state_addr (p_parent p) = l);
              let (pend, s) = take_pending s (state_addr (p_parent p));
              pend \<leftarrow> pend;
              Some ((c, s), callback (p_in_progress pend) w)
            });
        let new_end = (case r of None \<Rightarrow> rng_end (p_range p) | Some i \<Rightarrow> i);
        (c, s) \<leftarrow> (case p_parent p of
            Write l \<Rightarrow> expand_write dbg self l x new_end (c, s)
          | Read l \<Rightarrow> expand_read dbg self l x new_end (c, s));
        Some ((c, s), w)
      })"
  unfolding resume_borrow_def split assms(1,2) bind.simps Let_def using assms(3,4) by simp

text \<open>The pending borrow moves behind those with a smaller start, and before those with the same start.\<close>

lemma requeue_pending_ok:
  assumes g: "good self c s (as @ (l, p) # bs)" and i: "rng_start (p_range p) < i"
  obtains c1 s1 h c2 s2 where "remove_pending dbg c s l = Some (c1, s1)"
    and "modify (pending_cell s1) l (\<lambda>n. n\<lparr>element := (element n)\<lparr>p_range := Range i (rng_end (p_range (element n)))\<rparr>\<rparr>) = Some h"
    and "insert_pending dbg c1 (s1\<lparr>pending_cell := h\<rparr>) l = Some (c2, s2)"
    and "good self c2 s2 (as @ requeue l p (Some i) bs)"
    and "table_of s2 = (table_of s)\<lparr>pd := (pd (table_of s))(l \<mapsto> moved p i)\<rparr>"
proof -
  let ?g = "goes_right pending_node_callback (moved p i)"
  from move_pending_ok [OF g, of dbg i] obtain c1 s1 h c2 s2 where
    1: "remove_pending dbg c s l = Some (c1, s1)"
    "modify (pending_cell s1) l (\<lambda>n. n\<lparr>element := (element n)\<lparr>p_range := Range i (rng_end (p_range (element n)))\<rparr>\<rparr>) = Some h"
    "insert_pending dbg c1 (s1\<lparr>pending_cell := h\<rparr>) l = Some (c2, s2)"
    "good self c2 s2 (list_insert ?g (l, moved p i) (as @ bs))"
    "table_of s2 = (table_of s)\<lparr>pd := (pd (table_of s))(l \<mapsto> moved p i)\<rparr>"
    by (auto simp: Let_def)
  have "\<forall>a\<in>set as. ?g a"
  proof
    fix a assume "a \<in> set as"
    with g have "pending_le (snd a) p" by (auto simp: good_def olist_def sorted_wrt_append)
    with i show "?g a" by (auto simp: goes_right_def pending_node_callback_def pending_le_def)
  qed
  then have "good self c2 s2 (as @ requeue l p (Some i) bs)"
    using 1(4) by (simp add: list_insert_append requeue_def)
  from that [OF 1(1-3) this 1(5)] show ?thesis .
qed

lemma requeue_same:
  assumes "\<forall>x\<in>set bs. pending_le p (snd x)"
  shows "requeue l p (Some (rng_start (p_range p))) bs = (l, p) # bs"
proof -
  have "\<forall>x\<in>set bs. \<not> goes_right pending_node_callback p x"
    using assms by (auto simp: goes_right_def pending_node_callback_def pending_le_def)
  then show ?thesis using takeWhile_split [of "[]" _ bs] by (cases p) (simp add: requeue_def list_insert_def)
qed

lemma resume_borrow_ok:
  assumes g: "good self c s (as @ (l, p) # bs)" and ok: "table_ok (table_of s)" "excl self (table_of s)"
    "small self (table_of s)"
  shows "\<exists>c' s' r. resume_borrow dbg self callback l ((c, s), w) =
      Some ((c', s'), if r = None then callback (p_in_progress p) w else w) \<and>
    first_in (conflict_at self (table_of s) (p_parent p)) (rng_start (p_range p)) (rng_end (p_range p)) r \<and>
    table_of s' = resume_table (table_of s) l p r \<and> good self c' s' (as @ requeue l p r bs)"
proof -
  let ?t = "table_of s" and ?x = "rng_start (p_range p)" and ?y = "rng_end (p_range p)"
  from good_pending [OF g, of l p] have pd: "pd ?t l = Some p" and own: "owner ?t l = Some self" by simp_all
  then have "lock_ok ?t l" using ok(1) by (simp add: table_ok_def)
  with pd have xy: "?x < ?y" and par: "p_parent p = Read l \<or> p_parent p = Write l"
    by (auto simp: lock_ok_def)
  from pd obtain n where n: "pending_cell s l = Some n" "element n = p" by (auto simp: view_Some)
  obtain r0 r1 where
    search: "first_write_borrow_in_range c s (p_range p) = Some r0"
      "(case p_parent p of Write _ \<Rightarrow> first_read_borrow_in_range dbg c s (p_range p) | Read _ \<Rightarrow> Some None) = Some r1"
    and first: "first_in (conflict_at self ?t (p_parent p)) ?x ?y (first_conflict r0 r1)"
    by (rule resume_search [OF g ok xy, of dbg "p_parent p"]) (simp only: range.collapse)
  note start = resume_borrow_eq [OF n search, of self callback w]
  have addr: "state_addr (p_parent p) = l" using par by (auto simp: state_addr_def)
  consider (same) "first_conflict r0 r1 = Some ?x" | (move) i where "first_conflict r0 r1 = Some i" "i \<noteq> ?x"
    | (finish) "first_conflict r0 r1 = None"
    by (cases "first_conflict r0 r1") auto
  then show ?thesis
  proof cases
    case same
    have "requeue l p (Some ?x) bs = (l, p) # bs"
      using g by (intro requeue_same) (auto simp: good_def olist_def sorted_wrt_append)
    with same start first g show ?thesis
      by (intro exI [of _ c] exI [of _ s] exI [of _ "Some ?x"]) (auto simp: resume_table_def)
  next
    case (move i)
    with first have "?x < i" by (auto simp: first_in_def)
    from requeue_pending_ok [OF g this, of dbg] obtain c1 s1 h c2 s2 where
      1: "remove_pending dbg c s l = Some (c1, s1)"
      "modify (pending_cell s1) l (\<lambda>n. n\<lparr>element := (element n)\<lparr>p_range := Range i (rng_end (p_range (element n)))\<rparr>\<rparr>) = Some h"
      "insert_pending dbg c1 (s1\<lparr>pending_cell := h\<rparr>) l = Some (c2, s2)"
      "good self c2 s2 (as @ requeue l p (Some i) bs)" "table_of s2 = ?t\<lparr>pd := (pd ?t)(l \<mapsto> moved p i)\<rparr>" .
    have "owner (table_of s2) l = Some self" using own 1(5) by (simp del: table_of_simps)
    from expand_ok [OF par 1(4) this, of dbg ?x i] 1(1-3) move start obtain c3 s3 where
      "resume_borrow dbg self callback l ((c, s), w) = Some ((c3, s3), w)"
      "good self c3 s3 (as @ requeue l p (Some i) bs)" "table_of s3 = extend (table_of s2) (p_parent p) ?x i" by auto
    with first move 1(5) show ?thesis
      by (intro exI [of _ c3] exI [of _ s3] exI [of _ "Some i"]) (auto simp: resume_table_def simp del: table_of_simps)
  next
    case finish
    from drop_pending_ok [OF g, of dbg] obtain c1 s1 s2 where
      1: "remove_pending dbg c s l = Some (c1, s1)" "pending_cell s1 l \<noteq> None" "take_pending s1 l = (Some p, s2)"
      "good self c1 s2 (as @ bs)" "table_of s2 = ?t\<lparr>pd := (pd ?t)(l := None)\<rparr>"
      by (auto simp: Let_def)
    have "owner (table_of s2) l = Some self" using own 1(5) by (simp del: table_of_simps)
    from expand_ok [OF par 1(4) this, of dbg ?x ?y] 1(1-3) addr finish start obtain c3 s3 where
      "resume_borrow dbg self callback l ((c, s), w) = Some ((c3, s3), callback (p_in_progress p) w)"
      "good self c3 s3 (as @ bs)" "table_of s3 = extend (table_of s2) (p_parent p) ?x ?y" by auto
    with first finish 1(5) show ?thesis
      by (intro exI [of _ c3] exI [of _ s3] exI [of _ None]) (auto simp: resume_table_def requeue_def simp del: table_of_simps)
  qed
qed

section \<open>What resuming keeps\<close>

text \<open>
  A pending borrow is blocked when a lock outside \<open>X\<close>, other than its own, covers the index
  it waits for.
\<close>

definition blocked ::
  "'c \<Rightarrow> ('c, 'l, 'i::linorder, 'pr, 'ip) table \<Rightarrow> 'l set \<Rightarrow> 'l \<Rightarrow> ('l, 'i, 'pr, 'ip) pending \<Rightarrow> bool" where
  "blocked self t X l p \<longleftrightarrow> (\<exists>l'. l' \<notin> X \<and> l' \<noteq> l \<and> owner t l' = Some self \<and>
     (w_covers t l' (rng_start (p_range p)) \<or>
      (\<exists>k. p_parent p = Write k) \<and> r_covers t l' (rng_start (p_range p))))"

text \<open>The region a lock has borrowed, and the range it asked for; the flag tells a writer from a reader.\<close>

definition region :: "('c, 'l, 'i, 'pr, 'ip) table \<Rightarrow> 'l \<Rightarrow> (bool \<times> 'i \<times> 'i) option" where
  "region t l = (case rd t l of Some ab \<Rightarrow> Some (False, ab) | None \<Rightarrow> map_option (Pair True) (wr t l))"

definition is_writer :: "'l lock_state_ptr \<Rightarrow> bool" where
  "is_writer ptr = (case ptr of Read _ \<Rightarrow> False | Write _ \<Rightarrow> True)"

lemma is_writer_simps [simp]: "\<not> is_writer (Read l)" "is_writer (Write l)"
  by (simp_all add: is_writer_def)

definition request :: "('c, 'l, 'i, 'pr, 'ip) table \<Rightarrow> 'l \<Rightarrow> (bool \<times> 'i \<times> 'i) option" where
  "request t l = (case pd t l of
       Some p \<Rightarrow> Some (is_writer (p_parent p),
         case region t l of Some (_, a, _) \<Rightarrow> a | None \<Rightarrow> rng_start (p_range p), rng_end (p_range p))
     | None \<Rightarrow> region t l)"

text \<open>A step that only lets lock \<open>l\<close> grow.\<close>

definition grows :: "('c, 'l, 'i::linorder, 'pr, 'ip) table \<Rightarrow> ('c, 'l, 'i, 'pr, 'ip) table \<Rightarrow> 'l \<Rightarrow> bool" where
  "grows t t' l \<longleftrightarrow> owner t' = owner t \<and> request t' l = request t l \<and>
     (\<forall>l'. l' \<noteq> l \<longrightarrow> rd t' l' = rd t l' \<and> wr t' l' = wr t l' \<and> pd t' l' = pd t l') \<and>
     (\<forall>l' i. w_covers t l' i \<longrightarrow> w_covers t' l' i) \<and> (\<forall>l' i. r_covers t l' i \<longrightarrow> r_covers t' l' i)"

lemma grows_blocked: "grows t t' l \<Longrightarrow> blocked self t X l' q \<Longrightarrow> blocked self t' X l' q"
  unfolding grows_def blocked_def by metis

lemma first_in_bounds:
  assumes "first_in C x y r" and "x < y" and "r \<noteq> Some x"
  shows "x < (case r of None \<Rightarrow> y | Some i \<Rightarrow> i)" "(case r of None \<Rightarrow> y | Some i \<Rightarrow> i) \<le> y"
    and "\<And>j. x \<le> j \<Longrightarrow> j < (case r of None \<Rightarrow> y | Some i \<Rightarrow> i) \<Longrightarrow> \<not> C j"
  using assms by (auto simp: first_in_def split: option.splits)

lemma resume_write:
  assumes "p_parent p = Write l" and "lock_ok t l" "pd t l = Some p" "r \<noteq> Some (rng_start (p_range p))"
  shows "\<exists>a. resume_table t l p r = t\<lparr>pd := (pd t)(l := map_option (moved p) r),
       wr := (wr t)(l \<mapsto> (a, case r of None \<Rightarrow> rng_end (p_range p) | Some i \<Rightarrow> i))\<rparr> \<and> rd t l = None \<and>
     (wr t l = None \<and> a = rng_start (p_range p) \<or> wr t l = Some (a, rng_start (p_range p)))"
  using assms by (cases "wr t l") (auto simp: resume_table_def extend_def lock_ok_def)

lemma resume_read:
  assumes "p_parent p = Read l" and "lock_ok t l" "pd t l = Some p" "r \<noteq> Some (rng_start (p_range p))"
  shows "\<exists>a. resume_table t l p r = t\<lparr>pd := (pd t)(l := map_option (moved p) r),
       rd := (rd t)(l \<mapsto> (a, case r of None \<Rightarrow> rng_end (p_range p) | Some i \<Rightarrow> i))\<rparr> \<and> wr t l = None \<and>
     (rd t l = None \<and> a = rng_start (p_range p) \<or> rd t l = Some (a, rng_start (p_range p)))"
  using assms by (cases "rd t l") (auto simp: resume_table_def extend_def lock_ok_def)

lemma resume_inv_write:
  assumes ok: "table_ok t" "excl self t" and pd: "pd t l = Some p" and own: "owner t l = Some self"
    and first: "first_in (conflict_at self t (p_parent p)) (rng_start (p_range p)) (rng_end (p_range p)) r"
    and new: "r \<noteq> Some (rng_start (p_range p))" and writer: "p_parent p = Write l"
  shows "table_ok (resume_table t l p r) \<and> excl self (resume_table t l p r) \<and> grows t (resume_table t l p r) l"
proof -
  let ?t = "resume_table t l p r" and ?x = "rng_start (p_range p)" and ?y = "rng_end (p_range p)"
  let ?e = "case r of None \<Rightarrow> ?y | Some i \<Rightarrow> i"
  from ok(1) have reg: "regions_ok t" and lok: "lock_ok t l'" for l' by (auto simp: table_ok_def)
  from lok [of l] pd have xy: "?x < ?y" by (simp add: lock_ok_def)
  note b = first_in_bounds [OF first xy new]
  from resume_write [OF writer lok pd new] obtain a where
    t': "?t = t\<lparr>pd := (pd t)(l := map_option (moved p) r), wr := (wr t)(l \<mapsto> (a, ?e))\<rparr>"
    and a: "rd t l = None" "wr t l = None \<and> a = ?x \<or> wr t l = Some (a, ?x)" by blast
  from a(2) reg have ax: "a \<le> ?x" by (auto simp: regions_ok_def less_imp_le)
  have w: "w_covers ?t l' i \<longleftrightarrow> w_covers t l' i \<or> l' = l \<and> ?x \<le> i \<and> i < ?e" for l' i
    using a(2) ax b(1) by (auto simp: t' w_covers_def)
  have r: "r_covers ?t l' i \<longleftrightarrow> r_covers t l' i" for l' i by (simp add: t' r_covers_def)
  have free: "\<not> w_covers t l' i \<and> \<not> r_covers t l' i"
    if "owner t l' = Some self" "?x \<le> i" "i < ?e" for l' i
    using b(3) [OF that(2,3)] that(1) writer by (auto simp: conflict_at_def w_at_def r_at_def)
  have own': "owner ?t = owner t" by (simp add: t')
  have "regions_ok ?t" using reg a ax b(1) by (auto simp: regions_ok_def t')
  moreover have "lock_ok ?t l'" for l'
    using lok [of l'] a own writer b(1,2) first by (auto simp: lock_ok_def t' first_in_def split: option.splits)
  moreover have "excl self ?t" using ok(2) free unfolding excl_def own' w r by blast
  moreover have "grows t ?t l"
    unfolding grows_def own' w r using a(2) pd
    by (auto simp: t' request_def region_def a(1) writer split: option.splits)
  ultimately show ?thesis by (simp add: table_ok_def)
qed

lemma resume_inv_read:
  assumes ok: "table_ok t" "excl self t" and pd: "pd t l = Some p" and own: "owner t l = Some self"
    and first: "first_in (conflict_at self t (p_parent p)) (rng_start (p_range p)) (rng_end (p_range p)) r"
    and new: "r \<noteq> Some (rng_start (p_range p))" and reader: "p_parent p = Read l"
  shows "table_ok (resume_table t l p r) \<and> excl self (resume_table t l p r) \<and> grows t (resume_table t l p r) l"
proof -
  let ?t = "resume_table t l p r" and ?x = "rng_start (p_range p)" and ?y = "rng_end (p_range p)"
  let ?e = "case r of None \<Rightarrow> ?y | Some i \<Rightarrow> i"
  from ok(1) have reg: "regions_ok t" and lok: "lock_ok t l'" for l' by (auto simp: table_ok_def)
  from lok [of l] pd have xy: "?x < ?y" by (simp add: lock_ok_def)
  note b = first_in_bounds [OF first xy new]
  from resume_read [OF reader lok pd new] obtain a where
    t': "?t = t\<lparr>pd := (pd t)(l := map_option (moved p) r), rd := (rd t)(l \<mapsto> (a, ?e))\<rparr>"
    and a: "wr t l = None" "rd t l = None \<and> a = ?x \<or> rd t l = Some (a, ?x)" by blast
  from a(2) reg have ax: "a \<le> ?x" by (auto simp: regions_ok_def less_imp_le)
  have r: "r_covers ?t l' i \<longleftrightarrow> r_covers t l' i \<or> l' = l \<and> ?x \<le> i \<and> i < ?e" for l' i
    using a(2) ax b(1) by (auto simp: t' r_covers_def)
  have w: "w_covers ?t l' i \<longleftrightarrow> w_covers t l' i" for l' i by (simp add: t' w_covers_def)
  have free: "\<not> w_covers t l' i" if "owner t l' = Some self" "?x \<le> i" "i < ?e" for l' i
    using b(3) [OF that(2,3)] that(1) by (auto simp: conflict_at_def w_at_def)
  have own': "owner ?t = owner t" by (simp add: t')
  have "regions_ok ?t" using reg a ax b(1) by (auto simp: regions_ok_def t')
  moreover have "lock_ok ?t l'" for l'
    using lok [of l'] a own reader b(1,2) first by (auto simp: lock_ok_def t' first_in_def split: option.splits)
  moreover have "excl self ?t" using ok(2) free unfolding excl_def own' w r by blast
  moreover have "grows t ?t l"
    unfolding grows_def own' w r using a(2) pd
    by (auto simp: t' request_def region_def a(1) reader split: option.splits)
  ultimately show ?thesis by (simp add: table_ok_def)
qed

lemma resume_inv:
  assumes ok: "table_ok t" "excl self t" and pd: "pd t l = Some p" and own: "owner t l = Some self"
    and first: "first_in (conflict_at self t (p_parent p)) (rng_start (p_range p)) (rng_end (p_range p)) r"
  shows "table_ok (resume_table t l p r)" and "excl self (resume_table t l p r)" and "grows t (resume_table t l p r) l"
proof -
  have "p_parent p = Write l \<or> p_parent p = Read l" using ok(1) pd by (auto simp: table_ok_def lock_ok_def)
  then have "table_ok (resume_table t l p r) \<and> excl self (resume_table t l p r) \<and> grows t (resume_table t l p r) l"
    using resume_inv_write [OF assms] resume_inv_read [OF assms] ok
    by (cases "r = Some (rng_start (p_range p))") (auto simp: resume_table_def grows_def)
  then show "table_ok (resume_table t l p r)" "excl self (resume_table t l p r)" "grows t (resume_table t l p r) l" by blast+
qed

text \<open>A borrow that stays pending is blocked at its new start.\<close>

lemma resume_blocked:
  assumes ok: "table_ok t" and pd: "pd t l = Some p"
    and first: "first_in (conflict_at self t (p_parent p)) (rng_start (p_range p)) (rng_end (p_range p)) (Some i)"
    and g: "grows t t' l" and X: "\<forall>u\<in>X. \<forall>j\<ge>rng_start (p_range p). \<not> w_covers t u j \<and> \<not> r_covers t u j"
  shows "blocked self t' X l (moved p i)"
proof -
  let ?x = "rng_start (p_range p)"
  from first obtain l' where l': "?x \<le> i" "owner t l' = Some self"
    "w_covers t l' i \<or> (\<exists>k. p_parent p = Write k) \<and> r_covers t l' i"
    by (auto simp: first_in_def conflict_at_def w_at_def r_at_def)
  from ok pd have "lock_ok t l" by (simp add: table_ok_def)
  with pd l'(1) have "\<not> w_covers t l i" "(\<exists>k. p_parent p = Write k) \<longrightarrow> \<not> r_covers t l i"
    by (auto simp: lock_ok_def w_covers_def r_covers_def)
  with l'(3) have "l' \<noteq> l" by auto
  moreover have "l' \<notin> X" using X l'(1,3) by blast
  ultimately have "blocked self t X l (moved p i)" using l' by (auto simp: blocked_def)
  with g show ?thesis by (rule grows_blocked)
qed

end
