(* ===== verification/Core_Unlock.thy ===== *)
theory Core_Unlock
  imports Core_Resume "HOL-Library.Sublist"
begin

text \<open>
  Unlocking: the loop over the pending borrows inside the released range, in descending
  order, truncates the borrow step by step and resumes each of them.
\<close>

section \<open>The pending borrows inside a range\<close>

abbreviation p_start :: "('l, 'i, 'pr, 'ip) pending \<Rightarrow> 'i" where
  "p_start p \<equiv> rng_start (p_range p)"

definition last_from :: "'i::linorder \<Rightarrow> ('l \<times> ('l, 'i, 'pr, 'ip) pending) list \<Rightarrow> 'l option" where
  "last_from start as = (case last_opt as of
     None \<Rightarrow> None | Some (l, p) \<Rightarrow> if start \<le> p_start p then Some l else None)"

lemma last_from_simps [simp]:
  "last_from start [] = None"
  "last_from start (as @ [(l, p)]) = (if start \<le> p_start p then Some l else None)"
  by (simp_all add: last_from_def)

lemma filter_start_ok:
  assumes "good self c s (as @ bs)"
  shows "filter_start s start (map_option fst (last_opt as)) = Some (last_from start as)"
proof (cases as rule: rev_cases)
  case (snoc as' lp)
  obtain l p where lp: "lp = (l, p)" by force
  from good_pending [OF assms, of l p] snoc lp have "pd (table_of s) l = Some p" by simp
  then show ?thesis by (auto simp: snoc lp filter_start_def view_Some)
qed (simp add: filter_start_def)

lemma good_tree: "good self c s qs \<Longrightarrow> tree_rep pending_node_callback (pending_cell s) (pendings c) qs"
  by (simp add: good_def olist_def)

lemma good_sorted: "good self c s qs \<Longrightarrow> sorted_wrt (\<lambda>x y. pending_le (snd x) (snd y)) qs"
  by (simp add: good_def olist_def)

lemma last_pending_before_ok:
  assumes g: "good self c s qs"
  shows "\<exists>as bs. qs = as @ bs \<and> (\<forall>(l, p)\<in>set as. p_start p < e) \<and> (\<forall>(l, p)\<in>set bs. e \<le> p_start p) \<and>
    last_pending_before c s start e = Some (last_from start as)"
proof -
  let ?f = "\<lambda>x. cmp e (p_start x)"
  let ?as = "takeWhile (below ?f) qs" and ?bs = "dropWhile (below ?f) qs"
  note t = good_tree [OF g]
  have below: "below ?f z \<longleftrightarrow> p_start (snd z) < e" for z :: "'b \<times> ('b, 'c, 'd, 'e) pending"
    by (simp add: below_def)
  have "split_at (below ?f) qs"
    using good_sorted [OF g] unfolding split_at_def
    by (rule sorted_wrt_mono_rel [rotated]) (auto simp: below pending_le_def)
  from tree_rep_lower_bound [OF t this] have lb: "lower_bound (pending_cell s) (pendings c) ?f =
      Some (map_option fst (find (\<lambda>z. \<not> below ?f z) qs))" .
  have qs: "qs = ?as @ ?bs" by simp
  have as: "\<forall>(l, p)\<in>set ?as. p_start p < e" by (auto dest!: set_takeWhileD simp: below)
  have bs: "\<forall>(l, p)\<in>set ?bs. e \<le> p_start p"
  proof (cases ?bs)
    case (Cons z zs)
    with hd_dropWhile [of "below ?f" qs] have z: "e \<le> p_start (snd z)" by (simp add: below not_less)
    have "sorted_wrt (\<lambda>x y. pending_le (snd x) (snd y)) (?as @ z # zs)"
      using good_sorted [OF g] qs Cons by metis
    then have "\<forall>y\<in>set zs. pending_le (snd z) (snd y)" by (simp add: sorted_wrt_append)
    with z show ?thesis unfolding Cons by (auto simp: pending_le_def)
  qed (metis empty_iff empty_set)
  have found: "find (\<lambda>z. \<not> below ?f z) qs = hd_opt ?bs"
    using find_not_split [of ?as "below ?f" ?bs] as bs by (fastforce simp: below hd_opt_def)
  have g': "good self c s (?as @ ?bs)" using g by simp
  have "last_pending_before c s start e = Some (last_from start ?as)"
  proof (cases ?bs)
    case Nil
    then have qs': "?as = qs" using qs by (metis append_Nil2)
    with found Nil have none: "find (\<lambda>z. \<not> below ?f z) qs = None" by simp
    show ?thesis
    proof (cases "pendings c")
      case None
      with t have "qs = []" using tree_rep_root by metis
      with lb none None show ?thesis by (simp add: last_pending_before_def filter_start_def)
    next
      case (Some root)
      with t have "qs \<noteq> []" using tree_rep_root by (metis option.distinct(1))
      then obtain q where q: "last_opt qs = Some q" using last_opt_eq_None [of qs] by (cases "last_opt qs") auto
      from tree_rep_max [OF t [unfolded Some]] q have "node_max (pending_cell s) root = Some (fst q)" by simp
      with lb none Some filter_start_ok [OF g', of start] q show ?thesis
        by (simp add: last_pending_before_def qs')
    qed
  next
    case (Cons z zs)
    obtain l p where z: "z = (l, p)" by force
    have "tree_rep pending_node_callback (pending_cell s) (pendings c) (?as @ (l, p) # zs)"
      using t qs Cons z by metis
    from tree_rep_predecessor [OF this] have "predecessor (pending_cell s) l = Some (map_option fst (last_opt ?as))" .
    with lb found Cons z filter_start_ok [OF g', of start] show ?thesis
      by (simp add: last_pending_before_def)
  qed
  with qs as bs show ?thesis by blast
qed

section \<open>Serving other locks\<close>

text \<open>
  From \<open>t\<close> to \<open>t'\<close> the locks other than \<open>u\<close> only grow towards what they asked for, and those
  in \<open>log\<close> are the ones that complete.
\<close>

definition served ::
  "'l \<Rightarrow> ('c, 'l, 'i::linorder, 'pr, 'ip) table \<Rightarrow> ('c, 'l, 'i, 'pr, 'ip) table \<Rightarrow> 'l list \<Rightarrow> bool" where
  "served u t t' log \<longleftrightarrow> owner t' = owner t \<and> pd t' u = pd t u \<and>
     (\<forall>l. l \<noteq> u \<longrightarrow> request t' l = request t l \<and>
        (\<forall>i. (w_covers t l i \<longrightarrow> w_covers t' l i) \<and> (r_covers t l i \<longrightarrow> r_covers t' l i))) \<and>
     (\<forall>l p'. pd t' l = Some p' \<longrightarrow> (\<exists>p i. pd t l = Some p \<and> p' = moved p i \<and> p_start p \<le> i)) \<and>
     (\<forall>l. owner t l \<noteq> None \<longrightarrow> pd t l = None \<longrightarrow> l \<noteq> u \<longrightarrow> rd t' l = rd t l \<and> wr t' l = wr t l) \<and>
     (\<forall>l. owner t l \<noteq> owner t u \<longrightarrow> rd t' l = rd t l \<and> wr t' l = wr t l \<and> pd t' l = pd t l) \<and>
     distinct log \<and> set log = {l. pd t l \<noteq> None \<and> pd t' l = None}"

lemma request_cong:
  "pd t' l = pd t l \<Longrightarrow> rd t' l = rd t l \<Longrightarrow> wr t' l = wr t l \<Longrightarrow> request t' l = request t l"
  by (simp only: request_def region_def)

lemma moved_id [simp]: "moved p (p_start p) = p"
  by (cases p) simp

lemma served_refl [simp]: "served u t t []"
  unfolding served_def
proof (intro conjI allI impI)
  fix l p' assume "pd t l = Some p'"
  then show "\<exists>p i. pd t l = Some p \<and> p' = moved p i \<and> p_start p \<le> i"
    by (intro exI [of _ p'] exI [of _ "p_start p'"]) simp
qed auto

lemma served_trans:
  assumes 1: "served u t t1 log1" and 2: "served u t1 t2 log2"
  shows "served u t t2 (log1 @ log2)"
proof -
  have m: "\<exists>p i. pd t l = Some p \<and> p' = moved p i \<and> p_start p \<le> i" if p': "pd t2 l = Some p'" for l p'
  proof -
    from 2 p' obtain p1 i1 where p1: "pd t1 l = Some p1" "p' = moved p1 i1" "p_start p1 \<le> i1"
      unfolding served_def by blast
    from 1 p1(1) obtain p i where p: "pd t l = Some p" "p1 = moved p i" "p_start p \<le> i"
      unfolding served_def by blast
    from p(3) p1(3) p(2) have "p_start p \<le> i1" by simp
    moreover have "p' = moved p i1" using p1(2) p(2) by simp
    ultimately show ?thesis using p(1) by blast
  qed
  have 3: "set (log1 @ log2) = {l. pd t l \<noteq> None \<and> pd t2 l = None}"
  proof (rule set_eqI)
    fix l
    have "pd t1 l \<noteq> None \<Longrightarrow> pd t l \<noteq> None" "pd t2 l \<noteq> None \<Longrightarrow> pd t1 l \<noteq> None"
      using 1 2 unfolding served_def by (metis not_None_eq)+
    then show "l \<in> set (log1 @ log2) \<longleftrightarrow> l \<in> {l. pd t l \<noteq> None \<and> pd t2 l = None}"
      using 1 2 unfolding served_def by auto
  qed
  have 4: "rd t2 l = rd t l \<and> wr t2 l = wr t l" if "owner t l \<noteq> None" "pd t l = None" "l \<noteq> u" for l
  proof -
    have "pd t1 l = None" using 1 that unfolding served_def by (metis not_None_eq)
    with 1 2 that show ?thesis unfolding served_def by simp
  qed
  have "distinct (log1 @ log2)" using 1 2 unfolding served_def by auto
  with 1 2 m 4 show ?thesis unfolding served_def 3 by simp
qed

text \<open>The payloads handed to the callback.\<close>

definition payload :: "('c, 'l, 'i, 'pr, 'ip) table \<Rightarrow> 'l \<Rightarrow> 'ip" where
  "payload t l = p_in_progress (the (pd t l))"

lemma served_payload:
  assumes "served u t t1 log1" and "pd t1 l \<noteq> None"
  shows "payload t1 l = payload t l"
proof -
  from assms(2) obtain p' where "pd t1 l = Some p'" by auto
  with assms(1) obtain p i where "pd t l = Some p" "p' = moved p i" unfolding served_def by blast
  with \<open>pd t1 l = Some p'\<close> show ?thesis by (simp add: payload_def)
qed

lemma served_payloads:
  assumes 1: "served u t t1 log1" and 2: "served u t1 t2 log2"
  shows "map (payload t1) log2 = map (payload t) log2"
  using 2 served_payload [OF 1] unfolding served_def by auto

text \<open>
  The same as a process: the borrows of a list are resumed one after the other, each on the table that the ones before have
  left, and what remains of them is put in its place among the others.
\<close>

inductive serve ::
  "'c \<Rightarrow> ('l \<times> ('l, 'i::linorder, 'pr::linorder, 'ip) pending) list \<Rightarrow> ('c, 'l, 'i, 'pr, 'ip) table \<Rightarrow>
   ('l \<times> ('l, 'i, 'pr, 'ip) pending) list \<Rightarrow> ('c, 'l, 'i, 'pr, 'ip) table \<Rightarrow>
   ('l \<times> ('l, 'i, 'pr, 'ip) pending) list \<Rightarrow> bool" for self where
  serve_Nil: "serve self [] t bs t bs"
| serve_Cons: "first_in (conflict_at self t (p_parent p)) (p_start p) (rng_end (p_range p)) r \<Longrightarrow>
    serve self qs (resume_table t l p r) (requeue l p r bs) t' bs' \<Longrightarrow> serve self ((l, p) # qs) t bs t' bs'"

inductive_simps serve_simps: "serve self [] t bs t' bs'" "serve self ((l, p) # qs) t bs t' bs'"

section \<open>The invariant of the unlock loops\<close>

text \<open>The region of the lock \<open>u\<close> that is being released; \<open>k\<close> tells a writer from a reader.\<close>

definition u_region :: "bool \<Rightarrow> ('c, 'l, 'i, 'pr, 'ip) table \<Rightarrow> 'l \<Rightarrow> ('i \<times> 'i) option \<Rightarrow> bool" where
  "u_region k t u x \<longleftrightarrow> (if k then wr t u = x \<and> rd t u = None else rd t u = x \<and> wr t u = None)"

text \<open>
  \<open>as\<close> are the pending borrows below the current position, \<open>bs\<close> those that are done.  Whatever
  will not be visited any more is blocked by a lock other than \<open>u\<close>.
\<close>

definition loop_inv ::
  "'c \<Rightarrow> 'l \<Rightarrow> bool \<Rightarrow> 'i::linorder \<Rightarrow> 'i \<Rightarrow> bool \<Rightarrow> ('c, 'l, 'i, 'pr::linorder, 'ip) table \<Rightarrow>
   ('l \<times> ('l, 'i, 'pr, 'ip) pending) list \<Rightarrow> ('l \<times> ('l, 'i, 'pr, 'ip) pending) list \<Rightarrow> bool" where
  "loop_inv self u k start e complete t as bs \<longleftrightarrow>
     table_ok t \<and> excl self t \<and> small self t \<and> owner t u = Some self \<and> pd t u = None \<and>
     u_region k t u (if complete then None else Some (start, e)) \<and>
     (\<forall>(l, p)\<in>set as. p_start p \<le> e) \<and>
     (\<forall>(l, p)\<in>set bs. blocked self t {u} l p) \<and>
     (\<forall>(l, p)\<in>set as. p_start p < start \<longrightarrow> blocked self t {u} l p)"

lemma small_owner: "owner t' = owner t \<Longrightarrow> small self t' = small self t"
  by (simp add: small_def)

text \<open>After the released region has been cut off at the pending borrow, that borrow is resumed.\<close>

lemma pd_resume_table: "pd t l = Some p \<Longrightarrow> pd (resume_table t l p r) l = map_option (moved p) r"
  by (auto simp: resume_table_def Core_Resume.extend_def split: lock_state_ptr.splits)

text \<open>Resuming one pending borrow serves it; nobody else is affected.\<close>

lemma served_resume:
  assumes pd: "pd t l = Some p" and own: "owner t l = Some self" and u: "owner t u = Some self" "pd t u = None" and lu: "l \<noteq> u"
    and gr: "grows t t' l" and pd': "pd t' l = map_option (moved p) r"
    and first: "first_in C (p_start p) (rng_end (p_range p)) r"
  shows "served u t t' (if r = None then [l] else [])"
proof -
  have own': "owner t' = owner t" using gr by (simp only: grows_def)
  have other: "pd t' l' = pd t l'" "rd t' l' = rd t l'" "wr t' l' = wr t l'" if "l' \<noteq> l" for l'
    using gr that by (simp_all add: grows_def)
  show ?thesis
    unfolding served_def
  proof (intro conjI allI impI)
    show "owner t' = owner t" by (rule own')
    show "pd t' u = pd t u" using other lu by simp
    show "distinct (if r = None then [l] else [])" by simp
    have "l' \<in> set (if r = None then [l] else []) \<longleftrightarrow> pd t l' \<noteq> None \<and> pd t' l' = None" for l'
      using pd pd' other(1) [of l'] by (cases "l' = l") auto
    then show "set (if r = None then [l] else []) = {l. pd t l \<noteq> None \<and> pd t' l = None}" by blast
  next
    fix l' assume "l' \<noteq> u"
    show "request t' l' = request t l'"
      using gr other [of l'] by (cases "l' = l") (simp add: grows_def, intro request_cong)
  next
    fix l' i
    show "w_covers t l' i \<Longrightarrow> w_covers t' l' i" "r_covers t l' i \<Longrightarrow> r_covers t' l' i"
      using gr by (simp_all add: grows_def)
  next
    fix l' assume "pd t l' = None"
    then have "l' \<noteq> l" using pd by auto
    then show "rd t' l' = rd t l'" "wr t' l' = wr t l'" using other by simp_all
  next
    fix l' assume "owner t l' \<noteq> owner t u"
    then have "l' \<noteq> l" using own u(1) by auto
    then show "rd t' l' = rd t l'" "wr t' l' = wr t l'" "pd t' l' = pd t l'" using other by simp_all
  next
    fix l' p' assume p': "pd t' l' = Some p'"
    show "\<exists>q i. pd t l' = Some q \<and> p' = moved q i \<and> p_start q \<le> i"
    proof (cases "l' = l")
      case True
      with p' pd' obtain i where i: "r = Some i" "p' = moved p i" by auto
      with first have "p_start p \<le> i" by (simp add: first_in_def)
      with True pd i show ?thesis by blast
    next
      case False
      with p' other(1) have "pd t l' = Some p'" by simp
      then show ?thesis by (intro exI [of _ p'] exI [of _ "p_start p'"]) simp
    qed
  qed
qed

lemma loop_step:
  assumes g: "good self c s ((as @ [(l, p)]) @ bs)"
    and inv: "loop_inv self u k start e complete (table_of s) (as @ [(l, p)]) bs"
    and cut: "complete \<or> e = p_start p"
  shows "\<exists>c' s' r log. resume_borrow dbg self callback l ((c, s), w) =
       Some ((c', s'), fold callback (map (payload (table_of s)) log) w) \<and>
     good self c' s' (as @ requeue l p r bs) \<and> loop_inv self u k start e complete (table_of s') as (requeue l p r bs) \<and>
     served u (table_of s) (table_of s') log \<and> log \<in> {[], [l]} \<and>
     first_in (conflict_at self (table_of s) (p_parent p)) (p_start p) (rng_end (p_range p)) r \<and>
     table_of s' = resume_table (table_of s) l p r"
proof -
  let ?t = "table_of s"
  from inv have ok: "table_ok ?t" "excl self ?t" "small self ?t" and u: "owner ?t u = Some self" "pd ?t u = None"
    and ur: "u_region k ?t u (if complete then None else Some (start, e))"
    by (simp_all add: loop_inv_def)
  from g have g': "good self c s (as @ (l, p) # bs)" by simp
  from good_pending [OF g', of l p] have pd: "pd ?t l = Some p" and own: "owner ?t l = Some self" by simp_all
  with u(2) have lu: "l \<noteq> u" by (auto simp del: table_of_simps)
  from resume_borrow_ok [OF g' ok, of dbg callback w] obtain c' s' r where
    1: "resume_borrow dbg self callback l ((c, s), w) =
      Some ((c', s'), if r = None then callback (p_in_progress p) w else w)"
    "first_in (conflict_at self ?t (p_parent p)) (p_start p) (rng_end (p_range p)) r"
    "table_of s' = resume_table ?t l p r" "good self c' s' (as @ requeue l p r bs)" by blast
  let ?bs = "requeue l p r bs"
  note bs' = set_requeue [of l p r bs]
  from resume_inv [OF ok(1,2) pd own 1(2)] have
    ok': "table_ok (table_of s')" "excl self (table_of s')" and gr: "grows ?t (table_of s') l"
    by (simp_all only: 1(3))
  have own': "owner (table_of s') = owner ?t" using gr by (simp only: grows_def)
  have pd': "pd (table_of s') l = map_option (moved p) r"
    unfolding 1(3) by (rule pd_resume_table [where p = p]) (rule pd)
  have other: "pd (table_of s') l' = pd ?t l'" "rd (table_of s') l' = rd ?t l'" "wr (table_of s') l' = wr ?t l'"
    if "l' \<noteq> l" for l'
    using gr that by (simp_all add: grows_def del: table_of_simps)
  have keep: "blocked self (table_of s') {u} l' q" if "blocked self ?t {u} l' q" for l' q
    using grows_blocked [OF gr that] .
  have gone: "\<forall>v\<in>{u}. \<forall>j\<ge>p_start p. \<not> w_covers ?t v j \<and> \<not> r_covers ?t v j"
    using ur cut by (auto simp: u_region_def w_covers_def r_covers_def split: if_splits simp del: table_of_simps)
  let ?log = "if r = None then [l] else []"
  have "\<forall>(l', q)\<in>set ?bs. blocked self (table_of s') {u} l' q"
  proof (cases r)
    case None
    with bs' inv keep show ?thesis by (auto simp: loop_inv_def simp del: table_of_simps)
  next
    case (Some i)
    from resume_blocked [OF ok(1) pd 1(2) [unfolded Some] gr gone] have "blocked self (table_of s') {u} l (moved p i)" .
    with bs' inv keep Some show ?thesis by (auto simp: loop_inv_def simp del: table_of_simps)
  qed
  moreover have "u_region k (table_of s') u (if complete then None else Some (start, e))"
    using ur other [of u] lu by (simp add: u_region_def del: table_of_simps)
  moreover have "\<forall>(l', q)\<in>set as. p_start q < start \<longrightarrow> blocked self (table_of s') {u} l' q"
    using inv keep by (auto simp: loop_inv_def simp del: table_of_simps)
  ultimately have "loop_inv self u k start e complete (table_of s') as ?bs"
    using inv ok' own' other(1) [of u] lu small_owner [OF own']
    unfolding loop_inv_def by (simp del: table_of_simps)
  moreover have "served u ?t (table_of s') ?log"
    by (rule served_resume [OF pd own u lu gr pd' 1(2)])
  moreover have "resume_borrow dbg self callback l ((c, s), w) =
       Some ((c', s'), fold callback (map (payload ?t) ?log) w)"
    using 1(1) pd by (simp add: payload_def del: table_of_simps)
  ultimately show ?thesis using 1(2-4) by (intro exI [of _ c'] exI [of _ s'] exI [of _ r] exI [of _ ?log]) auto
qed

section \<open>Cutting off the released region\<close>

definition cut ::
  "('c, 'l, 'i, 'pr, 'ip) table \<Rightarrow> bool \<Rightarrow> 'l \<Rightarrow> ('i \<times> 'i) option \<Rightarrow> ('c, 'l, 'i, 'pr, 'ip) table" where
  "cut t k u x = (if k then t\<lparr>wr := (wr t)(u := x)\<rparr> else t\<lparr>rd := (rd t)(u := x)\<rparr>)"

lemma cut_simps [simp]:
  "owner (cut t k u x) = owner t" "pd (cut t k u x) = pd t"
  "l \<noteq> u \<Longrightarrow> rd (cut t k u x) l = rd t l" "l \<noteq> u \<Longrightarrow> wr (cut t k u x) l = wr t l"
  by (simp_all add: cut_def)

lemma cut_request [simp]: "l \<noteq> u \<Longrightarrow> request (cut t k u x) l = request t l"
  by (rule request_cong) simp_all

lemma cut_covers:
  assumes "u_region k t u (Some (start, e))" and "x = None \<or> (\<exists>i. x = Some (start, i) \<and> i \<le> e)"
  shows "w_covers (cut t k u x) l j \<Longrightarrow> w_covers t l j" "r_covers (cut t k u x) l j \<Longrightarrow> r_covers t l j"
  using assms by (auto simp: w_covers_def r_covers_def cut_def u_region_def split: if_splits)

lemma cut_blocked: "blocked self (cut t k u x) {u} l p \<longleftrightarrow> blocked self t {u} l p"
  by (auto simp: blocked_def w_covers_def r_covers_def)

lemma cut_cut [simp]: "cut (cut t k u x) k u y = cut t k u y"
  by (simp add: cut_def)

lemma cut_same: "u_region k t u None \<Longrightarrow> cut t k u None = t"
  by (auto simp: cut_def u_region_def fun_upd_idem)

lemma first_in_cong: "(\<And>j. x \<le> j \<Longrightarrow> C j = C' j) \<Longrightarrow> first_in C x y r = first_in C' x y r"
  by (auto simp: first_in_def split: option.splits)

text \<open>The part of \<open>u\<close>'s region that is left does not matter to the borrows that are resumed.\<close>

lemma cut_conflict:
  assumes "u_region k t u (if complete then None else Some (start, e))" and "complete \<or> e \<le> j"
  shows "conflict_at self (cut t k u None) ptr j = conflict_at self t ptr j"
proof -
  have "w_covers (cut t k u None) l j = w_covers t l j" "r_covers (cut t k u None) l j = r_covers t l j" for l
    using assms by (cases "l = u"; auto simp: w_covers_def r_covers_def cut_def u_region_def split: if_splits)+
  then show ?thesis by (simp add: conflict_at_def w_at_def r_at_def)
qed

lemma cut_resume:
  assumes "lock_ok t l" "pd t l = Some p" "l \<noteq> u"
  shows "cut (resume_table t l p r) k u None = resume_table (cut t k u None) l p r"
  using assms by (auto simp: resume_table_def extend_def cut_def lock_ok_def fun_upd_twist)

lemma cut_served: "served u t (cut t k u x) []"
proof -
  have "rd (cut t k u x) l = rd t l" "wr (cut t k u x) l = wr t l" if "owner t l \<noteq> owner t u" for l
    using that cut_simps(3,4) by metis+
  then show ?thesis
    using served_refl [of u t] unfolding served_def by (auto simp: w_covers_def r_covers_def)
qed

lemma cut_inv:
  assumes inv: "loop_inv self u k start e False t as bs"
    and x: "x = None \<and> complete \<and> e' = e \<or> x = Some (start, e') \<and> \<not> complete \<and> start < e' \<and> e' \<le> e"
    and bound: "\<forall>(l, p)\<in>set as. p_start p \<le> e'"
  shows "loop_inv self u k start e' complete (cut t k u x) as bs"
proof -
  from inv have ok: "table_ok t" "excl self t" "small self t" and u: "owner t u = Some self" "pd t u = None"
    and ur: "u_region k t u (Some (start, e))"
    by (simp_all add: loop_inv_def)
  have lok: "lock_ok t l" for l using ok(1) by (simp add: table_ok_def)
  have "table_ok (cut t k u x)"
    unfolding table_ok_def
  proof (intro conjI allI)
    show "regions_ok (cut t k u x)"
      using ok(1) x by (auto simp: table_ok_def regions_ok_def cut_def)
    show "lock_ok (cut t k u x) l" for l
      using lok [of l] u ur x by (cases "l = u") (auto simp: lock_ok_def u_region_def cut_def)
  qed
  moreover have "excl self (cut t k u x)"
    using ok(2) cut_covers [OF ur, of x] x unfolding excl_def cut_simps by blast
  moreover have "u_region k (cut t k u x) u (if complete then None else Some (start, e'))"
    using ur x by (auto simp: u_region_def cut_def)
  ultimately show ?thesis
    using inv bound small_owner [of "cut t k u x" t self] unfolding loop_inv_def cut_blocked by simp
qed

lemma table_cut:
  "(t\<lparr>wr := (wr t)(u := x)\<rparr>) = cut t True u x" "(t\<lparr>rd := (rd t)(u := x)\<rparr>) = cut t False u x"
  by (simp_all add: cut_def)

lemma sorted_below:
  assumes "good self c s ((as @ [(l, p)]) @ bs)"
  shows "\<forall>(l', q)\<in>set (as @ [(l, p)]). p_start q \<le> p_start p"
  using good_sorted [OF assms] by (auto simp: sorted_wrt_append pending_le_def)

definition cut_step_ok where
  "cut_step_ok self u k start e as p bs t res \<longleftrightarrow> (\<exists>c s e' complete'. res = Some ((c, s), e', complete') \<and>
     good self c s (as @ bs) \<and> loop_inv self u k start e' complete' (table_of s) as bs \<and>
     (complete' \<or> e' = p_start p) \<and> served u t (table_of s) [] \<and> pd (table_of s) = pd t \<and>
     cut (table_of s) k u None = cut t k u None)"

lemma write_cut_step_ok:
  assumes g: "good self c s ((as @ [(l, p)]) @ bs)" and start: "start \<le> p_start p"
    and inv: "loop_inv self u True start e complete (table_of s) (as @ [(l, p)]) bs"
  shows "cut_step_ok self u True start e (as @ [(l, p)]) p bs (table_of s)
    (write_cut_step dbg u start (p_start p) e complete (c, s))"
proof (cases complete)
  case True
  with g inv show ?thesis by (auto simp: write_cut_step_def cut_step_ok_def simp del: table_of_simps)
next
  case False
  with inv have inv': "loop_inv self u True start e False (table_of s) (as @ [(l, p)]) bs"
    and u: "owner (table_of s) u = Some self" "wr (table_of s) u = Some (start, e)" "p_start p \<le> e"
    by (auto simp: loop_inv_def u_region_def simp del: table_of_simps)
  show ?thesis
  proof (cases "p_start p = start")
    case True
    from unborrow_write_ok [OF g u(1), of dbg] u(2) obtain c1 s1 where
      1: "remove_write dbg c s u = Some (c1, s1)"
      "good self c1 (s1\<lparr>write_cell := (write_cell s1)(u := None)\<rparr>) ((as @ [(l, p)]) @ bs)"
      "table_of (s1\<lparr>write_cell := (write_cell s1)(u := None)\<rparr>) = cut (table_of s) True u None"
      by (auto simp: table_cut simp del: table_of_simps)
    have "loop_inv self u True start e True (cut (table_of s) True u None) (as @ [(l, p)]) bs"
      by (rule cut_inv [OF inv']) (use inv in \<open>auto simp: loop_inv_def\<close>)
    with 1 True False show ?thesis
      by (auto simp: write_cut_step_def cut_step_ok_def cut_served simp del: table_of_simps)
  next
    case ne: False
    from set_write_end_ok [OF g u(1,2), of "p_start p"] obtain s1 where
      1: "set_write_end u (p_start p) s = Some s1" "good self c s1 ((as @ [(l, p)]) @ bs)"
      "table_of s1 = cut (table_of s) True u (Some (start, p_start p))"
      by (auto simp: table_cut simp del: table_of_simps)
    have "loop_inv self u True start (p_start p) False (cut (table_of s) True u (Some (start, p_start p))) (as @ [(l, p)]) bs"
      by (rule cut_inv [OF inv']) (use start ne u(3) sorted_below [OF g] in auto)
    with 1 ne False show ?thesis
      by (auto simp: write_cut_step_def cut_step_ok_def cut_served simp del: table_of_simps)
  qed
qed

lemma read_cut_step_ok:
  assumes g: "good self c s ((as @ [(l, p)]) @ bs)" and start: "start \<le> p_start p"
    and inv: "loop_inv self u False start e complete (table_of s) (as @ [(l, p)]) bs"
  shows "cut_step_ok self u False start e (as @ [(l, p)]) p bs (table_of s)
    (read_cut_step dbg u start (p_start p) e complete (c, s))"
proof (cases "complete \<or> p_start p = e")
  case True
  with g inv show ?thesis by (auto simp: read_cut_step_def cut_step_ok_def simp del: table_of_simps)
next
  case False
  with inv have inv': "loop_inv self u False start e False (table_of s) (as @ [(l, p)]) bs"
    and u: "owner (table_of s) u = Some self" "rd (table_of s) u = Some (start, e)" "p_start p \<le> e"
    by (auto simp: loop_inv_def u_region_def simp del: table_of_simps)
  show ?thesis
  proof (cases "p_start p = start")
    case True
    from unborrow_read_ok [OF g u(1), of dbg True] u(2) obtain c1 s1 c2 s2 where
      1: "remove_read dbg c s (u, True) = Some (c1, s1)" "remove_read dbg c1 s1 (u, False) = Some (c2, s2)"
      "good self c2 (clear_read s2 u) ((as @ [(l, p)]) @ bs)"
      "table_of (clear_read s2 u) = cut (table_of s) False u None"
      by (auto simp: table_cut simp del: table_of_simps)
    have "loop_inv self u False start e True (cut (table_of s) False u None) (as @ [(l, p)]) bs"
      by (rule cut_inv [OF inv']) (use inv in \<open>auto simp: loop_inv_def\<close>)
    with 1 True False show ?thesis
      by (auto simp: read_cut_step_def cut_step_ok_def cut_served simp del: table_of_simps)
  next
    case ne: False
    from move_read_end_ok [OF g u(1,2), of dbg "p_start p"] obtain c1 s1 where
      1: "move_read_end dbg u (p_start p) (c, s) = Some (c1, s1)" "good self c1 s1 ((as @ [(l, p)]) @ bs)"
      "table_of s1 = cut (table_of s) False u (Some (start, p_start p))"
      by (auto simp: table_cut simp del: table_of_simps)
    have "loop_inv self u False start (p_start p) False (cut (table_of s) False u (Some (start, p_start p))) (as @ [(l, p)]) bs"
      by (rule cut_inv [OF inv']) (use start ne u(3) sorted_below [OF g] in auto)
    with 1 ne False show ?thesis
      by (auto simp: read_cut_step_def cut_step_ok_def cut_served simp del: table_of_simps)
  qed
qed

section \<open>The loops\<close>

abbreviation starts_before :: "'i \<Rightarrow> 'l \<times> ('l, 'i::linorder, 'pr, 'ip) pending \<Rightarrow> bool" where
  "starts_before i x \<equiv> p_start (snd x) < i"

text \<open>
  What a loop delivers: the borrows that start in the region have been served as if the whole region were free, and
  everything that is still pending is blocked by others.
\<close>

definition loop_post where
  "loop_post self u k start as bs t callback w res \<longleftrightarrow> (\<exists>c s e complete bs' log.
     res = Some ((c, s), fold callback (map (payload t) log) w, complete) \<and>
     good self c s (filter (starts_before start) as @ bs') \<and>
     loop_inv self u k start e complete (table_of s) [] (filter (starts_before start) as @ bs') \<and>
     served u t (table_of s) log \<and> subseq log (map fst (rev as)) \<and>
     serve self (rev (filter (\<lambda>x. \<not> starts_before start x) as)) (cut t k u None) bs (cut (table_of s) k u None) bs')"

lemma loop_exit:
  assumes g: "good self c s (as @ bs)" and inv: "loop_inv self u k start e complete (table_of s) as bs"
    and none: "last_from start as = None"
  shows "loop_post self u k start as bs (table_of s) callback w (Some ((c, s), w, complete))"
proof -
  have before: "\<forall>(l, p)\<in>set as. p_start p < start"
  proof (cases as rule: rev_cases)
    case (snoc as' lp)
    obtain l p where lp: "lp = (l, p)" by force
    with none snoc have "p_start p < start" by (simp split: if_splits)
    with sorted_below [of self c s as' l p bs] g snoc lp show ?thesis by fastforce
  qed simp
  with inv have "loop_inv self u k start e complete (table_of s) [] (as @ bs)"
    by (auto simp: loop_inv_def simp del: table_of_simps)
  moreover have "filter (starts_before start) as = as" "filter (\<lambda>x. \<not> starts_before start x) as = []"
    using before by (auto simp: filter_id_conv filter_empty_conv)
  ultimately show ?thesis unfolding loop_post_def using g
    by (intro exI [of _ c] exI [of _ s] exI [of _ e] exI [of _ complete] exI [of _ bs] exI [of _ "[]"]) (simp add: serve_Nil)
qed

text \<open>One round, for a truncation step \<open>cut_step\<close> of either kind.\<close>

lemma loop_round:
  assumes g: "good self c s ((as @ [(l, p)]) @ bs)" and start: "start \<le> p_start p"
    and cut: "cut_step_ok self u k start e (as @ [(l, p)]) p bs (table_of s) res"
    and rest: "\<And>c2 s2 bs2 e2 complete2 w2. good self c2 s2 (as @ bs2) \<Longrightarrow>
      loop_inv self u k start e2 complete2 (table_of s2) as bs2 \<Longrightarrow>
      loop_post self u k start as bs2 (table_of s2) callback w2
        (loop start e2 complete2 (last_from start as) (c2, s2) w2)"
  shows "loop_post self u k start (as @ [(l, p)]) bs (table_of s) callback w
    (res \<bind> (\<lambda>(cs, e, complete). resume_borrow dbg self callback l (cs, w) \<bind>
      (\<lambda>(cs, w). loop start e complete (last_from start as) cs w)))"
proof -
  from cut obtain c1 s1 e1 complete1 where 1: "res = Some ((c1, s1), e1, complete1)"
    "good self c1 s1 ((as @ [(l, p)]) @ bs)" "loop_inv self u k start e1 complete1 (table_of s1) (as @ [(l, p)]) bs"
    "complete1 \<or> e1 = p_start p" "served u (table_of s) (table_of s1) []" "pd (table_of s1) = pd (table_of s)"
    "cut (table_of s1) k u None = cut (table_of s) k u None"
    unfolding cut_step_ok_def by blast
  from loop_step [OF 1(2-4), of dbg callback w] obtain c2 s2 r log2 where
    2: "resume_borrow dbg self callback l ((c1, s1), w) =
       Some ((c2, s2), fold callback (map (payload (table_of s1)) log2) w)"
    "good self c2 s2 (as @ requeue l p r bs)" "loop_inv self u k start e1 complete1 (table_of s2) as (requeue l p r bs)"
    "served u (table_of s1) (table_of s2) log2" "log2 \<in> {[], [l]}"
    "first_in (conflict_at self (table_of s1) (p_parent p)) (p_start p) (rng_end (p_range p)) r"
    "table_of s2 = resume_table (table_of s1) l p r" by blast
  let ?w2 = "fold callback (map (payload (table_of s1)) log2) w"
  from rest [OF 2(2,3), of ?w2] obtain c3 s3 e3 complete3 bs3 log3 where
    3: "loop start e1 complete1 (last_from start as) (c2, s2) ?w2 =
      Some ((c3, s3), fold callback (map (payload (table_of s2)) log3) ?w2, complete3)"
    "good self c3 s3 (filter (starts_before start) as @ bs3)"
    "loop_inv self u k start e3 complete3 (table_of s3) [] (filter (starts_before start) as @ bs3)"
    "served u (table_of s2) (table_of s3) log3" "subseq log3 (map fst (rev as))"
    "serve self (rev (filter (\<lambda>x. \<not> starts_before start x) as)) (cut (table_of s2) k u None) (requeue l p r bs)
      (cut (table_of s3) k u None) bs3"
    unfolding loop_post_def by blast
  have sv: "served u (table_of s) (table_of s2) log2"
    using served_trans [OF 1(5) 2(4)] by simp
  have "subseq (log2 @ log3) (map fst (rev (as @ [(l, p)])))"
    using 2(5) 3(5) by auto
  moreover have "fold callback (map (payload (table_of s2)) log3) ?w2 =
      fold callback (map (payload (table_of s)) (log2 @ log3)) w"
    by (simp only: served_payloads [OF sv 3(4)] served_payloads [OF 1(5) 2(4)] map_append fold_append o_apply)
  moreover have "serve self (rev (filter (\<lambda>x. \<not> starts_before start x) (as @ [(l, p)]))) (cut (table_of s) k u None) bs
      (cut (table_of s3) k u None) bs3"
  proof -
    from 1(2) have g1: "good self c1 s1 (as @ (l, p) # bs)" by simp
    from good_pending [OF g1, of l p] have pd: "pd (table_of s1) l = Some p" by simp
    with 1(3) have lu: "l \<noteq> u" by (auto simp: loop_inv_def simp del: table_of_simps)
    from 1(3) have lok: "lock_ok (table_of s1) l" and ur: "u_region k (table_of s1) u (if complete1 then None else Some (start, e1))"
      by (simp_all add: loop_inv_def table_ok_def)
    have "conflict_at self (cut (table_of s1) k u None) (p_parent p) j = conflict_at self (table_of s1) (p_parent p) j"
      if "p_start p \<le> j" for j
      by (rule cut_conflict [OF ur]) (use 1(4) that in auto)
    then have "first_in (conflict_at self (cut (table_of s1) k u None) (p_parent p)) (p_start p) (rng_end (p_range p)) r"
      using 2(6) first_in_cong [of "p_start p"] by blast
    from serve_Cons [OF this 3(6) [unfolded 2(7) cut_resume [OF lok pd lu]]] start show ?thesis by (simp add: 1(7) leD)
  qed
  ultimately show ?thesis
    unfolding loop_post_def using 1(1) 2(1) 3(1-3) served_trans [OF sv 3(4)] start
    by (intro exI [of _ c3] exI [of _ s3] exI [of _ e3] exI [of _ complete3] exI [of _ bs3]
        exI [of _ "log2 @ log3"]) (simp add: leD)
qed

text \<open>The reads at the head of a round.\<close>

lemma loop_head:
  assumes g: "good self c s ((as @ [(l, p)]) @ bs)"
  shows "predecessor (pending_cell s) l = Some (map_option fst (last_opt as))"
    and "filter_start s start (map_option fst (last_opt as)) = Some (last_from start as)"
    and "\<exists>n. pending_cell s l = Some n \<and> element n = p"
proof -
  from g have g': "good self c s (as @ (l, p) # bs)" by simp
  show "predecessor (pending_cell s) l = Some (map_option fst (last_opt as))"
    by (rule tree_rep_predecessor [OF good_tree [OF g']])
  show "filter_start s start (map_option fst (last_opt as)) = Some (last_from start as)"
    by (rule filter_start_ok [OF g'])
  from good_pending [OF g', of l p] show "\<exists>n. pending_cell s l = Some n \<and> element n = p"
    by (simp add: view_Some)
qed

lemma unlock_write_loop_ok:
  assumes "good self c s (as @ bs)" and "loop_inv self u True start e complete (table_of s) as bs"
  shows "loop_post self u True start as bs (table_of s) callback w
    (unlock_write_loop dbg self callback u start e complete (last_from start as) (c, s) w)"
  using assms
proof (induction as arbitrary: c s bs e complete w rule: rev_induct)
  case Nil
  from loop_exit [OF Nil] show ?case by (subst unlock_write_loop.simps) simp
next
  case (snoc lp as)
  obtain l p where lp: "lp = (l, p)" by force
  show ?case
  proof (cases "start \<le> p_start p")
    case False
    then have none: "last_from start (as @ [lp]) = None" by (simp add: lp)
    show ?thesis using loop_exit [OF snoc.prems none] unfolding none
      by (subst unlock_write_loop.simps) simp
  next
    case True
    note g = snoc.prems(1) [unfolded lp] and inv = snoc.prems(2) [unfolded lp]
    from inv have "p_start p \<le> e" by (simp add: loop_inv_def)
    obtain n where n: "pending_cell s l = Some n" "element n = p" using loop_head(3) [OF g] by blast
    have "unlock_write_loop dbg self callback u start e complete (last_from start (as @ [lp])) (c, s) w =
      write_cut_step dbg u start (p_start p) e complete (c, s) \<bind>
      (\<lambda>(cs, e, complete). resume_borrow dbg self callback l (cs, w) \<bind>
      (\<lambda>(cs, w). unlock_write_loop dbg self callback u start e complete (last_from start as) cs w))"
      using True \<open>p_start p \<le> e\<close> n loop_head(1,2) [OF g]
      by (subst unlock_write_loop.simps) (simp add: lp)
    with loop_round [OF g True write_cut_step_ok [OF g True inv], of callback "unlock_write_loop dbg self callback u"
        w dbg dbg] snoc.IH show ?thesis unfolding lp by simp
  qed
qed

lemma unlock_read_loop_ok:
  assumes "good self c s (as @ bs)" and "loop_inv self u False start e complete (table_of s) as bs"
  shows "loop_post self u False start as bs (table_of s) callback w
    (unlock_read_loop dbg self callback u start e complete (last_from start as) (c, s) w)"
  using assms
proof (induction as arbitrary: c s bs e complete w rule: rev_induct)
  case Nil
  from loop_exit [OF Nil] show ?case by (subst unlock_read_loop.simps) simp
next
  case (snoc lp as)
  obtain l p where lp: "lp = (l, p)" by force
  show ?case
  proof (cases "start \<le> p_start p")
    case False
    then have none: "last_from start (as @ [lp]) = None" by (simp add: lp)
    show ?thesis using loop_exit [OF snoc.prems none] unfolding none
      by (subst unlock_read_loop.simps) simp
  next
    case True
    note g = snoc.prems(1) [unfolded lp] and inv = snoc.prems(2) [unfolded lp]
    from inv have "p_start p \<le> e" by (simp add: loop_inv_def)
    obtain n where n: "pending_cell s l = Some n" "element n = p" using loop_head(3) [OF g] by blast
    have "unlock_read_loop dbg self callback u start e complete (last_from start (as @ [lp])) (c, s) w =
      read_cut_step dbg u start (p_start p) e complete (c, s) \<bind>
      (\<lambda>(cs, e, complete). resume_borrow dbg self callback l (cs, w) \<bind>
      (\<lambda>(cs, w). unlock_read_loop dbg self callback u start e complete (last_from start as) cs w))"
      using True \<open>p_start p \<le> e\<close> n loop_head(1,2) [OF g]
      by (subst unlock_read_loop.simps) (simp add: lp)
    with loop_round [OF g True read_cut_step_ok [OF g True inv], of callback "unlock_read_loop dbg self callback u"
        w dbg dbg] snoc.IH show ?thesis unfolding lp by simp
  qed
qed

end
