(* ===== verification/Core_Inv.thy ===== *)
theory Core_Inv
  imports Core_Unlock
begin

text \<open>
  The invariant of a core between two operations, and the inner unlock functions under it:
  they release the borrow, and every pending borrow that remains is blocked by another lock.
\<close>

section \<open>The invariant of a core\<close>

text \<open>
  Every lock state owned by the core holds a borrow or waits for one, and every pending
  borrow is blocked by another lock: none of them could make progress.
\<close>

definition core_inv ::
  "'c \<Rightarrow> ('c, 'l, 'i::linorder, 'pr::linorder, 'ip) world \<Rightarrow> bool" where
  "core_inv self cs \<longleftrightarrow> (let t = table_of (snd cs) in
     (\<exists>qs. good self (fst cs) (snd cs) qs) \<and> table_ok t \<and> excl self t \<and> small self t \<and>
     (\<forall>l. owner t l = Some self \<longrightarrow> request t l \<noteq> None) \<and>
     (\<forall>l p. owner t l = Some self \<longrightarrow> pd t l = Some p \<longrightarrow> blocked self t {} l p))"

lemma core_invD:
  assumes "core_inv self (c, s)"
  shows "table_ok (table_of s)" "excl self (table_of s)" "small self (table_of s)"
    "owner (table_of s) l = Some self \<Longrightarrow> request (table_of s) l \<noteq> None"
    "owner (table_of s) l = Some self \<Longrightarrow> pd (table_of s) l = Some p \<Longrightarrow> blocked self (table_of s) {} l p"
  using assms unfolding core_inv_def Let_def by (simp_all del: table_of_simps)

lemma core_inv_good:
  assumes "core_inv self (c, s)"
  obtains qs where "good self c s qs" and "\<forall>(l, p)\<in>set qs. blocked self (table_of s) {} l p"
proof -
  from assms obtain qs where qs: "good self c s qs" by (auto simp: core_inv_def Let_def)
  moreover have "\<forall>(l, p)\<in>set qs. blocked self (table_of s) {} l p"
    using good_pending [OF qs] core_invD(5) [OF assms] by blast
  ultimately show ?thesis using that by blast
qed

lemma blocked_not_u:
  assumes "blocked self t {} l p" and "\<not> w_covers t u (p_start p)" "\<not> r_covers t u (p_start p)"
  shows "blocked self t {u} l p"
  using assms unfolding blocked_def by (metis singletonD)

lemma u_region_covers:
  "u_region k t u x \<Longrightarrow> w_covers t u i \<Longrightarrow> \<exists>a b. x = Some (a, b) \<and> a \<le> i \<and> i < b"
  "u_region k t u x \<Longrightarrow> r_covers t u i \<Longrightarrow> \<exists>a b. x = Some (a, b) \<and> a \<le> i \<and> i < b"
  by (auto simp: u_region_def w_covers_def r_covers_def split: if_splits)

text \<open>The start of the loop.\<close>

lemma loop_start:
  assumes g: "good self c s qs" and ok: "table_ok (table_of s)" "excl self (table_of s)" "small self (table_of s)"
    and u: "owner (table_of s) u = Some self" "pd (table_of s) u = None"
    and ur: "u_region k (table_of s) u (Some (start, e))"
    and bl: "\<forall>(l, p)\<in>set qs. blocked self (table_of s) {} l p"
  shows "\<exists>as bs. good self c s (as @ bs) \<and> loop_inv self u k start e False (table_of s) as bs \<and>
    last_pending_before c s start e = Some (last_from start as) \<and> qs = as @ bs \<and>
    (\<forall>x\<in>set as. starts_before e x) \<and> (\<forall>x\<in>set bs. \<not> starts_before e x)"
proof -
  from last_pending_before_ok [OF g, of e start] obtain as bs where
    1: "qs = as @ bs" "\<forall>(l, p)\<in>set as. p_start p < e" "\<forall>(l, p)\<in>set bs. e \<le> p_start p"
    "last_pending_before c s start e = Some (last_from start as)" by blast
  have "\<forall>(l, p)\<in>set bs. blocked self (table_of s) {u} l p"
    using 1(1,3) bl u_region_covers [OF ur] by (fastforce intro!: blocked_not_u)
  moreover have "\<forall>(l, p)\<in>set as. p_start p < start \<longrightarrow> blocked self (table_of s) {u} l p"
    using 1(1) bl u_region_covers [OF ur] by (fastforce intro!: blocked_not_u)
  moreover have "\<forall>(l, p)\<in>set as. p_start p \<le> e" using 1(2) by auto
  ultimately have "loop_inv self u k start e False (table_of s) as bs"
    using ok u ur by (simp add: loop_inv_def del: table_of_simps)
  moreover have "\<forall>x\<in>set as. starts_before e x" "\<forall>x\<in>set bs. \<not> starts_before e x" using 1(2,3) by auto
  ultimately show ?thesis using g 1(1,4) by blast
qed

definition release_queue ::
  "'c \<Rightarrow> 'l \<Rightarrow> bool \<Rightarrow> ('i \<times> 'i) option \<Rightarrow> ('c, 'l, 'i::linorder, 'pr::linorder, 'ip) table \<Rightarrow>
   ('l \<times> ('l, 'i, 'pr, 'ip) pending) list \<Rightarrow> ('c, 'l, 'i, 'pr, 'ip) table \<Rightarrow>
   ('l \<times> ('l, 'i, 'pr, 'ip) pending) list \<Rightarrow> bool" where
  "release_queue self u k x t qs t' qs' \<longleftrightarrow> (case x of
     None \<Rightarrow> t' = cut t k u None \<and> qs' = qs
   | Some (start, e) \<Rightarrow> \<exists>bs'. qs' = filter (starts_before start) qs @ bs' \<and>
       serve self (rev (filter (\<lambda>x. \<not> starts_before start x \<and> starts_before e x) qs)) (cut t k u None)
         (filter (\<lambda>x. \<not> starts_before e x) qs) t' bs')"

text \<open>
  What the inner unlock functions deliver: the borrows that start in the released region \<open>x\<close> have been served, in descending
  order, as if the whole region had been free from the beginning.
\<close>

definition inner_post where
  "inner_post self u k x qs t callback w res \<longleftrightarrow> (\<exists>c s qs' log.
     res = Some ((c, s), fold callback (map (payload t) log) w) \<and> good self c s qs' \<and>
     table_ok (table_of s) \<and> excl self (table_of s) \<and> small self (table_of s) \<and> u_region k (table_of s) u None \<and>
     (\<forall>(l, p)\<in>set qs'. blocked self (table_of s) {u} l p) \<and>
     served u t (table_of s) log \<and> subseq log (map fst (rev qs)) \<and> release_queue self u k x t qs (table_of s) qs')"

lemma inner_nothing:
  assumes g: "good self c s qs" and ok: "table_ok (table_of s)" "excl self (table_of s)" "small self (table_of s)"
    and ur: "u_region k (table_of s) u None" and bl: "\<forall>(l, p)\<in>set qs. blocked self (table_of s) {} l p"
  shows "inner_post self u k None qs (table_of s) callback w (Some ((c, s), w))"
proof -
  have "\<forall>(l, p)\<in>set qs. blocked self (table_of s) {u} l p"
    using bl u_region_covers [OF ur] by (fastforce intro!: blocked_not_u)
  with g ok ur show ?thesis unfolding inner_post_def
    by (intro exI [of _ c] exI [of _ s] exI [of _ qs] exI [of _ "[]"]) (simp add: release_queue_def cut_same)
qed

text \<open>The release of what the loop has left over.\<close>

lemma inner_finish:
  assumes loop: "loop_post self u k start as bs t callback w res"
    and bounds: "\<forall>x\<in>set as. starts_before e x" "\<forall>x\<in>set bs. \<not> starts_before e x" "start < e"
    and free: "\<And>c1 s1 qs1 e1 w1. good self c1 s1 qs1 \<Longrightarrow> owner (table_of s1) u = Some self \<Longrightarrow>
      u_region k (table_of s1) u (Some (start, e1)) \<Longrightarrow>
      \<exists>c2 s2. fin (c1, s1) w1 = Some ((c2, s2), w1) \<and> good self c2 s2 qs1 \<and> table_of s2 = cut (table_of s1) k u None"
  shows "inner_post self u k (Some (start, e)) (as @ bs) t callback w
    (res \<bind> (\<lambda>(cs, w, complete). if \<not> complete then fin cs w else Some (cs, w)))"
proof -
  from loop obtain c1 s1 e1 complete bs' log where 1:
    "res = Some ((c1, s1), fold callback (map (payload t) log) w, complete)"
    "good self c1 s1 (filter (starts_before start) as @ bs')"
    "loop_inv self u k start e1 complete (table_of s1) [] (filter (starts_before start) as @ bs')"
    "served u t (table_of s1) log" "subseq log (map fst (rev as))"
    "serve self (rev (filter (\<lambda>x. \<not> starts_before start x) as)) (cut t k u None) bs (cut (table_of s1) k u None) bs'"
    unfolding loop_post_def by blast
  let ?qs = "filter (starts_before start) as @ bs'"
  have sub: "subseq log (map fst (rev (as @ bs)))" using 1(5) by (simp add: list_emb_append2)
  have parts: "filter (starts_before start) (as @ bs) = filter (starts_before start) as"
    "filter (\<lambda>x. \<not> starts_before start x \<and> starts_before e x) (as @ bs) = filter (\<lambda>x. \<not> starts_before start x) as"
    "filter (\<lambda>x. \<not> starts_before e x) (as @ bs) = bs"
    using bounds by (auto simp: filter_empty_conv filter_id_conv intro!: filter_cong)
  have queue: "release_queue self u k (Some (start, e)) t (as @ bs) (cut (table_of s1) k u None) ?qs"
    using 1(6) unfolding release_queue_def option.case prod.case parts by blast
  show ?thesis
  proof (cases complete)
    case True
    with 1(3) have t1: "table_ok (table_of s1) \<and> excl self (table_of s1) \<and> small self (table_of s1) \<and>
        u_region k (table_of s1) u None \<and> (\<forall>(l, p)\<in>set ?qs. blocked self (table_of s1) {u} l p)"
      by (simp add: loop_inv_def del: table_of_simps)
    with queue have "release_queue self u k (Some (start, e)) t (as @ bs) (table_of s1) ?qs"
      by (simp only: cut_same)
    with True t1 1(1,2,4) sub show ?thesis unfolding inner_post_def
      by (intro exI [of _ c1] exI [of _ s1] exI [of _ ?qs] exI [of _ log]) simp
  next
    case False
    with 1(3) have inv: "loop_inv self u k start e1 False (table_of s1) [] ?qs" by simp
    then have u: "owner (table_of s1) u = Some self" "u_region k (table_of s1) u (Some (start, e1))"
      by (simp_all add: loop_inv_def del: table_of_simps)
    from free [OF 1(2) u, of "fold callback (map (payload t) log) w"] obtain c2 s2 where
      2: "fin (c1, s1) (fold callback (map (payload t) log) w) = Some ((c2, s2), fold callback (map (payload t) log) w)"
      "good self c2 s2 ?qs" "table_of s2 = cut (table_of s1) k u None" by blast
    have "loop_inv self u k start e1 True (table_of s2) [] ?qs"
      unfolding 2(3) by (rule cut_inv [OF inv]) simp_all
    then have "table_ok (table_of s2) \<and> excl self (table_of s2) \<and> small self (table_of s2) \<and>
        u_region k (table_of s2) u None \<and> (\<forall>(l, p)\<in>set ?qs. blocked self (table_of s2) {u} l p)"
      by (simp add: loop_inv_def del: table_of_simps)
    moreover have "served u t (table_of s2) log"
      using served_trans [OF 1(4) cut_served [of u "table_of s1" k None]] by (simp add: 2(3))
    moreover note queue [folded 2(3)]
    ultimately show ?thesis unfolding inner_post_def using False 1(1) 2(1,2) sub
      by (intro exI [of _ c2] exI [of _ s2] exI [of _ ?qs] exI [of _ log]) simp
  qed
qed

lemma unlock_write_inner_ok:
  assumes g: "good self c s qs" and ok: "table_ok (table_of s)" "excl self (table_of s)" "small self (table_of s)"
    and u: "owner (table_of s) u = Some self" "pd (table_of s) u = None"
    and ur: "u_region True (table_of s) u x"
    and bl: "\<forall>(l, p)\<in>set qs. blocked self (table_of s) {} l p"
  shows "inner_post self u True x qs (table_of s) callback w (unlock_write_inner dbg self callback u (c, s) w)"
proof (cases x)
  case None
  with ur have "write_cell s u = None" by (simp add: u_region_def write_range_None)
  with inner_nothing [OF g ok ur [unfolded None] bl] show ?thesis by (simp add: None unlock_write_inner_def)
next
  case (Some ab)
  obtain start e where "ab = (start, e)" by force
  with Some ur have ur': "u_region True (table_of s) u (Some (start, e))" by simp
  then obtain n where n: "write_cell s u = Some n" "element n = Range start e"
    by (auto simp: u_region_def write_range_def view_def)
  from loop_start [OF g ok u ur' bl] obtain as bs where
    1: "good self c s (as @ bs)" "loop_inv self u True start e False (table_of s) as bs"
    "last_pending_before c s start e = Some (last_from start as)" "qs = as @ bs"
    "\<forall>x\<in>set as. starts_before e x" "\<forall>x\<in>set bs. \<not> starts_before e x" by blast
  have lt: "start < e" using ok(1) ur' by (auto simp: table_ok_def regions_ok_def u_region_def simp del: table_of_simps)
  have "inner_post self u True (Some (start, e)) (as @ bs) (table_of s) callback w
    (unlock_write_loop dbg self callback u start e False (last_from start as) (c, s) w \<bind>
     (\<lambda>(cs, w, complete). if \<not> complete then
        (\<lambda>cs w. remove_write dbg (fst cs) (snd cs) u \<bind>
          (\<lambda>(c, s). Some ((c, s\<lparr>write_cell := (write_cell s)(u := None)\<rparr>), w))) cs w else Some (cs, w)))"
  proof (rule inner_finish [OF unlock_write_loop_ok [OF 1(1,2)] 1(5,6) lt])
    fix c1 s1 qs1 e1 w1
    assume a: "good self c1 s1 qs1" "owner (table_of s1) u = Some self"
      "u_region True (table_of s1) u (Some (start, e1))"
    then have "wr (table_of s1) u \<noteq> None" by (simp add: u_region_def del: table_of_simps)
    from unborrow_write_ok [OF a(1,2) this, of dbg]
    show "\<exists>c2 s2. (remove_write dbg (fst (c1, s1)) (snd (c1, s1)) u \<bind>
          (\<lambda>(c, s). Some ((c, s\<lparr>write_cell := (write_cell s)(u := None)\<rparr>), w1))) = Some ((c2, s2), w1) \<and>
        good self c2 s2 qs1 \<and> table_of s2 = cut (table_of s1) True u None"
      by (auto simp: table_cut simp del: table_of_simps)
  qed
  with n 1(3,4) show ?thesis by (simp add: Some \<open>ab = (start, e)\<close> unlock_write_inner_def)
qed

lemma unlock_read_inner_ok:
  assumes g: "good self c s qs" and ok: "table_ok (table_of s)" "excl self (table_of s)" "small self (table_of s)"
    and u: "owner (table_of s) u = Some self" "pd (table_of s) u = None"
    and ur: "u_region False (table_of s) u x"
    and bl: "\<forall>(l, p)\<in>set qs. blocked self (table_of s) {} l p"
  shows "inner_post self u False x qs (table_of s) callback w (unlock_read_inner dbg self callback u (c, s) w)"
proof -
  from g have pairs: "pairs_ok (view (read_cell s))" by (simp add: good_def)
  show ?thesis
  proof (cases x)
    case None
    with ur have "read_cell s (u, False) = None" using pairs_ok_None [OF pairs, of u] by (simp add: u_region_def)
    with inner_nothing [OF g ok ur [unfolded None] bl] show ?thesis by (simp add: None unlock_read_inner_def)
  next
    case (Some ab)
    obtain start e where "ab = (start, e)" by force
    with Some ur have ur': "u_region False (table_of s) u (Some (start, e))" by simp
    then have "rd (table_of s) u = Some (start, e)" by (simp add: u_region_def del: table_of_simps)
    with pairs_ok_Some [OF pairs, of u start e] obtain n0 n1 where
      n: "read_cell s (u, False) = Some n0" "element n0 = (start, 1)"
      "read_cell s (u, True) = Some n1" "element n1 = (e, -1)"
      by (auto simp: view_Some)
    from loop_start [OF g ok u ur' bl] obtain as bs where
      1: "good self c s (as @ bs)" "loop_inv self u False start e False (table_of s) as bs"
      "last_pending_before c s start e = Some (last_from start as)" "qs = as @ bs"
    "\<forall>x\<in>set as. starts_before e x" "\<forall>x\<in>set bs. \<not> starts_before e x" by blast
  have lt: "start < e" using ok(1) ur' by (auto simp: table_ok_def regions_ok_def u_region_def simp del: table_of_simps)
    have "inner_post self u False (Some (start, e)) (as @ bs) (table_of s) callback w
      (unlock_read_loop dbg self callback u start e False (last_from start as) (c, s) w \<bind>
       (\<lambda>(cs, w, complete). if \<not> complete then
          (\<lambda>cs w. remove_read dbg (fst cs) (snd cs) (u, False) \<bind>
            (\<lambda>(c, s). remove_read dbg c s (u, True) \<bind>
              (\<lambda>(c, s). Some ((c, clear_read s u), w)))) cs w else Some (cs, w)))"
    proof (rule inner_finish [OF unlock_read_loop_ok [OF 1(1,2)] 1(5,6) lt])
      fix c1 s1 qs1 e1 w1
      assume a: "good self c1 s1 qs1" "owner (table_of s1) u = Some self"
        "u_region False (table_of s1) u (Some (start, e1))"
      then have "rd (table_of s1) u \<noteq> None" by (simp add: u_region_def del: table_of_simps)
      from unborrow_read_ok [OF a(1,2) this, of dbg False]
      show "\<exists>c2 s2. (remove_read dbg (fst (c1, s1)) (snd (c1, s1)) (u, False) \<bind>
            (\<lambda>(c, s). remove_read dbg c s (u, True) \<bind>
              (\<lambda>(c, s). Some ((c, clear_read s u), w1)))) = Some ((c2, s2), w1) \<and>
          good self c2 s2 qs1 \<and> table_of s2 = cut (table_of s1) False u None"
        by (auto simp: table_cut simp del: table_of_simps)
    qed
    with n 1(3,4) show ?thesis by (simp add: Some \<open>ab = (start, e)\<close> unlock_read_inner_def)
  qed
qed

end
