(* ===== verification/Core_Release.thy ===== *)
theory Core_Release
  imports Core_Inv
begin

text \<open>
  The unlock operations under the core's invariant: they never fault, keep the invariant,
  and pass exactly the locks that complete to the callback.
\<close>

section \<open>Unlocking\<close>

text \<open>
  The lock \<open>u\<close> is gone, the others keep what they asked for and only grow towards it, lock
  states of other cores are not touched.  \<open>log\<close> lists the locks that completed, in descending
  order of position and priority.
\<close>

definition released ::
  "'l \<Rightarrow> ('c, 'l, 'i::linorder, 'pr::linorder, 'ip) table \<Rightarrow> ('c, 'l, 'i, 'pr, 'ip) table \<Rightarrow> 'l list \<Rightarrow> bool" where
  "released u t t' log \<longleftrightarrow> owner t' = (owner t)(u := None) \<and> request t' u = None \<and>
     (\<forall>l. l \<noteq> u \<longrightarrow> request t' l = request t l \<and>
        (\<forall>i. (w_covers t l i \<longrightarrow> w_covers t' l i) \<and> (r_covers t l i \<longrightarrow> r_covers t' l i))) \<and>
     (\<forall>l p'. pd t' l = Some p' \<longrightarrow> (\<exists>p i. pd t l = Some p \<and> p' = moved p i \<and> p_start p \<le> i)) \<and>
     (\<forall>l. owner t l \<noteq> owner t u \<longrightarrow> rd t' l = rd t l \<and> wr t' l = wr t l \<and> pd t' l = pd t l) \<and>
     distinct log \<and> set log = {l. l \<noteq> u \<and> pd t l \<noteq> None \<and> pd t' l = None} \<and>
     sorted_wrt (\<lambda>l l'. pending_le (the (pd t l')) (the (pd t l))) log"

lemma subseq_sorted_wrt: "subseq xs ys \<Longrightarrow> sorted_wrt P ys \<Longrightarrow> sorted_wrt P xs"
proof (induction rule: list_emb.induct)
  case (list_emb_Cons2 x y xs ys)
  then show ?case using list_emb_set [of "(=)" xs ys] by auto
qed simp_all

lemma log_sorted:
  assumes g: "good self c s qs" and log: "subseq log (map fst (rev qs))"
  shows "sorted_wrt (\<lambda>l l'. pending_le (the (pd (table_of s) l')) (the (pd (table_of s) l))) log"
proof (rule subseq_sorted_wrt [OF log])
  have srt: "sorted_wrt (\<lambda>x y. pending_le (snd y) (snd x)) (rev qs)"
    using good_sorted [OF g] by (simp add: sorted_wrt_rev)
  have at: "the (pd (table_of s) (fst x)) = snd x" if "x \<in> set qs" for x
    using good_pending(1) [OF g, of "fst x" "snd x"] that by (simp del: table_of_simps)
  show "sorted_wrt (\<lambda>l l'. pending_le (the (pd (table_of s) l')) (the (pd (table_of s) l))) (map fst (rev qs))"
    unfolding sorted_wrt_map
    by (rule sorted_wrt_mono_rel [OF _ srt]) (simp add: at del: table_of_simps)
qed

text \<open>
  The locks in \<open>log\<close> come in the reverse order of the tree of pending borrows: by descending position and
  priority, and where these are equal in the order in which they were stored.
\<close>

definition in_pending_order ::
  "'l core \<Rightarrow> ('c, 'l, 'i::linorder, 'pr::linorder, 'ip) lock_states \<Rightarrow> 'l list \<Rightarrow> bool" where
  "in_pending_order c s log \<longleftrightarrow> (\<exists>qs. olist pending_node_callback pending_le (pending_cell s) (pendings c) qs \<and>
     subseq log (map fst (rev qs)))"

lemma good_in_pending_order: "good self c s qs \<Longrightarrow> subseq log (map fst (rev qs)) \<Longrightarrow> in_pending_order c s log"
  unfolding good_def in_pending_order_def by blast

lemma subseq_drop_mid: "subseq log (map fst (rev (as @ bs))) \<Longrightarrow> subseq log (map fst (rev (as @ x # bs)))"
  by (erule subseq_order.order_trans) (auto intro: list_emb_append_mono)

lemma cancel_borrow_ok:
  assumes inv: "core_inv self (c, s)" and own: "owner (table_of s) u = Some self"
  shows "\<exists>c' s' qs. cancel_borrow dbg u (c, s) = Some (pd (table_of s) u, c', s') \<and> good self c' s' qs \<and>
    table_of s' = (table_of s)\<lparr>pd := (pd (table_of s))(u := None)\<rparr> \<and>
    (\<forall>(l, p)\<in>set qs. blocked self (table_of s') {} l p) \<and>
    (\<exists>qs0. good self c s qs0 \<and> qs = filter (\<lambda>x. fst x \<noteq> u) qs0) \<and>
    (\<forall>log. subseq log (map fst (rev qs)) \<longrightarrow> in_pending_order c s log)"
proof -
  from inv obtain qs where g: "good self c s qs" and bl: "\<forall>(l, p)\<in>set qs. blocked self (table_of s) {} l p"
    by (rule core_inv_good)
  show ?thesis
  proof (cases "pd (table_of s) u")
    case None
    then have "(table_of s)\<lparr>pd := (pd (table_of s))(u := None)\<rparr> = table_of s" "pending_cell s u = None"
      by (simp_all add: fun_upd_idem)
    moreover have "\<forall>x\<in>set qs. fst x \<noteq> u" using good_pending(1) [OF g] None by fastforce
    then have "qs = filter (\<lambda>x. fst x \<noteq> u) qs" by (simp add: filter_id_conv)
    then have "\<exists>qs0. good self c s qs0 \<and> qs = filter (\<lambda>x. fst x \<noteq> u) qs0" using g by blast
    ultimately show ?thesis using g bl None good_in_pending_order [OF g]
      by (intro exI [of _ c] exI [of _ s] exI [of _ qs]) (simp add: cancel_borrow_def del: table_of_simps)
  next
    case (Some p)
    with own g have "u \<in> fst ` set qs" by (auto simp: good_def simp del: table_of_simps)
    then obtain p' as bs where "qs = as @ (u, p') # bs" by (auto dest: split_list)
    with g Some have g': "good self c s (as @ (u, p) # bs)" and qs: "qs = as @ (u, p) # bs"
      using good_pending(1) [OF g, of u p'] by (simp_all del: table_of_simps)
    from drop_pending_ok [OF g', of dbg] obtain c1 s1 s2 where
      1: "remove_pending dbg c s u = Some (c1, s1)" "take_pending s1 u = (Some p, s2)" "good self c1 s2 (as @ bs)"
      "table_of s2 = (table_of s)\<lparr>pd := (pd (table_of s))(u := None)\<rparr>"
      by (auto simp: Let_def simp del: table_of_simps)
    have "blocked self (table_of s2) {} l q = blocked self (table_of s) {} l q" for l q
      by (simp add: 1(4) blocked_def w_covers_def r_covers_def del: table_of_simps)
    then have "\<forall>(l, p)\<in>set (as @ bs). blocked self (table_of s2) {} l p" using bl qs by auto
    moreover obtain n where "pending_cell s u = Some n" using Some by (auto simp: view_Some)
    moreover have "in_pending_order c s log" if "subseq log (map fst (rev (as @ bs)))" for log
      using good_in_pending_order [OF g' subseq_drop_mid [OF that]] .
    moreover have "as @ bs = filter (\<lambda>x. fst x \<noteq> u) (as @ (u, p) # bs)"
    proof -
      have "distinct (map fst (as @ (u, p) # bs))" using g' unfolding good_def by (blast dest: olist_distinct)
      then have "\<forall>x\<in>set (as @ bs). fst x \<noteq> u" by auto
      then show ?thesis by (simp add: filter_id_conv)
    qed
    then have "\<exists>qs0. good self c s qs0 \<and> as @ bs = filter (\<lambda>x. fst x \<noteq> u) qs0" using g' by blast
    ultimately show ?thesis using 1 Some
      by (intro exI [of _ c1] exI [of _ s2] exI [of _ "as @ bs"]) (simp add: cancel_borrow_def del: table_of_simps)
  qed
qed

lemma drop_pd_ok:
  assumes "table_ok t" "excl self t" "small self t" and t': "t' = t\<lparr>pd := (pd t)(u := None)\<rparr>"
  shows "table_ok t'" "excl self t'" "small self t'"
proof -
  have "lock_ok t' l" if "lock_ok t l" for l using that by (auto simp: t' lock_ok_def)
  moreover have "regions_ok t' = regions_ok t" unfolding t' regions_ok_def by simp
  ultimately show "table_ok t'" using assms(1) unfolding table_ok_def by blast
  have "excl self t' = excl self t" unfolding t' excl_def w_covers_def r_covers_def by simp
  then show "excl self t'" using assms(2) by blast
  have "small self t' = small self t" unfolding t' small_def by simp
  then show "small self t'" using assms(3) by blast
qed

text \<open>Unclaiming the lock state.\<close>

lemma table_unclaim: "table_of (set_parent_cell s l x) = (table_of s)\<lparr>owner := (owner (table_of s))(l := x)\<rparr>"
  by (simp add: set_parent_cell_def table_of_def)

lemma good_unclaim:
  assumes "good self c s qs" and "rd (table_of s) u = None" "wr (table_of s) u = None" "pd (table_of s) u = None"
  shows "good self c (set_parent_cell s u x) qs"
proof -
  let ?t = "table_of s" and ?t' = "table_of (set_parent_cell s u x)"
  have eq: "{l. owner ?t' l = Some self \<and> f l \<noteq> None} = {l. owner ?t l = Some self \<and> f l \<noteq> None}"
    if "f u = None" for f :: "'b \<Rightarrow> 'z option"
    using that by (auto simp: table_unclaim)
  have t': "rd ?t' = rd ?t" "wr ?t' = wr ?t" "pd ?t' = pd ?t" by (simp_all add: table_unclaim del: table_of_simps)
  have cells: "read_cell (set_parent_cell s u x) = read_cell s" "write_cell (set_parent_cell s u x) = write_cell s"
    "pending_cell (set_parent_cell s u x) = pending_cell s" by (simp_all add: set_parent_cell_def)
  show ?thesis
    using assms(1) unfolding good_def t' cells eq [of "rd ?t", OF assms(2)]
      eq [of "wr ?t", OF assms(3)] eq [of "pd ?t", OF assms(4)] .
qed

lemma unclaim_inv:
  assumes inner: "good self c s qs" "table_ok (table_of s)" "excl self (table_of s)" "small self (table_of s)"
      "u_region k (table_of s) u None" "\<forall>(l, p)\<in>set qs. blocked self (table_of s) {u} l p"
    and u: "owner (table_of s) u = Some self" "pd (table_of s) u = None"
    and live: "\<And>l. owner (table_of s) l = Some self \<Longrightarrow> l \<noteq> u \<Longrightarrow> request (table_of s) l \<noteq> None"
  shows "core_inv self (c, set_parent_cell s u None)"
proof -
  let ?t = "table_of s" and ?t' = "table_of (set_parent_cell s u None)"
  from inner(5) have none: "rd ?t u = None" "wr ?t u = None" by (auto simp: u_region_def split: if_splits)
  note t' = table_unclaim [of s u None]
  have own': "owner ?t' l = Some self \<longleftrightarrow> owner ?t l = Some self \<and> l \<noteq> u" for l by (simp add: t' del: table_of_simps)
  have cov: "w_covers ?t' l i = w_covers ?t l i" "r_covers ?t' l i = r_covers ?t l i" for l i
    by (simp_all add: t' w_covers_def r_covers_def del: table_of_simps)
  have req: "request ?t' l = request ?t l" for l by (rule request_cong) (simp_all add: t' del: table_of_simps)
  have pd': "pd ?t' = pd ?t" by (simp add: t' del: table_of_simps)
  have "good self c (set_parent_cell s u None) qs" using good_unclaim [OF inner(1) none u(2)] .
  moreover have "table_ok ?t'"
    using inner(2) none u(2)
    by (auto simp: table_ok_def regions_ok_def lock_ok_def t' simp del: table_of_simps)
  moreover have "excl self ?t'" using inner(3) unfolding excl_def own' cov by blast
  moreover have "small self ?t'"
  proof -
    have sub: "{l. owner ?t' l = Some self} \<subseteq> {l. owner ?t l = Some self}" unfolding own' by blast
    from inner(4) have "finite {l. owner ?t l = Some self}" by (simp add: small_def del: table_of_simps)
    with sub have "finite {l. owner ?t' l = Some self}" "card {l. owner ?t' l = Some self} \<le> card {l. owner ?t l = Some self}"
      using finite_subset card_mono by blast+
    with inner(4) show ?thesis by (simp add: small_def del: table_of_simps)
  qed
  moreover have "\<forall>l. owner ?t' l = Some self \<longrightarrow> request ?t' l \<noteq> None"
    unfolding own' req using live by blast
  moreover have "blocked self ?t' {} l p" if "owner ?t' l = Some self" "pd ?t' l = Some p" for l p
  proof -
    from that have "l \<in> fst ` set qs" unfolding own' pd' using inner(1) by (simp add: good_def del: table_of_simps)
    then obtain p' where "(l, p') \<in> set qs" by auto
    with good_pending(1) [OF inner(1)] that(2) have "(l, p) \<in> set qs" unfolding pd' by auto
    with inner(6) have "blocked self ?t {u} l p" by blast
    then show ?thesis unfolding blocked_def own' cov by blast
  qed
  ultimately show ?thesis unfolding core_inv_def Let_def fst_conv snd_conv by blast
qed

subsection \<open>The unlock operations\<close>

text \<open>The queue of pending borrows before and after.\<close>

definition queue_step where
  "queue_step self u k x c0 s0 c s \<longleftrightarrow> (\<exists>qs qs' t'. good self c0 s0 qs \<and> good self c s qs' \<and>
     release_queue self u k x ((table_of s0)\<lparr>pd := (pd (table_of s0))(u := None)\<rparr>) (filter (\<lambda>x. fst x \<noteq> u) qs) t' qs' \<and>
     table_of s = t'\<lparr>owner := (owner (table_of s0))(u := None)\<rparr>)"

definition unlock_post where
  "unlock_post self u c0 s0 callback w ret res \<longleftrightarrow> (\<exists>c s log.
     res = Inr (ret, (c, s), fold callback (map (payload (table_of s0)) log) w) \<and> core_inv self (c, s) \<and>
     released u (table_of s0) (table_of s) log \<and> in_pending_order c0 s0 log \<and>
     (\<exists>k x. u_region k (table_of s0) u x \<and> queue_step self u k x c0 s0 c s))"

text \<open>From the inner function on a table without \<open>u\<close>'s pending borrow to the whole operation.\<close>

lemma unlock_finish:
  assumes inv: "core_inv self (c0, s0)" and own: "owner (table_of s0) u = Some self"
    and g: "good self c s qs" and t1: "table_of s = (table_of s0)\<lparr>pd := (pd (table_of s0))(u := None)\<rparr>"
    and ord: "\<forall>log. subseq log (map fst (rev qs)) \<longrightarrow> in_pending_order c0 s0 log"
    and qs: "\<exists>qs0. good self c0 s0 qs0 \<and> qs = filter (\<lambda>x. fst x \<noteq> u) qs0" and ur: "u_region k (table_of s0) u x"
    and inner: "inner_post self u k x qs (table_of s) callback w res"
  shows "unlock_post self u c0 s0 callback w ret
    (abort_on_unwind (res \<bind> (\<lambda>((c, s), w). Some (ret, (c, set_parent_cell s u None), w))))"
proof -
  let ?t0 = "table_of s0" and ?t1 = "table_of s"
  from inner obtain c2 s2 qs2 log where 1:
    "res = Some ((c2, s2), fold callback (map (payload ?t1) log) w)" "good self c2 s2 qs2"
    "table_ok (table_of s2)" "excl self (table_of s2)" "small self (table_of s2)" "u_region k (table_of s2) u None"
    "\<forall>(l, p)\<in>set qs2. blocked self (table_of s2) {u} l p"
    "served u ?t1 (table_of s2) log" "subseq log (map fst (rev qs))" "release_queue self u k x ?t1 qs (table_of s2) qs2"
    unfolding inner_post_def by blast
  let ?s3 = "set_parent_cell s2 u None"
  let ?t2 = "table_of s2" and ?t3 = "table_of ?s3"
  have f1: "owner ?t1 = owner ?t0" "rd ?t1 = rd ?t0" "wr ?t1 = wr ?t0" "pd ?t1 u = None"
    "l \<noteq> u \<Longrightarrow> pd ?t1 l = pd ?t0 l" for l
    by (simp_all add: t1 del: table_of_simps)
  have f2: "owner ?t2 = owner ?t0" "pd ?t2 u = None" using 1(8) f1 unfolding served_def by simp_all
  have f3: "owner ?t3 = (owner ?t0)(u := None)" "rd ?t3 = rd ?t2" "wr ?t3 = wr ?t2" "pd ?t3 = pd ?t2"
    by (simp_all add: table_unclaim f2(1) del: table_of_simps)
  have none: "rd ?t2 u = None" "wr ?t2 u = None" using 1(6) by (auto simp: u_region_def split: if_splits)
  have req1: "request ?t1 l = request ?t0 l" if "l \<noteq> u" for l
    using that f1 by (intro request_cong) simp_all
  have req3: "request ?t3 l = request ?t2 l" for l by (rule request_cong) (simp_all only: f3)
  have cov1: "w_covers ?t1 l i = w_covers ?t0 l i" "r_covers ?t1 l i = r_covers ?t0 l i" for l i
    by (simp_all only: w_covers_def r_covers_def f1)
  have cov3: "w_covers ?t3 l i = w_covers ?t2 l i" "r_covers ?t3 l i = r_covers ?t2 l i" for l i
    by (simp_all only: w_covers_def r_covers_def f3)
  have sv: "request ?t2 l = request ?t1 l" "w_covers ?t1 l i \<Longrightarrow> w_covers ?t2 l i" "r_covers ?t1 l i \<Longrightarrow> r_covers ?t2 l i"
    if "l \<noteq> u" for l i using 1(8) that unfolding served_def by simp_all
  have log: "set log = {l. pd ?t1 l \<noteq> None \<and> pd ?t2 l = None}" "distinct log"
    using 1(8) unfolding served_def by simp_all
  have ul: "u \<notin> set log" using log(1) f1(4) by simp
  have "core_inv self (c2, ?s3)"
  proof (rule unclaim_inv [OF 1(2-7)])
    fix l assume l: "owner ?t2 l = Some self" "l \<noteq> u"
    with core_invD(4) [OF inv, of l] f2(1) show "request ?t2 l \<noteq> None" by (simp add: sv req1 del: table_of_simps)
  qed (use f2 own in simp_all)
  moreover have "released u ?t0 ?t3 log"
    unfolding released_def
  proof (intro conjI allI impI)
    show "request ?t3 u = None" unfolding req3 using none f2(2) by (simp add: request_def region_def del: table_of_simps)
  next
    fix l p' assume p': "pd ?t3 l = Some p'"
    then have "l \<noteq> u" using f2(2) f3(4) by (auto simp del: table_of_simps)
    from p' f3(4) 1(8) obtain p i where "pd ?t1 l = Some p" "p' = moved p i" "p_start p \<le> i"
      unfolding served_def by metis
    with f1(5) [OF \<open>l \<noteq> u\<close>] show "\<exists>p i. pd ?t0 l = Some p \<and> p' = moved p i \<and> p_start p \<le> i" by auto
  next
    fix l assume l: "owner ?t0 l \<noteq> owner ?t0 u"
    then have "l \<noteq> u" by auto
    from l 1(8) have "rd ?t2 l = rd ?t1 l \<and> wr ?t2 l = wr ?t1 l \<and> pd ?t2 l = pd ?t1 l"
      unfolding served_def f1 by blast
    then show "rd ?t3 l = rd ?t0 l" "wr ?t3 l = wr ?t0 l" "pd ?t3 l = pd ?t0 l"
      unfolding f3 using f1 \<open>l \<noteq> u\<close> by simp_all
  next
    show "set log = {l. l \<noteq> u \<and> pd ?t0 l \<noteq> None \<and> pd ?t3 l = None}"
      unfolding log(1) f3(4) using f1(4,5) by (metis (mono_tags, lifting))
  next
    have "sorted_wrt (\<lambda>l l'. pending_le (the (pd ?t1 l')) (the (pd ?t1 l))) log"
      by (rule log_sorted [OF g 1(9)])
    then show "sorted_wrt (\<lambda>l l'. pending_le (the (pd ?t0 l')) (the (pd ?t0 l))) log"
      by (rule sorted_wrt_mono_rel [rotated]) (use f1(5) ul in metis)
  qed (use f3(1) log(2) sv req1 req3 cov1 cov3 in simp_all)
  moreover have pay: "map (payload ?t1) log = map (payload ?t0) log"
    unfolding payload_def using f1(5) ul by (metis (mono_tags, lifting) map_eq_conv)
  moreover have "res = Some ((c2, s2), fold callback (map (payload ?t0) log) w)" using 1(1) unfolding pay .
  moreover have "queue_step self u k x c0 s0 c2 ?s3"
  proof -
    from qs obtain qs0 where "good self c0 s0 qs0" "qs = filter (\<lambda>x. fst x \<noteq> u) qs0" by blast
    moreover have "good self c2 ?s3 qs2" using good_unclaim [OF 1(2) none f2(2)] .
    moreover have "?t3 = ?t2\<lparr>owner := (owner ?t0)(u := None)\<rparr>" using table_unclaim [of s2 u None] f2(1) by simp
    moreover note 1(10) [unfolded t1]
    ultimately show ?thesis unfolding queue_step_def by blast
  qed
  ultimately show ?thesis unfolding unlock_post_def
    using ord ur 1(9) by (intro exI [of _ c2] exI [of _ ?s3] exI [of _ log]) auto
qed

lemma inner_pre:
  assumes inv: "core_inv self (c, s)" and own: "owner (table_of s) u = Some self"
  shows "\<exists>c1 s1 qs. cancel_borrow dbg u (c, s) = Some (pd (table_of s) u, c1, s1) \<and> good self c1 s1 qs \<and>
    table_of s1 = (table_of s)\<lparr>pd := (pd (table_of s))(u := None)\<rparr> \<and>
    table_ok (table_of s1) \<and> excl self (table_of s1) \<and> small self (table_of s1) \<and>
    owner (table_of s1) u = Some self \<and> pd (table_of s1) u = None \<and>
    (\<forall>(l, p)\<in>set qs. blocked self (table_of s1) {} l p) \<and>
    (\<exists>qs0. good self c s qs0 \<and> qs = filter (\<lambda>x. fst x \<noteq> u) qs0) \<and>
    (\<forall>log. subseq log (map fst (rev qs)) \<longrightarrow> in_pending_order c s log)"
proof -
  from cancel_borrow_ok [OF inv own, of dbg] obtain c1 s1 qs where
    1: "cancel_borrow dbg u (c, s) = Some (pd (table_of s) u, c1, s1)" "good self c1 s1 qs"
    "table_of s1 = (table_of s)\<lparr>pd := (pd (table_of s))(u := None)\<rparr>"
    "\<forall>(l, p)\<in>set qs. blocked self (table_of s1) {} l p"
    "\<exists>qs0. good self c s qs0 \<and> qs = filter (\<lambda>x. fst x \<noteq> u) qs0"
    "\<forall>log. subseq log (map fst (rev qs)) \<longrightarrow> in_pending_order c s log" by blast
  with drop_pd_ok [OF core_invD(1-3) [OF inv] 1(3)] own show ?thesis
    by (intro exI [of _ c1] exI [of _ s1] exI [of _ qs]) (simp add: 1(3) del: table_of_simps)
qed

lemma unlock_write_ok:
  assumes inv: "core_inv self (c, s)" and own: "owner (table_of s) u = Some self" and k: "rd (table_of s) u = None"
  shows "unlock_post self u c s callback w (map_option p_in_progress (pd (table_of s) u))
    (unlock_write dbg self u callback ((c, s), w))"
proof -
  from inner_pre [OF inv own, of dbg] obtain c1 s1 qs where
    1: "cancel_borrow dbg u (c, s) = Some (pd (table_of s) u, c1, s1)" "good self c1 s1 qs"
    "table_of s1 = (table_of s)\<lparr>pd := (pd (table_of s))(u := None)\<rparr>"
    "table_ok (table_of s1)" "excl self (table_of s1)" "small self (table_of s1)"
    "owner (table_of s1) u = Some self" "pd (table_of s1) u = None"
    "\<forall>(l, p)\<in>set qs. blocked self (table_of s1) {} l p"
    "\<exists>qs0. good self c s qs0 \<and> qs = filter (\<lambda>x. fst x \<noteq> u) qs0"
    "\<forall>log. subseq log (map fst (rev qs)) \<longrightarrow> in_pending_order c s log" by blast
  have ur: "u_region True (table_of s1) u (wr (table_of s) u)" using k by (simp add: u_region_def 1(3) del: table_of_simps)
  have ur0: "u_region True (table_of s) u (wr (table_of s) u)" using k by (simp add: u_region_def del: table_of_simps)
  from unlock_finish [OF inv own 1(2,3,11,10) ur0 unlock_write_inner_ok [OF 1(2,4-8) ur 1(9)]] own 1(1)
  show ?thesis by (simp add: unlock_write_def cong: if_cong)
qed

lemma unlock_read_ok:
  assumes inv: "core_inv self (c, s)" and own: "owner (table_of s) u = Some self" and k: "wr (table_of s) u = None"
  shows "unlock_post self u c s callback w (map_option p_in_progress (pd (table_of s) u))
    (unlock_read dbg self u callback ((c, s), w))"
proof -
  from inner_pre [OF inv own, of dbg] obtain c1 s1 qs where
    1: "cancel_borrow dbg u (c, s) = Some (pd (table_of s) u, c1, s1)" "good self c1 s1 qs"
    "table_of s1 = (table_of s)\<lparr>pd := (pd (table_of s))(u := None)\<rparr>"
    "table_ok (table_of s1)" "excl self (table_of s1)" "small self (table_of s1)"
    "owner (table_of s1) u = Some self" "pd (table_of s1) u = None"
    "\<forall>(l, p)\<in>set qs. blocked self (table_of s1) {} l p"
    "\<exists>qs0. good self c s qs0 \<and> qs = filter (\<lambda>x. fst x \<noteq> u) qs0"
    "\<forall>log. subseq log (map fst (rev qs)) \<longrightarrow> in_pending_order c s log" by blast
  have ur: "u_region False (table_of s1) u (rd (table_of s) u)" using k by (simp add: u_region_def 1(3) del: table_of_simps)
  have ur0: "u_region False (table_of s) u (rd (table_of s) u)" using k by (simp add: u_region_def del: table_of_simps)
  from unlock_finish [OF inv own 1(2,3,11,10) ur0 unlock_read_inner_ok [OF 1(2,4-8) ur 1(9)]] own 1(1)
  show ?thesis by (simp add: unlock_read_def cong: if_cong)
qed

text \<open>Without a pending borrow the blocking operations do what the non-blocking ones do.\<close>

lemma unlock_try_write_eq:
  "pd (table_of s) u = None \<Longrightarrow>
   unlock_write dbg self u callback ((c, s), w) = map_sum id (Pair None) (unlock_try_write dbg self u callback ((c, s), w))"
  by (cases "unlock_write_inner dbg self callback u (c, s) w")
    (auto simp: unlock_write_def unlock_try_write_def cancel_borrow_def abort_on_unwind_def)

lemma unlock_try_read_eq:
  "pd (table_of s) u = None \<Longrightarrow>
   unlock_read dbg self u callback ((c, s), w) = map_sum id (Pair None) (unlock_try_read dbg self u callback ((c, s), w))"
  by (cases "unlock_read_inner dbg self callback u (c, s) w")
    (auto simp: unlock_read_def unlock_try_read_def cancel_borrow_def abort_on_unwind_def)

end
