(* ===== verification/Core_Acquire.thy ===== *)
theory Core_Acquire
  imports Core_Release
begin

text \<open>
  The lock operations under the core's invariant.  Locking is claiming the lock state with a
  pending borrow of the whole range that is resumed at once.
\<close>

section \<open>A lock as a pending borrow that is resumed at once\<close>

definition claim ::
  "'c \<Rightarrow> ('c, 'l, 'i, 'pr, 'ip) table \<Rightarrow> 'l \<Rightarrow> ('l, 'i, 'pr, 'ip) pending \<Rightarrow> ('c, 'l, 'i, 'pr, 'ip) table" where
  "claim self t l p = t\<lparr>owner := (owner t)(l \<mapsto> self), pd := (pd t)(l \<mapsto> p)\<rparr>"

text \<open>There is room for one more lock in the count of read borrows.\<close>

definition room :: "'c \<Rightarrow> ('c, 'l, 'i, 'pr, 'ip) table \<Rightarrow> bool" where
  "room self t \<longleftrightarrow> card {l. owner t l = Some self} < 2 ^ 63 - 1"

lemma claim_inv:
  assumes inv: "core_inv self (c, s)" and free: "owner (table_of s) l = None" and room: "room self (table_of s)"
    and p: "p_parent p = Read l \<or> p_parent p = Write l" "p_start p < rng_end (p_range p)"
  defines "t0 \<equiv> claim self (table_of s) l p"
  shows "table_ok t0" "excl self t0" "small self t0"
    "conflict_at self t0 ptr i \<longleftrightarrow> conflict_at self (table_of s) ptr i"
    "blocked self (table_of s) X l' q \<Longrightarrow> blocked self t0 X l' q"
    "owner t0 l' = Some self \<longleftrightarrow> owner (table_of s) l' = Some self \<or> l' = l"
    "request t0 l = Some (is_writer (p_parent p), p_start p, rng_end (p_range p))"
    "l' \<noteq> l \<Longrightarrow> request t0 l' = request (table_of s) l'"
    "rd t0 l = None" "wr t0 l = None"
proof -
  let ?t = "table_of s"
  note I = core_invD [OF inv]
  from I(1) have lok: "lock_ok ?t l'" for l' by (simp add: table_ok_def)
  with free have none: "rd ?t l = None" "wr ?t l = None" "pd ?t l = None"
    by (auto simp: lock_ok_def simp del: table_of_simps)
  then show n0: "rd t0 l = None" "wr t0 l = None" by (simp_all add: t0_def claim_def del: table_of_simps)
  have cov: "w_covers t0 l' i = w_covers ?t l' i" "r_covers t0 l' i = r_covers ?t l' i"
    and self_cov: "\<not> w_covers ?t l i" "\<not> r_covers ?t l i" for l' i
    using none by (simp_all add: w_covers_def r_covers_def t0_def claim_def del: table_of_simps)
  show own: "owner t0 l' = Some self \<longleftrightarrow> owner ?t l' = Some self \<or> l' = l" for l'
    by (simp add: t0_def claim_def del: table_of_simps)
  show "table_ok t0"
    unfolding table_ok_def
  proof (intro conjI allI)
    show "regions_ok t0" using I(1) by (simp add: table_ok_def regions_ok_def t0_def claim_def del: table_of_simps)
    show "lock_ok t0 l'" for l'
      using lok [of l'] none p by (cases "l' = l") (auto simp: lock_ok_def t0_def claim_def simp del: table_of_simps)
  qed
  show "excl self t0"
    using I(2) self_cov unfolding excl_def own cov by blast
  show "small self t0"
  proof -
    from I(3) have fin: "finite {l. owner ?t l = Some self}" by (simp add: small_def del: table_of_simps)
    have "{l. owner t0 l = Some self} = insert l {l. owner ?t l = Some self}" using own by auto
    with fin room show ?thesis by (simp add: small_def room_def card_insert_if del: table_of_simps)
  qed
  show "conflict_at self t0 ptr i \<longleftrightarrow> conflict_at self ?t ptr i"
    using self_cov unfolding conflict_at_def w_at_def r_at_def own cov by blast
  show "blocked self t0 X l' q" if "blocked self ?t X l' q"
    using that unfolding blocked_def own cov by blast
  show "request t0 l = Some (is_writer (p_parent p), p_start p, rng_end (p_range p))"
  proof -
    have "region t0 l = None" "pd t0 l = Some p"
      using n0 by (simp_all add: region_def) (simp add: t0_def claim_def)
    then show ?thesis by (simp add: request_def)
  qed
  show "l' \<noteq> l \<Longrightarrow> request t0 l' = request ?t l'"
    by (rule request_cong) (simp_all add: t0_def claim_def del: table_of_simps)
qed

lemma lock_inv:
  assumes inv: "core_inv self (c, s)" and free: "owner (table_of s) l = None" and room: "room self (table_of s)"
    and p: "p_parent p = Read l \<or> p_parent p = Write l" "p_start p < rng_end (p_range p)"
    and first: "first_in (conflict_at self (table_of s) (p_parent p)) (p_start p) (rng_end (p_range p)) r"
    and g: "good self c' s' qs" and t': "table_of s' = resume_table (claim self (table_of s) l p) l p r"
  shows "core_inv self (c', s')"
proof -
  let ?t = "table_of s" and ?t' = "table_of s'"
  define t0 where "t0 = claim self ?t l p"
  note C = claim_inv [OF inv free room p, folded t0_def]
  have pd0: "pd t0 l = Some p" by (simp add: t0_def claim_def)
  have own0: "owner t0 l = Some self" by (simp add: t0_def claim_def)
  have "conflict_at self t0 (p_parent p) = conflict_at self ?t (p_parent p)" using C(4) by blast
  with first have first0: "first_in (conflict_at self t0 (p_parent p)) (p_start p) (rng_end (p_range p)) r" by simp
  have t'0: "?t' = resume_table t0 l p r" using t' by (simp only: t0_def)
  note R = resume_inv [OF C(1,2) pd0 own0 first0, folded t'0]
  have own': "owner ?t' = owner t0" and gr: "request ?t' l = request t0 l"
    "\<And>l'. l' \<noteq> l \<Longrightarrow> rd ?t' l' = rd t0 l' \<and> wr ?t' l' = wr t0 l' \<and> pd ?t' l' = pd t0 l'"
    using R(3) by (simp_all add: grows_def del: table_of_simps)
  have small': "small self ?t'" using C(3) small_owner [OF own'] by blast
  have live: "request ?t' l' \<noteq> None" if "owner ?t' l' = Some self" for l'
  proof (cases "l' = l")
    case True
    then show ?thesis using gr(1) C(7) by simp
  next
    case False
    with that own' C(6) have "owner ?t l' = Some self" by simp
    then have "request ?t l' \<noteq> None" by (rule core_invD(4) [OF inv])
    moreover have "request ?t' l' = request t0 l'" using gr(2) [OF False] by (intro request_cong) simp_all
    ultimately show ?thesis using C(8) [OF False] by simp
  qed
  have bl: "blocked self ?t' {} l' q" if l': "owner ?t' l' = Some self" "pd ?t' l' = Some q" for l' q
  proof (cases "l' = l")
    case True
    have "pd ?t' l = map_option (moved p) r"
      unfolding t'0 using pd0
      by (auto simp: resume_table_def extend_def split: lock_state_ptr.splits)
    with l' True obtain i where r: "r = Some i" "q = moved p i" by (cases r) (auto simp del: table_of_simps)
    show ?thesis unfolding True r(2)
      by (rule resume_blocked [OF C(1) pd0 first0 [unfolded r(1)] R(3)]) simp
  next
    case False
    with l' gr(2) have "pd t0 l' = Some q" by simp
    with False have "pd ?t l' = Some q" by (simp add: t0_def claim_def del: table_of_simps)
    moreover have "owner ?t l' = Some self" using False l'(1) own' C(6) by simp
    ultimately have "blocked self ?t {} l' q" by (intro core_invD(5) [OF inv])
    then show ?thesis using C(5) grows_blocked [OF R(3)] by blast
  qed
  show ?thesis unfolding core_inv_def Let_def fst_conv snd_conv using g R(1,2) small' live bl by blast
qed

section \<open>The lock operations\<close>

lemma set_parent_good:
  assumes inv: "core_inv self (c, s)" and free: "owner (table_of s) l = None"
  shows "\<exists>qs. good self c s qs \<and> good self c (set_parent_cell s l (Some self)) qs"
    and "rd (table_of s) l = None" "wr (table_of s) l = None" "pd (table_of s) l = None"
proof -
  from core_invD(1) [OF inv] have "lock_ok (table_of s) l" by (simp add: table_ok_def)
  with free show none: "rd (table_of s) l = None" "wr (table_of s) l = None" "pd (table_of s) l = None"
    by (auto simp: lock_ok_def simp del: table_of_simps)
  from inv obtain qs where "good self c s qs" by (rule core_inv_good)
  with good_unclaim [OF this none]
  show "\<exists>qs. good self c s qs \<and> good self c (set_parent_cell s l (Some self)) qs" by blast
qed

text \<open>The indivisible part of a lock operation.\<close>

definition lock_body ::
  "bool \<Rightarrow> 'l lock_state_ptr \<Rightarrow> 'l \<Rightarrow> 'i range option \<Rightarrow> ('l, 'i, 'pr, 'ip) pending option \<Rightarrow>
   ('c, 'l, 'i::linorder, 'pr::linorder, 'ip) world \<Rightarrow> ('c, 'l, 'i, 'pr, 'ip) world option" where
  "lock_body dbg ptr l br pend cs = do {
     cs \<leftarrow> (case br of
         Some r \<Rightarrow> (case ptr of Read _ \<Rightarrow> borrow_read dbg l r cs | Write _ \<Rightarrow> borrow_write dbg l r cs)
       | None \<Rightarrow> Some cs);
     remember_pending dbg l pend cs
   }"

lemma lock_body_ok:
  assumes inv: "core_inv self (c, s)" and free: "owner (table_of s) l = None"
    and p: "p_parent p = Read l \<or> p_parent p = Write l"
    and br: "br = (if r = Some (p_start p) then None
       else Some (Range (p_start p) (case r of None \<Rightarrow> rng_end (p_range p) | Some i \<Rightarrow> i)))"
  shows "\<exists>c' s' qs. lock_body dbg (p_parent p) l br (map_option (moved p) r) (c, set_parent_cell s l (Some self)) =
      Some (c', s') \<and> good self c s qs \<and> good self c' s' (requeue l p r qs) \<and>
      table_of s' = resume_table (claim self (table_of s) l p) l p r"
proof -
  let ?t = "table_of s"
  note none = set_parent_good(2-4) [OF inv free]
  from set_parent_good(1) [OF inv free] obtain qs where
    g0: "good self c s qs" and g: "good self c (set_parent_cell s l (Some self)) qs" by blast
  let ?s = "set_parent_cell s l (Some self)"
  have t1: "table_of ?s = ?t\<lparr>owner := (owner ?t)(l \<mapsto> self)\<rparr>" by (rule table_unclaim)
  have own: "owner (table_of ?s) l = Some self" by (simp add: t1 del: table_of_simps)
  define t2 where "t2 = (if r = Some (p_start p) then table_of ?s
    else extend (table_of ?s) (p_parent p) (p_start p) (case r of None \<Rightarrow> rng_end (p_range p) | Some i \<Rightarrow> i))"
  have "\<exists>c2 s2. (case br of
         Some r \<Rightarrow> (case p_parent p of Read _ \<Rightarrow> borrow_read dbg l r (c, ?s) | Write _ \<Rightarrow> borrow_write dbg l r (c, ?s))
       | None \<Rightarrow> Some (c, ?s)) = Some (c2, s2) \<and> good self c2 s2 qs \<and> table_of s2 = t2"
  proof (cases "r = Some (p_start p)")
    case True
    with g br show ?thesis by (simp add: t2_def)
  next
    case False
    let ?e = "case r of None \<Rightarrow> rng_end (p_range p) | Some i \<Rightarrow> i"
    have n1: "rd (table_of ?s) l = None" "wr (table_of ?s) l = None"
      using none by (simp_all add: t1 del: table_of_simps)
    from borrow_read_ok [OF g own n1(1), of dbg "p_start p" ?e] borrow_write_ok [OF g own n1(2), of dbg "p_start p" ?e]
    show ?thesis using False br p n1 by (auto simp: t2_def extend_def simp del: table_of_simps)
  qed
  then obtain c2 s2 where 2: "(case br of
         Some r \<Rightarrow> (case p_parent p of Read _ \<Rightarrow> borrow_read dbg l r (c, ?s) | Write _ \<Rightarrow> borrow_write dbg l r (c, ?s))
       | None \<Rightarrow> Some (c, ?s)) = Some (c2, s2)" "good self c2 s2 qs" "table_of s2 = t2" by blast
  have ext: "extend (claim self ?t l p\<lparr>pd := x\<rparr>) (p_parent p) a e =
      extend (table_of ?s) (p_parent p) a e\<lparr>pd := x\<rparr>" for x a e
    using p none by (auto simp: extend_def claim_def t1 simp del: table_of_simps)
  have final: "resume_table (claim self ?t l p) l p r = t2\<lparr>pd := (pd ?t)(l := map_option (moved p) r)\<rparr>"
  proof (cases "r = Some (p_start p)")
    case True
    then show ?thesis by (simp add: resume_table_def t2_def claim_def t1 del: table_of_simps)
  next
    case False
    then show ?thesis by (simp add: resume_table_def t2_def ext) (simp add: claim_def)
  qed
  have pd2: "pd t2 = pd ?t" "owner t2 l = Some self"
    using p by (auto simp: t2_def extend_def t1 simp del: table_of_simps)
  show ?thesis
  proof (cases r)
    case None
    have "resume_table (claim self ?t l p) l p r = t2"
    proof -
      have "(pd ?t)(l := None) = pd t2" unfolding pd2(1) using none(3) by (rule fun_upd_idem)
      then show ?thesis unfolding final by (simp add: None)
    qed
    with 2 None g0 show ?thesis
      by (intro exI [of _ c2] exI [of _ s2] exI [of _ qs]) (simp add: lock_body_def remember_pending_def)
  next
    case (Some i)
    have "owner (table_of s2) l = Some self" "pd (table_of s2) l = None"
      unfolding 2(3) using pd2 none(3) by (simp_all del: table_of_simps)
    from remember_pending_ok [OF 2(2) this, of dbg "moved p i"] obtain c3 s3 where
      "remember_pending dbg l (Some (moved p i)) (c2, s2) = Some (c3, s3)"
      "good self c3 s3 (list_insert (goes_right pending_node_callback (moved p i)) (l, moved p i) qs)"
      "table_of s3 = (table_of s2)\<lparr>pd := (pd (table_of s2))(l \<mapsto> moved p i)\<rparr>" by blast
    with 2 Some g0 show ?thesis unfolding final
      by (intro exI [of _ c3] exI [of _ s3] exI [of _ qs]) (simp add: lock_body_def requeue_def pd2(1) del: table_of_simps)
  qed
qed

text \<open>The pending borrow that stands for a whole request.\<close>

definition fresh ::
  "'l lock_state_ptr \<Rightarrow> 'i \<Rightarrow> 'i \<Rightarrow> 'pr \<Rightarrow> 'ip \<Rightarrow> ('l, 'i, 'pr, 'ip) pending" where
  "fresh ptr x y prio ip = \<lparr>p_range = Range x y, p_priority = prio, p_parent = ptr, p_in_progress = ip\<rparr>"

lemma fresh_simps [simp]:
  "p_range (fresh ptr x y prio ip) = Range x y" "p_parent (fresh ptr x y prio ip) = ptr"
  "p_priority (fresh ptr x y prio ip) = prio" "p_in_progress (fresh ptr x y prio ip) = ip"
  by (simp_all add: fresh_def)

lemma plan_lock_eq:
  "plan_lock ptr (Range x y) prio callback r =
     (case r of None \<Rightarrow> on_complete callback | Some _ \<Rightarrow> fst (on_in_progress callback),
      map_option (moved (fresh ptr x y prio (snd (on_in_progress callback)))) r,
      if r = Some x then None else Some (Range x (case r of None \<Rightarrow> y | Some i \<Rightarrow> i)))"
  by (cases r) (auto simp: plan_lock_def fresh_def)

definition lock_post where
  "lock_post self l t ptr x y prio callback res \<longleftrightarrow> (\<exists>c s r.
     res = Inr (case r of None \<Rightarrow> on_complete callback | Some _ \<Rightarrow> fst (on_in_progress callback), (c, s)) \<and>
     first_in (conflict_at self t ptr) x y r \<and> core_inv self (c, s) \<and>
     table_of s = (let p = fresh ptr x y prio (snd (on_in_progress callback)) in resume_table (claim self t l p) l p r))"

text \<open>The same, with the queue of pending borrows before and after.\<close>

definition lock_queue_post where
  "lock_queue_post self l c0 s0 ptr x y prio callback res \<longleftrightarrow> (\<exists>c s r qs.
     let p = fresh ptr x y prio (snd (on_in_progress callback)) in
     res = Inr (case r of None \<Rightarrow> on_complete callback | Some _ \<Rightarrow> fst (on_in_progress callback), (c, s)) \<and>
     first_in (conflict_at self (table_of s0) ptr) x y r \<and> core_inv self (c, s) \<and>
     table_of s = resume_table (claim self (table_of s0) l p) l p r \<and>
     good self c0 s0 qs \<and> good self c s (requeue l p r qs))"

lemma lock_post_queue: "lock_queue_post self l c0 s0 ptr x y prio callback res \<Longrightarrow> lock_post self l (table_of s0) ptr x y prio callback res"
  unfolding lock_queue_post_def lock_post_def Let_def by blast

lemma lock_finish:
  assumes inv: "core_inv self (c, s)" and free: "owner (table_of s) l = None" and room: "room self (table_of s)"
    and ptr: "ptr = Read l \<or> ptr = Write l" and xy: "x < y"
    and first: "first_in (conflict_at self (table_of s) ptr) x y r"
    and plan: "plan_lock ptr (Range x y) prio callback r = (out, pend, br)"
  shows "lock_queue_post self l c s ptr x y prio callback
    (abort_on_unwind (do { w \<leftarrow> lock_body dbg ptr l br pend (c, set_parent_cell s l (Some self)); Some (out, w) }))"
proof -
  let ?p = "fresh ptr x y prio (snd (on_in_progress callback))"
  from plan have pl: "out = (case r of None \<Rightarrow> on_complete callback | Some _ \<Rightarrow> fst (on_in_progress callback))"
    "pend = map_option (moved ?p) r"
    "br = (if r = Some (p_start ?p) then None
       else Some (Range (p_start ?p) (case r of None \<Rightarrow> rng_end (p_range ?p) | Some i \<Rightarrow> i)))"
    by (cases r; auto simp: plan_lock_eq)+
  from lock_body_ok [OF inv free, of ?p br r dbg] ptr pl(3) obtain c' s' qs where
    1: "lock_body dbg ptr l br pend (c, set_parent_cell s l (Some self)) = Some (c', s')" "good self c' s' (requeue l ?p r qs)"
    "table_of s' = resume_table (claim self (table_of s) l ?p) l ?p r" "good self c s qs"
    unfolding pl(2) by auto
  have "core_inv self (c', s')"
    by (rule lock_inv [OF inv free room _ _ _ 1(2,3)]) (use ptr xy first in simp_all)
  with 1 first show ?thesis unfolding lock_queue_post_def pl(1)
    by (intro exI [of _ c'] exI [of _ s'] exI [of _ r] exI [of _ qs]) (simp add: Let_def del: table_of_simps)
qed

lemma conflict_read [simp]: "conflict_at self t (Read l) = w_at self t"
  by (auto simp: conflict_at_def fun_eq_iff)

lemma conflict_write [simp]: "conflict_at self t (Write l) i \<longleftrightarrow> w_at self t i \<or> r_at self t i"
  by (auto simp: conflict_at_def)

lemma search_read_ok:
  assumes "core_inv self (c, s)" and "x < y"
  shows "\<exists>r. first_write_borrow_in_range c s (Range x y) = Some r \<and>
    first_in (conflict_at self (table_of s) (Read l)) x y r"
proof -
  from assms(1) obtain qs where "good self c s qs" by (rule core_inv_good)
  with first_write_ok [of self c s qs x y] core_invD(1-3) [OF assms(1)] assms(2) show ?thesis
    unfolding conflict_read table_ok_def by blast
qed

lemma search_write_ok:
  assumes "core_inv self (c, s)" and "x < y"
  shows "\<exists>r0 r1. first_write_borrow_in_range c s (Range x y) = Some r0 \<and> first_in (w_at self (table_of s)) x y r0 \<and>
    first_read_borrow_in_range dbg c s (Range x y) = Some r1 \<and> first_in (r_at self (table_of s)) x y r1 \<and>
    first_in (conflict_at self (table_of s) (Write l)) x y (first_conflict r0 r1)"
proof -
  from assms(1) obtain qs where g: "good self c s qs" by (rule core_inv_good)
  from core_invD(1) [OF assms(1)] have reg: "regions_ok (table_of s)" by (simp add: table_ok_def)
  from first_write_ok [OF g reg core_invD(2) [OF assms(1)] assms(2)]
    first_read_ok [OF g reg core_invD(3) [OF assms(1)] assms(2), of dbg] first_conflict_in
  show ?thesis unfolding conflict_write [abs_def] by blast
qed

lemma lock_read_queue_ok:
  assumes inv: "core_inv self (c, s)" and free: "owner (table_of s) l = None" and room: "room self (table_of s)"
    and xy: "x < y"
  shows "lock_queue_post self l c s (Read l) x y prio callback
    (lock_read dbg self (Range x y) prio l callback (c, s))"
proof -
  from search_read_ok [OF inv xy] obtain r where
    r: "first_write_borrow_in_range c s (Range x y) = Some r" "first_in (conflict_at self (table_of s) (Read l)) x y r"
    by blast
  obtain out pend br where plan: "plan_lock (Read l) (Range x y) prio callback r = (out, pend, br)"
    by (metis prod.exhaust)
  from lock_finish [OF inv free room _ xy r(2) plan, of dbg] free xy r(1) plan
  show ?thesis by (simp add: lock_read_def lock_body_def Let_def split_def cong: option.case_cong if_cong)
qed

lemmas lock_read_ok = lock_read_queue_ok [THEN lock_post_queue]

lemma lock_write_queue_ok:
  assumes inv: "core_inv self (c, s)" and free: "owner (table_of s) l = None" and room: "room self (table_of s)"
    and xy: "x < y"
  shows "lock_queue_post self l c s (Write l) x y prio callback
    (lock_write dbg self (Range x y) prio l callback (c, s))"
proof -
  from search_write_ok [OF inv xy, of dbg l] obtain r0 r1 where
    r: "first_write_borrow_in_range c s (Range x y) = Some r0" "first_read_borrow_in_range dbg c s (Range x y) = Some r1"
    "first_in (conflict_at self (table_of s) (Write l)) x y (first_conflict r0 r1)"
    by blast
  obtain out pend br where plan: "plan_lock (Write l) (Range x y) prio callback (first_conflict r0 r1) = (out, pend, br)"
    by (metis prod.exhaust)
  from lock_finish [OF inv free room _ xy r(3) plan, of dbg] free xy r(1,2) plan
  show ?thesis by (simp add: lock_write_def lock_body_def Let_def split_def cong: option.case_cong if_cong)
qed

lemmas lock_write_ok = lock_write_queue_ok [THEN lock_post_queue]

text \<open>The table after a successful non-blocking lock.\<close>

definition grant ::
  "'c \<Rightarrow> ('c, 'l, 'i, 'pr, 'ip) table \<Rightarrow> 'l lock_state_ptr \<Rightarrow> 'i \<Rightarrow> 'i \<Rightarrow> ('c, 'l, 'i, 'pr, 'ip) table" where
  "grant self t ptr x y = (case ptr of
     Read l \<Rightarrow> t\<lparr>owner := (owner t)(l \<mapsto> self), rd := (rd t)(l \<mapsto> (x, y))\<rparr>
   | Write l \<Rightarrow> t\<lparr>owner := (owner t)(l \<mapsto> self), wr := (wr t)(l \<mapsto> (x, y))\<rparr>)"

definition try_post where
  "try_post self t ptr x y c0 s0 res \<longleftrightarrow>
     (if \<exists>i. x \<le> i \<and> i < y \<and> conflict_at self t ptr i then res = Inr (False, c0, s0)
      else \<exists>c s. res = Inr (True, c, s) \<and> core_inv self (c, s) \<and> table_of s = grant self t ptr x y)"

definition try_queue_post where
  "try_queue_post self ptr x y c0 s0 res \<longleftrightarrow>
     (if \<exists>i. x \<le> i \<and> i < y \<and> conflict_at self (table_of s0) ptr i then res = Inr (False, c0, s0)
      else \<exists>c s qs. res = Inr (True, c, s) \<and> core_inv self (c, s) \<and> table_of s = grant self (table_of s0) ptr x y \<and>
        good self c0 s0 qs \<and> good self c s qs)"

lemma try_post_queue: "try_queue_post self ptr x y c0 s0 res \<Longrightarrow> try_post self (table_of s0) ptr x y c0 s0 res"
  unfolding try_queue_post_def try_post_def by (auto split: if_splits)

lemma try_finish:
  assumes inv: "core_inv self (c, s)" and free: "owner (table_of s) l = None" and room: "room self (table_of s)"
    and ptr: "ptr = Read l \<or> ptr = Write l" and xy: "x < y"
    and first: "first_in (conflict_at self (table_of s) ptr) x y None"
  shows "\<exists>c' s'. (case ptr of Read _ \<Rightarrow> borrow_read dbg l (Range x y) (c, set_parent_cell s l (Some self))
      | Write _ \<Rightarrow> borrow_write dbg l (Range x y) (c, set_parent_cell s l (Some self))) = Some (c', s') \<and>
    core_inv self (c', s') \<and> table_of s' = grant self (table_of s) ptr x y \<and>
    (\<exists>qs. good self c s qs \<and> good self c' s' qs)"
proof -
  let ?p = "fresh ptr x y undefined undefined"
  from lock_body_ok [OF inv free, of ?p "Some (Range x y)" None dbg] ptr obtain c' s' qs where
    1: "lock_body dbg ptr l (Some (Range x y)) None (c, set_parent_cell s l (Some self)) = Some (c', s')"
    "good self c' s' qs" "table_of s' = resume_table (claim self (table_of s) l ?p) l ?p None" "good self c s qs"
    by auto
  have "core_inv self (c', s')"
    by (rule lock_inv [OF inv free room _ _ _ 1(2,3)]) (use ptr xy first in simp_all)
  moreover have "table_of s' = grant self (table_of s) ptr x y"
    using ptr set_parent_good(2-4) [OF inv free]
    by (auto simp: 1(3) resume_table_def claim_def extend_def grant_def fun_upd_idem simp del: table_of_simps)
  moreover have "(case ptr of Read _ \<Rightarrow> borrow_read dbg l (Range x y) (c, set_parent_cell s l (Some self))
      | Write _ \<Rightarrow> borrow_write dbg l (Range x y) (c, set_parent_cell s l (Some self))) = Some (c', s')"
    using 1(1) by (auto simp: lock_body_def remember_pending_def bind_eq_Some_conv)
  ultimately show ?thesis using 1(2,4) by blast
qed

lemma first_in_free: "first_in C x y r \<Longrightarrow> r = None \<longleftrightarrow> \<not> (\<exists>i. x \<le> i \<and> i < y \<and> C i)"
  by (cases r) (auto simp: first_in_def)

lemma try_lock_read_queue_ok:
  assumes inv: "core_inv self (c, s)" and free: "owner (table_of s) l = None" and room: "room self (table_of s)"
    and xy: "x < y"
  shows "try_queue_post self (Read l) x y c s (try_lock_read dbg self (Range x y) l (c, s))"
proof -
  from search_read_ok [OF inv xy] obtain r where
    r: "first_write_borrow_in_range c s (Range x y) = Some r" "first_in (conflict_at self (table_of s) (Read l)) x y r"
    by blast
  show ?thesis
  proof (cases r)
    case None
    with try_finish [OF inv free room _ xy, of "Read l" dbg] r free xy first_in_free [OF r(2)]
    show ?thesis by (auto simp: try_queue_post_def try_lock_read_def)
  next
    case (Some i)
    with r xy first_in_free [OF r(2)] show ?thesis by (simp add: try_queue_post_def try_lock_read_def)
  qed
qed

lemmas try_lock_read_ok = try_lock_read_queue_ok [THEN try_post_queue]

lemma try_lock_write_queue_ok:
  assumes inv: "core_inv self (c, s)" and free: "owner (table_of s) l = None" and room: "room self (table_of s)"
    and xy: "x < y"
  shows "try_queue_post self (Write l) x y c s (try_lock_write dbg self (Range x y) l (c, s))"
proof -
  from search_write_ok [OF inv xy, of dbg l] obtain r0 r1 where
    r: "first_write_borrow_in_range c s (Range x y) = Some r0" "first_read_borrow_in_range dbg c s (Range x y) = Some r1"
    "first_in (conflict_at self (table_of s) (Write l)) x y (first_conflict r0 r1)"
    by blast
  show ?thesis
  proof (cases "r0 = None \<and> r1 = None")
    case True
    then have fc: "first_conflict r0 r1 = None" by (simp add: first_conflict_def)
    from try_finish [OF inv free room _ xy, of "Write l" dbg] True r free xy first_in_free [OF r(3)] fc
    show ?thesis by (auto simp: try_queue_post_def try_lock_write_def)
  next
    case False
    then have "first_conflict r0 r1 \<noteq> None" by (auto simp: first_conflict_def split: option.splits)
    with False r xy first_in_free [OF r(3)] show ?thesis by (auto simp: try_queue_post_def try_lock_write_def)
  qed
qed

lemmas try_lock_write_ok = try_lock_write_queue_ok [THEN try_post_queue]

end
