(* ===== verification/Core_Client.thy ===== *)
theory Core_Client
  imports Core_Acquire
begin

text \<open>
  The core as its clients use it: the state a core starts in, its operations as calls and
  replies, the states reachable by calls that the types and contracts of
  \<open>IntervalRwLockCore\<close> allow, and the invariants of those states.
\<close>

section \<open>The initial state\<close>

lemma table_init: "table_of lock_states_default = \<lparr>owner = \<lambda>_. None, rd = \<lambda>_. None, wr = \<lambda>_. None, pd = \<lambda>_. None\<rparr>"
  by (auto simp: table_of_def lock_states_default_def read_pair_def write_range_def view_def)

lemma good_init: "good self core_new lock_states_default []"
proof -
  have "linked read_node_callback read_le {} (read_cell lock_states_default) (reads core_new)"
    "linked write_node_callback write_le {} (write_cell lock_states_default) (writes core_new)"
    by (simp_all add: linked_empty core_new_def)
  moreover have "olist pending_node_callback pending_le (pending_cell lock_states_default) (pendings core_new) []"
    by (simp add: olist_def core_new_def)
  moreover have "pairs_ok (view (read_cell lock_states_default))"
    by (simp add: pairs_ok_def view_def lock_states_default_def)
  ultimately show ?thesis by (simp add: good_def table_init del: table_of_simps)
qed

lemma core_inv_init: "core_inv self (core_new, lock_states_default)"
  unfolding core_inv_def Let_def fst_conv snd_conv
proof (intro conjI exI)
  show "good self core_new lock_states_default []" by (rule good_init)
qed (simp_all add: table_init table_ok_def regions_ok_def lock_ok_def excl_def small_def del: table_of_simps)

section \<open>Writing through an inspected lock\<close>

lemma set_in_progress_ok:
  assumes inv: "core_inv self (c, s)" and own: "owner (table_of s) l = Some self" and pd: "pd (table_of s) l = Some p"
  shows "\<exists>s'. set_in_progress l x (c, s) = Some (c, s') \<and> core_inv self (c, s') \<and>
    table_of s' = (table_of s)\<lparr>pd := (pd (table_of s))(l \<mapsto> p\<lparr>p_in_progress := x\<rparr>)\<rparr> \<and>
    (\<forall>k. request (table_of s') k = request (table_of s) k)"
proof -
  let ?t = "table_of s" and ?p = "p\<lparr>p_in_progress := x\<rparr>"
  note I = core_invD [OF inv]
  from inv obtain qs where g: "good self c s qs" by (rule core_inv_good)
  from pd obtain n where n: "pending_cell s l = Some n" "element n = p" by (auto simp: view_Some)
  let ?s = "s\<lparr>pending_cell := (pending_cell s)(l \<mapsto> n\<lparr>element := ?p\<rparr>)\<rparr>"
  have t': "table_of ?s = ?t\<lparr>pd := (pd ?t)(l \<mapsto> ?p)\<rparr>" by (simp add: table_of_pending)
  from own pd g have "l \<in> fst ` set qs" by (auto simp: good_def simp del: table_of_simps)
  moreover have o: "olist pending_node_callback pending_le (pending_cell s) (pendings c) qs"
    using g by (simp add: good_def)
  ultimately obtain as q bs where qs: "qs = as @ (l, q) # bs" and "view (pending_cell s) l = Some q"
    by (metis olist_at)
  with n have qs: "qs = as @ (l, p) # bs" by (simp add: view_def)
  have tr: "tree_rep pending_node_callback (pending_cell s) (pendings c) (as @ (l, p) # bs)"
    using o by (simp add: olist_def qs)
  have "tree_rep pending_node_callback (pending_cell ?s) (pendings c) (as @ (l, ?p) # bs)"
    using tree_rep_element [OF tr n(1), of ?p] by (simp add: pending_node_callback_def)
  moreover have "sorted_wrt (\<lambda>x y. pending_le (snd x) (snd y)) (as @ (l, ?p) # bs)"
    using o by (simp add: olist_def qs sorted_wrt_append pending_le_def)
  ultimately have "olist pending_node_callback pending_le (pending_cell ?s) (pendings c) (as @ (l, ?p) # bs)"
    by (simp add: olist_def)
  moreover have "fst ` set (as @ (l, ?p) # bs) = {k. owner (table_of ?s) k = Some self \<and> pd (table_of ?s) k \<noteq> None}"
    using g own unfolding t' by (auto simp: good_def qs simp del: table_of_simps)
  ultimately have g': "good self c ?s (as @ (l, ?p) # bs)"
    using g unfolding good_def by simp
  have same: "w_covers (table_of ?s) k i = w_covers ?t k i" "r_covers (table_of ?s) k i = r_covers ?t k i"
    "owner (table_of ?s) = owner ?t" for k i
    by (simp_all add: t' w_covers_def r_covers_def del: table_of_simps)
  have reg: "region (table_of ?s) k = region ?t k" for k
  proof -
    have "rd (table_of ?s) = rd ?t" "wr (table_of ?s) = wr ?t" by (simp_all add: t' del: table_of_simps)
    then show ?thesis by (simp only: region_def)
  qed
  have req: "request (table_of ?s) k = request ?t k" for k
    using pd unfolding request_def reg by (cases "k = l") (simp_all add: t' cong: option.case_cong del: table_of_simps)
  have pdE: "\<exists>q0. pd ?t k = Some q0 \<and> p_range q = p_range q0 \<and> p_parent q = p_parent q0"
    if "pd (table_of ?s) k = Some q" for k q
    using that pd by (cases "k = l") (auto simp: t' simp del: table_of_simps)
  have "lock_ok (table_of ?s) k" if "lock_ok ?t k" for k
    using that pd own by (cases "k = l") (auto simp: lock_ok_def t' simp del: table_of_simps)
  then have "table_ok (table_of ?s)"
    using I(1) by (simp add: table_ok_def regions_ok_def t' del: table_of_simps)
  moreover have "excl self (table_of ?s)" using I(2) by (simp add: excl_def same del: table_of_simps)
  moreover have "small self (table_of ?s)" using I(3) by (simp add: small_def same del: table_of_simps)
  moreover have "blocked self (table_of ?s) {} k q" if "owner ?t k = Some self" "pd (table_of ?s) k = Some q" for k q
  proof -
    from pdE [OF that(2)] obtain q0 where "pd ?t k = Some q0" "p_range q = p_range q0" "p_parent q = p_parent q0" by blast
    with I(5) [OF that(1)] show ?thesis by (simp add: blocked_def same del: table_of_simps)
  qed
  ultimately have "core_inv self (c, ?s)"
    using g' I(4) req same(3) unfolding core_inv_def Let_def by (auto simp del: table_of_simps)
  moreover have "set_in_progress l x (c, s) = Some (c, ?s)"
    using n by (simp add: set_in_progress_def heap_simps)
  ultimately show ?thesis using t' req by blast
qed

section \<open>Calls and replies\<close>

text \<open>
  The four types of lock states.  An address is that of a lock state of one type.
\<close>

datatype state_kind = ReadLockState | WriteLockState | TryReadLockState | TryWriteLockState

datatype ('l, 'i, 'pr, 'ip) call =
    LockRead "'i range" 'pr 'l 'ip
  | LockWrite "'i range" 'pr 'l 'ip
  | TryLockRead "'i range" 'l
  | TryLockWrite "'i range" 'l
  | UnlockRead 'l
  | UnlockWrite 'l
  | UnlockTryRead 'l
  | UnlockTryWrite 'l
  | SetInProgress 'l 'ip

text \<open>
  A lock replies whether it is complete, an unlock with the cancelled \<open>InProgress\<close>
  object and with the objects of the locks it completed, in the order of the callbacks.
\<close>

datatype 'ip reply = Locked bool | Unlocked "'ip option" "'ip list" | Updated

definition report :: "'ip \<Rightarrow> (bool, 'ip) lock_callback" where
  "report ip = \<lparr>on_in_progress = (False, ip), on_complete = True\<rparr>"

definition collect :: "('ip, 'ip list) unlock_callback" where
  "collect ip log = log @ [ip]"

lemma fold_collect: "fold collect ips log = log @ ips"
  by (induction ips arbitrary: log) (simp_all add: collect_def)

fun perform ::
  "bool \<Rightarrow> 'c \<Rightarrow> ('l, 'i, 'pr, 'ip) call \<Rightarrow> ('c, 'l, 'i::linorder, 'pr::linorder, 'ip) world \<Rightarrow>
   fault + 'ip reply \<times> ('c, 'l, 'i, 'pr, 'ip) world" where
  "perform dbg self (LockRead r prio l ip) cs =
     map_sum id (\<lambda>(b, cs). (Locked b, cs)) (lock_read dbg self r prio l (report ip) cs)"
| "perform dbg self (LockWrite r prio l ip) cs =
     map_sum id (\<lambda>(b, cs). (Locked b, cs)) (lock_write dbg self r prio l (report ip) cs)"
| "perform dbg self (TryLockRead r l) cs =
     map_sum id (\<lambda>(b, cs). (Locked b, cs)) (try_lock_read dbg self r l cs)"
| "perform dbg self (TryLockWrite r l) cs =
     map_sum id (\<lambda>(b, cs). (Locked b, cs)) (try_lock_write dbg self r l cs)"
| "perform dbg self (UnlockRead l) cs =
     map_sum id (\<lambda>(p, cs, log). (Unlocked p log, cs)) (unlock_read dbg self l collect (cs, []))"
| "perform dbg self (UnlockWrite l) cs =
     map_sum id (\<lambda>(p, cs, log). (Unlocked p log, cs)) (unlock_write dbg self l collect (cs, []))"
| "perform dbg self (UnlockTryRead l) cs =
     map_sum id (\<lambda>(cs, log). (Unlocked None log, cs)) (unlock_try_read dbg self l collect (cs, []))"
| "perform dbg self (UnlockTryWrite l) cs =
     map_sum id (\<lambda>(cs, log). (Unlocked None log, cs)) (unlock_try_write dbg self l collect (cs, []))"
| "perform dbg self (SetInProgress l ip) cs =
     map_sum id (\<lambda>cs. (Updated, cs)) (abort_on_unwind (set_in_progress l ip cs))"

section \<open>What a client may do\<close>

definition can_lock where
  "can_lock self t r l \<longleftrightarrow> rng_start r < rng_end r \<and> owner t l = None \<and> room self t"

fun admissible ::
  "'c \<Rightarrow> ('l \<Rightarrow> state_kind) \<Rightarrow> ('c, 'l, 'i::linorder, 'pr, 'ip) table \<Rightarrow> ('l, 'i, 'pr, 'ip) call \<Rightarrow> bool" where
  "admissible self kd t (LockRead r prio l ip) \<longleftrightarrow> kd l = ReadLockState \<and> can_lock self t r l"
| "admissible self kd t (LockWrite r prio l ip) \<longleftrightarrow> kd l = WriteLockState \<and> can_lock self t r l"
| "admissible self kd t (TryLockRead r l) \<longleftrightarrow> kd l = TryReadLockState \<and> can_lock self t r l"
| "admissible self kd t (TryLockWrite r l) \<longleftrightarrow> kd l = TryWriteLockState \<and> can_lock self t r l"
| "admissible self kd t (UnlockRead l) \<longleftrightarrow> kd l = ReadLockState \<and> owner t l = Some self"
| "admissible self kd t (UnlockWrite l) \<longleftrightarrow> kd l = WriteLockState \<and> owner t l = Some self"
| "admissible self kd t (UnlockTryRead l) \<longleftrightarrow> kd l = TryReadLockState \<and> owner t l = Some self"
| "admissible self kd t (UnlockTryWrite l) \<longleftrightarrow> kd l = TryWriteLockState \<and> owner t l = Some self"
| "admissible self kd t (SetInProgress l ip) \<longleftrightarrow> owner t l = Some self \<and> pd t l \<noteq> None"

text \<open>Lock states hold borrows of their own type only.\<close>

definition kind_writes :: "state_kind \<Rightarrow> bool" where
  "kind_writes k \<longleftrightarrow> k = WriteLockState \<or> k = TryWriteLockState"

definition kind_waits :: "state_kind \<Rightarrow> bool" where
  "kind_waits k \<longleftrightarrow> k = WriteLockState \<or> k = ReadLockState"

definition typed :: "('l \<Rightarrow> state_kind) \<Rightarrow> ('c, 'l, 'i, 'pr, 'ip) table \<Rightarrow> bool" where
  "typed kd t \<longleftrightarrow> (\<forall>l b x. request t l = Some (b, x) \<longrightarrow> b = kind_writes (kd l)) \<and>
     (\<forall>l. pd t l \<noteq> None \<longrightarrow> kind_waits (kd l))"

lemma typed_no_read:
  assumes "typed kd t" "lock_ok t l" "kind_writes (kd l)"
  shows "rd t l = None"
proof (rule ccontr)
  assume "rd t l \<noteq> None"
  then obtain ab where r: "rd t l = Some ab" by auto
  have "\<exists>x. request t l = Some (False, x)"
    using r assms(2) by (cases "pd t l") (auto simp: request_def region_def lock_ok_def)
  with assms(1,3) show False unfolding typed_def by blast
qed

lemma typed_no_write:
  assumes "typed kd t" "lock_ok t l" "\<not> kind_writes (kd l)"
  shows "wr t l = None"
proof (rule ccontr)
  assume "wr t l \<noteq> None"
  then obtain ab where r: "wr t l = Some ab" by auto
  have "\<exists>x. request t l = Some (True, x)"
    using r assms(2) by (cases "pd t l") (auto simp: request_def region_def lock_ok_def)
  with assms(1,3) show False unfolding typed_def by blast
qed

lemma typed_init: "typed kd (table_of lock_states_default)"
  by (simp add: table_init typed_def request_def region_def del: table_of_simps)

text \<open>A step from \<open>t\<close> to \<open>t'\<close> in which only the lock \<open>l\<close> may change its request.\<close>

lemma typed_step:
  assumes "typed kd t" and "\<And>l'. l' \<noteq> l \<Longrightarrow> request t' l' = request t l'"
    and "\<And>l'. pd t' l' \<noteq> None \<Longrightarrow> l' \<noteq> l \<Longrightarrow> pd t l' \<noteq> None"
    and "\<And>b x. request t' l = Some (b, x) \<Longrightarrow> b = kind_writes (kd l)"
    and "pd t' l \<noteq> None \<Longrightarrow> kind_waits (kd l)"
  shows "typed kd t'"
  using assms unfolding typed_def by metis

text \<open>The same for the operations.\<close>

lemma lock_post_step:
  assumes "lock_post self l t ptr x y prio callback res" and "ptr = Read l \<or> ptr = Write l"
    and inv: "core_inv self (c0, s0)" and t: "t = table_of s0" and "owner t l = None" "room self t" "x < y"
  shows "\<exists>out c s. res = Inr (out, c, s) \<and> core_inv self (c, s) \<and>
    request (table_of s) l = Some (is_writer ptr, x, y) \<and>
    (\<forall>l'. l' \<noteq> l \<longrightarrow> request (table_of s) l' = request t l' \<and> pd (table_of s) l' = pd t l')"
proof -
  let ?p = "fresh ptr x y prio (snd (on_in_progress callback))"
  let ?t0 = "claim self t l ?p"
  from assms(1) obtain out c s r where
    1: "res = Inr (out, c, s)" "first_in (conflict_at self t ptr) x y r" "core_inv self (c, s)"
    "table_of s = resume_table ?t0 l ?p r"
    unfolding lock_post_def Let_def by blast
  from assms(2,7) have p: "p_parent ?p = Read l \<or> p_parent ?p = Write l" "p_start ?p < rng_end (p_range ?p)" by simp_all
  note C = claim_inv [OF inv assms(5,6) [unfolded t] p, folded t]
  have pd0: "pd ?t0 l = Some ?p" "owner ?t0 l = Some self" by (simp_all add: claim_def)
  have "first_in (conflict_at self ?t0 (p_parent ?p)) (p_start ?p) (rng_end (p_range ?p)) r"
    using 1(2) unfolding fresh_simps range.sel C(4) [abs_def] .
  from resume_inv(3) [OF C(1,2) pd0 this] have g: "grows ?t0 (table_of s) l" unfolding 1(4) .
  have "request (table_of s) l = Some (is_writer ptr, x, y)" using g C(7) by (simp add: grows_def del: table_of_simps)
  moreover have "request (table_of s) l' = request t l' \<and> pd (table_of s) l' = pd t l'" if "l' \<noteq> l" for l'
  proof -
    have "rd (table_of s) l' = rd ?t0 l'" "wr (table_of s) l' = wr ?t0 l'" "pd (table_of s) l' = pd ?t0 l'"
      using g that by (simp_all add: grows_def del: table_of_simps)
    then have "request (table_of s) l' = request ?t0 l'" by (intro request_cong)
    with C(8) [OF that] \<open>pd (table_of s) l' = pd ?t0 l'\<close> that show ?thesis by (simp add: claim_def del: table_of_simps)
  qed
  ultimately show ?thesis using 1(1,3) by blast
qed


lemma try_post_step:
  assumes "try_post self t ptr x y c0 s0 res" and "ptr = Read l \<or> ptr = Write l"
    and inv: "core_inv self (c0, s0)" and t: "t = table_of s0" and free: "owner t l = None"
  shows "\<exists>out c s. res = Inr (out, c, s) \<and> core_inv self (c, s) \<and>
    (out \<longrightarrow> request (table_of s) l = Some (is_writer ptr, x, y) \<and> pd (table_of s) l = None) \<and>
    (\<not> out \<longrightarrow> table_of s = t) \<and>
    (\<forall>l'. l' \<noteq> l \<longrightarrow> request (table_of s) l' = request t l' \<and> pd (table_of s) l' = pd t l')"
proof (cases "\<exists>i. x \<le> i \<and> i < y \<and> conflict_at self t ptr i")
  case True
  then show ?thesis using assms(1) inv t unfolding try_post_def by auto
next
  case False
  with assms(1) obtain c s where 1: "res = Inr (True, c, s)" "core_inv self (c, s)" "table_of s = grant self t ptr x y"
    unfolding try_post_def by auto
  from core_invD(1) [OF inv] t have "lock_ok t l" by (simp add: table_ok_def)
  with free have none: "rd t l = None" "wr t l = None" "pd t l = None" by (auto simp: lock_ok_def)
  have other: "rd (table_of s) l' = rd t l' \<and> wr (table_of s) l' = wr t l' \<and> pd (table_of s) l' = pd t l'"
    if "l' \<noteq> l" for l'
    using assms(2) that by (auto simp: 1(3) grant_def simp del: table_of_simps)
  have "pd (table_of s) l = None"
    using assms(2) none unfolding 1(3) by (auto simp: grant_def simp del: table_of_simps)
  moreover have "region (table_of s) l = Some (is_writer ptr, x, y)"
    using assms(2) none unfolding 1(3) by (auto simp: grant_def region_def simp del: table_of_simps)
  ultimately have "request (table_of s) l = Some (is_writer ptr, x, y)" "pd (table_of s) l = None"
    by (simp_all add: request_def del: table_of_simps)
  with 1(1,2) other show ?thesis by (auto intro: request_cong simp del: table_of_simps)
qed

lemma unlock_post_step:
  assumes "unlock_post self u c0 s0 collect [] ret res"
  shows "\<exists>c s log. res = Inr (ret, (c, s), log) \<and> core_inv self (c, s) \<and>
    request (table_of s) u = None \<and> (\<forall>l. l \<noteq> u \<longrightarrow> request (table_of s) l = request (table_of s0) l) \<and>
    pd (table_of s) u = None \<and> (\<forall>l. pd (table_of s) l \<noteq> None \<longrightarrow> pd (table_of s0) l \<noteq> None)"
proof -
  from assms obtain c s log where 1: "res = Inr (ret, (c, s), map (payload (table_of s0)) log)" "core_inv self (c, s)"
    "released u (table_of s0) (table_of s) log"
    unfolding unlock_post_def by (auto simp: fold_collect)
  from 1(3) have "request (table_of s) u = None" by (simp add: released_def)
  moreover from this have "pd (table_of s) u = None"
    by (simp add: request_def split: option.splits del: table_of_simps)
  moreover have "\<forall>l. pd (table_of s) l \<noteq> None \<longrightarrow> pd (table_of s0) l \<noteq> None"
    using 1(3) unfolding released_def by (metis not_None_eq)
  ultimately show ?thesis using 1 by (simp add: released_def del: table_of_simps)
qed

section \<open>Every allowed call succeeds and keeps the invariants\<close>

definition client_inv where
  "client_inv self kd cs \<longleftrightarrow> core_inv self cs \<and> typed kd (table_of (snd cs))"

lemma client_lock:
  assumes inv: "client_inv self kd (c0, s0)" and post: "lock_post self l (table_of s0) ptr x y prio (report ip) res"
    and ptr: "ptr = Read l \<or> ptr = Write l" "is_writer ptr = kind_writes (kd l)" "kind_waits (kd l)"
    and can: "owner (table_of s0) l = None" "room self (table_of s0)" "x < y"
  shows "\<exists>out cs. res = Inr (out, cs) \<and> client_inv self kd cs"
proof -
  from inv have i: "core_inv self (c0, s0)" and ty: "typed kd (table_of s0)" by (simp_all add: client_inv_def)
  from lock_post_step [OF post ptr(1) i refl can] obtain out c s where
    1: "res = Inr (out, c, s)" "core_inv self (c, s)" "request (table_of s) l = Some (is_writer ptr, x, y)"
    "\<forall>l'. l' \<noteq> l \<longrightarrow> request (table_of s) l' = request (table_of s0) l' \<and> pd (table_of s) l' = pd (table_of s0) l'"
    by blast
  have "typed kd (table_of s)"
    by (rule typed_step [OF ty, of l]) (use 1 ptr in \<open>simp_all del: table_of_simps\<close>)
  with 1 show ?thesis by (simp add: client_inv_def)
qed

lemma client_try:
  assumes inv: "client_inv self kd (c0, s0)" and post: "try_post self (table_of s0) ptr x y c0 s0 res"
    and ptr: "ptr = Read l \<or> ptr = Write l" "is_writer ptr = kind_writes (kd l)"
    and can: "owner (table_of s0) l = None"
  shows "\<exists>out cs. res = Inr (out, cs) \<and> client_inv self kd cs"
proof -
  from inv have i: "core_inv self (c0, s0)" and ty: "typed kd (table_of s0)" by (simp_all add: client_inv_def)
  from try_post_step [OF post ptr(1) i refl can] obtain out c s where
    1: "res = Inr (out, c, s)" "core_inv self (c, s)"
    "out \<longrightarrow> request (table_of s) l = Some (is_writer ptr, x, y) \<and> pd (table_of s) l = None"
    "\<not> out \<longrightarrow> table_of s = table_of s0"
    "\<forall>l'. l' \<noteq> l \<longrightarrow> request (table_of s) l' = request (table_of s0) l' \<and> pd (table_of s) l' = pd (table_of s0) l'"
    by blast
  have "typed kd (table_of s)"
  proof (cases out)
    case True
    show ?thesis by (rule typed_step [OF ty, of l]) (use 1 True ptr in \<open>simp_all del: table_of_simps\<close>)
  next
    case False
    with 1(4) ty show ?thesis by simp
  qed
  with 1 show ?thesis by (simp add: client_inv_def)
qed

lemma client_unlock:
  assumes inv: "client_inv self kd (c0, s0)" and post: "unlock_post self u c0 s0 collect [] ret res"
  shows "\<exists>cs log. res = Inr (ret, cs, log) \<and> client_inv self kd cs"
proof -
  from inv have ty: "typed kd (table_of s0)" by (simp add: client_inv_def)
  from unlock_post_step [OF post] obtain c s log where
    1: "res = Inr (ret, (c, s), log)" "core_inv self (c, s)"
    "request (table_of s) u = None" "\<forall>l. l \<noteq> u \<longrightarrow> request (table_of s) l = request (table_of s0) l"
    "pd (table_of s) u = None" "\<forall>l. pd (table_of s) l \<noteq> None \<longrightarrow> pd (table_of s0) l \<noteq> None"
    by blast
  have "typed kd (table_of s)"
    by (rule typed_step [OF ty, of u]) (use 1 in \<open>simp_all del: table_of_simps\<close>)
  with 1 show ?thesis by (simp add: client_inv_def)
qed

lemma perform_ok:
  assumes inv: "client_inv self kd cs" and adm: "admissible self kd (table_of (snd cs)) call"
  shows "\<exists>r cs'. perform dbg self call cs = Inr (r, cs') \<and> client_inv self kd cs'"
proof -
  obtain c s where cs: "cs = (c, s)" by fastforce
  let ?t = "table_of s"
  from inv have i: "core_inv self (c, s)" and ty: "typed kd ?t" by (simp_all add: cs client_inv_def)
  note inv = inv [unfolded cs] and adm = adm [unfolded cs snd_conv]
  from core_invD(1) [OF i] have lok: "lock_ok ?t l" for l by (simp add: table_ok_def)
  note no_w = typed_no_write [OF ty lok] and no_r = typed_no_read [OF ty lok]
  have no_p: "pd ?t l = None" if "\<not> kind_waits (kd l)" for l using ty that unfolding typed_def by blast
  show ?thesis
  proof (cases call)
    case (LockRead r prio l ip)
    with adm obtain x y where a: "r = Range x y" "kd l = ReadLockState" "owner ?t l = None" "room self ?t" "x < y"
      by (cases r) (auto simp: can_lock_def simp del: table_of_simps)
    from client_lock [OF inv lock_read_ok [OF i a(3-5), where dbg = dbg and prio = prio and callback = "report ip"]] a LockRead cs
    show ?thesis by (auto simp: kind_writes_def kind_waits_def)
  next
    case (LockWrite r prio l ip)
    with adm obtain x y where a: "r = Range x y" "kd l = WriteLockState" "owner ?t l = None" "room self ?t" "x < y"
      by (cases r) (auto simp: can_lock_def simp del: table_of_simps)
    from client_lock [OF inv lock_write_ok [OF i a(3-5), where dbg = dbg and prio = prio and callback = "report ip"]] a LockWrite cs
    show ?thesis by (auto simp: kind_writes_def kind_waits_def)
  next
    case (TryLockRead r l)
    with adm obtain x y where a: "r = Range x y" "kd l = TryReadLockState" "owner ?t l = None" "room self ?t" "x < y"
      by (cases r) (auto simp: can_lock_def simp del: table_of_simps)
    from client_try [OF inv try_lock_read_ok [OF i a(3-5), where dbg = dbg]] a TryLockRead cs
    show ?thesis by (auto simp: kind_writes_def)
  next
    case (TryLockWrite r l)
    with adm obtain x y where a: "r = Range x y" "kd l = TryWriteLockState" "owner ?t l = None" "room self ?t" "x < y"
      by (cases r) (auto simp: can_lock_def simp del: table_of_simps)
    from client_try [OF inv try_lock_write_ok [OF i a(3-5), where dbg = dbg]] a TryLockWrite cs
    show ?thesis by (auto simp: kind_writes_def)
  next
    case (UnlockRead l)
    with adm no_w [of l] have "owner ?t l = Some self" "wr ?t l = None" by (simp_all add: kind_writes_def del: table_of_simps)
    from client_unlock [OF inv unlock_read_ok [OF i this, where dbg = dbg and callback = collect and w = "[]"]] UnlockRead cs
    show ?thesis by auto
  next
    case (UnlockWrite l)
    with adm no_r [of l] have "owner ?t l = Some self" "rd ?t l = None" by (simp_all add: kind_writes_def del: table_of_simps)
    from client_unlock [OF inv unlock_write_ok [OF i this, where dbg = dbg and callback = collect and w = "[]"]] UnlockWrite cs
    show ?thesis by auto
  next
    case (UnlockTryRead l)
    with adm no_w [of l] no_p [of l] have "owner ?t l = Some self" "wr ?t l = None" and p: "pd ?t l = None"
      by (simp_all add: kind_writes_def kind_waits_def del: table_of_simps)
    from client_unlock [OF inv unlock_read_ok [OF i this(1,2), where dbg = dbg and callback = collect and w = "[]"]] UnlockTryRead cs
    show ?thesis unfolding unlock_try_read_eq [OF p]
      by (cases "unlock_try_read dbg self l collect ((c, s), [])") auto
  next
    case (UnlockTryWrite l)
    with adm no_r [of l] no_p [of l] have "owner ?t l = Some self" "rd ?t l = None" and p: "pd ?t l = None"
      by (simp_all add: kind_writes_def kind_waits_def del: table_of_simps)
    from client_unlock [OF inv unlock_write_ok [OF i this(1,2), where dbg = dbg and callback = collect and w = "[]"]] UnlockTryWrite cs
    show ?thesis unfolding unlock_try_write_eq [OF p]
      by (cases "unlock_try_write dbg self l collect ((c, s), [])") auto
  next
    case (SetInProgress l ip)
    with adm obtain p where own: "owner ?t l = Some self" and p: "pd ?t l = Some p" by (auto simp del: table_of_simps)
    from set_in_progress_ok [OF i own p, of ip] obtain s' where
      1: "set_in_progress l ip (c, s) = Some (c, s')" "core_inv self (c, s')"
      "table_of s' = ?t\<lparr>pd := (pd ?t)(l \<mapsto> p\<lparr>p_in_progress := ip\<rparr>)\<rparr>"
      "\<forall>k. request (table_of s') k = request ?t k" by blast
    have "typed kd (table_of s')"
      using ty p unfolding typed_def 1(3) using 1(4) [unfolded 1(3)] by (simp del: table_of_simps)
    with 1 SetInProgress cs show ?thesis by (simp add: client_inv_def)
  qed
qed


section \<open>Reachable states\<close>

text \<open>A core and its lock states under any sequence of allowed calls.\<close>

inductive reachable ::
  "bool \<Rightarrow> 'c \<Rightarrow> ('l \<Rightarrow> state_kind) \<Rightarrow> ('c, 'l, 'i::linorder, 'pr::linorder, 'ip) world \<Rightarrow> bool"
  for dbg :: bool and self :: 'c and kd :: "'l \<Rightarrow> state_kind" where
  start: "reachable dbg self kd (core_new, lock_states_default)"
| step: "reachable dbg self kd cs \<Longrightarrow> admissible self kd (table_of (snd cs)) call \<Longrightarrow>
    perform dbg self call cs = Inr (r, cs') \<Longrightarrow> reachable dbg self kd cs'"

lemma reachable_client_inv: "reachable dbg self kd cs \<Longrightarrow> client_inv self kd cs"
proof (induction rule: reachable.induct)
  case start
  then show ?case by (simp add: client_inv_def core_inv_init typed_init)
next
  case (step cs call r cs')
  with perform_ok [OF step.IH step.hyps(2), of dbg] show ?case by auto
qed

lemma reachable_core_inv: "reachable dbg self kd (c, s) \<Longrightarrow> core_inv self (c, s)"
  by (drule reachable_client_inv) (simp add: client_inv_def)

text \<open>Running a list of calls, for examples.\<close>

fun run_calls where
  "run_calls dbg self [] cs = Some ([], cs)"
| "run_calls dbg self (call # calls) cs = (case perform dbg self call cs of
     Inl _ \<Rightarrow> None
   | Inr (r, cs') \<Rightarrow> map_option (\<lambda>(rs, cs''). (r # rs, cs'')) (run_calls dbg self calls cs'))"

section \<open>Waiting chains\<close>

text \<open>
  A lock that is still pending has borrowed nothing at or beyond the start of its pending
  borrow, so a lock that blocks another one and waits itself waits further to the right.
\<close>

lemma finite_max_by:
  fixes f :: "'a \<Rightarrow> 'b::linorder"
  assumes "finite W" and "W \<noteq> {}"
  obtains m where "m \<in> W" and "\<And>k. k \<in> W \<Longrightarrow> f k \<le> f m"
proof -
  have "Max (f ` W) \<in> f ` W" using assms by (intro Max_in) auto
  then obtain m where "m \<in> W" "f m = Max (f ` W)" by auto
  then show ?thesis using that [of m] assms by simp
qed

lemma pending_covers_before:
  assumes "lock_ok t l" and "pd t l = Some p" and "w_covers t l i \<or> r_covers t l i"
  shows "i < p_start p"
  using assms by (auto simp: lock_ok_def w_covers_def r_covers_def)

lemma some_lock_complete:
  assumes inv: "core_inv self (c, s)" and own: "owner (table_of s) l = Some self" and pd: "pd (table_of s) l = Some p"
  shows "\<exists>l'. owner (table_of s) l' = Some self \<and> pd (table_of s) l' = None \<and>
    (\<exists>i\<ge>p_start p. w_covers (table_of s) l' i \<or> r_covers (table_of s) l' i)"
proof -
  let ?t = "table_of s"
  note I = core_invD [OF inv]
  let ?W = "{k. owner ?t k = Some self \<and> pd ?t k \<noteq> None \<and> p_start p \<le> p_start (the (pd ?t k))}"
  have "finite ?W" using I(3) by (rule_tac finite_subset [rotated]) (auto simp: small_def simp del: table_of_simps)
  moreover have "l \<in> ?W" using own pd by (simp del: table_of_simps)
  moreover have "?W \<noteq> {}" using calculation(2) by blast
  ultimately obtain m where m: "m \<in> ?W" and max: "\<And>k. k \<in> ?W \<Longrightarrow> p_start (the (pd ?t k)) \<le> p_start (the (pd ?t m))"
    using finite_max_by [of ?W "\<lambda>k. p_start (the (pd ?t k))"] by blast
  from m obtain q where q: "owner ?t m = Some self" "pd ?t m = Some q" "p_start p \<le> p_start q"
    by (auto simp del: table_of_simps)
  from I(5) [OF q(1,2)] obtain l' where l': "owner ?t l' = Some self"
    "w_covers ?t l' (p_start q) \<or> r_covers ?t l' (p_start q)" by (auto simp: blocked_def simp del: table_of_simps)
  have "pd ?t l' = None"
  proof (rule ccontr)
    assume "pd ?t l' \<noteq> None"
    then obtain q' where q': "pd ?t l' = Some q'" by blast
    from I(1) have "lock_ok ?t l'" by (simp add: table_ok_def)
    from pending_covers_before [OF this q' l'(2)] have "p_start q < p_start q'" .
    moreover have "l' \<in> ?W" using l'(1) q' q(3) calculation by (simp del: table_of_simps)
    ultimately show False using max [of l'] q(2) q' by (simp del: table_of_simps)
  qed
  with l' q(3) show ?thesis by blast
qed

text \<open>The last lock that is left is complete.\<close>

lemma lone_lock_complete:
  assumes inv: "core_inv self (c, s)" and "\<And>l'. owner (table_of s) l' = Some self \<Longrightarrow> l' = l"
    and "owner (table_of s) l = Some self"
  shows "pd (table_of s) l = None"
  using core_invD(5) [OF inv assms(3)] assms(2) by (cases "pd (table_of s) l") (auto simp: blocked_def)

text \<open>The destructor of a core without locks does not fault.\<close>

lemma linked_None: "linked cb le D h rt \<Longrightarrow> rt = None \<longleftrightarrow> D = {}"
  by (auto simp: linked_def olist_def tree_rep_def zrep_def)

lemma olist_None: "olist cb le h rt xs \<Longrightarrow> rt = None \<longleftrightarrow> fst ` set xs = {}"
  by (auto simp: olist_def tree_rep_def zrep_def)

lemma no_request: "rd t l = None \<Longrightarrow> wr t l = None \<Longrightarrow> pd t l = None \<Longrightarrow> request t l = None"
  by (simp add: request_def region_def)

lemma core_drop_iff:
  assumes inv: "core_inv self (c, s)"
  shows "core_drop c = Inr () \<longleftrightarrow> (\<forall>l. owner (table_of s) l \<noteq> Some self)"
proof -
  from inv obtain qs where g: "good self c s qs" by (rule core_inv_good)
  let ?t = "table_of s"
  from g have "linked read_node_callback read_le
       ({l. owner ?t l = Some self \<and> rd ?t l \<noteq> None} \<times> UNIV) (read_cell s) (reads c)"
    and w: "linked write_node_callback write_le {l. owner ?t l = Some self \<and> wr ?t l \<noteq> None} (write_cell s) (writes c)"
    and p: "olist pending_node_callback pending_le (pending_cell s) (pendings c) qs"
      "fst ` set qs = {l. owner ?t l = Some self \<and> pd ?t l \<noteq> None}"
    unfolding good_def by simp_all
  from linked_None [OF this(1)] have r: "reads c = None \<longleftrightarrow> {l. owner ?t l = Some self \<and> rd ?t l \<noteq> None} = {}"
    by (simp add: Times_empty del: table_of_simps)
  note w = linked_None [OF w] and p = olist_None [OF p(1), unfolded p(2)]
  have "reads c = None \<and> writes c = None \<and> pendings c = None \<longleftrightarrow>
     (\<forall>l. owner ?t l = Some self \<longrightarrow> rd ?t l = None \<and> wr ?t l = None \<and> pd ?t l = None)"
    unfolding r w p Collect_empty_eq by (intro iffI allI impI conjI) meson+
  also have "\<dots> \<longleftrightarrow> (\<forall>l. owner ?t l \<noteq> Some self)"
    using core_invD(4) [OF inv] by (metis no_request)
  finally show ?thesis by (auto simp: core_drop_def)
qed

end
