(* ===== verification/Core_Cancel.thy ===== *)
theory Core_Cancel
  imports Core_Client
begin

text \<open>
  A lock that is released before anybody else has got further leaves the core as it was:
  what the other locks hold is determined by the invariant and by what they asked for.
\<close>

section \<open>Locking and unlocking again\<close>

text \<open>A lock that goes away without having let anybody through leaves no trace.\<close>

lemma covers_excl:
  assumes "excl self t" "owner t l = Some self" "owner t l' = Some self" "l \<noteq> l'"
    and "w_covers t l' i \<or> b \<and> r_covers t l' i" and "if b then w_covers t l i else r_covers t l i"
  shows False
  using assms unfolding excl_def by (metis (full_types))

lemma region_covers:
  assumes "region t l = Some (b, x, y)" and "x \<le> i" "i < y"
  shows "if b then w_covers t l i else r_covers t l i"
  using assms by (auto simp: region_def w_covers_def r_covers_def split: option.splits)

lemma region_cong:
  assumes "region t' l = region t l" and "lock_ok t l" "lock_ok t' l"
  shows "rd t' l = rd t l \<and> wr t' l = wr t l"
  using assms by (cases "rd t l"; cases "wr t l"; cases "rd t' l"; cases "wr t' l") (auto simp: region_def lock_ok_def)

lemma lock_ok_region:
  assumes "lock_ok t l" and "pd t l = Some p" and "region t l = Some (b, x, y)"
  shows "b = is_writer (p_parent p) \<and> y = p_start p"
  using assms by (auto simp: lock_ok_def region_def split: option.splits)

lemma regions_ok_region: "regions_ok t \<Longrightarrow> region t l = Some (b, x, y) \<Longrightarrow> x < y"
  by (auto simp: regions_ok_def region_def split: option.splits)

lemma is_writer_iff: "(\<exists>k. ptr = Write k) \<longleftrightarrow> is_writer ptr"
  by (cases ptr) auto

lemma pending_request:
  assumes "lock_ok t l" "regions_ok t" and p: "pd t l = Some p"
  shows "\<exists>a. request t l = Some (is_writer (p_parent p), a, rng_end (p_range p)) \<and> a \<le> p_start p \<and>
    (region t l = None \<and> a = p_start p \<or> region t l = Some (is_writer (p_parent p), a, p_start p) \<and> a < p_start p)"
proof (cases "region t l")
  case None
  with p show ?thesis by (simp add: request_def)
next
  case (Some bxy)
  then obtain b x y where r: "region t l = Some (b, x, y)" by (cases bxy) auto
  from lock_ok_region [OF assms(1) p r] regions_ok_region [OF assms(2) r] r p show ?thesis
    by (auto simp: request_def)
qed

lemma stuck_lock:
  assumes inv: "core_inv self (c, s)" "core_inv self (c2, s2)"
    and own: "owner (table_of s) l' = Some self" "owner (table_of s2) l' = Some self"
    and keep: "\<And>k i. owner (table_of s) k = Some self \<Longrightarrow> owner (table_of s2) k = Some self \<and>
      (w_covers (table_of s) k i \<longrightarrow> w_covers (table_of s2) k i) \<and> (r_covers (table_of s) k i \<longrightarrow> r_covers (table_of s2) k i)"
    and req: "request (table_of s2) l' = request (table_of s) l'"
    and pd2: "\<And>p'. pd (table_of s2) l' = Some p' \<Longrightarrow> \<exists>p i. pd (table_of s) l' = Some p \<and> p' = moved p i \<and> p_start p \<le> i"
  shows "rd (table_of s2) l' = rd (table_of s) l' \<and> wr (table_of s2) l' = wr (table_of s) l' \<and>
    pd (table_of s2) l' = pd (table_of s) l'"
proof -
  let ?t = "table_of s" and ?u = "table_of s2"
  note I = core_invD [OF inv(1)] and J = core_invD [OF inv(2)]
  have ok: "lock_ok ?t l'" "lock_ok ?u l'" "regions_ok ?t" "regions_ok ?u" using I(1) J(1) by (simp_all add: table_ok_def)
  have "pd ?u l' = pd ?t l' \<and> region ?u l' = region ?t l'"
  proof (cases "pd ?t l'")
    case None
    with pd2 have "pd ?u l' = None" by (metis not_None_eq)
    with None req show ?thesis by (simp add: request_def del: table_of_simps)
  next
    case (Some p)
    from I(5) [OF own(1) Some] obtain k where k: "k \<noteq> l'" "owner ?t k = Some self"
      "w_covers ?t k (p_start p) \<or> is_writer (p_parent p) \<and> r_covers ?t k (p_start p)"
      by (auto simp: blocked_def is_writer_iff simp del: table_of_simps)
    have k': "owner ?u k = Some self" "w_covers ?u k (p_start p) \<or> is_writer (p_parent p) \<and> r_covers ?u k (p_start p)"
      using keep [OF k(2)] k(3) by blast+
    have no: False if "region ?u l' = Some (is_writer (p_parent p), x, y)" "x \<le> p_start p" "p_start p < y" for x y
      using covers_excl [OF J(2) own(2) k'(1) k(1) [symmetric] k'(2) region_covers [OF that]] .
    from ok(1) Some have pe: "p_start p < rng_end (p_range p)" by (simp add: lock_ok_def)
    from Some obtain a where rt: "request ?t l' = Some (is_writer (p_parent p), a, rng_end (p_range p))" "a \<le> p_start p"
      "region ?t l' = None \<and> a = p_start p \<or> region ?t l' = Some (is_writer (p_parent p), a, p_start p) \<and> a < p_start p"
      using pending_request [OF ok(1,3) Some] by blast
    have "pd ?u l' \<noteq> None"
    proof
      assume "pd ?u l' = None"
      with rt(1) req have "region ?u l' = Some (is_writer (p_parent p), a, rng_end (p_range p))"
        by (simp add: request_def del: table_of_simps)
      with no rt(2) pe show False by blast
    qed
    then obtain p' where p': "pd ?u l' = Some p'" by blast
    with pd2 Some obtain i where i: "p' = moved p i" "p_start p \<le> i" by (auto simp del: table_of_simps)
    from ok(2) p' i have ru: "region ?u l' = Some (b, x, y) \<Longrightarrow> b = is_writer (p_parent p) \<and> y = i \<and> x < y" for b x y
      using lock_ok_region [OF ok(2) p'] regions_ok_region [OF ok(4), of l'] by fastforce
    show ?thesis
    proof (cases "region ?u l'")
      case None
      with p' i req rt(1) have "i = a" by (simp add: request_def del: table_of_simps)
      with i rt None Some p' show ?thesis by auto
    next
      case (Some bxy)
      then obtain x where x: "region ?u l' = Some (is_writer (p_parent p), x, i)" "x < i" using ru by (cases bxy) auto
      with p' i req rt(1) have "x = a" by (simp add: request_def del: table_of_simps)
      moreover have "i = p_start p" using no [OF x(1)] i(2) rt(2) calculation by force
      ultimately show ?thesis using x rt(3) p' i(1) \<open>pd ?t l' = Some p\<close> by auto
    qed
  qed
  then show ?thesis using region_cong [OF _ ok(1,2)] by blast
qed

lemma table_eqI:
  assumes "\<And>l. owner t l = owner t' l" "\<And>l. rd t l = rd t' l" "\<And>l. wr t l = wr t' l" "\<And>l. pd t l = pd t' l"
  shows "t = (t' :: ('c, 'l, 'i, 'pr, 'ip) table)"
  using assms by (intro table.equality) (simp_all add: fun_eq_iff)

lemma leave_no_trace:
  assumes inv: "core_inv self (c, s)" "core_inv self (c2, s2)" and free: "owner (table_of s) l = None"
    and own1: "owner t1 = (owner (table_of s))(l \<mapsto> self)"
    and same: "\<And>l'. l' \<noteq> l \<Longrightarrow> rd t1 l' = rd (table_of s) l' \<and> wr t1 l' = wr (table_of s) l' \<and> pd t1 l' = pd (table_of s) l'"
    and rel: "released l t1 (table_of s2) log"
  shows "table_of s2 = table_of s \<and> log = []"
proof -
  let ?t = "table_of s" and ?u = "table_of s2"
  have lok: "lock_ok ?t k" "lock_ok ?u k" for k
    using core_invD(1) [OF inv(1)] core_invD(1) [OF inv(2)] by (simp_all add: table_ok_def)
  have own2: "owner ?u = owner ?t" using rel own1 free by (auto simp: released_def simp del: table_of_simps)
  have cov: "w_covers t1 k i = w_covers ?t k i" "r_covers t1 k i = r_covers ?t k i" if "k \<noteq> l" for k i
    using same [OF that] by (simp_all add: w_covers_def r_covers_def del: table_of_simps)
  have keep: "owner ?u k = Some self \<and> (w_covers ?t k i \<longrightarrow> w_covers ?u k i) \<and> (r_covers ?t k i \<longrightarrow> r_covers ?u k i)"
    if "owner ?t k = Some self" for k i
  proof -
    from that free have "k \<noteq> l" by auto
    with that rel show ?thesis unfolding own2 cov [OF \<open>k \<noteq> l\<close>, symmetric] by (simp add: released_def)
  qed
  have rows: "rd ?u k = rd ?t k \<and> wr ?u k = wr ?t k \<and> pd ?u k = pd ?t k" for k
  proof (cases "k = l")
    case True
    with free own2 lok [of l] show ?thesis by (simp add: lock_ok_def del: table_of_simps)
  next
    case kl: False
    show ?thesis
    proof (cases "owner ?t k = Some self")
      case False
      with rel own1 same [OF kl] kl show ?thesis by (simp add: released_def del: table_of_simps)
    next
      case own: True
      have "request ?u k = request t1 k" using rel kl by (simp add: released_def)
      also have "\<dots> = request ?t k" using same [OF kl] by (intro request_cong) simp_all
      finally have req: "request ?u k = request ?t k" .
      have "\<exists>p i. pd ?t k = Some p \<and> p' = moved p i \<and> p_start p \<le> i" if "pd ?u k = Some p'" for p'
        using rel that same [OF kl] unfolding released_def by metis
      from stuck_lock [OF inv own _ keep req this] own own2 show ?thesis by simp
    qed
  qed
  have "?u = ?t" by (rule table_eqI) (use rows own2 in simp_all)
  moreover have "log = []"
  proof -
    have "set log = {k. k \<noteq> l \<and> pd t1 k \<noteq> None \<and> pd ?u k = None}" using rel by (simp add: released_def)
    also have "\<dots> = {}" using same rows by auto
    finally show ?thesis by simp
  qed
  ultimately show ?thesis by simp
qed

end
