(* ===== verification/Core_Demo.thy ===== *)
theory Core_Demo
  imports Core_Client
begin

text \<open>
  A small instance: five lock states, and the states of a core at address \<open>0\<close> that a short
  session of locks runs through.  The witnesses of the properties are taken from here.
\<close>

section \<open>Five lock states\<close>

datatype demo_lock = LockA | LockB | LockC | TryA | TryB

lemma demo_lock_UNIV: "(UNIV :: demo_lock set) = {LockA, LockB, LockC, TryA, TryB}"
  using demo_lock.exhaust by auto

lemma demo_room: "room self (t :: ('c, demo_lock, 'i, 'pr, 'ip) table)"
proof -
  have "finite (UNIV :: demo_lock set)" unfolding demo_lock_UNIV by simp
  moreover have "card (UNIV :: demo_lock set) = 5" unfolding demo_lock_UNIV by simp
  ultimately have "card {l. owner t l = Some self} \<le> 5" by (metis card_mono subset_UNIV)
  then show ?thesis by (simp add: room_def)
qed

lemma demo_card: "card {l :: demo_lock. P l} < 9223372036854775807"
proof -
  have "card {l :: demo_lock. P l} \<le> card (UNIV :: demo_lock set)"
    by (rule card_mono [OF _ subset_UNIV]) (simp add: demo_lock_UNIV)
  also have "\<dots> \<le> 5" by (simp add: demo_lock_UNIV)
  finally show ?thesis by simp
qed

fun demo_kind :: "demo_lock \<Rightarrow> state_kind" where
  "demo_kind LockA = WriteLockState"
| "demo_kind LockB = ReadLockState"
| "demo_kind LockC = WriteLockState"
| "demo_kind TryA = TryReadLockState"
| "demo_kind TryB = TryWriteLockState"

section \<open>A session\<close>

type_synonym demo_world = "(nat, demo_lock, nat, nat, nat) world"
type_synonym demo_call = "(demo_lock, nat, nat, nat) call"

definition after :: "demo_call \<Rightarrow> demo_world \<Rightarrow> demo_world" where
  "after call cs = (case perform True 0 call cs of Inl _ \<Rightarrow> cs | Inr (_, cs') \<Rightarrow> cs')"

text \<open>
  A writer of 2..6, a reader of 4..8 that has to wait at 4, and a writer of 1..3 that gets
  1..2 and waits at 2.
\<close>

definition demo0 :: demo_world where "demo0 = (core_new, lock_states_default)"
definition demo1 :: demo_world where "demo1 = after (LockWrite (Range 2 6) 0 LockA 10) demo0"
definition demo2 :: demo_world where "demo2 = after (LockRead (Range 4 8) 1 LockB 11) demo1"
definition demo3 :: demo_world where "demo3 = after (LockWrite (Range 1 3) 2 LockC 12) demo2"
definition demo4 :: demo_world where "demo4 = after (UnlockWrite LockA) demo3"

definition demo_callback :: "(bool, nat) lock_callback" where "demo_callback = report 7"

abbreviation demo_reachable :: "demo_world \<Rightarrow> bool" where
  "demo_reachable \<equiv> reachable True 0 demo_kind"

lemma after_reachable:
  assumes "demo_reachable cs" and "admissible 0 demo_kind (table_of (snd cs)) call"
  shows "demo_reachable (after call cs)"
proof -
  from perform_ok [OF reachable_client_inv [OF assms(1)] assms(2), of True] obtain r cs' where
    "perform True 0 call cs = Inr (r, cs')" by blast
  with reachable.step [OF assms] show ?thesis by (simp add: after_def)
qed

lemma demo_owners:
  "parent_cell (snd demo0) LockA = None" "parent_cell (snd demo1) LockB = None"
  "parent_cell (snd demo2) LockC = None" "parent_cell (snd demo3) LockA = Some 0"
  by code_simp+

lemma demo_reachable0: "demo_reachable demo0"
  unfolding demo0_def by (rule reachable.start)

lemma demo_reachable1: "demo_reachable demo1"
  unfolding demo1_def by (rule after_reachable [OF demo_reachable0])
    (simp add: can_lock_def demo_room demo_owners)

lemma demo_reachable2: "demo_reachable demo2"
  unfolding demo2_def by (rule after_reachable [OF demo_reachable1])
    (simp add: can_lock_def demo_room demo_owners)

lemma demo_reachable3: "demo_reachable demo3"
  unfolding demo3_def by (rule after_reachable [OF demo_reachable2])
    (simp add: can_lock_def demo_room demo_owners)

lemma demo_reachable4: "demo_reachable demo4"
  unfolding demo4_def by (rule after_reachable [OF demo_reachable3]) (simp add: demo_owners)

text \<open>The invariant of the session's states, in the form the properties ask for it.\<close>

lemmas demo_reachables = demo_reachable0 demo_reachable1 demo_reachable2 demo_reachable3 demo_reachable4

lemma demo_inv: "demo_reachable cs \<Longrightarrow> core_inv 0 (fst cs, snd cs)"
  by (drule reachable_client_inv) (simp add: client_inv_def)

lemmas demo_invs = demo_reachables [THEN demo_inv]

end
