(* ===== verification/Core_Safety.thy ===== *)
theory Core_Safety
  imports Core_Cancel Core_Demo
begin

text \<open>
  The properties of all states that clients can reach: exclusion, progress, the shape of
  trees, and the types of lock states.
\<close>

section \<open>Preparations\<close>

text \<open>The pending borrow of a lock that waits at \<open>i\<close>, and the tables after a lock operation.\<close>

abbreviation waiting ::
  "'l lock_state_ptr \<Rightarrow> 'i \<Rightarrow> 'i \<Rightarrow> 'pr \<Rightarrow> 'ip \<Rightarrow> ('l, 'i, 'pr, 'ip) pending" where
  "waiting ptr i y prio ip \<equiv> \<lparr>p_range = Range i y, p_priority = prio, p_parent = ptr, p_in_progress = ip\<rparr>"

lemma lock_table_read:
  assumes "rd t l = None" "wr t l = None" "pd t l = None"
  shows "resume_table (claim self t l (fresh (Read l) x y prio ip)) l (fresh (Read l) x y prio ip) r =
    t\<lparr>owner := (owner t)(l \<mapsto> self),
      rd := (if r = Some x then rd t else (rd t)(l \<mapsto> (x, case r of None \<Rightarrow> y | Some i \<Rightarrow> i))),
      pd := (pd t)(l := map_option (\<lambda>i. waiting (Read l) i y prio ip) r)\<rparr>"
  using assms
  by (intro table.equality) (auto simp: resume_table_def claim_def extend_def fresh_def fun_eq_iff split: option.splits)

lemma lock_table_write:
  assumes "rd t l = None" "wr t l = None" "pd t l = None"
  shows "resume_table (claim self t l (fresh (Write l) x y prio ip)) l (fresh (Write l) x y prio ip) r =
    t\<lparr>owner := (owner t)(l \<mapsto> self),
      wr := (if r = Some x then wr t else (wr t)(l \<mapsto> (x, case r of None \<Rightarrow> y | Some i \<Rightarrow> i))),
      pd := (pd t)(l := map_option (\<lambda>i. waiting (Write l) i y prio ip) r)\<rparr>"
  using assms
  by (intro table.equality) (auto simp: resume_table_def claim_def extend_def fresh_def fun_eq_iff split: option.splits)

lemma free_rows:
  assumes "core_inv self (c, s)" and "owner (table_of s) l = None"
  shows "rd (table_of s) l = None" "wr (table_of s) l = None" "pd (table_of s) l = None"
  using set_parent_good(2-4) [OF assms] .

text \<open>The trees of a well-formed core hold the borrows of its lock states.\<close>

lemma good_linked:
  assumes "good self c s qs"
  shows "linked read_node_callback read_le
      ({l. owner (table_of s) l = Some self \<and> rd (table_of s) l \<noteq> None} \<times> UNIV) (read_cell s) (reads c)"
    and "linked write_node_callback write_le
      {l. owner (table_of s) l = Some self \<and> wr (table_of s) l \<noteq> None} (write_cell s) (writes c)"
    and "linked pending_node_callback pending_le
      {l. owner (table_of s) l = Some self \<and> pd (table_of s) l \<noteq> None} (pending_cell s) (pendings c)"
proof -
  show "linked pending_node_callback pending_le
      {l. owner (table_of s) l = Some self \<and> pd (table_of s) l \<noteq> None} (pending_cell s) (pendings c)"
    unfolding linked_def by (rule exI [of _ qs]) (use assms in \<open>simp add: good_def\<close>)
qed (use assms in \<open>simp_all add: good_def\<close>)

text \<open>What the session of the witnesses has borrowed.\<close>

lemma demo3_rows:
  "write_range (view (write_cell (snd demo3))) LockA = Some (2, 6)"
  "view (pending_cell (snd demo3)) LockA = None"
  "read_pair (view (read_cell (snd demo3))) LockB = None"
  "view (pending_cell (snd demo3)) LockB = Some (waiting (Read LockB) 4 8 1 11)"
  "write_range (view (write_cell (snd demo3))) LockC = Some (1, 2)"
  "view (pending_cell (snd demo3)) LockC = Some (waiting (Write LockC) 2 3 2 12)"
  by code_simp+

lemma demo3_owners:
  "parent_cell (snd demo3) LockA = Some 0" "parent_cell (snd demo3) LockB = Some 0"
  "parent_cell (snd demo3) LockC = Some 0" "parent_cell (snd demo3) TryA = None" "parent_cell (snd demo3) TryB = None"
  by code_simp+

lemmas demo3_facts = demo3_rows demo3_owners demo_room

lemma demo3_reachable: "demo_reachable (fst demo3, snd demo3)"
  using demo_reachable3 by simp

lemmas demo3_inv = demo_inv [OF demo_reachable3]

section \<open>Safety and progress of all clients\<close>

text \<open>C1. Mutual exclusion.  In every reachable state of a core, an index that one lock has
  borrowed for writing is borrowed by no other lock of that core, for writing or for reading.\<close>

theorem mutual_exclusion:
  assumes "reachable dbg self kd (c, s)"
    and "owner (table_of s) l = Some self" "owner (table_of s) l' = Some self" "l \<noteq> l'"
    and "w_covers (table_of s) l i"
  shows "\<not> w_covers (table_of s) l' i \<and> \<not> r_covers (table_of s) l' i"
  using core_invD(2) [OF reachable_core_inv [OF assms(1)]] assms(2-5) unfolding excl_def by blast

theorem mutual_exclusion_witness:
  "\<not> w_covers (table_of (snd demo3)) LockC 3 \<and> \<not> r_covers (table_of (snd demo3)) LockC 3"
  by (rule mutual_exclusion [OF demo3_reachable, of LockA]) (simp_all add: demo3_facts w_covers_def)

text \<open>C5. Every call that a client may make (its range is not empty, the lock state is of the
  right type and not in use, or the lock is one of this core) returns: no panic, no
  abort, no dangling pointer and no endless loop; and the state stays reachable.\<close>

theorem calls_return:
  assumes "reachable dbg self kd cs" and "admissible self kd (table_of (snd cs)) call"
  shows "\<exists>r cs'. perform dbg self call cs = Inr (r, cs') \<and> reachable dbg self kd cs'"
proof -
  from perform_ok [OF reachable_client_inv [OF assms(1)] assms(2)] obtain r cs' where
    "perform dbg self call cs = Inr (r, cs')" by blast
  with reachable.step [OF assms] show ?thesis by blast
qed

theorem calls_return_witness:
  "\<exists>r cs'. perform True 0 (TryLockRead (Range 6 7) TryA) demo3 = Inr (r, cs') \<and> demo_reachable cs'"
  by (rule calls_return [OF demo_reachable3]) (simp add: can_lock_def demo3_facts)

text \<open>C6. No lost wake-up.  In every reachable state a pending borrow is blocked at its start by
  a borrow of another lock that conflicts with it.\<close>

theorem pending_is_blocked:
  assumes "reachable dbg self kd (c, s)"
    and "owner (table_of s) l = Some self" "pd (table_of s) l = Some p"
  shows "\<exists>l'. l' \<noteq> l \<and> owner (table_of s) l' = Some self \<and>
    (w_covers (table_of s) l' (p_start p) \<or> is_writer (p_parent p) \<and> r_covers (table_of s) l' (p_start p))"
  using core_invD(5) [OF reachable_core_inv [OF assms(1)] assms(2,3)] unfolding blocked_def is_writer_iff by blast

theorem pending_is_blocked_witness:
  "\<exists>l'. l' \<noteq> LockB \<and> owner (table_of (snd demo3)) l' = Some 0 \<and>
    (w_covers (table_of (snd demo3)) l' 4 \<or> False \<and> r_covers (table_of (snd demo3)) l' 4)"
  using pending_is_blocked [OF demo3_reachable, of LockB "waiting (Read LockB) 4 8 1 11"]
  by (simp add: demo3_facts)

text \<open>C20. No deadlock.  As long as a lock is pending, some lock of the core is complete, and it
  holds an index at or after the start of the pending borrow.\<close>

theorem no_deadlock:
  assumes "reachable dbg self kd (c, s)"
    and "owner (table_of s) l = Some self" "pd (table_of s) l = Some p"
  shows "\<exists>l'. owner (table_of s) l' = Some self \<and> pd (table_of s) l' = None \<and>
    (\<exists>i\<ge>p_start p. w_covers (table_of s) l' i \<or> r_covers (table_of s) l' i)"
  by (rule some_lock_complete [OF reachable_core_inv [OF assms(1)] assms(2,3)])

theorem no_deadlock_witness:
  "\<exists>l'. owner (table_of (snd demo3)) l' = Some 0 \<and> pd (table_of (snd demo3)) l' = None \<and>
    (\<exists>i\<ge>2. w_covers (table_of (snd demo3)) l' i \<or> r_covers (table_of (snd demo3)) l' i)"
  using no_deadlock [OF demo3_reachable, of LockC "waiting (Write LockC) 2 3 2 12"]
  by (simp add: demo3_facts)

text \<open>The last lock of a core is complete: when all others have been released, nothing waits.\<close>

lemma last_lock_is_complete:
  assumes "reachable dbg self kd (c, s)"
    and "owner (table_of s) l = Some self" "\<And>l'. owner (table_of s) l' = Some self \<Longrightarrow> l' = l"
  shows "pd (table_of s) l = None"
  by (rule lone_lock_complete [OF reachable_core_inv [OF assms(1)] assms(3,2)])

lemma demo1_owners: "parent_cell (snd demo1) l = Some 0 \<longleftrightarrow> l = LockA"
proof -
  have "parent_cell (snd demo1) LockA = Some 0" "parent_cell (snd demo1) LockB = None"
    "parent_cell (snd demo1) LockC = None" "parent_cell (snd demo1) TryA = None" "parent_cell (snd demo1) TryB = None"
    by code_simp+
  then show ?thesis by (cases l) simp_all
qed

text \<open>Borrows grow from the left.  A lock owned by the core has asked for a range that is not empty, in the
  mode of its lock state; it holds all of it, or exactly the part before its pending borrow.\<close>

lemma borrow_is_prefix:
  assumes "reachable dbg self kd (c, s)" and "owner (table_of s) l = Some self"
  shows "\<exists>x y. x < y \<and> request (table_of s) l = Some (kind_writes (kd l), x, y) \<and>
    (pd (table_of s) l = None \<and> region (table_of s) l = Some (kind_writes (kd l), x, y) \<or>
     (\<exists>p z. pd (table_of s) l = Some p \<and> kind_waits (kd l) \<and> p_range p = Range z y \<and> x \<le> z \<and> z < y \<and>
        p_parent p = (if kind_writes (kd l) then Write l else Read l) \<and>
        region (table_of s) l = (if z = x then None else Some (kind_writes (kd l), x, z))))"
proof -
  let ?t = "table_of s"
  from reachable_client_inv [OF assms(1)] have i: "core_inv self (c, s)" and ty: "typed kd ?t"
    by (simp_all add: client_inv_def)
  from core_invD(1) [OF i] have ok: "lock_ok ?t l" "regions_ok ?t" by (simp_all add: table_ok_def)
  from core_invD(4) [OF i assms(2)] obtain b x y where req: "request ?t l = Some (b, x, y)"
    by (metis not_None_eq prod_cases3)
  with ty have b: "b = kind_writes (kd l)" unfolding typed_def by blast
  show ?thesis
  proof (cases "pd ?t l")
    case None
    with req have "region ?t l = Some (b, x, y)" by (simp add: request_def del: table_of_simps)
    with regions_ok_region [OF ok(2)] req None b show ?thesis by blast
  next
    case (Some p)
    obtain z y' where z: "p_range p = Range z y'" by (cases "p_range p")
    from pending_request [OF ok Some] req z have
      1: "b = is_writer (p_parent p)" "y' = y" "x \<le> z" "region ?t l = None \<and> x = z \<or> region ?t l = Some (b, x, z) \<and> x < z"
      by auto
    from ok(1) Some z have 2: "z < y'" "p_parent p = Read l \<or> p_parent p = Write l" by (auto simp: lock_ok_def)
    from ty Some have "kind_waits (kd l)" unfolding typed_def by blast
    moreover have "p_parent p = (if b then Write l else Read l)" using 1(1) 2(2) by auto
    moreover have "region ?t l = (if z = x then None else Some (b, x, z))" using 1(4) by auto
    ultimately show ?thesis using 1 2 z Some req unfolding b [symmetric] by auto
  qed
qed

text \<open>C35. The trees represent the locks.  In every reachable state the three tree cells hold
  red-black trees with correct parent pointers, colours and summaries, ordered by their callbacks, whose
  nodes are exactly those of the lock states owned by the core.\<close>

theorem trees_represent_locks:
  assumes "reachable dbg self kd (c, s)"
  shows "(\<exists>xs. tree_rep read_node_callback (read_cell s) (reads c) xs \<and> sorted_wrt (\<lambda>x y. read_le (snd x) (snd y)) xs \<and>
      fst ` set xs = {l. owner (table_of s) l = Some self \<and> rd (table_of s) l \<noteq> None} \<times> UNIV) \<and>
    (\<exists>xs. tree_rep write_node_callback (write_cell s) (writes c) xs \<and> sorted_wrt (\<lambda>x y. write_le (snd x) (snd y)) xs \<and>
      fst ` set xs = {l. owner (table_of s) l = Some self \<and> wr (table_of s) l \<noteq> None}) \<and>
    (\<exists>xs. tree_rep pending_node_callback (pending_cell s) (pendings c) xs \<and> sorted_wrt (\<lambda>x y. pending_le (snd x) (snd y)) xs \<and>
      fst ` set xs = {l. owner (table_of s) l = Some self \<and> pd (table_of s) l \<noteq> None})"
proof -
  from core_inv_good [OF reachable_core_inv [OF assms]] obtain qs where "good self c s qs" by blast
  then have "linked read_node_callback read_le
       ({l. owner (table_of s) l = Some self \<and> rd (table_of s) l \<noteq> None} \<times> UNIV) (read_cell s) (reads c)"
    "linked write_node_callback write_le
       {l. owner (table_of s) l = Some self \<and> wr (table_of s) l \<noteq> None} (write_cell s) (writes c)"
    "linked pending_node_callback pending_le
       {l. owner (table_of s) l = Some self \<and> pd (table_of s) l \<noteq> None} (pending_cell s) (pendings c)"
    by (rule good_linked)+
  then show ?thesis by (simp only: linked_def olist_def conj_assoc)
qed

theorem trees_represent_locks_witness:
  "(\<exists>xs. tree_rep read_node_callback (read_cell (snd demo3)) (reads (fst demo3)) xs \<and>
      sorted_wrt (\<lambda>x y. read_le (snd x) (snd y)) xs \<and>
      fst ` set xs = {l. owner (table_of (snd demo3)) l = Some 0 \<and> rd (table_of (snd demo3)) l \<noteq> None} \<times> UNIV) \<and>
    (\<exists>xs. tree_rep write_node_callback (write_cell (snd demo3)) (writes (fst demo3)) xs \<and>
      sorted_wrt (\<lambda>x y. write_le (snd x) (snd y)) xs \<and>
      fst ` set xs = {l. owner (table_of (snd demo3)) l = Some 0 \<and> wr (table_of (snd demo3)) l \<noteq> None}) \<and>
    (\<exists>xs. tree_rep pending_node_callback (pending_cell (snd demo3)) (pendings (fst demo3)) xs \<and>
      sorted_wrt (\<lambda>x y. pending_le (snd x) (snd y)) xs \<and>
      fst ` set xs = {l. owner (table_of (snd demo3)) l = Some 0 \<and> pd (table_of (snd demo3)) l \<noteq> None})"
  by (rule trees_represent_locks [OF demo3_reachable])

section \<open>Types of lock states\<close>

text \<open>
  The kinds of lock states have different fields: \<open>has_type k s l\<close> says that the fields that the kind \<open>k\<close> lacks are
  empty in the lock state at \<open>l\<close>, and that a pending borrow points back to \<open>l\<close> with the constructor of the kind.
\<close>

fun has_type :: "state_kind \<Rightarrow> ('c, 'l, 'i, 'pr, 'ip) lock_states \<Rightarrow> 'l \<Rightarrow> bool" where
  "has_type ReadLockState s l \<longleftrightarrow>
     write_cell s l = None \<and> (\<forall>n. pending_cell s l = Some n \<longrightarrow> p_parent (element n) = Read l)"
| "has_type WriteLockState s l \<longleftrightarrow>
     (\<forall>b. read_cell s (l, b) = None) \<and> (\<forall>n. pending_cell s l = Some n \<longrightarrow> p_parent (element n) = Write l)"
| "has_type TryReadLockState s l \<longleftrightarrow> write_cell s l = None \<and> pending_cell s l = None"
| "has_type TryWriteLockState s l \<longleftrightarrow> (\<forall>b. read_cell s (l, b) = None) \<and> pending_cell s l = None"

lemma typed_parent:
  assumes "typed kd t" "lock_ok t l" "pd t l = Some p"
  shows "p_parent p = (if kind_writes (kd l) then Write l else Read l)"
proof -
  have "request t l = Some (is_writer (p_parent p), case region t l of Some (_, a, _) \<Rightarrow> a | None \<Rightarrow> rng_start (p_range p), rng_end (p_range p))"
    by (simp add: request_def assms(3))
  with assms(1) have "is_writer (p_parent p) = kind_writes (kd l)" unfolding typed_def by blast
  moreover have "p_parent p = Read l \<or> p_parent p = Write l" using assms(2,3) by (auto simp: lock_ok_def)
  ultimately show ?thesis by auto
qed

text \<open>C18. Lock states are well-typed.  In every reachable state a lock state has no content in a field that its type
  lacks: a reader has no node for a write borrow and a writer none for read borrows, a lock state of the non-blocking
  methods has no pending borrow, and a pending borrow points back to its lock state with the constructor of its type, so
  that the cast in \<open>unlock\<close> reads a field that is there.  The array of read nodes is complete or absent, and a lock
  state that belongs to no core is empty.\<close>

theorem lock_states_typed:
  assumes "reachable dbg self kd (c, s)"
  shows "has_type (kd l) s l \<and> (read_cell s (l, False) = None \<longleftrightarrow> read_cell s (l, True) = None) \<and>
    (parent_cell s l = None \<longrightarrow> (\<forall>b. read_cell s (l, b) = None) \<and> write_cell s l = None \<and> pending_cell s l = None)"
proof -
  let ?t = "table_of s"
  from reachable_client_inv [OF assms] have inv: "core_inv self (c, s)" and ty: "typed kd ?t" by (simp_all add: client_inv_def)
  from core_invD(1) [OF inv] have ok: "lock_ok ?t l" by (simp add: table_ok_def)
  from core_inv_good [OF inv] obtain qs where "good self c s qs" by blast
  then have pairs: "pairs_ok (view (read_cell s))" by (simp add: good_def)
  have rd: "rd ?t l = None \<longleftrightarrow> (\<forall>b. read_cell s (l, b) = None)" "read_cell s (l, False) = None \<longleftrightarrow> read_cell s (l, True) = None"
    using pairs_ok_None [OF pairs, of l] pairs by (auto simp: all_bool_eq pairs_ok_def view_Some)
  have wr: "wr ?t l = None \<longleftrightarrow> write_cell s l = None" by (simp add: write_range_None)
  have pd: "pd ?t l = None \<longleftrightarrow> pending_cell s l = None" by simp
  have parent: "p_parent (element n) = (if kind_writes (kd l) then Write l else Read l)" if "pending_cell s l = Some n" for n
    using typed_parent [OF ty ok, of "element n"] that by (simp add: view_Some)
  have waits: "pending_cell s l = None" if "\<not> kind_waits (kd l)" using ty that unfolding typed_def pd [symmetric] by blast
  have "has_type (kd l) s l"
    using typed_no_read [OF ty ok] typed_no_write [OF ty ok] parent waits rd wr
    by (cases "kd l") (auto simp: kind_writes_def kind_waits_def simp del: table_of_simps)
  moreover have "(\<forall>b. read_cell s (l, b) = None) \<and> write_cell s l = None \<and> pending_cell s l = None" if "parent_cell s l = None"
    using free_rows [OF inv, of l] that rd(1) wr pd by simp
  ultimately show ?thesis using rd(2) by blast
qed

theorem lock_states_typed_witness:
  "has_type ReadLockState (snd demo3) LockB \<and>
    (read_cell (snd demo3) (LockB, False) = None \<longleftrightarrow> read_cell (snd demo3) (LockB, True) = None) \<and>
    pending_cell (snd demo3) LockB \<noteq> None"
  using lock_states_typed [OF demo3_reachable, of LockB] by (auto simp: demo3_facts simp flip: view_None)

end
