(* ===== verification/Core_Correct.thy ===== *)
theory Core_Correct
  imports Core_Safety
begin

text \<open>
  What each operation of a core does, as an update of the table of borrows.
\<close>

section \<open>Searching\<close>

text \<open>\<open>first_write_borrow_in_range\<close> finds the first index of the range that some lock of the
  core has borrowed for writing, and nothing when there is none.\<close>

lemma first_write_borrow_correct:
  assumes "core_inv self (c, s)" and "x < y"
  shows "\<exists>r. first_write_borrow_in_range c s (Range x y) = Some r \<and> first_in (w_at self (table_of s)) x y r"
  using search_read_ok [OF assms] by simp

text \<open>\<open>first_read_borrow_in_range\<close> finds the first index of the range that is borrowed for
  reading.  The sum of the endpoints' signs does not overflow its \<open>isize\<close>, and the debug
  assertions hold.\<close>

lemma first_read_borrow_correct:
  assumes "core_inv self (c, s)" and "x < y"
  shows "\<exists>r. first_read_borrow_in_range dbg c s (Range x y) = Some r \<and> first_in (r_at self (table_of s)) x y r"
  using search_write_ok [OF assms] by blast

section \<open>Locking\<close>

text \<open>\<open>lock_read\<close> on a free lock state: with \<open>r\<close> the first index of the range that is borrowed
  for writing, the part of the range before \<open>r\<close> is borrowed for reading and the rest is left pending;
  without such an index the whole range is borrowed and the lock is complete.  No other lock
  state changes.\<close>

lemma lock_read_correct:
  assumes "core_inv self (c, s)" and "owner (table_of s) l = None" and "room self (table_of s)" and "x < y"
  shows "\<exists>r c' s'. lock_read dbg self (Range x y) prio l callback (c, s) =
      Inr (case r of None \<Rightarrow> on_complete callback | Some _ \<Rightarrow> fst (on_in_progress callback), c', s') \<and>
    first_in (w_at self (table_of s)) x y r \<and> core_inv self (c', s') \<and>
    table_of s' = (table_of s)
      \<lparr>owner := (owner (table_of s))(l \<mapsto> self),
       rd := (if r = Some x then rd (table_of s)
              else (rd (table_of s))(l \<mapsto> (x, case r of None \<Rightarrow> y | Some i \<Rightarrow> i))),
       pd := (pd (table_of s))(l := map_option (\<lambda>i. waiting (Read l) i y prio (snd (on_in_progress callback))) r)\<rparr>"
proof -
  let ?p = "fresh (Read l) x y prio (snd (on_in_progress callback))"
  from lock_read_ok [OF assms, where dbg = dbg and prio = prio and callback = callback] obtain c' s' r where
    1: "lock_read dbg self (Range x y) prio l callback (c, s) =
      Inr (case r of None \<Rightarrow> on_complete callback | Some _ \<Rightarrow> fst (on_in_progress callback), c', s')"
    and 2: "first_in (conflict_at self (table_of s) (Read l)) x y r"
    and 3: "core_inv self (c', s')" and 4: "table_of s' = resume_table (claim self (table_of s) l ?p) l ?p r"
    unfolding lock_post_def Let_def by blast
  show ?thesis
    using 1 2 [unfolded conflict_read] 3 4 [unfolded lock_table_read [OF free_rows [OF assms(1,2)]]]
    by (intro exI conjI)
qed

text \<open>C14. \<open>lock_write\<close> on a free lock state: the same with the first index that is borrowed in any
  mode.\<close>

theorem lock_write_correct:
  assumes "core_inv self (c, s)" and "owner (table_of s) l = None" and "room self (table_of s)" and "x < y"
  shows "\<exists>r c' s'. lock_write dbg self (Range x y) prio l callback (c, s) =
      Inr (case r of None \<Rightarrow> on_complete callback | Some _ \<Rightarrow> fst (on_in_progress callback), c', s') \<and>
    first_in (\<lambda>i. w_at self (table_of s) i \<or> r_at self (table_of s) i) x y r \<and> core_inv self (c', s') \<and>
    table_of s' = (table_of s)
      \<lparr>owner := (owner (table_of s))(l \<mapsto> self),
       wr := (if r = Some x then wr (table_of s)
              else (wr (table_of s))(l \<mapsto> (x, case r of None \<Rightarrow> y | Some i \<Rightarrow> i))),
       pd := (pd (table_of s))(l := map_option (\<lambda>i. waiting (Write l) i y prio (snd (on_in_progress callback))) r)\<rparr>"
proof -
  let ?p = "fresh (Write l) x y prio (snd (on_in_progress callback))"
  from lock_write_ok [OF assms, where dbg = dbg and prio = prio and callback = callback] obtain c' s' r where
    1: "lock_write dbg self (Range x y) prio l callback (c, s) =
      Inr (case r of None \<Rightarrow> on_complete callback | Some _ \<Rightarrow> fst (on_in_progress callback), c', s')"
    and 2: "first_in (conflict_at self (table_of s) (Write l)) x y r"
    and 3: "core_inv self (c', s')" and 4: "table_of s' = resume_table (claim self (table_of s) l ?p) l ?p r"
    unfolding lock_post_def Let_def by blast
  show ?thesis
    using 1 2 [unfolded conflict_write [abs_def]] 3 4 [unfolded lock_table_write [OF free_rows [OF assms(1,2)]]]
    by (intro exI conjI)
qed

theorem lock_write_correct_witness:
  "\<exists>r c' s'. lock_write True 0 (Range 0 9) 5 TryB demo_callback (fst demo3, snd demo3) =
      Inr (case r of None \<Rightarrow> on_complete demo_callback | Some _ \<Rightarrow> fst (on_in_progress demo_callback), c', s') \<and>
    first_in (\<lambda>i. w_at 0 (table_of (snd demo3)) i \<or> r_at 0 (table_of (snd demo3)) i) 0 9 r \<and> core_inv 0 (c', s') \<and>
    table_of s' = (table_of (snd demo3))
      \<lparr>owner := (owner (table_of (snd demo3)))(TryB \<mapsto> 0),
       wr := (if r = Some 0 then wr (table_of (snd demo3))
              else (wr (table_of (snd demo3)))(TryB \<mapsto> (0, case r of None \<Rightarrow> 9 | Some i \<Rightarrow> i))),
       pd := (pd (table_of (snd demo3)))(TryB := map_option (\<lambda>i. waiting (Write TryB) i 9 5 (snd (on_in_progress demo_callback))) r)\<rparr>"
  by (rule lock_write_correct [OF demo3_inv]) (simp_all add: demo3_facts)

text \<open>\<open>try_lock_read\<close> on a free lock state: it answers whether no index of the range is borrowed
  for writing; then the whole range is borrowed for reading, otherwise nothing changes.\<close>

lemma try_lock_read_correct:
  assumes "core_inv self (c, s)" and "owner (table_of s) l = None" and "room self (table_of s)" and "x < y"
  shows "if \<exists>i. x \<le> i \<and> i < y \<and> w_at self (table_of s) i
    then try_lock_read dbg self (Range x y) l (c, s) = Inr (False, c, s)
    else \<exists>c' s'. try_lock_read dbg self (Range x y) l (c, s) = Inr (True, c', s') \<and> core_inv self (c', s') \<and>
      table_of s' = (table_of s)\<lparr>owner := (owner (table_of s))(l \<mapsto> self), rd := (rd (table_of s))(l \<mapsto> (x, y))\<rparr>"
  using try_lock_read_ok [OF assms, of dbg] unfolding try_post_def conflict_read grant_def lock_state_ptr.case .

text \<open>\<open>try_lock_write\<close> on a free lock state: it answers whether no index of the range is
  borrowed in any mode; then the whole range is borrowed for writing, otherwise nothing changes.\<close>

lemma try_lock_write_correct:
  assumes "core_inv self (c, s)" and "owner (table_of s) l = None" and "room self (table_of s)" and "x < y"
  shows "if \<exists>i. x \<le> i \<and> i < y \<and> (w_at self (table_of s) i \<or> r_at self (table_of s) i)
    then try_lock_write dbg self (Range x y) l (c, s) = Inr (False, c, s)
    else \<exists>c' s'. try_lock_write dbg self (Range x y) l (c, s) = Inr (True, c', s') \<and> core_inv self (c', s') \<and>
      table_of s' = (table_of s)\<lparr>owner := (owner (table_of s))(l \<mapsto> self), wr := (wr (table_of s))(l \<mapsto> (x, y))\<rparr>"
  using try_lock_write_ok [OF assms, of dbg] unfolding try_post_def conflict_write grant_def lock_state_ptr.case .

section \<open>Unlocking\<close>

text \<open>C13. \<open>unlock_read\<close> of a reader lock: it returns the \<open>InProgress\<close> object of a borrow that was still
  pending, releases the lock state, and hands the objects of exactly those locks that become complete to the callback, in
  the reverse order of the pending tree.  All other locks keep what they have and what they asked
  for, and what still waits is blocked by another lock (\<open>core_inv\<close>).\<close>

theorem unlock_read_correct:
  assumes "core_inv self (c, s)" and "owner (table_of s) u = Some self" and "wr (table_of s) u = None"
  shows "\<exists>c' s' log. unlock_read dbg self u callback ((c, s), w) =
      Inr (map_option p_in_progress (pd (table_of s) u), (c', s'),
           fold callback (map (\<lambda>l. p_in_progress (the (pd (table_of s) l))) log) w) \<and>
    core_inv self (c', s') \<and> released u (table_of s) (table_of s') log \<and> in_pending_order c s log"
  using unlock_read_ok [OF assms, of callback w dbg] unfolding unlock_post_def payload_def [abs_def] by blast

lemma demo4_rows:
  "parent_cell (snd demo4) LockB = Some 0" "write_range (view (write_cell (snd demo4))) LockB = None"
  "parent_cell (snd demo4) LockC = Some 0" "read_pair (view (read_cell (snd demo4))) LockC = None"
  by code_simp+

theorem unlock_read_correct_witness:
  "\<exists>c' s' log. unlock_read True 0 LockB collect ((fst demo4, snd demo4), []) =
      Inr (map_option p_in_progress (pd (table_of (snd demo4)) LockB), (c', s'),
           fold collect (map (\<lambda>l. p_in_progress (the (pd (table_of (snd demo4)) l))) log) []) \<and>
    core_inv 0 (c', s') \<and> released LockB (table_of (snd demo4)) (table_of s') log \<and> in_pending_order (fst demo4) (snd demo4) log"
  by (rule unlock_read_correct [OF demo_invs(5)]) (simp_all add: demo4_rows)

text \<open>C12. \<open>unlock_write\<close> of a writer lock: the same.\<close>

theorem unlock_write_correct:
  assumes "core_inv self (c, s)" and "owner (table_of s) u = Some self" and "rd (table_of s) u = None"
  shows "\<exists>c' s' log. unlock_write dbg self u callback ((c, s), w) =
      Inr (map_option p_in_progress (pd (table_of s) u), (c', s'),
           fold callback (map (\<lambda>l. p_in_progress (the (pd (table_of s) l))) log) w) \<and>
    core_inv self (c', s') \<and> released u (table_of s) (table_of s') log \<and> in_pending_order c s log"
  using unlock_write_ok [OF assms, of callback w dbg] unfolding unlock_post_def payload_def [abs_def] by blast

lemma demo3_readers: "read_pair (view (read_cell (snd demo3))) LockA = None"
  by code_simp

theorem unlock_write_correct_witness:
  "\<exists>c' s' log. unlock_write True 0 LockA collect ((fst demo3, snd demo3), []) =
      Inr (map_option p_in_progress (pd (table_of (snd demo3)) LockA), (c', s'),
           fold collect (map (\<lambda>l. p_in_progress (the (pd (table_of (snd demo3)) l))) log) []) \<and>
    core_inv 0 (c', s') \<and> released LockA (table_of (snd demo3)) (table_of s') log \<and> in_pending_order (fst demo3) (snd demo3) log"
  by (rule unlock_write_correct [OF demo3_inv]) (simp_all add: demo3_facts demo3_readers)

end
