(* ===== verification/Core_Contracts.thy ===== *)
theory Core_Contracts
  imports Core_Correct
begin

text \<open>
  The rest of the core's contract: the non-blocking unlocks, round trips, the order of wake-ups, inspection,
  errors and destructors.
\<close>

section \<open>Unlocking the non-blocking locks\<close>

text \<open>Without a pending borrow the non-blocking unlock is the blocking one.\<close>

lemma unlock_try_from:
  assumes "unlock_post self u c s callback w ret (map_sum id (Pair None) res)"
  shows "\<exists>c' s' log. res = Inr ((c', s'), fold callback (map (payload (table_of s)) log) w) \<and>
    core_inv self (c', s') \<and> released u (table_of s) (table_of s') log \<and> in_pending_order c s log"
  using assms unfolding unlock_post_def by (cases res) auto

text \<open>\<open>unlock_try_read\<close> of a lock that holds a read borrow: it does what \<open>unlock_read\<close> does.\<close>

lemma unlock_try_read_correct:
  assumes "core_inv self (c, s)" and "owner (table_of s) u = Some self"
    and "wr (table_of s) u = None" and "pd (table_of s) u = None"
  shows "\<exists>c' s' log. unlock_try_read dbg self u callback ((c, s), w) =
      Inr ((c', s'), fold callback (map (\<lambda>l. p_in_progress (the (pd (table_of s) l))) log) w) \<and>
    core_inv self (c', s') \<and> released u (table_of s) (table_of s') log \<and> in_pending_order c s log"
  using unlock_try_from [OF unlock_read_ok [OF assms(1-3), of callback w dbg, unfolded unlock_try_read_eq [OF assms(4)]]]
  unfolding payload_def [abs_def] .

text \<open>\<open>unlock_try_write\<close> of a lock that holds a write borrow: it does what \<open>unlock_write\<close> does.\<close>

lemma unlock_try_write_correct:
  assumes "core_inv self (c, s)" and "owner (table_of s) u = Some self"
    and "rd (table_of s) u = None" and "pd (table_of s) u = None"
  shows "\<exists>c' s' log. unlock_try_write dbg self u callback ((c, s), w) =
      Inr ((c', s'), fold callback (map (\<lambda>l. p_in_progress (the (pd (table_of s) l))) log) w) \<and>
    core_inv self (c', s') \<and> released u (table_of s) (table_of s') log \<and> in_pending_order c s log"
  using unlock_try_from [OF unlock_write_ok [OF assms(1-3), of callback w dbg, unfolded unlock_try_write_eq [OF assms(4)]]]
  unfolding payload_def [abs_def] .

section \<open>Round trips\<close>

text \<open>C36. A writer lock that is released, or cancelled while it still waits, before anything else
  happens leaves every lock state as it was, and completes nobody's lock.\<close>

theorem lock_write_round_trip:
  assumes "core_inv self (c, s)" and "owner (table_of s) l = None" and "room self (table_of s)" and "x < y"
    and "lock_write dbg self (Range x y) prio l callback (c, s) = Inr (out, c1, s1)"
  shows "\<exists>c2 s2. unlock_write dbg self l ucallback ((c1, s1), w) =
      Inr (map_option p_in_progress (pd (table_of s1) l), (c2, s2), w) \<and>
    core_inv self (c2, s2) \<and> table_of s2 = table_of s"
proof -
  note none = free_rows [OF assms(1,2)]
  from lock_write_correct [OF assms(1-4), of dbg prio callback] assms(5) obtain r where
    1: "core_inv self (c1, s1)" "table_of s1 = (table_of s)
      \<lparr>owner := (owner (table_of s))(l \<mapsto> self),
       wr := (if r = Some x then wr (table_of s)
              else (wr (table_of s))(l \<mapsto> (x, case r of None \<Rightarrow> y | Some i \<Rightarrow> i))),
       pd := (pd (table_of s))(l := map_option (\<lambda>i. waiting (Write l) i y prio (snd (on_in_progress callback))) r)\<rparr>"
    by auto
  have "owner (table_of s1) l = Some self" "rd (table_of s1) l = None"
    unfolding 1(2) using none(1) by (simp_all del: table_of_simps)
  from unlock_write_correct [OF 1(1) this, of dbg ucallback w] obtain c2 s2 log where
    2: "unlock_write dbg self l ucallback ((c1, s1), w) =
      Inr (map_option p_in_progress (pd (table_of s1) l), (c2, s2),
           fold ucallback (map (\<lambda>l. p_in_progress (the (pd (table_of s1) l))) log) w)"
    "core_inv self (c2, s2)" "released l (table_of s1) (table_of s2) log" by blast
  have "table_of s2 = table_of s \<and> log = []"
    by (rule leave_no_trace [OF assms(1) 2(2) assms(2) _ _ 2(3)]) (simp_all add: 1(2) del: table_of_simps)
  with 2 show ?thesis by simp
qed

theorem lock_write_round_trip_witness:
  "\<exists>c1 s1 out c2 s2. lock_write True 0 (Range 3 9) 5 TryB demo_callback (fst demo3, snd demo3) = Inr (out, c1, s1) \<and>
    unlock_write True 0 TryB collect ((c1, s1), []) =
      Inr (map_option p_in_progress (pd (table_of s1) TryB), (c2, s2), []) \<and>
    core_inv 0 (c2, s2) \<and> table_of s2 = table_of (snd demo3)"
proof -
  have "(case lock_write True 0 (Range 3 9) 5 TryB demo_callback (fst demo3, snd demo3) of Inl _ \<Rightarrow> False | Inr _ \<Rightarrow> True)"
    by code_simp
  then obtain out c1 s1 where *: "lock_write True 0 (Range 3 9) 5 TryB demo_callback (fst demo3, snd demo3) = Inr (out, c1, s1)"
    by (auto split: sum.splits)
  from lock_write_round_trip [OF demo3_inv _ _ _ this, of collect "[]"] * show ?thesis
    by (simp add: demo3_facts del: table_of_simps) (simp add: demo3_facts)
qed

text \<open>A successful \<open>try_lock_read\<close> and its \<open>unlock_try_read\<close> are without effect.\<close>

lemma try_lock_read_round_trip:
  assumes "core_inv self (c, s)" and "owner (table_of s) l = None" and "room self (table_of s)" and "x < y"
    and "try_lock_read dbg self (Range x y) l (c, s) = Inr (True, c1, s1)"
  shows "\<exists>c2 s2. unlock_try_read dbg self l ucallback ((c1, s1), w) = Inr ((c2, s2), w) \<and>
    core_inv self (c2, s2) \<and> table_of s2 = table_of s"
proof -
  note none = free_rows [OF assms(1,2)]
  from try_lock_read_correct [OF assms(1-4), of dbg] assms(5) have
    1: "core_inv self (c1, s1)"
      "table_of s1 = (table_of s)\<lparr>owner := (owner (table_of s))(l \<mapsto> self), rd := (rd (table_of s))(l \<mapsto> (x, y))\<rparr>"
    by (auto split: if_splits simp del: table_of_simps)
  have "owner (table_of s1) l = Some self" "wr (table_of s1) l = None" "pd (table_of s1) l = None"
    unfolding 1(2) using none(2,3) by (simp_all del: table_of_simps)
  from unlock_try_read_correct [OF 1(1) this, of dbg ucallback w] obtain c2 s2 log where
    2: "unlock_try_read dbg self l ucallback ((c1, s1), w) =
      Inr ((c2, s2), fold ucallback (map (\<lambda>l. p_in_progress (the (pd (table_of s1) l))) log) w)"
    "core_inv self (c2, s2)" "released l (table_of s1) (table_of s2) log" by blast
  have "table_of s2 = table_of s \<and> log = []"
    by (rule leave_no_trace [OF assms(1) 2(2) assms(2) _ _ 2(3)]) (simp_all add: 1(2) del: table_of_simps)
  with 2 show ?thesis by simp
qed

section \<open>Order of wake-ups\<close>

text \<open>C37. A borrow that becomes pending is put before all pending borrows of the same position and
  priority, and before those of a later position or higher priority.  Since unlocking goes through them from the last one
  down, higher priorities are served first, and equal ones in the order of their arrival.\<close>

theorem pending_order:
  assumes "good self c s qs" and "owner (table_of s) l = Some self" and "pd (table_of s) l = None"
  shows "\<exists>c' s'. remember_pending dbg l (Some p) (c, s) = Some (c', s') \<and>
    olist pending_node_callback pending_le (pending_cell s') (pendings c')
      (filter (\<lambda>(_, q). \<not> pending_le p q) qs @ (l, p) # filter (\<lambda>(_, q). pending_le p q) qs)"
proof -
  let ?g = "goes_right pending_node_callback p :: 'b \<times> ('b, 'c, 'd, 'e) pending \<Rightarrow> bool"
  from remember_pending_ok [OF assms, of dbg p] obtain c' s' where
    1: "remember_pending dbg l (Some p) (c, s) = Some (c', s')" "good self c' s' (list_insert ?g (l, p) qs)" by blast
  have g: "?g = (\<lambda>(_, q). \<not> pending_le p q)"
    by (auto simp: goes_right_def pending_node_callback_def pending_le_def fun_eq_iff)
  have "split_at ?g qs" using assms(1) pending_tree.olist_split unfolding good_def by blast
  then have "takeWhile ?g qs = filter ?g qs" "dropWhile ?g qs = filter (\<lambda>x. \<not> ?g x) qs"
    using split_at_filter by blast+
  then have "list_insert ?g (l, p) qs = filter (\<lambda>(_, q). \<not> pending_le p q) qs @ (l, p) # filter (\<lambda>(_, q). pending_le p q) qs"
    by (simp add: list_insert_def g case_prod_unfold)
  with 1 show ?thesis unfolding good_def by auto
qed


theorem pending_order_witness:
  "\<exists>qs c' s'. remember_pending True LockB (Some (waiting (Read LockB) 4 8 1 11))
      (fst demo1, set_parent_cell (snd demo1) LockB (Some 0)) = Some (c', s') \<and>
    olist pending_node_callback pending_le (pending_cell s') (pendings c')
      (filter (\<lambda>(_, q). \<not> pending_le (waiting (Read LockB) 4 8 1 11) q) qs @ (LockB, waiting (Read LockB) 4 8 1 11) #
       filter (\<lambda>(_, q). pending_le (waiting (Read LockB) 4 8 1 11) q) qs)"
proof -
  let ?s = "set_parent_cell (snd demo1) LockB (Some 0)"
  have "owner (table_of (snd demo1)) LockB = None" by (simp add: demo_owners)
  from set_parent_good [OF demo_invs(2) this] obtain qs where
    "good 0 (fst demo1) ?s qs" "pd (table_of (snd demo1)) LockB = None" by blast
  with pending_order [of 0 "fst demo1" ?s qs LockB True "waiting (Read LockB) 4 8 1 11"]
  have "\<exists>c' s'. remember_pending True LockB (Some (waiting (Read LockB) 4 8 1 11)) (fst demo1, ?s) = Some (c', s') \<and>
    olist pending_node_callback pending_le (pending_cell s') (pendings c')
      (filter (\<lambda>(_, q). \<not> pending_le (waiting (Read LockB) 4 8 1 11) q) qs @ (LockB, waiting (Read LockB) 4 8 1 11) #
       filter (\<lambda>(_, q). pending_le (waiting (Read LockB) 4 8 1 11) q) qs)"
    by (simp add: table_unclaim del: table_of_simps)
  then show ?thesis by blast
qed

section \<open>Inspection\<close>

text \<open>Inspecting a lock of the core tells whether it is complete; an \<open>InProgress\<close> object written through
  the returned reference is the one the next inspection and the unlock callback see, and nothing else changes.\<close>

lemma inspect_and_update:
  assumes "core_inv self (c, s)" and "owner (table_of s) l = Some self" and "pd (table_of s) l = Some p"
  shows "inspect_mut self l (c, s) = Inr (InProgress (p_in_progress p)) \<and>
    (\<exists>s'. set_in_progress l x (c, s) = Some (c, s') \<and> inspect_mut self l (c, s') = Inr (InProgress x) \<and>
      core_inv self (c, s') \<and>
      table_of s' = (table_of s)\<lparr>pd := (pd (table_of s))(l \<mapsto> p\<lparr>p_in_progress := x\<rparr>)\<rparr>)"
proof -
  have i: "inspect_mut self l (c, s') = Inr (InProgress (p_in_progress q))"
    if "owner (table_of s') l = Some self" "pd (table_of s') l = Some q" for s' q
    using that by (auto simp: inspect_mut_def view_Some)
  from set_in_progress_ok [OF assms, of x] obtain s' where
    1: "set_in_progress l x (c, s) = Some (c, s')" "core_inv self (c, s')"
    "table_of s' = (table_of s)\<lparr>pd := (pd (table_of s))(l \<mapsto> p\<lparr>p_in_progress := x\<rparr>)\<rparr>" by blast
  from 1(3) assms(2) have "inspect_mut self l (c, s') = Inr (InProgress (p_in_progress (p\<lparr>p_in_progress := x\<rparr>)))"
    by (intro i) (simp_all del: table_of_simps)
  with 1 i [OF assms(2,3)] show ?thesis by simp
qed

section \<open>Errors\<close>

text \<open>A lock state that is in use, by this or another core, is refused and nothing is changed; a
  non-blocking operation that finds a conflict first reports that instead.\<close>

lemma state_in_use_is_refused:
  assumes "core_inv self (c, s)" and "owner (table_of s) l \<noteq> None" and "x < y"
  shows "lock_read dbg self (Range x y) prio l callback (c, s) = Inl LockStateInUse \<and>
    lock_write dbg self (Range x y) prio l callback (c, s) = Inl LockStateInUse \<and>
    try_lock_read dbg self (Range x y) l (c, s) =
      (if \<exists>i. x \<le> i \<and> i < y \<and> w_at self (table_of s) i then Inr (False, c, s) else Inl LockStateInUse) \<and>
    try_lock_write dbg self (Range x y) l (c, s) =
      (if \<exists>i. x \<le> i \<and> i < y \<and> (w_at self (table_of s) i \<or> r_at self (table_of s) i)
       then Inr (False, c, s) else Inl LockStateInUse)"
proof -
  from search_read_ok [OF assms(1,3)] obtain r where
    r: "first_write_borrow_in_range c s (Range x y) = Some r" "first_in (w_at self (table_of s)) x y r" by auto
  from search_write_ok [OF assms(1,3), of dbg l] obtain r0 r1 where
    w: "first_write_borrow_in_range c s (Range x y) = Some r0" "first_read_borrow_in_range dbg c s (Range x y) = Some r1"
    "first_in (\<lambda>i. w_at self (table_of s) i \<or> r_at self (table_of s) i) x y (first_conflict r0 r1)"
    unfolding conflict_write [abs_def] by blast
  have fc: "first_conflict r0 r1 = None \<longleftrightarrow> r0 = None \<and> r1 = None"
    by (auto simp: first_conflict_def split: option.splits)
  have use: "parent_cell s l \<noteq> None" using assms(2) by simp
  have "lock_read dbg self (Range x y) prio l callback (c, s) = Inl LockStateInUse"
    using r(1) use assms(3) by (cases "plan_lock (Read l) (Range x y) prio callback r") (simp add: lock_read_def)
  moreover have "lock_write dbg self (Range x y) prio l callback (c, s) = Inl LockStateInUse"
    using w(1,2) use assms(3)
    by (cases "plan_lock (Write l) (Range x y) prio callback (first_conflict r0 r1)") (simp add: lock_write_def)
  moreover have "try_lock_read dbg self (Range x y) l (c, s) = (if r \<noteq> None then Inr (False, c, s) else Inl LockStateInUse)"
    using r(1) use assms(3) by (auto simp: try_lock_read_def)
  moreover have "try_lock_write dbg self (Range x y) l (c, s) =
      (if first_conflict r0 r1 \<noteq> None then Inr (False, c, s) else Inl LockStateInUse)"
    using w(1,2) use assms(3) unfolding fc by (auto simp: try_lock_write_def)
  ultimately have A: "lock_read dbg self (Range x y) prio l callback (c, s) = Inl LockStateInUse \<and>
      lock_write dbg self (Range x y) prio l callback (c, s) = Inl LockStateInUse \<and>
      try_lock_read dbg self (Range x y) l (c, s) = (if r \<noteq> None then Inr (False, c, s) else Inl LockStateInUse) \<and>
      try_lock_write dbg self (Range x y) l (c, s) =
        (if first_conflict r0 r1 \<noteq> None then Inr (False, c, s) else Inl LockStateInUse)"
    by (intro conjI)
  have e1: "(\<exists>i. x \<le> i \<and> i < y \<and> w_at self (table_of s) i) \<longleftrightarrow> r \<noteq> None"
    using first_in_free [OF r(2)] by meson
  have e2: "(\<exists>i. x \<le> i \<and> i < y \<and> (w_at self (table_of s) i \<or> r_at self (table_of s) i)) \<longleftrightarrow>
      first_conflict r0 r1 \<noteq> None"
    using first_in_free [OF w(3)] by meson
  show ?thesis unfolding e1 e2 by (rule A)
qed

text \<open>A lock state that is not associated with this core, unused or of another core, is refused by
  all unlock operations and by inspection, before anything is changed.\<close>

lemma wrong_parent_is_refused:
  assumes "owner (table_of s) l \<noteq> Some self"
  shows "unlock_read dbg self l callback ((c, s), w) = Inl IncorrectParent \<and>
    unlock_write dbg self l callback ((c, s), w) = Inl IncorrectParent \<and>
    unlock_try_read dbg self l callback ((c, s), w) = Inl IncorrectParent \<and>
    unlock_try_write dbg self l callback ((c, s), w) = Inl IncorrectParent \<and>
    inspect_mut self l (c, s) = Inl IncorrectParent"
  using assms
  by (simp add: unlock_read_def unlock_write_def unlock_try_read_def unlock_try_write_def inspect_mut_def)

text \<open>A debug build refuses every range that is empty or reversed.\<close>

lemma debug_build_refuses_bad_range:
  assumes "y \<le> x"
  shows "lock_read True self (Range x y) prio l callback cs = Inl InvalidRange \<and>
    lock_write True self (Range x y) prio l callback cs = Inl InvalidRange \<and>
    try_lock_read True self (Range x y) l cs = Inl InvalidRange \<and>
    try_lock_write True self (Range x y) l cs = Inl InvalidRange"
  using assms by (auto simp: lock_read_def lock_write_def try_lock_read_def try_lock_write_def split: prod.splits)

text \<open>A release build does not check its ranges, and an empty range then breaks mutual exclusion: after
  writers of 5..8, of the empty range 5..5 and of 9..10, the search for a conflict with 6..7 ends at the empty
  range, and a fourth writer is granted 6..7 although 5..8 is still locked.\<close>

lemma release_build_empty_range_breaks_exclusion:
  "\<exists>cs. run_calls False 0 [TryLockWrite (Range 5 8) LockA, TryLockWrite (Range 5 5) LockB,
        TryLockWrite (Range 9 10) LockC, TryLockWrite (Range 6 7) TryB] demo0 =
      Some ([Locked True, Locked True, Locked True, Locked True], cs) \<and>
    w_covers (table_of (snd cs)) LockA 6 \<and> w_covers (table_of (snd cs)) TryB 6"
proof -
  let ?r = "run_calls False 0 [TryLockWrite (Range 5 8) LockA, TryLockWrite (Range 5 5) LockB,
      TryLockWrite (Range 9 10) LockC, TryLockWrite (Range 6 7) TryB] demo0"
  have "map_option (\<lambda>(rs, cs). (rs, write_range (view (write_cell (snd cs))) LockA,
      write_range (view (write_cell (snd cs))) TryB)) ?r =
    Some ([Locked True, Locked True, Locked True, Locked True], Some (5, 8), Some (6, 7))"
    by code_simp
  then show ?thesis by (auto simp: w_covers_def)
qed

section \<open>Destructors\<close>

text \<open>The destructor of a core is allowed exactly when no lock state belongs to the core.\<close>

lemma core_drop_correct:
  assumes "reachable dbg self kd (c, s)"
  shows "core_drop c = (if \<exists>l. owner (table_of s) l = Some self then Inl StillLocked else Inr ())"
proof -
  have "core_drop c = Inl StillLocked \<or> core_drop c = Inr ()" by (simp add: core_drop_def)
  with core_drop_iff [OF reachable_core_inv [OF assms]] show ?thesis by auto
qed

text \<open>A lock state may be dropped again once its lock has been released, and not before; the same for the
  lock states of other locks, which stay as they are.\<close>

lemma early_drop_after_unlock:
  assumes "core_inv self (c, s)" and "owner (table_of s) u = Some self" and "rd (table_of s) u = None"
    and "unlock_write dbg self u callback ((c, s), w) = Inr (ret, (c', s'), w')"
  shows "early_drop s u = Inl StillLinked \<and> early_drop s' u = Inr () \<and>
    (\<forall>l. l \<noteq> u \<longrightarrow> early_drop s' l = early_drop s l)"
proof -
  from unlock_write_ok [OF assms(1-3), of callback w dbg] assms(4)
  have "owner (table_of s') = (owner (table_of s))(u := None)" by (auto simp: unlock_post_def released_def)
  then have "parent_cell s' = (parent_cell s)(u := None)" by simp
  with assms(2) show ?thesis by (simp add: early_drop_def)
qed

end
