(* ===== verification/Core_Reference.thy ===== *)
theory Core_Reference
  imports Core_Contracts
begin

text \<open>
  The reference implementation in \<open>src/core/rbtree/tests.rs\<close> (module \<open>refr\<close>) against which the tests check the core: one
  readers-writer lock with a queue of waiters for every index.
\<close>

section \<open>Waiters\<close>

record wait =
  w_id :: nat
  w_write :: bool
  w_priority :: nat
  w_order :: nat

text \<open>\<open>Ord\<close>: by descending priority, then by the order of arrival.  The other fields are not compared.\<close>

definition wait_cmp :: "wait \<Rightarrow> wait \<Rightarrow> ordering" where
  "wait_cmp a b = then_ord (cmp (w_priority b) (w_priority a)) (cmp (w_order a) (w_order b))"

text \<open>A \<open>BTreeSet\<close> of waiters is its list in ascending order; \<open>insert\<close> keeps an equal item, \<open>remove\<close> is asserted to find one.\<close>

definition wait_insert :: "wait \<Rightarrow> wait list \<Rightarrow> wait list" where
  "wait_insert w ws = (if \<exists>x\<in>set ws. wait_cmp w x = Equal then ws else list_insert (\<lambda>x. wait_cmp x w = Less) w ws)"

definition wait_remove :: "wait \<Rightarrow> wait list \<Rightarrow> wait list option" where
  "wait_remove w ws = (if \<exists>x\<in>set ws. wait_cmp w x = Equal then Some (filter (\<lambda>x. wait_cmp w x \<noteq> Equal) ws) else None)"

section \<open>The state\<close>

record rw_lock =
  owners :: "(nat \<times> bool) set"
  waits :: "wait list"
  next_order :: nat

record ref_lock =
  lk_range :: "nat range"
  lk_write :: bool
  lk_pos :: nat
  lk_priority :: nat
  lk_order :: "nat option"

text \<open>\<open>RwLockSet\<close>: a vector of \<open>LEN\<close> locks, of which a partial function has the items, and the interval locks.\<close>

type_synonym rw_locks = "nat \<Rightarrow> rw_lock option"

record ref_set =
  rw_locks :: rw_locks
  ref_locks :: "nat \<Rightarrow> ref_lock option"

definition LEN :: nat where
  "LEN = 32"

definition rw_lock_default :: rw_lock where
  "rw_lock_default = \<lparr>owners = {}, waits = [], next_order = 0\<rparr>"

definition ref_new :: ref_set where
  "ref_new = \<lparr>rw_locks = (\<lambda>i. if i < LEN then Some rw_lock_default else None), ref_locks = Map.empty\<rparr>"

section \<open>The operations\<close>

text \<open>The wait of a lock is taken away, if it has one.\<close>

definition take_wait :: "nat \<Rightarrow> ref_lock \<Rightarrow> rw_locks \<Rightarrow> (ref_lock \<times> rw_locks) option" where
  "take_wait k lk rw = (case lk_order lk of
     None \<Rightarrow> Some (lk, rw)
   | Some order \<Rightarrow> do {
       rwl \<leftarrow> rw (lk_pos lk);
       ws \<leftarrow> wait_remove \<lparr>w_id = k, w_write = lk_write lk, w_priority = lk_priority lk, w_order = order\<rparr> (waits rwl);
       Some (lk\<lparr>lk_order := None\<rparr>, rw(lk_pos lk \<mapsto> rwl\<lparr>waits := ws\<rparr>))
     })"

text \<open>
  A reader looks at one of the owners only, \<open>owners.iter().next()\<close>.  Which one, \<open>pick\<close>, is up to the hash set.
\<close>

definition is_blocked :: "((nat \<times> bool) set \<Rightarrow> nat \<times> bool) \<Rightarrow> bool \<Rightarrow> rw_lock \<Rightarrow> bool" where
  "is_blocked pick write rwl \<longleftrightarrow> (if write then owners rwl \<noteq> {} else owners rwl \<noteq> {} \<and> snd (pick (owners rwl)))"

function advance ::
  "((nat \<times> bool) set \<Rightarrow> nat \<times> bool) \<Rightarrow> nat \<Rightarrow> ref_lock \<Rightarrow> rw_locks \<Rightarrow> (ref_lock \<times> rw_locks) option" where
  "advance pick k lk rw =
     (if lk_pos lk < rng_end (lk_range lk) then (case rw (lk_pos lk) of
        None \<Rightarrow> None
      | Some rwl \<Rightarrow>
          (if is_blocked pick (lk_write lk) rwl then Some (lk, rw)
           else advance pick k (lk\<lparr>lk_pos := lk_pos lk + 1\<rparr>)
             (rw(lk_pos lk \<mapsto> rwl\<lparr>owners := insert (k, lk_write lk) (owners rwl)\<rparr>))))
      else Some (lk, rw))"
  by pat_completeness auto

termination
  by (relation "measure (\<lambda>(pick, k, lk, rw). rng_end (lk_range lk) - lk_pos lk)") auto

declare advance.simps [simp del]

definition wait_on :: "nat \<Rightarrow> ref_lock \<Rightarrow> rw_locks \<Rightarrow> (ref_lock \<times> rw_locks) option" where
  "wait_on k lk rw =
     (if lk_pos lk < rng_end (lk_range lk) then do {
        rwl \<leftarrow> rw (lk_pos lk);
        let order = next_order rwl;
        Some (lk\<lparr>lk_order := Some order\<rparr>, rw(lk_pos lk \<mapsto> rwl\<lparr>next_order := next_order rwl + 1,
          waits := wait_insert \<lparr>w_id = k, w_write = lk_write lk, w_priority = lk_priority lk, w_order = order\<rparr>
            (waits rwl)\<rparr>))
      } else Some (lk, rw))"

definition ref_resume ::
  "((nat \<times> bool) set \<Rightarrow> nat \<times> bool) \<Rightarrow> nat \<Rightarrow> ref_set \<Rightarrow> (bool \<times> ref_set) option" where
  "ref_resume pick k st = do {
     lk \<leftarrow> ref_locks st k;
     (lk, rw) \<leftarrow> take_wait k lk (rw_locks st);
     (lk, rw) \<leftarrow> advance pick k lk rw;
     (lk, rw) \<leftarrow> wait_on k lk rw;
     Some (lk_pos lk = rng_end (lk_range lk), \<lparr>rw_locks = rw, ref_locks = (ref_locks st)(k \<mapsto> lk)\<rparr>)
   }"

definition ref_do_lock ::
  "((nat \<times> bool) set \<Rightarrow> nat \<times> bool) \<Rightarrow> nat \<Rightarrow> nat range \<Rightarrow> bool \<Rightarrow> nat \<Rightarrow> ref_set \<Rightarrow> (bool \<times> ref_set) option" where
  "ref_do_lock pick k r write priority st = ref_resume pick k (st\<lparr>ref_locks := (ref_locks st)(k \<mapsto>
     \<lparr>lk_range = r, lk_write = write, lk_pos = rng_start r, lk_priority = priority, lk_order = None\<rparr>)\<rparr>)"

fun resume_all ::
  "((nat \<times> bool) set \<Rightarrow> nat \<times> bool) \<Rightarrow> nat list \<Rightarrow> ref_set \<Rightarrow> ref_set option" where
  "resume_all pick [] st = Some st"
| "resume_all pick (k # ks) st = do { (_, st) \<leftarrow> ref_resume pick k st; resume_all pick ks st }"

text \<open>The loop of \<open>unlock\<close> from the last index that is owned down to the first.\<close>

fun release_loop ::
  "((nat \<times> bool) set \<Rightarrow> nat \<times> bool) \<Rightarrow> nat \<Rightarrow> bool \<Rightarrow> nat \<Rightarrow> nat \<Rightarrow> ref_set \<Rightarrow> ref_set option" where
  "release_loop pick k write start 0 st = Some st"
| "release_loop pick k write start (Suc pos) st =
     (if start < Suc pos then do {
        rwl \<leftarrow> rw_locks st pos;
        let st = st\<lparr>rw_locks := (rw_locks st)(pos \<mapsto> rwl\<lparr>owners := owners rwl - {(k, write)}\<rparr>)\<rparr>;
        st \<leftarrow> resume_all pick (map w_id (waits rwl)) st;
        release_loop pick k write start pos st
      } else Some st)"

definition ref_do_unlock ::
  "((nat \<times> bool) set \<Rightarrow> nat \<times> bool) \<Rightarrow> nat \<Rightarrow> ref_set \<Rightarrow> ref_set option" where
  "ref_do_unlock pick k st = do {
     lk \<leftarrow> ref_locks st k;
     (lk, rw) \<leftarrow> take_wait k lk (rw_locks st);
     release_loop pick k (lk_write lk) (rng_start (lk_range lk)) (lk_pos lk)
       \<lparr>rw_locks = rw, ref_locks = (ref_locks st)(k := None)\<rparr>
   }"

definition ref_is_complete :: "nat \<Rightarrow> ref_set \<Rightarrow> bool option" where
  "ref_is_complete k st = do { lk \<leftarrow> ref_locks st k; Some (lk_pos lk = rng_end (lk_range lk)) }"

section \<open>Sorted waiters\<close>

definition wait_less :: "wait \<Rightarrow> wait \<Rightarrow> bool" where
  "wait_less a b \<longleftrightarrow> wait_cmp a b = Less"

lemma wait_less_iff: "wait_less a b \<longleftrightarrow> w_priority b < w_priority a \<or> w_priority a = w_priority b \<and> w_order a < w_order b"
  by (auto simp: wait_less_def wait_cmp_def)

lemma wait_equal_iff: "wait_cmp a b = Equal \<longleftrightarrow> w_priority a = w_priority b \<and> w_order a = w_order b"
  by (auto simp: wait_cmp_def)

lemma wait_sorted_unique:
  "sorted_wrt wait_less xs \<Longrightarrow> sorted_wrt wait_less ys \<Longrightarrow> set xs = set ys \<Longrightarrow> xs = ys"
proof (induction xs arbitrary: ys)
  case (Cons x xs)
  then obtain y ys' where ys: "ys = y # ys'" by (cases ys) auto
  have "x = y"
  proof (rule ccontr)
    assume "x \<noteq> y"
    with Cons.prems ys have "wait_less y x" "wait_less x y" by auto
    then show False by (auto simp: wait_less_iff)
  qed
  moreover have "x \<notin> set xs" "y \<notin> set ys'" using Cons.prems ys by (auto simp: wait_less_iff)
  ultimately have "set xs = set ys'" using Cons.prems(3) ys by auto
  with Cons ys \<open>x = y\<close> show ?case by simp
qed simp

lemma wait_remove_ok:
  assumes "sorted_wrt wait_less ws" and "w \<in> set ws"
  obtains ws' where "wait_remove w ws = Some ws'" "sorted_wrt wait_less ws'" "set ws' = set ws - {w}"
proof -
  have eq: "wait_cmp w x = Equal \<longleftrightarrow> x = w" if "x \<in> set ws" for x
  proof
    assume e: "wait_cmp w x = Equal"
    from assms that obtain i j where ij: "i < length ws" "j < length ws" "ws ! i = w" "ws ! j = x" by (metis in_set_conv_nth)
    have "i = j"
    proof (rule ccontr)
      assume "i \<noteq> j"
      with ij sorted_wrt_nth_less [OF assms(1)] have "wait_less w x \<or> wait_less x w" by (metis linorder_neqE_nat)
      with e show False by (auto simp: wait_equal_iff wait_less_iff)
    qed
    with ij show "x = w" by simp
  qed (simp add: wait_equal_iff)
  let ?ws = "filter (\<lambda>x. wait_cmp w x \<noteq> Equal) ws"
  have "wait_remove w ws = Some ?ws" using assms(2) eq by (auto simp: wait_remove_def)
  moreover have "sorted_wrt wait_less ?ws" using assms(1) by (rule sorted_wrt_filter)
  moreover have "set ?ws = set ws - {w}" using eq by auto
  ultimately show ?thesis by (rule that)
qed

lemma wait_insert_ok:
  assumes "sorted_wrt wait_less ws" and "\<forall>x\<in>set ws. w_order x < w_order w"
  shows "sorted_wrt wait_less (wait_insert w ws)" "set (wait_insert w ws) = insert w (set ws)"
proof -
  have ne: "\<not> (\<exists>x\<in>set ws. wait_cmp w x = Equal)" using assms(2) by (auto simp: wait_equal_iff)
  then have ins: "wait_insert w ws = list_insert (\<lambda>x. wait_less x w) w ws" by (simp add: wait_insert_def wait_less_def)
  then show "set (wait_insert w ws) = insert w (set ws)" by simp
  have "split_at (\<lambda>x. wait_less x w) ws"
    using assms(1) unfolding split_at_def by (rule sorted_wrt_mono_rel [rotated]) (auto simp: wait_less_iff)
  then obtain us vs where ws: "ws = us @ vs" "\<forall>u\<in>set us. wait_less u w" "\<forall>v\<in>set vs. \<not> wait_less v w"
    by (rule split_at_cases)
  have "\<forall>v\<in>set vs. wait_less w v" using ws assms(2) by (force simp: wait_less_iff)
  with ws assms(1) show "sorted_wrt wait_less (wait_insert w ws)"
    unfolding ins by (auto simp: list_insert_split sorted_wrt_append wait_less_iff)
qed

section \<open>Well-formed reference states\<close>

text \<open>The waits at an index are those of the locks that stand there and have an order.\<close>

definition waiters :: "(nat \<Rightarrow> ref_lock option) \<Rightarrow> nat \<Rightarrow> wait set" where
  "waiters L i = {w. \<exists>lk. L (w_id w) = Some lk \<and> lk_pos lk = i \<and> lk_order lk = Some (w_order w) \<and>
     w_write w = lk_write lk \<and> w_priority w = lk_priority lk}"

definition ref_ok :: "rw_locks \<Rightarrow> (nat \<Rightarrow> ref_lock option) \<Rightarrow> bool" where
  "ref_ok rw L \<longleftrightarrow> (\<forall>i. rw i \<noteq> None \<longleftrightarrow> i < LEN) \<and>
     (\<forall>k lk. L k = Some lk \<longrightarrow> rng_end (lk_range lk) \<le> LEN \<and> (lk_order lk \<noteq> None \<longrightarrow> lk_pos lk < LEN)) \<and>
     (\<forall>i rwl. rw i = Some rwl \<longrightarrow> sorted_wrt wait_less (waits rwl) \<and> (\<forall>w\<in>set (waits rwl). w_order w < next_order rwl) \<and>
        set (waits rwl) = waiters L i)"

definition owners_at :: "rw_locks \<Rightarrow> nat \<Rightarrow> (nat \<times> bool) set" where
  "owners_at rw i = (case rw i of None \<Rightarrow> {} | Some rwl \<Rightarrow> owners rwl)"

definition busy :: "bool \<Rightarrow> rw_locks \<Rightarrow> nat \<Rightarrow> bool" where
  "busy write rw i \<longleftrightarrow> owners_at rw i \<noteq> {} \<and> (write \<or> (\<exists>x\<in>owners_at rw i. snd x))"

text \<open>A writer owns an index alone, so any owner tells a reader whether there is one.\<close>

definition homogeneous :: "(nat \<times> bool) set \<Rightarrow> bool" where
  "homogeneous A \<longleftrightarrow> (\<forall>x\<in>A. \<forall>y\<in>A. snd x \<longrightarrow> x = y)"

abbreviation picks :: "((nat \<times> bool) set \<Rightarrow> nat \<times> bool) \<Rightarrow> bool" where
  "picks pick \<equiv> \<forall>A. A \<noteq> {} \<longrightarrow> pick A \<in> A"

lemma is_blocked_iff:
  assumes "picks pick" and "rw i = Some rwl" and "homogeneous (owners rwl)"
  shows "is_blocked pick write rwl \<longleftrightarrow> busy write rw i"
proof (cases "owners rwl = {}")
  case False
  with assms(1) have "pick (owners rwl) \<in> owners rwl" by blast
  with assms(3) have "snd (pick (owners rwl)) \<longleftrightarrow> (\<exists>x\<in>owners rwl. snd x)" unfolding homogeneous_def by metis
  with False assms(2) show ?thesis by (simp add: is_blocked_def busy_def owners_at_def)
qed (use assms(2) in \<open>simp add: is_blocked_def busy_def owners_at_def\<close>)

lemma take_wait_ok:
  assumes ok: "ref_ok rw L" and lk: "L k = Some lk"
  shows "\<exists>rw'. take_wait k lk rw = Some (lk\<lparr>lk_order := None\<rparr>, rw') \<and> ref_ok rw' (L(k \<mapsto> lk\<lparr>lk_order := None\<rparr>)) \<and>
    owners_at rw' = owners_at rw \<and> (\<forall>i. map_option next_order (rw' i) = map_option next_order (rw i))"
proof (cases "lk_order lk")
  case None
  then have "lk\<lparr>lk_order := None\<rparr> = lk" by simp
  with None ok lk show ?thesis by (intro exI [of _ rw]) (simp add: take_wait_def fun_upd_idem)
next
  case (Some order)
  let ?w = "\<lparr>w_id = k, w_write = lk_write lk, w_priority = lk_priority lk, w_order = order\<rparr>"
  let ?L = "L(k \<mapsto> lk\<lparr>lk_order := None\<rparr>)"
  from ok lk Some have "lk_pos lk < LEN" by (simp add: ref_ok_def)
  with ok obtain rwl where rwl: "rw (lk_pos lk) = Some rwl" unfolding ref_ok_def by blast
  with ok have srt: "sorted_wrt wait_less (waits rwl)" and ws: "set (waits rwl) = waiters L (lk_pos lk)"
    and lt: "\<forall>w\<in>set (waits rwl). w_order w < next_order rwl" by (simp_all add: ref_ok_def)
  have "?w \<in> set (waits rwl)" using lk Some by (simp add: ws waiters_def)
  from wait_remove_ok [OF srt this] obtain ws' where
    ws': "wait_remove ?w (waits rwl) = Some ws'" "sorted_wrt wait_less ws'" "set ws' = set (waits rwl) - {?w}" .
  let ?rw = "rw(lk_pos lk \<mapsto> rwl\<lparr>waits := ws'\<rparr>)"
  have "waiters ?L i = waiters L i - (if i = lk_pos lk then {?w} else {})" for i
  proof (rule set_eqI)
    fix w :: wait
    show "w \<in> waiters ?L i \<longleftrightarrow> w \<in> waiters L i - (if i = lk_pos lk then {?w} else {})"
      using lk Some by (cases w; cases "w_id w = k") (auto simp: waiters_def)
  qed
  then have "ref_ok ?rw ?L" using ok rwl ws ws'(2,3) lt lk by (auto simp: ref_ok_def)
  moreover have "owners_at ?rw = owners_at rw" using rwl by (auto simp: owners_at_def fun_eq_iff)
  moreover have "\<forall>i. map_option next_order (?rw i) = map_option next_order (rw i)" using rwl by simp
  ultimately show ?thesis using Some rwl ws'(1) by (intro exI [of _ ?rw]) (simp add: take_wait_def)
qed

definition upto_conflict :: "nat range \<Rightarrow> nat option \<Rightarrow> nat" where
  "upto_conflict r c = (case c of None \<Rightarrow> rng_end r | Some i \<Rightarrow> i)"

lemma upto_conflict_simps [simp]: "upto_conflict r None = rng_end r" "upto_conflict r (Some i) = i"
  by (simp_all add: upto_conflict_def)

lemma first_in_Suc:
  assumes "\<not> C x" and "first_in C (Suc x) y r"
  shows "first_in C x y r"
proof -
  have "j = x \<or> Suc x \<le> j" if "x \<le> j" for j using that by auto
  with assms show ?thesis unfolding first_in_def by (auto split: option.splits)
qed

lemma advance_ok:
  assumes "picks pick" and "\<forall>i. rw i \<noteq> None \<longleftrightarrow> i < LEN" and "rng_end (lk_range lk) \<le> LEN" "lk_pos lk \<le> rng_end (lk_range lk)"
    and "\<forall>i\<ge>lk_pos lk. homogeneous (owners_at rw i)"
  shows "\<exists>c rw'. advance pick k lk rw = Some (lk\<lparr>lk_pos := upto_conflict (lk_range lk) c\<rparr>, rw') \<and>
    first_in (busy (lk_write lk) rw) (lk_pos lk) (rng_end (lk_range lk)) c \<and>
    (\<forall>i. rw' i = (if lk_pos lk \<le> i \<and> i < upto_conflict (lk_range lk) c
       then map_option (\<lambda>rwl. rwl\<lparr>owners := insert (k, lk_write lk) (owners rwl)\<rparr>) (rw i) else rw i))"
  using assms
proof (induction pick k lk rw rule: advance.induct)
  case (1 pick k lk rw)
  show ?case
  proof (cases "lk_pos lk < rng_end (lk_range lk)")
    case False
    with 1(5) have "lk_pos lk = rng_end (lk_range lk)" by simp
    with False show ?thesis
      by (intro exI [of _ None] exI [of _ rw]) (auto simp: advance.simps first_in_def)
  next
    case lt: True
    with 1(3,4) obtain rwl where rwl: "rw (lk_pos lk) = Some rwl" by (metis not_None_eq order_less_le_trans)
    from 1(6) rwl have "homogeneous (owners rwl)" by (auto simp: owners_at_def)
    with is_blocked_iff [of pick rw "lk_pos lk" rwl "lk_write lk"] 1(2) rwl
    have bl: "is_blocked pick (lk_write lk) rwl \<longleftrightarrow> busy (lk_write lk) rw (lk_pos lk)" by blast
    show ?thesis
    proof (cases "is_blocked pick (lk_write lk) rwl")
      case True
      with lt rwl bl show ?thesis
        by (intro exI [of _ "Some (lk_pos lk)"] exI [of _ rw]) (auto simp: advance.simps first_in_def)
    next
      case False
      let ?lk = "lk\<lparr>lk_pos := lk_pos lk + 1\<rparr>" and ?rwl = "rwl\<lparr>owners := insert (k, lk_write lk) (owners rwl)\<rparr>"
      let ?rw = "rw(lk_pos lk \<mapsto> ?rwl)"
      have same: "owners_at ?rw i = owners_at rw i" if "lk_pos lk + 1 \<le> i" for i using that by (simp add: owners_at_def)
      have "\<exists>c rw'. advance pick k ?lk ?rw = Some (?lk\<lparr>lk_pos := upto_conflict (lk_range ?lk) c\<rparr>, rw') \<and>
        first_in (busy (lk_write ?lk) ?rw) (lk_pos ?lk) (rng_end (lk_range ?lk)) c \<and>
        (\<forall>i. rw' i = (if lk_pos ?lk \<le> i \<and> i < upto_conflict (lk_range ?lk) c
           then map_option (\<lambda>rwl. rwl\<lparr>owners := insert (k, lk_write ?lk) (owners rwl)\<rparr>) (?rw i) else ?rw i))"
      proof (rule 1(1) [OF lt rwl False 1(2)])
        show "\<forall>i. ?rw i \<noteq> None \<longleftrightarrow> i < LEN" using 1(3,4) lt by auto
        show "\<forall>i\<ge>lk_pos ?lk. homogeneous (owners_at ?rw i)" using 1(6) same by (simp del: fun_upd_apply)
      qed (use 1(4) lt in auto)
      then obtain c rw' where
        c: "advance pick k ?lk ?rw = Some (lk\<lparr>lk_pos := upto_conflict (lk_range lk) c\<rparr>, rw')"
        "first_in (busy (lk_write lk) ?rw) (lk_pos lk + 1) (rng_end (lk_range lk)) c"
        "\<forall>i. rw' i = (if lk_pos lk + 1 \<le> i \<and> i < upto_conflict (lk_range lk) c
           then map_option (\<lambda>rwl. rwl\<lparr>owners := insert (k, lk_write lk) (owners rwl)\<rparr>) (?rw i) else ?rw i)"
        by auto
      have "first_in (busy (lk_write lk) rw) (lk_pos lk + 1) (rng_end (lk_range lk)) c"
        using c(2) first_in_cong [of "lk_pos lk + 1" "busy (lk_write lk) ?rw" "busy (lk_write lk) rw"] same
        by (simp add: busy_def)
      with False bl have f: "first_in (busy (lk_write lk) rw) (lk_pos lk) (rng_end (lk_range lk)) c"
        by (auto intro: first_in_Suc)
      have pos: "lk_pos lk < upto_conflict (lk_range lk) c"
        using c(2) lt by (auto simp: first_in_def upto_conflict_def split: option.splits)
      have "advance pick k lk rw = Some (lk\<lparr>lk_pos := upto_conflict (lk_range lk) c\<rparr>, rw')"
        using lt rwl False c(1) by (subst advance.simps) simp
      moreover have "rw' i = (if lk_pos lk \<le> i \<and> i < upto_conflict (lk_range lk) c
           then map_option (\<lambda>rwl. rwl\<lparr>owners := insert (k, lk_write lk) (owners rwl)\<rparr>) (rw i) else rw i)" for i
        using c(3) pos rwl by (cases "i = lk_pos lk") auto
      ultimately show ?thesis using f by blast
    qed
  qed
qed

lemma wait_on_ok:
  assumes ok: "ref_ok rw L" and lk: "L k = Some lk" "lk_order lk = None" "lk_pos lk < rng_end (lk_range lk)"
  shows "\<exists>rwl rw'. rw (lk_pos lk) = Some rwl \<and> wait_on k lk rw = Some (lk\<lparr>lk_order := Some (next_order rwl)\<rparr>, rw') \<and>
    ref_ok rw' (L(k \<mapsto> lk\<lparr>lk_order := Some (next_order rwl)\<rparr>)) \<and> owners_at rw' = owners_at rw"
proof -
  from ok lk have len: "rng_end (lk_range lk) \<le> LEN" by (simp add: ref_ok_def)
  with ok lk obtain rwl where rwl: "rw (lk_pos lk) = Some rwl" unfolding ref_ok_def by (metis not_None_eq order_less_le_trans)
  let ?w = "\<lparr>w_id = k, w_write = lk_write lk, w_priority = lk_priority lk, w_order = next_order rwl\<rparr>"
  let ?lk = "lk\<lparr>lk_order := Some (next_order rwl)\<rparr>"
  let ?ws = "wait_insert ?w (waits rwl)"
  let ?rw = "rw(lk_pos lk \<mapsto> rwl\<lparr>next_order := next_order rwl + 1, waits := ?ws\<rparr>)"
  from ok rwl have srt: "sorted_wrt wait_less (waits rwl)" and ws: "set (waits rwl) = waiters L (lk_pos lk)"
    and lt: "\<forall>w\<in>set (waits rwl). w_order w < next_order rwl" by (simp_all add: ref_ok_def)
  from lt have "\<forall>x\<in>set (waits rwl). w_order x < w_order ?w" by simp
  note ins = wait_insert_ok [OF srt this]
  have "waiters (L(k \<mapsto> ?lk)) i = waiters L i \<union> (if i = lk_pos lk then {?w} else {})" for i
  proof (rule set_eqI)
    fix w :: wait
    show "w \<in> waiters (L(k \<mapsto> ?lk)) i \<longleftrightarrow> w \<in> waiters L i \<union> (if i = lk_pos lk then {?w} else {})"
      using lk by (cases w; cases "w_id w = k") (auto simp: waiters_def)
  qed
  then have "ref_ok ?rw (L(k \<mapsto> ?lk))"
    using ok rwl ins ws lt lk len unfolding ref_ok_def by (auto simp: less_Suc_eq)
  moreover have "owners_at ?rw = owners_at rw" using rwl by (auto simp: owners_at_def fun_eq_iff)
  moreover have "wait_on k lk rw = Some (?lk, ?rw)" using rwl lk by (simp add: wait_on_def Let_def)
  ultimately show ?thesis using rwl by blast
qed

text \<open>\<open>resume\<close>: the lock owns all indices up to the first conflict and waits there, as the youngest of its priority.\<close>

lemma ref_resume_ok:
  assumes ok: "ref_ok (rw_locks st) (ref_locks st)" and lk: "ref_locks st k = Some lk" "lk_pos lk \<le> rng_end (lk_range lk)"
    and pick: "picks pick" and hom: "\<forall>i\<ge>lk_pos lk. homogeneous (owners_at (rw_locks st) i)"
  shows "\<exists>c st' order. ref_resume pick k st = Some (c = None, st') \<and>
    first_in (busy (lk_write lk) (rw_locks st)) (lk_pos lk) (rng_end (lk_range lk)) c \<and>
    ref_ok (rw_locks st') (ref_locks st') \<and>
    ref_locks st' = (ref_locks st)(k \<mapsto> lk\<lparr>lk_pos := upto_conflict (lk_range lk) c, lk_order := map_option (\<lambda>_. order) c\<rparr>) \<and>
    (\<forall>i. owners_at (rw_locks st') i = owners_at (rw_locks st) i \<union>
      (if lk_pos lk \<le> i \<and> i < upto_conflict (lk_range lk) c then {(k, lk_write lk)} else {})) \<and>
    (\<forall>i k' lk' order'. c = Some i \<longrightarrow> k' \<noteq> k \<longrightarrow> ref_locks st k' = Some lk' \<longrightarrow> lk_pos lk' = i \<longrightarrow>
      lk_order lk' = Some order' \<longrightarrow> order' < order)"
proof -
  let ?e = "rng_end (lk_range lk)" and ?L = "ref_locks st" and ?rw = "rw_locks st"
  let ?lk1 = "lk\<lparr>lk_order := None\<rparr>"
  from take_wait_ok [OF ok lk(1)] obtain rw1 where
    1: "take_wait k lk ?rw = Some (?lk1, rw1)" "ref_ok rw1 (?L(k \<mapsto> ?lk1))" "owners_at rw1 = owners_at ?rw"
    "\<forall>i. map_option next_order (rw1 i) = map_option next_order (?rw i)" by blast
  from ok lk have len: "?e \<le> LEN" by (simp add: ref_ok_def)
  from 1(2) have dom1: "\<forall>i. rw1 i \<noteq> None \<longleftrightarrow> i < LEN" unfolding ref_ok_def by blast
  have busy: "busy b rw1 = busy b ?rw" for b by (simp add: busy_def [abs_def] 1(3))
  from advance_ok [OF pick dom1, of ?lk1 k] len lk(2) hom obtain c rw2 where
    2: "advance pick k ?lk1 rw1 = Some (?lk1\<lparr>lk_pos := upto_conflict (lk_range lk) c\<rparr>, rw2)"
    "first_in (busy (lk_write lk) ?rw) (lk_pos lk) ?e c"
    "\<forall>i. rw2 i = (if lk_pos lk \<le> i \<and> i < upto_conflict (lk_range lk) c
       then map_option (\<lambda>rwl. rwl\<lparr>owners := insert (k, lk_write lk) (owners rwl)\<rparr>) (rw1 i) else rw1 i)"
    by (auto simp: 1(3) busy)
  let ?lk2 = "lk\<lparr>lk_pos := upto_conflict (lk_range lk) c, lk_order := None\<rparr>"
  have lk2: "?lk1\<lparr>lk_pos := upto_conflict (lk_range lk) c\<rparr> = ?lk2" by (cases lk) simp
  have "waiters (?L(k \<mapsto> ?lk2)) i = waiters (?L(k \<mapsto> ?lk1)) i" for i by (auto simp: waiters_def)
  then have ok2: "ref_ok rw2 (?L(k \<mapsto> ?lk2))"
    using 1(2) 2(3) len unfolding ref_ok_def by (auto split: if_splits)
  have own2: "owners_at rw2 i = owners_at ?rw i \<union>
      (if lk_pos lk \<le> i \<and> i < upto_conflict (lk_range lk) c then {(k, lk_write lk)} else {})" for i
  proof -
    have "rw1 i \<noteq> None" if "i < upto_conflict (lk_range lk) c"
      using that 2(2) len dom1 by (auto simp: first_in_def upto_conflict_def simp del: not_None_eq split: option.splits)
    then show ?thesis using 2(3) fun_cong [OF 1(3), of i] by (auto simp: owners_at_def split: option.splits)
  qed
  have res: "ref_resume pick k st = wait_on k ?lk2 rw2 \<bind> (\<lambda>(lk, rw).
      Some (lk_pos lk = rng_end (lk_range lk), \<lparr>rw_locks = rw, ref_locks = ?L(k \<mapsto> lk)\<rparr>))"
    using lk(1) 1(1) 2(1) [unfolded lk2] by (simp add: ref_resume_def)
  show ?thesis
  proof (cases c)
    case None
    then have "wait_on k ?lk2 rw2 = Some (?lk2, rw2)" by (simp add: wait_on_def)
    with None res 2(2) ok2 own2 show ?thesis
      by (intro exI [of _ None] exI [of _ "\<lparr>rw_locks = rw2, ref_locks = ?L(k \<mapsto> ?lk2)\<rparr>"]) simp
  next
    case (Some i)
    with 2(2) have i: "lk_pos lk \<le> i" "i < ?e" by (simp_all add: first_in_def)
    from wait_on_ok [OF ok2, of k ?lk2] Some i obtain rwl rw3 where
      3: "rw2 i = Some rwl" "wait_on k ?lk2 rw2 = Some (?lk2\<lparr>lk_order := Some (next_order rwl)\<rparr>, rw3)"
      "ref_ok rw3 (?L(k \<mapsto> ?lk2\<lparr>lk_order := Some (next_order rwl)\<rparr>))" "owners_at rw3 = owners_at rw2" by auto
    have "order' < next_order rwl" if "k' \<noteq> k" "?L k' = Some lk'" "lk_pos lk' = i" "lk_order lk' = Some order'" for k' lk' order'
    proof -
      let ?w = "\<lparr>w_id = k', w_write = lk_write lk', w_priority = lk_priority lk', w_order = order'\<rparr>"
      from that have "?w \<in> waiters (?L(k \<mapsto> ?lk2)) i" by (simp add: waiters_def)
      with ok2 3(1) have "?w \<in> set (waits rwl)" "\<forall>w\<in>set (waits rwl). w_order w < next_order rwl" by (simp_all add: ref_ok_def)
      then show ?thesis by force
    qed
    with Some res 2(2) own2 3 i show ?thesis
      by (intro exI [of _ "Some i"] exI [of _ "\<lparr>rw_locks = rw3, ref_locks = ?L(k \<mapsto> ?lk2\<lparr>lk_order := Some (next_order rwl)\<rparr>)\<rparr>"]
          exI [of _ "next_order rwl"]) auto
  qed
qed

end
