(* ===== verification/Core_Sim.thy ===== *)
theory Core_Sim
  imports Core_Reference "HOL-Library.Multiset"
begin

text \<open>
  The core simulates the reference implementation: what the lock states and the queue of pending borrows say is what the
  owners and waits of the reference say.
\<close>

section \<open>The relation\<close>

type_synonym 'c ref_table = "('c, nat, nat, nat, nat) table"
type_synonym ref_queue = "(nat \<times> (nat, nat, nat, nat) pending) list"

definition holders :: "'c \<Rightarrow> 'c ref_table \<Rightarrow> nat \<Rightarrow> (nat \<times> bool) set" where
  "holders self t i = {(l, b). owner t l = Some self \<and> (if b then w_covers t l i else r_covers t l i)}"

definition same_lock :: "'c \<Rightarrow> nat set \<Rightarrow> 'c ref_table \<Rightarrow> nat \<Rightarrow> ref_lock option \<Rightarrow> bool" where
  "same_lock self F t l x \<longleftrightarrow> (case x of
     None \<Rightarrow> owner t l \<noteq> Some self
   | Some lk \<Rightarrow> owner t l = Some self \<and>
       request t l = Some (lk_write lk, rng_start (lk_range lk), rng_end (lk_range lk)) \<and>
       (case pd t l of
          None \<Rightarrow> lk_pos lk = rng_end (lk_range lk) \<and> lk_order lk = None
        | Some p \<Rightarrow> lk_pos lk = p_start p \<and> lk_priority lk = p_priority p \<and> (lk_order lk = None \<longleftrightarrow> l \<in> F)))"

text \<open>
  The owners \<open>E\<close> are those of a lock that the reference is about to release; the locks in \<open>F\<close> do not wait yet, although
  they are pending.
\<close>

definition sim :: "'c \<Rightarrow> nat set \<Rightarrow> (nat \<Rightarrow> (nat \<times> bool) set) \<Rightarrow> 'c ref_table \<Rightarrow> ref_set \<Rightarrow> bool" where
  "sim self F E t st \<longleftrightarrow> table_ok t \<and> excl self t \<and> ref_ok (rw_locks st) (ref_locks st) \<and>
     (\<forall>l. same_lock self F t l (ref_locks st l)) \<and> (\<forall>i<LEN. owners_at (rw_locks st) i = holders self t i \<union> E i)"

text \<open>Among borrows of one start and priority, the later ones in the pending tree have waited for longer.\<close>

definition ord_of :: "ref_set \<Rightarrow> nat \<Rightarrow> nat" where
  "ord_of st l = the (lk_order (the (ref_locks st l)))"

definition fifo :: "ref_set \<Rightarrow> ref_queue \<Rightarrow> bool" where
  "fifo st qs \<longleftrightarrow> sorted_wrt (\<lambda>x y. p_start (snd x) = p_start (snd y) \<longrightarrow> p_priority (snd x) = p_priority (snd y) \<longrightarrow>
     ord_of st (fst y) < ord_of st (fst x)) qs"

lemma holders_homogeneous: "excl self t \<Longrightarrow> table_ok t \<Longrightarrow> homogeneous (holders self t i)"
proof -
  assume ex: "excl self t" and ok: "table_ok t"
  have "(l, True) = (l', b')" if "(l, True) \<in> holders self t i" "(l', b') \<in> holders self t i" for l l' b'
  proof -
    from that have o: "owner t l = Some self" "owner t l' = Some self" "w_covers t l i"
      "if b' then w_covers t l' i else r_covers t l' i" by (simp_all add: holders_def)
    have l: "l = l'"
    proof (rule ccontr)
      assume "l \<noteq> l'"
      with ex o(1-3) have "\<not> w_covers t l' i \<and> \<not> r_covers t l' i" unfolding excl_def by blast
      with o(4) show False by (simp split: if_splits)
    qed
    from ok have "lock_ok t l" by (simp add: table_ok_def)
    with o(3) have "\<not> r_covers t l i" by (auto simp: lock_ok_def w_covers_def r_covers_def)
    with o(4) l show ?thesis by (cases b') auto
  qed
  then show ?thesis unfolding homogeneous_def by (metis prod.collapse)
qed

lemma sim_busy:
  assumes "sim self F E t st" and "i < LEN" "E i = {}"
  shows "busy (is_writer ptr) (rw_locks st) i \<longleftrightarrow> conflict_at self t ptr i"
proof -
  have "owners_at (rw_locks st) i = holders self t i" using assms by (simp add: sim_def)
  then show ?thesis unfolding busy_def conflict_at_def w_at_def r_at_def is_writer_iff
    by (auto simp: holders_def split: if_splits)
qed

text \<open>Where a lock stands.\<close>

lemma sim_pending:
  assumes "sim self F E t st" and "owner t l = Some self" "pd t l = Some p"
  obtains lk where "ref_locks st l = Some lk" "lk_pos lk = p_start p" "lk_priority lk = p_priority p"
    "lk_order lk = None \<longleftrightarrow> l \<in> F" "lk_write lk = is_writer (p_parent p)" "rng_end (lk_range lk) = rng_end (p_range p)"
    "rng_end (p_range p) \<le> LEN" "p_start p < rng_end (p_range p)"
proof -
  from assms(1) have sl: "same_lock self F t l (ref_locks st l)" by (simp add: sim_def)
  with assms(2,3) obtain lk where
    lk: "ref_locks st l = Some lk" "lk_pos lk = p_start p" "lk_priority lk = p_priority p" "lk_order lk = None \<longleftrightarrow> l \<in> F"
      "request t l = Some (lk_write lk, rng_start (lk_range lk), rng_end (lk_range lk))"
    by (cases "ref_locks st l") (auto simp: same_lock_def)
  from lk(5) assms(3) have "lk_write lk = is_writer (p_parent p)" "rng_end (lk_range lk) = rng_end (p_range p)"
    by (auto simp: request_def)
  moreover have "rng_end (lk_range lk) \<le> LEN" using assms(1) lk(1) by (simp add: sim_def ref_ok_def)
  moreover have "p_start p < rng_end (p_range p)" using assms(1,3) by (simp add: sim_def table_ok_def lock_ok_def)
  ultimately show ?thesis using that lk by simp
qed

section \<open>Resuming a borrow\<close>

lemma holders_write:
  assumes "wr t' = (wr t)(l \<mapsto> (a, e))" "rd t' = rd t" "owner t' = owner t" "owner t l = Some self"
    and "wr t l = None \<and> a = x \<or> wr t l = Some (a, x)" "a \<le> x" "x \<le> e"
  shows "holders self t' i = holders self t i \<union> (if x \<le> i \<and> i < e then {(l, True)} else {})"
  using assms by (auto simp: holders_def w_covers_def r_covers_def split: if_splits)

lemma holders_read:
  assumes "rd t' = (rd t)(l \<mapsto> (a, e))" "wr t' = wr t" "owner t' = owner t" "owner t l = Some self"
    and "rd t l = None \<and> a = x \<or> rd t l = Some (a, x)" "a \<le> x" "x \<le> e"
  shows "holders self t' i = holders self t i \<union> (if x \<le> i \<and> i < e then {(l, False)} else {})"
  using assms by (auto simp: holders_def w_covers_def r_covers_def split: if_splits)

lemma resume_holders:
  assumes ok: "table_ok t" and own: "owner t l = Some self" and pd: "pd t l = Some p"
    and first: "first_in C (p_start p) (rng_end (p_range p)) r"
  shows "holders self (resume_table t l p r) i =
    holders self t i \<union> (if p_start p \<le> i \<and> i < upto_conflict (p_range p) r then {(l, is_writer (p_parent p))} else {})"
proof (cases "r = Some (p_start p)")
  case True
  then show ?thesis by (auto simp: resume_table_def)
next
  case False
  from ok pd have lok: "lock_ok t l" and reg: "regions_ok t" by (simp_all add: table_ok_def)
  from lok pd have "p_start p < rng_end (p_range p)" by (simp add: lock_ok_def)
  with first have le: "p_start p \<le> upto_conflict (p_range p) r" by (cases r) (auto simp: first_in_def)
  from lok pd consider "p_parent p = Write l" | "p_parent p = Read l" by (auto simp: lock_ok_def)
  then show ?thesis
  proof cases
    case 1
    from resume_write [OF 1 lok pd False] obtain a where
      "resume_table t l p r = t\<lparr>pd := (pd t)(l := map_option (moved p) r), wr := (wr t)(l \<mapsto> (a, upto_conflict (p_range p) r))\<rparr>"
      and a: "wr t l = None \<and> a = p_start p \<or> wr t l = Some (a, p_start p)" by (auto simp: upto_conflict_def)
    moreover from a reg have "a \<le> p_start p" by (auto simp: regions_ok_def less_imp_le)
    ultimately show ?thesis using holders_write [of "resume_table t l p r" t l a _ self "p_start p" i] own le 1 by simp
  next
    case 2
    from resume_read [OF 2 lok pd False] obtain a where
      "resume_table t l p r = t\<lparr>pd := (pd t)(l := map_option (moved p) r), rd := (rd t)(l \<mapsto> (a, upto_conflict (p_range p) r))\<rparr>"
      and a: "rd t l = None \<and> a = p_start p \<or> rd t l = Some (a, p_start p)" by (auto simp: upto_conflict_def)
    moreover from a reg have "a \<le> p_start p" by (auto simp: regions_ok_def less_imp_le)
    ultimately show ?thesis using holders_read [of "resume_table t l p r" t l a _ self "p_start p" i] own le 2 by simp
  qed
qed

lemma first_in_unique: "first_in C x y r \<Longrightarrow> first_in C x y r' \<Longrightarrow> r = (r' :: nat option)"
  by (auto simp: first_in_def split: option.splits) (metis linorder_neqE_nat)+

lemma first_in_cong_lt:
  assumes "\<And>j. x \<le> j \<Longrightarrow> j < y \<Longrightarrow> C j = C' j"
  shows "first_in C x y r = first_in C' x y r"
  using assms by (auto simp: first_in_def split: option.splits)

lemma resume_pd:
  assumes "pd t l = Some p" and "r \<noteq> None \<Longrightarrow> p_start p \<le> the r"
  shows "pd (resume_table t l p r) = (pd t)(l := map_option (moved p) r)"
proof (cases "r = Some (p_start p)")
  case True
  have "moved p (p_start p) = p" by (cases p) simp
  with True assms(1) show ?thesis by (simp add: resume_table_def fun_upd_idem)
qed (auto simp: resume_table_def Core_Resume.extend_def split: lock_state_ptr.splits)

lemma sim_resume:
  assumes sim: "sim self F E t st" and own: "owner t l = Some self" and pd: "pd t l = Some p"
    and E: "\<forall>j\<ge>p_start p. E j = {}" and pick: "picks pick" and F: "F \<subseteq> {l}"
    and first: "first_in (conflict_at self t (p_parent p)) (p_start p) (rng_end (p_range p)) r"
  shows "\<exists>st'. ref_resume pick l st = Some (r = None, st') \<and> sim self {} E (resume_table t l p r) st' \<and>
    (\<forall>l'. l' \<noteq> l \<longrightarrow> ref_locks st' l' = ref_locks st l') \<and>
    (\<forall>i l' q. r = Some i \<longrightarrow> l' \<noteq> l \<longrightarrow> owner t l' = Some self \<longrightarrow> pd t l' = Some q \<longrightarrow> p_start q = i \<longrightarrow> ord_of st l' < ord_of st' l)"
proof -
  from sim have ok: "table_ok t" "excl self t" and rok: "ref_ok (rw_locks st) (ref_locks st)"
    and own_at: "\<forall>i<LEN. owners_at (rw_locks st) i = holders self t i \<union> E i"
    and rows: "\<And>k. same_lock self F t k (ref_locks st k)" by (simp_all add: sim_def)
  obtain lk where lk: "ref_locks st l = Some lk" "lk_pos lk = p_start p" "lk_priority lk = p_priority p"
    "lk_order lk = None \<longleftrightarrow> l \<in> F" "lk_write lk = is_writer (p_parent p)" "rng_end (lk_range lk) = rng_end (p_range p)"
    and len: "rng_end (p_range p) \<le> LEN" and lt: "p_start p < rng_end (p_range p)"
    by (rule sim_pending [OF sim own pd])
  have hom: "\<forall>i\<ge>lk_pos lk. homogeneous (owners_at (rw_locks st) i)"
  proof (intro allI impI)
    fix i assume i: "lk_pos lk \<le> i"
    show "homogeneous (owners_at (rw_locks st) i)"
    proof (cases "i < LEN")
      case True
      with own_at E i lk(2) have "owners_at (rw_locks st) i = holders self t i" by simp
      with holders_homogeneous [OF ok(2,1)] show ?thesis by simp
    next
      case False
      with rok have "rw_locks st i = None" by (auto simp: ref_ok_def)
      then show ?thesis by (simp add: owners_at_def homogeneous_def)
    qed
  qed
  from ref_resume_ok [OF rok lk(1) _ pick hom] lt lk(2,6) obtain c st' order' where
    1: "ref_resume pick l st = Some (c = None, st')"
    "first_in (busy (lk_write lk) (rw_locks st)) (lk_pos lk) (rng_end (lk_range lk)) c"
    "ref_ok (rw_locks st') (ref_locks st')"
    "ref_locks st' = (ref_locks st)(l \<mapsto> lk\<lparr>lk_pos := upto_conflict (lk_range lk) c, lk_order := map_option (\<lambda>_. order') c\<rparr>)"
    "\<forall>i. owners_at (rw_locks st') i = owners_at (rw_locks st) i \<union>
      (if lk_pos lk \<le> i \<and> i < upto_conflict (lk_range lk) c then {(l, lk_write lk)} else {})"
    "\<forall>i k' lk' order''. c = Some i \<longrightarrow> k' \<noteq> l \<longrightarrow> ref_locks st k' = Some lk' \<longrightarrow> lk_pos lk' = i \<longrightarrow>
      lk_order lk' = Some order'' \<longrightarrow> order'' < order'" by auto
  have "first_in (conflict_at self t (p_parent p)) (p_start p) (rng_end (p_range p)) c"
    using 1(2) unfolding lk(2,5,6)
    by (subst first_in_cong_lt [of _ _ _ "busy (is_writer (p_parent p)) (rw_locks st)"])
      (use sim_busy [OF sim] E len in auto)
  from first_in_unique [OF this first] have c: "c = r" .
  let ?t = "resume_table t l p r"
  note R = resume_inv [OF ok pd own first]
  have own': "owner ?t = owner t" and req: "request ?t l = request t l"
    and other: "\<And>l'. l' \<noteq> l \<Longrightarrow> rd ?t l' = rd t l' \<and> wr ?t l' = wr t l' \<and> pd ?t l' = pd t l'"
    using R(3) by (simp_all add: grows_def)
  have pd': "pd ?t l = map_option (moved p) r" using resume_pd [OF pd, of r] first by (cases r) (auto simp: first_in_def)
  have "same_lock self {} ?t k (ref_locks st' k)" for k
  proof (cases "k = l")
    case True
    show ?thesis using rows [of l] lk pd' c own own' req pd unfolding True 1(4)
      by (cases r) (simp_all add: same_lock_def)
  next
    case False
    have "request ?t k = request t k" using other [OF False] by (intro request_cong) simp_all
    moreover have "k \<notin> F" using F False by auto
    ultimately show ?thesis using False rows [of k] other [OF False]
      by (simp add: same_lock_def own' 1(4) cong: option.case_cong)
  qed
  moreover have "owners_at (rw_locks st') i = holders self ?t i \<union> E i" if "i < LEN" for i
  proof -
    have "upto_conflict (lk_range lk) c = upto_conflict (p_range p) r" using c lk(6) by (cases r) simp_all
    then show ?thesis using 1(5) own_at that resume_holders [OF ok(1) own pd first, of i] lk(2,5) by auto
  qed
  ultimately have "sim self {} E ?t st'" using R(1,2) 1(3) by (simp add: sim_def)
  moreover have "ord_of st l' < ord_of st' l"
    if r: "r = Some i" and l': "l' \<noteq> l" "owner t l' = Some self" "pd t l' = Some q" "p_start q = i" for i l' q
  proof -
    obtain lk' where "ref_locks st l' = Some lk'" "lk_pos lk' = p_start q" "lk_order lk' = None \<longleftrightarrow> l' \<in> F"
      by (rule sim_pending [OF sim l'(2,3)])
    moreover from this F l'(1) obtain order'' where "lk_order lk' = Some order''" by auto
    ultimately show ?thesis using 1(6) r l' c by (simp add: ord_of_def 1(4))
  qed
  ultimately show ?thesis using 1(1,4) c by (intro exI [of _ st']) auto
qed

section \<open>Serving a queue\<close>

text \<open>The pending borrows of the core, as a list.\<close>

definition lists_pending :: "'c \<Rightarrow> 'c ref_table \<Rightarrow> ref_queue \<Rightarrow> bool" where
  "lists_pending self t qs \<longleftrightarrow> distinct (map fst qs) \<and>
     (\<forall>l p. (l, p) \<in> set qs \<longleftrightarrow> owner t l = Some self \<and> pd t l = Some p)"

lemma fifo_append:
  "fifo st (as @ bs) \<longleftrightarrow> fifo st as \<and> fifo st bs \<and> (\<forall>x\<in>set as. \<forall>y\<in>set bs. p_start (snd x) = p_start (snd y) \<longrightarrow>
     p_priority (snd x) = p_priority (snd y) \<longrightarrow> ord_of st (fst y) < ord_of st (fst x))"
  by (simp add: fifo_def sorted_wrt_append)

lemma fifo_same:
  assumes "fifo st qs" and "\<And>x. x \<in> set qs \<Longrightarrow> ref_locks st' (fst x) = ref_locks st (fst x)"
  shows "fifo st' qs"
  using assms unfolding fifo_def ord_of_def by (auto elim: sorted_wrt_mono_rel [rotated])

text \<open>A borrow that waits again goes to the head of those with its priority, and it is the youngest of them.\<close>

lemma fifo_requeue:
  assumes "fifo st' bs" and "\<And>i. r = Some i \<Longrightarrow> \<forall>(l', q)\<in>set bs. p_start q = i \<longrightarrow> ord_of st' l' < ord_of st' l"
    and srt: "sorted_wrt (\<lambda>x y. pending_le (snd x) (snd y)) bs"
  shows "fifo st' (requeue l p r bs)"
proof (cases r)
  case (Some i)
  let ?g = "goes_right pending_node_callback (moved p i) :: nat \<times> (nat, nat, nat, nat) pending \<Rightarrow> bool"
  have g: "?g y \<longleftrightarrow> \<not> pending_le (moved p i) (snd y)" for y
    by (auto simp: goes_right_def pending_node_callback_def pending_le_def)
  have "bs = takeWhile ?g bs @ dropWhile ?g bs" by simp
  with assms(1) have "fifo st' (takeWhile ?g bs @ dropWhile ?g bs)" by simp
  note f = this [unfolded fifo_append]
  have "fifo st' ((l, moved p i) # dropWhile ?g bs)"
  proof -
    have "\<forall>y\<in>set (dropWhile ?g bs). i = p_start (snd y) \<longrightarrow> ord_of st' (fst y) < ord_of st' l"
      using assms(2) [OF Some] set_dropWhileD by fastforce
    with f show ?thesis by (auto simp: fifo_def)
  qed
  moreover have "\<not> (p_start (snd x) = i \<and> p_priority (snd x) = p_priority p)" if "x \<in> set (takeWhile ?g bs)" for x
    using set_takeWhileD [OF that] by (auto simp: g pending_le_def)
  ultimately show ?thesis using f unfolding requeue_def Some option.case list_insert_def fifo_append by auto
qed (use assms(1) in simp)

lemma mset_list_insert: "mset (list_insert g y xs) = add_mset y (mset xs)"
proof -
  have "mset (takeWhile g xs) + mset (dropWhile g xs) = mset xs" by (metis mset_append takeWhile_dropWhile_id)
  then show ?thesis by (simp add: list_insert_def)
qed

lemma mset_requeue: "mset (requeue l p r bs) = (case r of None \<Rightarrow> {#} | Some i \<Rightarrow> {#(l, moved p i)#}) + mset bs"
  by (cases r) (simp_all add: requeue_def mset_list_insert)

lemma requeue_sorted:
  assumes srt: "sorted_wrt (\<lambda>x y. pending_le (snd x) (snd y)) bs"
  shows "sorted_wrt (\<lambda>x y. pending_le (snd x) (snd y)) (requeue l p r bs)"
proof (cases r)
  case (Some i)
  have "split_at (goes_right pending_node_callback (moved p i)) bs"
    using srt unfolding split_at_def
    by (rule sorted_wrt_mono_rel [rotated]) (auto simp: goes_right_def pending_node_callback_def pending_le_def)
  with pending_tree.sorted_list_insert [OF srt, of "(l, moved p i)"] show ?thesis by (simp add: requeue_def Some)
qed (use srt in simp)

lemma serve_append:
  "serve self (xs @ ys) t bs t' bs' \<Longrightarrow> \<exists>t1 bs1. serve self xs t bs t1 bs1 \<and> serve self ys t1 bs1 t' bs'"
proof (induction xs arbitrary: t bs)
  case Nil
  then show ?case using serve_Nil by fastforce
next
  case (Cons x xs)
  obtain l p where x: "x = (l, p)" by force
  from Cons.prems obtain r where
    "first_in (conflict_at self t (p_parent p)) (p_start p) (rng_end (p_range p)) r"
    "serve self (xs @ ys) (resume_table t l p r) (requeue l p r bs) t' bs'" by (auto simp: x serve_simps)
  with Cons.IH serve_Cons show ?case unfolding x by meson
qed

text \<open>The state while the borrows \<open>xs\<close> are still to be served and those in \<open>bs\<close> are done.\<close>

definition serving :: "'c \<Rightarrow> nat set \<Rightarrow> (nat \<Rightarrow> (nat \<times> bool) set) \<Rightarrow> 'c ref_table \<Rightarrow> ref_set \<Rightarrow> ref_queue \<Rightarrow> ref_queue \<Rightarrow> bool" where
  "serving self F E t st as bs \<longleftrightarrow> sim self F E t st \<and> lists_pending self t (as @ bs) \<and>
     fifo st bs \<and> sorted_wrt (\<lambda>x y. pending_le (snd x) (snd y)) bs"

lemma serving_step:
  assumes s: "serving self F E t st as bs" and as: "mset as = mset ((l, p) # as')"
    and E: "\<forall>j\<ge>p_start p. E j = {}" and pick: "picks pick" and F: "F \<subseteq> {l}"
    and first: "first_in (conflict_at self t (p_parent p)) (p_start p) (rng_end (p_range p)) r"
  shows "\<exists>st'. ref_resume pick l st = Some (r = None, st') \<and>
    serving self {} E (resume_table t l p r) st' as' (requeue l p r bs) \<and>
    (\<forall>l'. l' \<noteq> l \<longrightarrow> ref_locks st' l' = ref_locks st l')"
proof -
  from as have set_as: "set as = insert (l, p) (set as')" by (metis list.simps(15) set_mset_mset)
  from s have sim: "sim self F E t st" and lp: "lists_pending self t (as @ bs)" and f: "fifo st bs"
    and srt: "sorted_wrt (\<lambda>x y. pending_le (snd x) (snd y)) bs" by (simp_all add: serving_def)
  from lp set_as have own: "owner t l = Some self" and pd: "pd t l = Some p" by (auto simp: lists_pending_def)
  from sim_resume [OF sim own pd E pick F first] obtain st' where
    1: "ref_resume pick l st = Some (r = None, st')" "sim self {} E (resume_table t l p r) st'"
    "\<forall>l'. l' \<noteq> l \<longrightarrow> ref_locks st' l' = ref_locks st l'"
    "\<forall>i l' q. r = Some i \<longrightarrow> l' \<noteq> l \<longrightarrow> owner t l' = Some self \<longrightarrow> pd t l' = Some q \<longrightarrow> p_start q = i \<longrightarrow>
      ord_of st l' < ord_of st' l" by blast
  from as have "mset (map fst as) = mset (map fst ((l, p) # as'))" by (simp only: mset_map)
  then have "mset (map fst (as @ bs)) = mset (map fst ((l, p) # as' @ bs))" by simp
  with lp have dist: "distinct (map fst ((l, p) # as' @ bs))" unfolding lists_pending_def by (metis mset_eq_imp_distinct_iff)
  have pd': "pd (resume_table t l p r) = (pd t)(l := map_option (moved p) r)"
    using resume_pd [OF pd, of r] first by (cases r) (auto simp: first_in_def)
  have own': "owner (resume_table t l p r) = owner t"
    using resume_inv(3) [OF _ _ pd own first] sim by (simp add: sim_def grows_def)
  have "lists_pending self (resume_table t l p r) (as' @ requeue l p r bs)"
    unfolding lists_pending_def
  proof (intro conjI allI)
    have "mset (map fst (requeue l p r bs)) = (if r = None then {#} else {#l#}) + mset (map fst bs)"
      by (cases r) (simp_all add: mset_requeue)
    then have "mset (map fst (as' @ requeue l p r bs)) = (if r = None then {#} else {#l#}) + mset (map fst (as' @ bs))" by simp
    also have "\<dots> = mset ((if r = None then [] else [l]) @ map fst (as' @ bs))" by simp
    finally have "distinct (map fst (as' @ requeue l p r bs)) \<longleftrightarrow> distinct ((if r = None then [] else [l]) @ map fst (as' @ bs))"
      by (rule mset_eq_imp_distinct_iff)
    with dist show "distinct (map fst (as' @ requeue l p r bs))" by auto
  next
    fix k q
    have "(k, q) \<in> set (as' @ bs) \<longleftrightarrow> owner t k = Some self \<and> pd t k = Some q \<and> k \<noteq> l"
      using lp set_as dist unfolding lists_pending_def by (auto simp: rev_image_eqI)
    then show "(k, q) \<in> set (as' @ requeue l p r bs) \<longleftrightarrow>
        owner (resume_table t l p r) k = Some self \<and> pd (resume_table t l p r) k = Some q"
      unfolding own' pd' by (auto simp: set_requeue own split: option.splits)
  qed
  moreover have "fifo st' (requeue l p r bs)"
  proof (rule fifo_requeue [OF _ _ srt])
    have ne: "fst x \<noteq> l" if "x \<in> set bs" for x using dist that by auto
    show "fifo st' bs" by (rule fifo_same [OF f]) (use 1(3) ne in simp)
    fix i assume "r = Some i"
    moreover have "owner t l' = Some self \<and> pd t l' = Some q \<and> l' \<noteq> l \<and> ord_of st' l' = ord_of st l'" if "(l', q) \<in> set bs" for l' q
    proof -
      have "(l', q) \<in> set (as @ bs)" using that by simp
      with lp have "owner t l' = Some self" "pd t l' = Some q" unfolding lists_pending_def by blast+
      with ne [OF that] 1(3) show ?thesis by (simp add: ord_of_def)
    qed
    ultimately show "\<forall>(l', q)\<in>set bs. p_start q = i \<longrightarrow> ord_of st' l' < ord_of st' l" using 1(4) by auto
  qed
  ultimately show ?thesis using 1(1-3) requeue_sorted [OF srt] unfolding serving_def by blast
qed

lemma sim_serve:
  assumes "serve self xs t bs t' bs'" and "serving self {} E t st (rest @ rev xs) bs"
    and "\<forall>x\<in>set xs. \<forall>j\<ge>p_start (snd x). E j = {}" and "picks pick"
  shows "\<exists>st'. resume_all pick (map fst xs) st = Some st' \<and> serving self {} E t' st' rest bs' \<and>
    (\<forall>l'. l' \<notin> fst ` set xs \<longrightarrow> ref_locks st' l' = ref_locks st l')"
  using assms
proof (induction arbitrary: st rule: serve.induct)
  case (serve_Nil t bs)
  then show ?case by simp
next
  case (serve_Cons t p r qs l bs t' bs')
  have "mset (rest @ rev ((l, p) # qs)) = mset ((l, p) # rest @ rev qs)" by simp
  from serving_step [OF serve_Cons.prems(1) this _ serve_Cons.prems(3) _ serve_Cons.hyps(1)] serve_Cons.prems(2)
  obtain st1 where 1: "ref_resume pick l st = Some (r = None, st1)"
    "serving self {} E (resume_table t l p r) st1 (rest @ rev qs) (requeue l p r bs)"
    "\<forall>l'. l' \<noteq> l \<longrightarrow> ref_locks st1 l' = ref_locks st l'" by auto
  from serve_Cons.IH [OF 1(2) _ serve_Cons.prems(3)] serve_Cons.prems(2) obtain st2 where
    "resume_all pick (map fst qs) st1 = Some st2" "serving self {} E t' st2 rest bs'"
    "\<forall>l'. l' \<notin> fst ` set qs \<longrightarrow> ref_locks st2 l' = ref_locks st1 l'" by auto
  with 1(1,3) show ?case by simp
qed

section \<open>Releasing a region\<close>

text \<open>The waits at an index are those of the pending borrows that start there, in the order in which they are served.\<close>

definition wait_at :: "ref_set \<Rightarrow> nat \<times> (nat, nat, nat, nat) pending \<Rightarrow> wait" where
  "wait_at st x = \<lparr>w_id = fst x, w_write = is_writer (p_parent (snd x)), w_priority = p_priority (snd x), w_order = ord_of st (fst x)\<rparr>"

lemma waits_in_order:
  assumes sim: "sim self {} E t st" and lp: "lists_pending self t qs" and rwl: "rw_locks st i = Some rwl"
    and grp: "set grp = {x \<in> set qs. p_start (snd x) = i}" "fifo st grp" "sorted_wrt (\<lambda>x y. pending_le (snd x) (snd y)) grp"
  shows "map w_id (waits rwl) = map fst (rev grp)"
proof -
  from sim rwl have ws: "sorted_wrt wait_less (waits rwl)" "set (waits rwl) = waiters (ref_locks st) i"
    by (simp_all add: sim_def ref_ok_def)
  have at: "p_start (snd x) = i" if "x \<in> set grp" for x using that grp(1) by auto
  have "sorted_wrt (\<lambda>x y. wait_less (wait_at st y) (wait_at st x)) grp"
    using grp(2,3) at unfolding fifo_def sorted_wrt_iff_nth_less
    by (fastforce simp: wait_less_iff wait_at_def pending_le_def)
  then have "sorted_wrt wait_less (map (wait_at st) (rev grp))" by (simp add: sorted_wrt_map sorted_wrt_rev)
  moreover have "w \<in> waiters (ref_locks st) i \<longleftrightarrow> w \<in> wait_at st ` set grp" for w
  proof
    assume "w \<in> waiters (ref_locks st) i"
    then obtain lk where lk: "ref_locks st (w_id w) = Some lk" "lk_pos lk = i" "lk_order lk = Some (w_order w)"
      "w_write w = lk_write lk" "w_priority w = lk_priority lk" by (auto simp: waiters_def)
    have "same_lock self {} t (w_id w) (ref_locks st (w_id w))" using sim by (simp add: sim_def)
    with lk obtain p where p: "owner t (w_id w) = Some self" "pd t (w_id w) = Some p" "p_start p = i" "lk_priority lk = p_priority p"
      by (cases "pd t (w_id w)") (auto simp: same_lock_def)
    obtain lk' where "ref_locks st (w_id w) = Some lk'" "lk_write lk' = is_writer (p_parent p)"
      by (rule sim_pending [OF sim p(1,2)])
    with lk p have "w = wait_at st (w_id w, p)" by (simp add: wait_at_def ord_of_def)
    moreover have "(w_id w, p) \<in> set grp" using p lp grp(1) by (simp add: lists_pending_def)
    ultimately show "w \<in> wait_at st ` set grp" by blast
  next
    assume "w \<in> wait_at st ` set grp"
    then obtain l p where x: "(l, p) \<in> set grp" "w = wait_at st (l, p)" by auto
    with grp(1) lp have p: "owner t l = Some self" "pd t l = Some p" "p_start p = i" by (auto simp: lists_pending_def)
    obtain lk where "ref_locks st l = Some lk" "lk_pos lk = p_start p" "lk_priority lk = p_priority p"
      "lk_order lk = None \<longleftrightarrow> l \<in> {}" "lk_write lk = is_writer (p_parent p)" by (rule sim_pending [OF sim p(1,2)])
    with p(3) show "w \<in> waiters (ref_locks st) i" by (auto simp: x(2) wait_at_def waiters_def ord_of_def)
  qed
  then have "set (waits rwl) = set (map (wait_at st) (rev grp))" unfolding ws(2) by auto
  ultimately have "waits rwl = map (wait_at st) (rev grp)" using wait_sorted_unique ws(1) by blast
  then show ?thesis by (simp add: wait_at_def comp_def rev_map)
qed

lemma sim_owner_gone:
  assumes sim: "sim self {} (\<lambda>i. if start \<le> i \<and> i < Suc pos then {(u, k)} else {}) t st" and u: "owner t u = None"
    and rwl: "rw_locks st pos = Some rwl"
  shows "sim self {} (\<lambda>i. if start \<le> i \<and> i < pos then {(u, k)} else {}) t
    (st\<lparr>rw_locks := (rw_locks st)(pos \<mapsto> rwl\<lparr>owners := owners rwl - {(u, k)}\<rparr>)\<rparr>)"
proof -
  let ?rw = "(rw_locks st)(pos \<mapsto> rwl\<lparr>owners := owners rwl - {(u, k)}\<rparr>)"
  from sim have rok: "ref_ok (rw_locks st) (ref_locks st)"
    and own: "\<forall>i<LEN. owners_at (rw_locks st) i = holders self t i \<union> (if start \<le> i \<and> i < Suc pos then {(u, k)} else {})"
    by (simp_all add: sim_def)
  have "(u, k) \<notin> holders self t i" for i using u by (simp add: holders_def)
  moreover have "owners_at (rw_locks st) pos = owners rwl" using rwl by (simp add: owners_at_def)
  moreover have "owners_at ?rw i = (if i = pos then owners rwl - {(u, k)} else owners_at (rw_locks st) i)" for i
    by (simp add: owners_at_def)
  ultimately have "owners_at ?rw i = holders self t i \<union> (if start \<le> i \<and> i < pos then {(u, k)} else {})" if "i < LEN" for i
    using own [rule_format, OF that] by (cases "i = pos") auto
  moreover have "ref_ok ?rw (ref_locks st)" using rok rwl by (auto simp: ref_ok_def)
  ultimately show ?thesis using sim by (simp add: sim_def)
qed

lemma serve_keeps:
  assumes "serve self xs t bs t' bs'" and "\<forall>x\<in>set xs. i \<le> p_start (snd x)" "\<forall>x\<in>set bs. i \<le> p_start (snd x)"
  shows "owner t' = owner t \<and> (\<forall>x\<in>set bs'. i \<le> p_start (snd x))"
  using assms
proof (induction rule: serve.induct)
  case (serve_Cons t p r qs l bs t' bs')
  have "owner (resume_table t l p r) = owner t"
    by (auto simp: resume_table_def Core_Resume.extend_def split: lock_state_ptr.splits)
  moreover have "\<forall>x\<in>set (requeue l p r bs). i \<le> p_start (snd x)"
    using serve_Cons by (cases r) (auto simp: set_requeue first_in_def)
  ultimately show ?case using serve_Cons by auto
qed simp

lemma split_group:
  assumes "sorted_wrt (\<lambda>x y. pending_le (snd x) (snd y)) as" and "\<forall>x\<in>set as. p_start (snd x) < Suc pos"
  shows "as = filter (\<lambda>x. p_start (snd x) < pos) as @ filter (\<lambda>x. p_start (snd x) = pos) (as :: ref_queue)"
  using assms
proof (induction as)
  case (Cons x as)
  show ?case
  proof (cases "p_start (snd x) < pos")
    case False
    with Cons.prems have x: "p_start (snd x) = pos" by auto
    with Cons.prems have "\<forall>y\<in>set as. p_start (snd y) = pos" by (fastforce simp: pending_le_def)
    with x show ?thesis by (simp add: filter_empty_conv filter_id_conv)
  qed (use Cons in simp)
qed simp

lemma sim_release:
  assumes "serve self (rev as) t bs t' bs'" and "serving self {} (\<lambda>i. if start \<le> i \<and> i < pos then {(u, k)} else {}) t st (low @ as) bs"
    and "owner t u = None" and "picks pick" and "start \<le> pos" "pos \<le> LEN"
    and "fifo st as" "sorted_wrt (\<lambda>x y. pending_le (snd x) (snd y)) as" "\<forall>x\<in>set as. start \<le> p_start (snd x) \<and> p_start (snd x) < pos"
    and "\<forall>x\<in>set low. p_start (snd x) < start" "\<forall>x\<in>set bs. pos \<le> p_start (snd x)"
  shows "\<exists>st'. release_loop pick u k start pos st = Some st' \<and> serving self {} (\<lambda>_. {}) t' st' low bs' \<and>
    (\<forall>x\<in>set low. ref_locks st' (fst x) = ref_locks st (fst x)) \<and> (\<forall>x\<in>set bs'. start \<le> p_start (snd x))"
  using assms
proof (induction pos arbitrary: as bs t st)
  case 0
  then have "as = []" by (cases as) auto
  with 0 show ?case by (simp add: serve_simps)
next
  case (Suc pos)
  show ?case
  proof (cases "start < Suc pos")
    case False
    with Suc.prems(5) have st: "start = Suc pos" by simp
    with Suc.prems(9) have as: "as = []" by (cases as) auto
    have "(\<lambda>i. if start \<le> i \<and> i < Suc pos then {(u, k)} else {}) = (\<lambda>_. {})" using st by (auto simp: fun_eq_iff)
    with Suc.prems False as st show ?thesis by (simp add: serve_simps)
  next
    case True
    let ?E = "\<lambda>i. if start \<le> i \<and> i < pos then {(u, k)} else {}"
    define lo where "lo = filter (\<lambda>x. p_start (snd x) < pos) as"
    define grp where "grp = filter (\<lambda>x. p_start (snd x) = pos) as"
    have as: "as = lo @ grp" unfolding lo_def grp_def using split_group [OF Suc.prems(8)] Suc.prems(9) by blast
    from Suc.prems(2) have sim: "sim self {} (\<lambda>i. if start \<le> i \<and> i < Suc pos then {(u, k)} else {}) t st"
      and lp: "lists_pending self t ((low @ as) @ bs)" by (simp_all add: serving_def)
    from sim Suc.prems(6) obtain rwl where rwl: "rw_locks st pos = Some rwl"
      unfolding sim_def ref_ok_def by (metis Suc_le_lessD not_None_eq)
    let ?st = "st\<lparr>rw_locks := (rw_locks st)(pos \<mapsto> rwl\<lparr>owners := owners rwl - {(u, k)}\<rparr>)\<rparr>"
    have sim0: "sim self {} ?E t ?st" by (rule sim_owner_gone [OF sim Suc.prems(3) rwl])
    have same: "ref_locks ?st = ref_locks st" by simp
    have fs: "fifo ?st qs = fifo st qs" for qs by (simp add: fifo_def ord_of_def)
    have s0: "serving self {} ?E t ?st ((low @ lo) @ rev (rev grp)) bs"
      using Suc.prems(2) sim0 by (simp add: serving_def fs as)
    have ids: "map w_id (waits rwl) = map fst (rev grp)"
    proof (rule waits_in_order [OF sim lp rwl])
      show "set grp = {x \<in> set ((low @ as) @ bs). p_start (snd x) = pos}"
        using Suc.prems(10,11) True by (auto simp: grp_def)
      show "fifo st grp" using Suc.prems(7) by (simp add: as fifo_append)
      show "sorted_wrt (\<lambda>x y. pending_le (snd x) (snd y)) grp" using Suc.prems(8) by (simp add: as sorted_wrt_append)
    qed
    from Suc.prems(1) obtain t1 bs1 where
      1: "serve self (rev grp) t bs t1 bs1" "serve self (rev lo) t1 bs1 t' bs'"
      using serve_append [of self "rev grp" "rev lo" t bs t' bs'] unfolding as rev_append by blast
    have "\<forall>x\<in>set (rev grp). \<forall>j\<ge>p_start (snd x). ?E j = {}" by (auto simp: grp_def)
    from sim_serve [OF 1(1) s0 this Suc.prems(4)] obtain st1 where
      2: "resume_all pick (map fst (rev grp)) ?st = Some st1" "serving self {} ?E t1 st1 (low @ lo) bs1"
      "\<forall>l'. l' \<notin> fst ` set (rev grp) \<longrightarrow> ref_locks st1 l' = ref_locks st l'" by auto
    have dist: "distinct (map fst ((low @ lo @ grp) @ bs))" using lp by (simp add: lists_pending_def as)
    then have keep: "ref_locks st1 (fst x) = ref_locks st (fst x)" if "x \<in> set (low @ lo)" for x
      using 2(3) that by (auto simp: disjoint_iff)
    have "\<forall>x\<in>set bs. pos \<le> p_start (snd x)" using Suc.prems(11) by auto
    then have own1: "owner t1 u = None" "\<forall>x\<in>set bs1. pos \<le> p_start (snd x)"
      using serve_keeps [OF 1(1), of pos] Suc.prems(3) by (auto simp: grp_def)
    have "\<exists>st'. release_loop pick u k start pos st1 = Some st' \<and> serving self {} (\<lambda>_. {}) t' st' low bs' \<and>
      (\<forall>x\<in>set low. ref_locks st' (fst x) = ref_locks st1 (fst x)) \<and> (\<forall>x\<in>set bs'. start \<le> p_start (snd x))"
    proof (rule Suc.IH [OF 1(2) 2(2) own1(1) Suc.prems(4)])
      have "fifo st lo" using Suc.prems(7) by (simp add: as fifo_append)
      then show "fifo st1 lo" by (rule fifo_same) (use keep in simp)
      show "sorted_wrt (\<lambda>x y. pending_le (snd x) (snd y)) lo" using Suc.prems(8) by (simp add: as sorted_wrt_append)
      show "\<forall>x\<in>set lo. start \<le> p_start (snd x) \<and> p_start (snd x) < pos" using Suc.prems(9) by (simp add: lo_def)
    qed (use True Suc.prems(6,10) own1(2) in auto)
    then obtain st' where 3: "release_loop pick u k start pos st1 = Some st'" "serving self {} (\<lambda>_. {}) t' st' low bs'"
      "\<forall>x\<in>set low. ref_locks st' (fst x) = ref_locks st1 (fst x)" "\<forall>x\<in>set bs'. start \<le> p_start (snd x)" by blast
    have "release_loop pick u k start (Suc pos) st = Some st'"
      using True rwl 2(1) 3(1) by (simp add: Let_def ids)
    with 3 keep show ?thesis by auto
  qed
qed

end
