(* ===== verification/Core_Agree.thy ===== *)
theory Core_Agree
  imports Core_Sim
begin

text \<open>
  Each operation of the core and the same operation of the reference lead to states that agree again.
\<close>

section \<open>The tree determines the queue\<close>

lemma rep_unique: "rep h q t \<Longrightarrow> rep h q t' \<Longrightarrow> root_ptr t = root_ptr t' \<Longrightarrow> t = t'"
proof (induction t arbitrary: q t')
  case Leaf
  then show ?case by (cases t') auto
next
  case (T c p s e l r)
  from T.prems obtain c' s' e' l' r' where t': "t' = T c' p s' e' l' r'" by (cases t') auto
  with T.prems have "mk_node False (root_ptr l) (root_ptr r) q c s e = mk_node False (root_ptr l') (root_ptr r') q c' s' e'" by simp
  then have "c = c'" "s = s'" "e = e'" "root_ptr l = root_ptr l'" "root_ptr r = root_ptr r'" by auto
  with T t' show ?case by auto
qed

lemma tree_rep_unique: "tree_rep cb h rt xs \<Longrightarrow> tree_rep cb h rt ys \<Longrightarrow> xs = ys"
proof -
  assume "tree_rep cb h rt xs" and "tree_rep cb h rt ys"
  then obtain t t' where "rep h None t" "rt = root_ptr t" "nodes t = xs" "rep h None t'" "rt = root_ptr t'" "nodes t' = ys"
    by (auto simp: tree_rep_def zrep_def)
  with rep_unique [of h None t t'] show ?thesis by simp
qed

lemma good_unique: "good self c s qs \<Longrightarrow> good self c s qs' \<Longrightarrow> qs = qs'"
  by (rule tree_rep_unique [OF good_tree good_tree])

section \<open>Locking\<close>

lemma good_lists_pending:
  fixes s :: "('c, nat, nat, nat, nat) lock_states"
  assumes "good self c s qs"
  shows "lists_pending self (table_of s) qs"
  unfolding lists_pending_def
proof (intro conjI allI)
  show "distinct (map fst qs)" using assms unfolding good_def by (blast dest: olist_distinct)
  show "(l, p) \<in> set qs \<longleftrightarrow> owner (table_of s) l = Some self \<and> pd (table_of s) l = Some p" for l p
  proof -
    from assms have "olist pending_node_callback pending_le (pending_cell s) (pendings c) qs"
      and dom: "fst ` set qs = {l. owner (table_of s) l = Some self \<and> pd (table_of s) l \<noteq> None}" by (simp_all add: good_def)
    from olist_in_iff [OF this(1), of l p] have "(l, p) \<in> set qs \<longleftrightarrow> l \<in> fst ` set qs \<and> pd (table_of s) l = Some p" by simp
    then show ?thesis unfolding dom by (auto simp del: table_of_simps)
  qed
qed

abbreviation agrees :: "'c \<Rightarrow> 'c ref_table \<Rightarrow> ref_queue \<Rightarrow> ref_set \<Rightarrow> bool" where
  "agrees self t qs st \<equiv> serving self {} (\<lambda>_. {}) t st [] qs"

lemma agrees_claim:
  assumes inv: "core_inv self (c, s)" and free: "owner (table_of s) l = None" and room: "room self (table_of s)"
    and p: "p_parent p = Read l \<or> p_parent p = Write l" "p_start p < rng_end (p_range p)" "rng_end (p_range p) \<le> LEN"
    and ag: "agrees self (table_of s) qs st"
    and lk: "lk = \<lparr>lk_range = p_range p, lk_write = is_writer (p_parent p), lk_pos = p_start p,
      lk_priority = p_priority p, lk_order = None\<rparr>"
  shows "serving self {l} (\<lambda>_. {}) (claim self (table_of s) l p) (st\<lparr>ref_locks := (ref_locks st)(l \<mapsto> lk)\<rparr>) [(l, p)] qs"
proof -
  let ?t = "table_of s" and ?L = "(ref_locks st)(l \<mapsto> lk)"
  note C = claim_inv [OF inv free room p(1,2)]
  from ag have sim: "sim self {} (\<lambda>_. {}) ?t st" and lp: "lists_pending self ?t qs" and f: "fifo st qs"
    and srt: "sorted_wrt (\<lambda>x y. pending_le (snd x) (snd y)) qs" by (simp_all add: serving_def)
  have rows: "same_lock self {} ?t k (ref_locks st k)" for k using sim by (simp add: sim_def)
  from rows [of l] free have none: "ref_locks st l = None" by (cases "ref_locks st l") (auto simp: same_lock_def)
  have own: "owner (claim self ?t l p) = (owner ?t)(l \<mapsto> self)" "pd (claim self ?t l p) = (pd ?t)(l \<mapsto> p)"
    "rd (claim self ?t l p) = rd ?t" "wr (claim self ?t l p) = wr ?t"
    by (simp_all add: claim_def del: table_of_simps)
  have empty: "rd ?t l = None" "wr ?t l = None" using C(9,10) own by simp_all
  have "same_lock self {l} (claim self ?t l p) k (?L k)" for k
  proof (cases "k = l")
    case True
    then show ?thesis using C(7) by (simp add: same_lock_def own lk del: table_of_simps)
  next
    case False
    then show ?thesis using rows [of k] C(8) [of k] by (simp add: same_lock_def own cong: option.case_cong del: table_of_simps)
  qed
  moreover have "holders self (claim self ?t l p) i = holders self ?t i" for i
    using empty free by (auto simp: holders_def w_covers_def r_covers_def own split: if_splits simp del: table_of_simps)
  moreover have "waiters ?L i = waiters (ref_locks st) i" for i
    using none by (auto simp: waiters_def lk)
  ultimately have "sim self {l} (\<lambda>_. {}) (claim self ?t l p) (st\<lparr>ref_locks := ?L\<rparr>)"
    using sim C(1,2) p(3) by (simp add: sim_def ref_ok_def lk)
  moreover have "lists_pending self (claim self ?t l p) ([(l, p)] @ qs)"
  proof -
    from lp have in_qs: "(k, q) \<in> set qs \<longleftrightarrow> owner ?t k = Some self \<and> pd ?t k = Some q" for k q
      unfolding lists_pending_def by blast
    then have "l \<notin> fst ` set qs" using free by fastforce
    then have "distinct (map fst ([(l, p)] @ qs))" using lp by (simp add: lists_pending_def)
    then show ?thesis using in_qs free by (simp add: lists_pending_def own del: table_of_simps) blast
  qed
  moreover have "fifo (st\<lparr>ref_locks := ?L\<rparr>) qs"
  proof (rule fifo_same [OF f])
    fix x assume "x \<in> set qs"
    with lp free have "fst x \<noteq> l" unfolding lists_pending_def by (metis option.distinct(1) prod.collapse)
    then show "ref_locks (st\<lparr>ref_locks := ?L\<rparr>) (fst x) = ref_locks st (fst x)" by simp
  qed
  ultimately show ?thesis using srt by (simp add: serving_def)
qed

lemma agrees_lock:
  assumes inv: "core_inv self (c, s)" and free: "owner (table_of s) l = None" and room: "room self (table_of s)"
    and ptr: "ptr = Read l \<or> ptr = Write l" and xy: "x < y" "y \<le> LEN"
    and ag: "agrees self (table_of s) qs st" and pick: "picks pick"
    and first: "first_in (conflict_at self (table_of s) ptr) x y r"
  shows "\<exists>st'. ref_do_lock pick l (Range x y) (is_writer ptr) prio st = Some (r = None, st') \<and>
    agrees self (resume_table (claim self (table_of s) l (fresh ptr x y prio ip)) l (fresh ptr x y prio ip) r)
      (requeue l (fresh ptr x y prio ip) r qs) st'"
proof -
  let ?p = "fresh ptr x y prio ip"
  let ?lk = "\<lparr>lk_range = Range x y, lk_write = is_writer ptr, lk_pos = x, lk_priority = prio, lk_order = None\<rparr>"
  have p: "p_parent ?p = Read l \<or> p_parent ?p = Write l" "p_start ?p < rng_end (p_range ?p)" using ptr xy by simp_all
  have "serving self {l} (\<lambda>_. {}) (claim self (table_of s) l ?p) (st\<lparr>ref_locks := (ref_locks st)(l \<mapsto> ?lk)\<rparr>) [(l, ?p)] qs"
    by (rule agrees_claim [OF inv free room p _ ag]) (use xy in simp_all)
  moreover have "conflict_at self (claim self (table_of s) l ?p) ptr = conflict_at self (table_of s) ptr"
    using claim_inv(4) [OF inv free room p] by blast
  with first have "first_in (conflict_at self (claim self (table_of s) l ?p) (p_parent ?p)) (p_start ?p) (rng_end (p_range ?p)) r"
    by simp
  ultimately show ?thesis
    using serving_step [of self "{l}" "\<lambda>_. {}" "claim self (table_of s) l ?p" "st\<lparr>ref_locks := (ref_locks st)(l \<mapsto> ?lk)\<rparr>"
      "[(l, ?p)]" qs l ?p "[]" pick r] pick by (auto simp: ref_do_lock_def)
qed

section \<open>Unlocking\<close>

text \<open>The table without the lock \<open>u\<close>, whose region is free and whose pending borrow is gone.\<close>

definition without :: "'c ref_table \<Rightarrow> bool \<Rightarrow> nat \<Rightarrow> 'c ref_table" where
  "without t k u = (cut (t\<lparr>pd := (pd t)(u := None)\<rparr>) k u None)\<lparr>owner := (owner t)(u := None)\<rparr>"

lemma without_simps [simp]:
  "owner (without t k u) = (owner t)(u := None)" "pd (without t k u) = (pd t)(u := None)"
  "l \<noteq> u \<Longrightarrow> rd (without t k u) l = rd t l" "l \<noteq> u \<Longrightarrow> wr (without t k u) l = wr t l"
  by (simp_all add: without_def cut_def)

lemma without_ok:
  assumes "table_ok t" "excl self t" and ur: "u_region k t u x"
  shows "table_ok (without t k u)" "excl self (without t k u)" "rd (without t k u) u = None" "wr (without t k u) u = None"
proof -
  show none: "rd (without t k u) u = None" "wr (without t k u) u = None"
    using ur by (auto simp: without_def cut_def u_region_def split: if_splits)
  have "lock_ok (without t k u) l" for l
    using assms(1) none by (cases "l = u") (auto simp: table_ok_def lock_ok_def)
  moreover have "regions_ok (without t k u)"
    unfolding regions_ok_def
  proof (intro allI)
    fix l a b
    show "(rd (without t k u) l = Some (a, b) \<longrightarrow> a < b) \<and> (wr (without t k u) l = Some (a, b) \<longrightarrow> a < b)"
      using assms(1) none by (cases "l = u") (auto simp: table_ok_def regions_ok_def)
  qed
  ultimately show "table_ok (without t k u)" by (simp add: table_ok_def)
  have cov: "w_covers (without t k u) l i = w_covers t l i" "r_covers (without t k u) l i = r_covers t l i" if "l \<noteq> u" for l i
    using that by (simp_all add: w_covers_def r_covers_def)
  have "l \<noteq> u" if "owner (without t k u) l = Some self" for l using that by auto
  with cov assms(2) show "excl self (without t k u)" unfolding excl_def without_simps(1) by (metis fun_upd_apply)
qed

text \<open>Who owns a lock without borrows does not matter.\<close>

lemma serve_unclaim:
  assumes "serve self xs t bs t' bs'" and "rd t u = None" "wr t u = None" "u \<notin> fst ` set xs"
    and "\<forall>(l, p)\<in>set xs. p_parent p = Read l \<or> p_parent p = Write l"
  shows "serve self xs (t\<lparr>owner := (owner t)(u := o')\<rparr>) bs (t'\<lparr>owner := (owner t)(u := o')\<rparr>) bs'"
  using assms
proof (induction rule: serve.induct)
  case (serve_Nil t bs)
  then show ?case by (simp add: serve.serve_Nil)
next
  case (serve_Cons t p r qs l bs t' bs')
  let ?o = "(owner t)(u := o')"
  have "owner (t\<lparr>owner := ?o\<rparr>) k = Some self \<and> w_covers (t\<lparr>owner := ?o\<rparr>) k i \<longleftrightarrow> owner t k = Some self \<and> w_covers t k i"
    "owner (t\<lparr>owner := ?o\<rparr>) k = Some self \<and> r_covers (t\<lparr>owner := ?o\<rparr>) k i \<longleftrightarrow> owner t k = Some self \<and> r_covers t k i" for k i
    using serve_Cons.prems(1,2) by (cases "k = u"; simp add: w_covers_def r_covers_def)+
  then have "conflict_at self (t\<lparr>owner := ?o\<rparr>) (p_parent p) = conflict_at self t (p_parent p)"
    unfolding fun_eq_iff conflict_at_def w_at_def r_at_def by presburger
  with serve_Cons.hyps(1) have
    "first_in (conflict_at self (t\<lparr>owner := ?o\<rparr>) (p_parent p)) (p_start p) (rng_end (p_range p)) r" by simp
  moreover have "resume_table (t\<lparr>owner := ?o\<rparr>) l p r = (resume_table t l p r)\<lparr>owner := ?o\<rparr>"
    by (auto simp: resume_table_def Core_Resume.extend_def split: lock_state_ptr.splits)
  moreover have "rd (resume_table t l p r) u = None" "wr (resume_table t l p r) u = None" "owner (resume_table t l p r) = owner t"
    using serve_Cons.prems by (auto simp: resume_table_def Core_Resume.extend_def split: lock_state_ptr.splits)
  moreover from this have "serve self qs ((resume_table t l p r)\<lparr>owner := ?o\<rparr>) (requeue l p r bs) (t'\<lparr>owner := ?o\<rparr>) bs'"
    using serve_Cons.IH serve_Cons.prems(3,4) by (simp del: fun_upd_apply)
  ultimately show ?case using serve.serve_Cons by metis
qed

lemma sorted_parts:
  assumes "sorted_wrt (\<lambda>x y. pending_le (snd x) (snd y)) qs" and "start \<le> e"
  shows "qs = filter (starts_before start) qs @ filter (\<lambda>x. \<not> starts_before start x \<and> starts_before e x) qs @
    filter (\<lambda>x. \<not> starts_before e x) (qs :: ref_queue)"
  using assms(1)
proof (induction qs)
  case (Cons x qs)
  then have le: "\<forall>y\<in>set qs. p_start (snd x) \<le> p_start (snd y)" by (auto simp: pending_le_def)
  have none: "filter (starts_before i) qs = []" if "i \<le> p_start (snd x)" for i
    using le that by (fastforce simp: filter_empty_conv)
  consider "p_start (snd x) < start" | "start \<le> p_start (snd x)" "p_start (snd x) < e" | "e \<le> p_start (snd x)"
    by linarith
  then show ?case
  proof cases
    case 1
    with Cons assms(2) show ?thesis by simp
  next
    case 2
    with Cons none [of start] show ?thesis by simp
  next
    case 3
    then have "filter (\<lambda>y. \<not> starts_before start y \<and> starts_before e y) qs = []" using le by (fastforce simp: filter_empty_conv)
    with 3 Cons none [of start] assms(2) show ?thesis by simp
  qed
qed simp

lemma agrees_without:
  assumes ag: "agrees self t qs st" and u: "owner t u = Some self" and ur: "u_region k t u x"
    and lk: "ref_locks st u = Some lk" and rw: "ref_ok rw ((ref_locks st)(u \<mapsto> lk\<lparr>lk_order := None\<rparr>))" "owners_at rw = owners_at (rw_locks st)"
    and E: "E = (\<lambda>i. if \<exists>a b. x = Some (a, b) \<and> a \<le> i \<and> i < b then {(u, k)} else {})"
  shows "serving self {} E (without t k u) \<lparr>rw_locks = rw, ref_locks = (ref_locks st)(u := None)\<rparr>
    [] (filter (\<lambda>x. fst x \<noteq> u) qs)"
proof -
  let ?t = "without t k u" and ?st = "\<lparr>rw_locks = rw, ref_locks = (ref_locks st)(u := None)\<rparr>"
  from ag have sim: "sim self {} (\<lambda>_. {}) t st" and lp: "lists_pending self t qs" and f: "fifo st qs"
    and srt: "sorted_wrt (\<lambda>x y. pending_le (snd x) (snd y)) qs" by (simp_all add: serving_def)
  from sim have ok: "table_ok t" "excl self t" by (simp_all add: sim_def)
  note W = without_ok [OF ok ur]
  have "waiters ((ref_locks st)(u := None)) i = waiters ((ref_locks st)(u \<mapsto> lk\<lparr>lk_order := None\<rparr>)) i" for i
    by (auto simp: waiters_def)
  then have "ref_ok rw ((ref_locks st)(u := None))" using rw(1) by (auto simp: ref_ok_def split: if_splits)
  moreover have "same_lock self {} ?t l (ref_locks ?st l)" for l
  proof (cases "l = u")
    case True
    then show ?thesis by (simp add: same_lock_def)
  next
    case False
    then have "request ?t l = request t l" by (intro request_cong) simp_all
    moreover have "same_lock self {} t l (ref_locks st l)" using sim by (simp add: sim_def)
    ultimately show ?thesis using False by (simp add: same_lock_def cong: option.case_cong)
  qed
  moreover have "owners_at rw i = holders self ?t i \<union> E i" if "i < LEN" for i
  proof -
    have "owners_at rw i = holders self t i" using sim that rw(2) by (simp add: sim_def)
    also have "\<dots> = holders self ?t i \<union> E i"
    proof (rule set_eqI)
      fix y :: "nat \<times> bool"
      obtain l b where y: "y = (l, b)" by force
      show "y \<in> holders self t i \<longleftrightarrow> y \<in> holders self ?t i \<union> E i"
      proof (cases "l = u")
        case True
        have "(u, b) \<in> E i \<longleftrightarrow> (if b then w_covers t u i else r_covers t u i)"
          using ur by (auto simp: E u_region_def w_covers_def r_covers_def split: if_splits)
        then show ?thesis using u by (simp add: y True holders_def)
      next
        case False
        then show ?thesis by (simp add: y holders_def w_covers_def r_covers_def E)
      qed
    qed
    finally show ?thesis .
  qed
  ultimately have "sim self {} E ?t ?st" using W(1,2) by (simp add: sim_def)
  moreover have "lists_pending self ?t (filter (\<lambda>x. fst x \<noteq> u) qs)"
    using lp unfolding lists_pending_def by (auto simp: distinct_map_filter)
  moreover have "fifo ?st (filter (\<lambda>x. fst x \<noteq> u) qs)"
  proof (rule fifo_same)
    show "fifo st (filter (\<lambda>x. fst x \<noteq> u) qs)" using f unfolding fifo_def by (rule sorted_wrt_filter)
  qed simp
  moreover have "sorted_wrt (\<lambda>x y. pending_le (snd x) (snd y)) (filter (\<lambda>x. fst x \<noteq> u) qs)"
    using srt by (rule sorted_wrt_filter)
  ultimately show ?thesis by (simp add: serving_def)
qed

lemma serving_split: "serving self F E t st [] (as @ bs) \<Longrightarrow> serving self F E t st as bs \<and> fifo st as \<and>
    sorted_wrt (\<lambda>x y. pending_le (snd x) (snd y)) as"
  by (simp add: serving_def fifo_append sorted_wrt_append)

lemma serving_join:
  assumes "serving self F E t st as bs" and "fifo st as" "sorted_wrt (\<lambda>x y. pending_le (snd x) (snd y)) as"
    and "\<forall>x\<in>set as. p_start (snd x) < i" "\<forall>x\<in>set bs. i \<le> p_start (snd x)"
  shows "serving self F E t st [] (as @ bs)"
proof -
  have "p_start (snd x) < p_start (snd y)" if "x \<in> set as" "y \<in> set bs" for x y
    using assms(4,5) that by (meson order_less_le_trans)
  then have "pending_le (snd x) (snd y)" "p_start (snd x) \<noteq> p_start (snd y)" if "x \<in> set as" "y \<in> set bs" for x y
    using that by (fastforce simp: pending_le_def)+
  with assms show ?thesis by (auto simp: serving_def fifo_append sorted_wrt_append)
qed

lemma release_loop_end [simp]: "release_loop pick u k start start st = Some st"
  by (cases start) simp_all

text \<open>Where the lock that is to be released stands.\<close>

lemma standing:
  assumes ag: "agrees self t qs st" and u: "owner t u = Some self" and ur: "u_region k t u x"
  obtains lk where "ref_locks st u = Some lk"
    and "x = None \<longrightarrow> lk_pos lk = rng_start (lk_range lk)"
    and "\<And>a b. x = Some (a, b) \<Longrightarrow> lk_write lk = k \<and> rng_start (lk_range lk) = a \<and> lk_pos lk = b \<and> a < b \<and> b \<le> LEN"
proof -
  from ag have sim: "sim self {} (\<lambda>_. {}) t st" by (simp add: serving_def)
  from sim have ok: "table_ok t" and rows: "same_lock self {} t u (ref_locks st u)" by (simp_all add: sim_def)
  from ok have lok: "lock_ok t u" and reg: "regions_ok t" by (simp_all add: table_ok_def)
  from rows u obtain lk where lk: "ref_locks st u = Some lk"
    "request t u = Some (lk_write lk, rng_start (lk_range lk), rng_end (lk_range lk))"
    "pd t u = None \<Longrightarrow> lk_pos lk = rng_end (lk_range lk)" "\<And>p. pd t u = Some p \<Longrightarrow> lk_pos lk = p_start p"
    by (cases "ref_locks st u"; cases "pd t u") (auto simp: same_lock_def)
  have region: "region t u = map_option (Pair k) x"
    using ur by (auto simp: region_def u_region_def split: if_splits option.splits)
  have len: "rng_end (lk_range lk) \<le> LEN" using sim lk(1) by (simp add: sim_def ref_ok_def)
  show ?thesis
  proof (rule that [OF lk(1)])
    show "x = None \<longrightarrow> lk_pos lk = rng_start (lk_range lk)"
    proof
      assume "x = None"
      with region lk(2) obtain p where "pd t u = Some p" "p_start p = rng_start (lk_range lk)"
        by (auto simp: request_def split: option.splits)
      with lk(4) show "lk_pos lk = rng_start (lk_range lk)" by simp
    qed
    fix a b assume x: "x = Some (a, b)"
    with region have r: "region t u = Some (k, a, b)" by simp
    with regions_ok_region [OF reg] have ab: "a < b" by blast
    show "lk_write lk = k \<and> rng_start (lk_range lk) = a \<and> lk_pos lk = b \<and> a < b \<and> b \<le> LEN"
    proof (cases "pd t u")
      case None
      with lk(2,3) r ab len show ?thesis by (simp add: request_def)
    next
      case (Some p)
      from lock_ok_region [OF lok Some r] have p: "k = is_writer (p_parent p)" "b = p_start p" by simp_all
      from lok Some have "p_start p < rng_end (p_range p)" by (simp add: lock_ok_def)
      with lk(2,4) Some r p ab len show ?thesis by (simp add: request_def)
    qed
  qed
qed

lemma agrees_unlock:
  assumes ag: "agrees self t qs st" and u: "owner t u = Some self" and ur: "u_region k t u x" and pick: "picks pick"
    and rel: "release_queue self u k x (t\<lparr>pd := (pd t)(u := None)\<rparr>) (filter (\<lambda>x. fst x \<noteq> u) qs) t' qs'"
  shows "\<exists>st'. ref_do_unlock pick u st = Some st' \<and> agrees self (t'\<lparr>owner := (owner t)(u := None)\<rparr>) qs' st'"
proof -
  let ?qs = "filter (\<lambda>x. fst x \<noteq> u) qs"
  let ?E = "\<lambda>i. if \<exists>a b. x = Some (a, b) \<and> a \<le> i \<and> i < b then {(u, k)} else {}"
  from ag have sim: "sim self {} (\<lambda>_. {}) t st" and lp: "lists_pending self t qs"
    and srt: "sorted_wrt (\<lambda>x y. pending_le (snd x) (snd y)) qs" by (simp_all add: serving_def)
  from sim have rok: "ref_ok (rw_locks st) (ref_locks st)" and ok: "table_ok t" "excl self t" by (simp_all add: sim_def)
  obtain lk where lk: "ref_locks st u = Some lk" "x = None \<longrightarrow> lk_pos lk = rng_start (lk_range lk)"
    "\<And>a b. x = Some (a, b) \<Longrightarrow> lk_write lk = k \<and> rng_start (lk_range lk) = a \<and> lk_pos lk = b \<and> a < b \<and> b \<le> LEN"
    using standing [OF ag u ur] by blast
  from take_wait_ok [OF rok lk(1)] obtain rw where
    rw: "take_wait u lk (rw_locks st) = Some (lk\<lparr>lk_order := None\<rparr>, rw)"
    "ref_ok rw ((ref_locks st)(u \<mapsto> lk\<lparr>lk_order := None\<rparr>))" "owners_at rw = owners_at (rw_locks st)" by blast
  let ?st = "\<lparr>rw_locks = rw, ref_locks = (ref_locks st)(u := None)\<rparr>"
  have s0: "serving self {} ?E (without t k u) ?st [] ?qs"
    by (rule agrees_without [OF ag u ur lk(1) rw(2,3) refl])
  have run: "ref_do_unlock pick u st = release_loop pick u (lk_write lk) (rng_start (lk_range lk)) (lk_pos lk) ?st"
    using lk(1) rw(1) by (simp add: ref_do_unlock_def)
  show ?thesis
  proof (cases x)
    case None
    with rel have "t' = cut (t\<lparr>pd := (pd t)(u := None)\<rparr>) k u None" "qs' = ?qs" by (simp_all add: release_queue_def)
    with run s0 lk(2) None show ?thesis by (simp add: without_def)
  next
    case (Some ab)
    then obtain start e where x: "x = Some (start, e)" by (cases ab) auto
    from lk(3) [OF x] have l: "lk_write lk = k" "rng_start (lk_range lk) = start" "lk_pos lk = e" "start < e" "e \<le> LEN" by simp_all
    define low mid top where "low = filter (starts_before start) ?qs"
      and "mid = filter (\<lambda>x. \<not> starts_before start x \<and> starts_before e x) ?qs" and "top = filter (\<lambda>x. \<not> starts_before e x) ?qs"
    note defs = low_def mid_def top_def
    have "sorted_wrt (\<lambda>x y. pending_le (snd x) (snd y)) ?qs" using srt by (rule sorted_wrt_filter)
    from sorted_parts [OF this less_imp_le [OF l(4)]] have parts: "?qs = low @ mid @ top" unfolding defs .
    have bounds: "\<forall>x\<in>set low. p_start (snd x) < start" "\<forall>x\<in>set mid. start \<le> p_start (snd x) \<and> p_start (snd x) < e"
      "\<forall>x\<in>set top. e \<le> p_start (snd x)" "set mid \<subseteq> set ?qs" by (auto simp: defs)
    from rel x obtain bs' where bs': "qs' = low @ bs'"
      "serve self (rev mid) (cut (t\<lparr>pd := (pd t)(u := None)\<rparr>) k u None) top t' bs'" by (auto simp: release_queue_def defs)
    have "serve self (rev mid) (without t k u) top (t'\<lparr>owner := (owner t)(u := None)\<rparr>) bs'"
    proof -
      have "p_parent p = Read l \<or> p_parent p = Write l" if "(l, p) \<in> set qs" for l p
        using lp that ok(1) by (auto simp: lists_pending_def table_ok_def lock_ok_def)
      then show ?thesis
        using serve_unclaim [OF bs'(2), of u None] without_ok(3,4) [OF ok ur] bounds(4) by (auto simp: without_def)
    qed
    moreover have s1: "serving self {} ?E (without t k u) ?st (low @ mid) top" "fifo ?st (low @ mid)"
      "sorted_wrt (\<lambda>x y. pending_le (snd x) (snd y)) (low @ mid)"
      using serving_split [of self "{}" ?E "without t k u" ?st "low @ mid" top] s0 parts by simp_all
    moreover have "?E = (\<lambda>i. if start \<le> i \<and> i < e then {(u, k)} else {})" using x by (auto simp: fun_eq_iff)
    ultimately have "\<exists>st'. release_loop pick u k start e ?st = Some st' \<and>
        serving self {} (\<lambda>_. {}) (t'\<lparr>owner := (owner t)(u := None)\<rparr>) st' low bs' \<and>
        (\<forall>x\<in>set low. ref_locks st' (fst x) = ref_locks ?st (fst x)) \<and> (\<forall>x\<in>set bs'. start \<le> p_start (snd x))"
      using pick l(4,5) bounds by (intro sim_release) (auto simp: fifo_append sorted_wrt_append)
    then obtain st' where 2: "release_loop pick u k start e ?st = Some st'"
      "serving self {} (\<lambda>_. {}) (t'\<lparr>owner := (owner t)(u := None)\<rparr>) st' low bs'"
      "\<forall>x\<in>set low. ref_locks st' (fst x) = ref_locks ?st (fst x)" "\<forall>x\<in>set bs'. start \<le> p_start (snd x)" by blast
    have "fifo ?st low" using s1(2) by (simp add: fifo_append)
    then have "fifo st' low" by (rule fifo_same) (use 2(3) in blast)
    with s1(3) have "agrees self (t'\<lparr>owner := (owner t)(u := None)\<rparr>) (low @ bs') st'"
      by (intro serving_join [OF 2(2), of start]) (use 2(4) bounds(1) in \<open>auto simp: sorted_wrt_append\<close>)
    with 2(1) run bs'(1) l show ?thesis by auto
  qed
qed

section \<open>A lock that is given up at once\<close>

text \<open>Serving borrows that are blocked where they are changes nothing.\<close>

lemma serve_blocked:
  assumes "\<forall>(l, p)\<in>set xs. conflict_at self t (p_parent p) (p_start p) \<and> p_start p < rng_end (p_range p)"
    and "sorted_wrt (\<lambda>x y. pending_le (snd x) (snd y)) (rev xs @ bs)"
  shows "serve self xs t bs t (rev xs @ bs)"
  using assms
proof (induction xs arbitrary: bs)
  case Nil
  then show ?case by (simp add: serve_Nil)
next
  case (Cons x xs)
  obtain l p where x: "x = (l, p)" by force
  have "first_in (conflict_at self t (p_parent p)) (p_start p) (rng_end (p_range p)) (Some (p_start p))"
    using Cons.prems(1) by (auto simp: x first_in_def)
  moreover have "requeue l p (Some (p_start p)) bs = (l, p) # bs"
    using Cons.prems(2) by (intro requeue_same) (auto simp: x sorted_wrt_append)
  moreover have "serve self xs t ((l, p) # bs) t (rev xs @ (l, p) # bs)"
    using Cons.prems by (intro Cons.IH) (auto simp: x)
  ultimately show ?case using serve.serve_Cons [of self t p "Some (p_start p)" xs l bs] by (simp add: x resume_table_def)
qed

text \<open>
  The lock \<open>l\<close> that has been put into the table of a core where everything else is blocked already leaves no trace in the
  queue.
\<close>

lemma release_nothing:
  assumes inv: "core_inv self (c, s)" and g: "good self c s qs" and free: "owner (table_of s) l = None"
    and xe: "\<And>a e. x = Some (a, e) \<Longrightarrow> a < e"
    and t1: "cut (t1\<lparr>pd := (pd t1)(l := None)\<rparr>) k l None = (table_of s)\<lparr>owner := (owner (table_of s))(l \<mapsto> self)\<rparr>"
  shows "release_queue self l k x (t1\<lparr>pd := (pd t1)(l := None)\<rparr>) qs ((table_of s)\<lparr>owner := (owner (table_of s))(l \<mapsto> self)\<rparr>) (qs :: ref_queue)"
proof (cases x)
  case None
  then show ?thesis by (simp add: release_queue_def t1)
next
  case (Some ab)
  then obtain a e where ae: "x = Some (a, e)" by (cases ab) auto
  let ?t = "table_of s" and ?t1 = "(table_of s)\<lparr>owner := (owner (table_of s))(l \<mapsto> self)\<rparr>"
  let ?xs = "rev (filter (\<lambda>x. \<not> starts_before a x \<and> starts_before e x) qs)" and ?bs = "filter (\<lambda>x. \<not> starts_before e x) qs"
  have srt: "sorted_wrt (\<lambda>x y. pending_le (snd x) (snd y)) qs" by (rule good_sorted [OF g])
  from sorted_parts [OF srt less_imp_le [OF xe [OF ae]]] have parts: "qs = filter (starts_before a) qs @ rev ?xs @ ?bs"
    unfolding rev_rev_ident .
  have bl: "conflict_at self ?t1 (p_parent p) (p_start p) \<and> p_start p < rng_end (p_range p)" if "(m, p) \<in> set qs" for m p
  proof -
    from good_pending [OF g that] have own: "owner ?t m = Some self" and p: "pd ?t m = Some p" by simp_all
    from core_invD(1) [OF inv] p have "p_start p < rng_end (p_range p)" by (simp add: table_ok_def lock_ok_def del: table_of_simps)
    moreover have "w_covers ?t1 n i = w_covers ?t n i" "r_covers ?t1 n i = r_covers ?t n i"
      "owner ?t n = Some self \<Longrightarrow> owner ?t1 n = Some self" for n i
      by (simp_all add: w_covers_def r_covers_def del: table_of_simps)
    with core_invD(5) [OF inv own p] have "conflict_at self ?t1 (p_parent p) (p_start p)"
      unfolding blocked_def conflict_at_def w_at_def r_at_def by blast
    ultimately show ?thesis by simp
  qed
  have "sorted_wrt (\<lambda>x y. pending_le (snd x) (snd y)) (filter (starts_before a) qs @ rev ?xs @ ?bs)" using srt parts by metis
  then have "sorted_wrt (\<lambda>x y. pending_le (snd x) (snd y)) (rev ?xs @ ?bs)" unfolding sorted_wrt_append by blast
  moreover have "\<forall>(m, p)\<in>set ?xs. conflict_at self ?t1 (p_parent p) (p_start p) \<and> p_start p < rng_end (p_range p)"
    using bl by auto
  ultimately have "serve self ?xs ?t1 ?bs ?t1 (rev ?xs @ ?bs)" by (intro serve_blocked)
  with parts show ?thesis unfolding release_queue_def ae option.case prod.case t1 by blast
qed

section \<open>The core and the reference\<close>

text \<open>A core and a reference that have seen the same operations.\<close>

definition agree :: "'c \<Rightarrow> ('c, nat, nat, nat, nat) world \<Rightarrow> ref_set \<Rightarrow> bool" where
  "agree self cs st \<longleftrightarrow> core_inv self cs \<and> (\<exists>qs. good self (fst cs) (snd cs) qs \<and> agrees self (table_of (snd cs)) qs st)"

lemma agree_complete:
  assumes "agree self (c, s) st" and "owner (table_of s) l = Some self"
  shows "ref_is_complete l st = Some (pd (table_of s) l = None)"
proof -
  from assms(1) obtain qs where "agrees self (table_of s) qs st" by (auto simp: agree_def)
  then have sim: "sim self {} (\<lambda>_. {}) (table_of s) st" by (simp add: serving_def)
  then have row: "same_lock self {} (table_of s) l (ref_locks st l)" by (simp add: sim_def)
  with assms(2) obtain lk where lk: "ref_locks st l = Some lk"
    by (cases "ref_locks st l") (auto simp: same_lock_def)
  show ?thesis
  proof (cases "pd (table_of s) l")
    case None
    with row lk show ?thesis by (simp add: same_lock_def ref_is_complete_def del: table_of_simps)
  next
    case (Some p)
    obtain lk' where "ref_locks st l = Some lk'" "lk_pos lk' = p_start p" "rng_end (lk_range lk') = rng_end (p_range p)"
      "p_start p < rng_end (p_range p)" by (rule sim_pending [OF sim assms(2) Some])
    with Some show ?thesis by (simp add: ref_is_complete_def del: table_of_simps)
  qed
qed

lemma agree_lock:
  assumes ag: "agree self (c, s) st" and free: "owner (table_of s) l = None" and room: "room self (table_of s)"
    and ptr: "ptr = Read l \<or> ptr = Write l" and xy: "x < y" "y \<le> LEN" and pick: "picks pick"
    and post: "lock_queue_post self l c s ptr x y prio callback res"
  shows "\<exists>r c' s' st'. res = Inr (case r of None \<Rightarrow> on_complete callback | Some _ \<Rightarrow> fst (on_in_progress callback), c', s') \<and>
    ref_do_lock pick l (Range x y) (is_writer ptr) prio st = Some (r = None, st') \<and> agree self (c', s') st' \<and>
    owner (table_of s') = (owner (table_of s))(l \<mapsto> self) \<and>
    pd (table_of s') = (pd (table_of s))(l := map_option (moved (fresh ptr x y prio (snd (on_in_progress callback)))) r)"
proof -
  let ?p = "fresh ptr x y prio (snd (on_in_progress callback))"
  from post obtain c' s' r qs where
    1: "res = Inr (case r of None \<Rightarrow> on_complete callback | Some _ \<Rightarrow> fst (on_in_progress callback), c', s')"
    "first_in (conflict_at self (table_of s) ptr) x y r" "core_inv self (c', s')"
    "table_of s' = resume_table (claim self (table_of s) l ?p) l ?p r" "good self c s qs" "good self c' s' (requeue l ?p r qs)"
    unfolding lock_queue_post_def Let_def by blast
  from ag obtain qs' where inv: "core_inv self (c, s)" and "good self c s qs'" and "agrees self (table_of s) qs' st"
    by (auto simp: agree_def)
  with good_unique [OF 1(5)] have "agrees self (table_of s) qs st" by simp
  from agrees_lock [OF inv free room ptr xy this pick 1(2), of prio "snd (on_in_progress callback)"] obtain st' where
    2: "ref_do_lock pick l (Range x y) (is_writer ptr) prio st = Some (r = None, st')"
    "agrees self (table_of s') (requeue l ?p r qs) st'" unfolding 1(4) by blast
  have "agree self (c', s') st'" using 1(3,6) 2(2) by (auto simp: agree_def)
  moreover have "owner (table_of s') = (owner (table_of s))(l \<mapsto> self)"
    unfolding 1(4) by (auto simp: resume_table_def claim_def Core_Resume.extend_def split: lock_state_ptr.splits simp del: table_of_simps)
  moreover have "pd (table_of s') = (pd (table_of s))(l := map_option (moved ?p) r)"
  proof -
    have "pd (claim self (table_of s) l ?p) l = Some ?p" by (simp add: claim_def)
    moreover have "p_start ?p \<le> the r" if "r \<noteq> None" using that 1(2) by (auto simp: first_in_def)
    ultimately have "pd (table_of s') = (pd (claim self (table_of s) l ?p))(l := map_option (moved ?p) r)"
      unfolding 1(4) by (rule resume_pd)
    then show ?thesis by (simp add: claim_def del: table_of_simps)
  qed
  ultimately show ?thesis using 1(1) 2(1) by blast
qed

lemma agree_unlock:
  assumes ag: "agree self (c, s) st" and own: "owner (table_of s) u = Some self" and pick: "picks pick"
    and post: "unlock_post self u c s callback w ret res"
  shows "\<exists>c' s' log st'. res = Inr (ret, (c', s'), fold callback (map (payload (table_of s)) log) w) \<and>
    ref_do_unlock pick u st = Some st' \<and> agree self (c', s') st' \<and> released u (table_of s) (table_of s') log"
proof -
  from post obtain c' s' log k x where
    1: "res = Inr (ret, (c', s'), fold callback (map (payload (table_of s)) log) w)" "core_inv self (c', s')"
    "released u (table_of s) (table_of s') log" "u_region k (table_of s) u x" "queue_step self u k x c s c' s'"
    unfolding unlock_post_def by blast
  from 1(5) obtain qs qs' t' where 2: "good self c s qs" "good self c' s' qs'"
    "release_queue self u k x ((table_of s)\<lparr>pd := (pd (table_of s))(u := None)\<rparr>) (filter (\<lambda>x. fst x \<noteq> u) qs) t' qs'"
    "table_of s' = t'\<lparr>owner := (owner (table_of s))(u := None)\<rparr>" unfolding queue_step_def by blast
  from ag obtain qs'' where "good self c s qs''" and "agrees self (table_of s) qs'' st" by (auto simp: agree_def)
  with good_unique [OF 2(1)] have "agrees self (table_of s) qs st" by simp
  from agrees_unlock [OF this own 1(4) pick 2(3)] obtain st' where
    "ref_do_unlock pick u st = Some st'" "agrees self (table_of s') qs' st'" unfolding 2(4) by blast
  with 1(1-3) 2(2) show ?thesis by (auto simp: agree_def)
qed

text \<open>The non-blocking lock: where the core refuses it, the reference waits for it and gives it up again.\<close>

lemma grant_resume:
  assumes "core_inv self (c, s)" and "owner (table_of s) l = None" and "ptr = Read l \<or> ptr = Write l"
  shows "resume_table (claim self (table_of s) l (fresh ptr x y prio ip)) l (fresh ptr x y prio ip) None = grant self (table_of s) ptr x y"
  using set_parent_good(2-4) [OF assms(1,2)] assms(3)
  by (auto simp: resume_table_def claim_def Core_Resume.extend_def grant_def fun_upd_idem simp del: table_of_simps)

lemma resumed_region:
  assumes "rd t l = None" "wr t l = None" "pd t l = Some p" and "p_parent p = Read l \<or> p_parent p = Write l"
  shows "u_region (is_writer (p_parent p)) (resume_table t l p (Some i)) l (if i = p_start p then None else Some (p_start p, i))"
  using assms by (auto simp: u_region_def resume_table_def Core_Resume.extend_def)

lemma resumed_cut:
  assumes "rd t l = None" "wr t l = None" and "p_parent p = Read l \<or> p_parent p = Write l"
  shows "cut ((resume_table t l p r)\<lparr>pd := (pd (resume_table t l p r))(l := None)\<rparr>) (is_writer (p_parent p)) l None =
    t\<lparr>pd := (pd t)(l := None)\<rparr>"
  using assms by (auto simp: resume_table_def Core_Resume.extend_def cut_def fun_upd_idem)

lemma search_conflict:
  assumes "\<exists>i. x \<le> i \<and> i < y \<and> C i"
  shows "\<exists>i. first_in C x y (Some (i :: nat))"
proof -
  let ?i = "LEAST i. x \<le> i \<and> i < y \<and> C i"
  have "x \<le> ?i \<and> ?i < y \<and> C ?i" using assms by (rule LeastI_ex)
  moreover have "\<not> C j" if "x \<le> j" "j < ?i" for j using that calculation not_less_Least by fastforce
  ultimately show ?thesis by (auto simp: first_in_def)
qed

lemma filter_requeue:
  assumes "l \<notin> fst ` set qs"
  shows "filter (\<lambda>x. fst x \<noteq> l) (requeue l p r qs) = qs"
proof -
  have all: "filter (\<lambda>x. fst x \<noteq> l) xs = xs" if "set xs \<subseteq> set qs" for xs
    using assms that by (auto simp: filter_id_conv image_iff)
  have "set (takeWhile g qs) \<subseteq> set qs" "set (dropWhile g qs) \<subseteq> set qs" for g
    by (auto dest: set_takeWhileD set_dropWhileD)
  then show ?thesis by (cases r) (simp_all add: requeue_def list_insert_def all)
qed

lemma agree_try:
  assumes ag: "agree self (c, s) st" and free: "owner (table_of s) l = None" and room: "room self (table_of s)"
    and ptr: "ptr = Read l \<or> ptr = Write l" and xy: "x < y" "y \<le> LEN" and pick: "picks pick"
    and post: "try_queue_post self ptr x y c s res"
  shows "(\<exists>c' s' st'. res = Inr (True, c', s') \<and> ref_do_lock pick l (Range x y) (is_writer ptr) prio st = Some (True, st') \<and>
      agree self (c', s') st' \<and> owner (table_of s') = (owner (table_of s))(l \<mapsto> self) \<and> pd (table_of s') = pd (table_of s)) \<or>
    (\<exists>st' st''. res = Inr (False, c, s) \<and> ref_do_lock pick l (Range x y) (is_writer ptr) prio st = Some (False, st') \<and>
      ref_do_unlock pick l st' = Some st'' \<and> agree self (c, s) st'')"
proof -
  let ?t = "table_of s" and ?p = "fresh ptr x y prio undefined"
  from ag obtain qs where inv: "core_inv self (c, s)" and g: "good self c s qs" and as: "agrees self ?t qs st"
    by (auto simp: agree_def)
  show ?thesis
  proof (cases "\<exists>i. x \<le> i \<and> i < y \<and> conflict_at self ?t ptr i")
    case False
    with post obtain c' s' qs' where 1: "res = Inr (True, c', s')" "core_inv self (c', s')"
      "table_of s' = grant self ?t ptr x y" "good self c s qs'" "good self c' s' qs'"
      unfolding try_queue_post_def if_not_P [OF False] by blast
    from False have "first_in (conflict_at self ?t ptr) x y None" by (auto simp: first_in_def)
    from agrees_lock [OF inv free room ptr xy as pick this, of prio undefined] obtain st' where
      "ref_do_lock pick l (Range x y) (is_writer ptr) prio st = Some (True, st')" "agrees self (table_of s') qs st'"
      unfolding grant_resume [OF inv free ptr] 1(3) by auto
    moreover have "owner (table_of s') = (owner ?t)(l \<mapsto> self)" "pd (table_of s') = pd ?t"
      unfolding 1(3) using ptr by (auto simp: grant_def simp del: table_of_simps)
    ultimately show ?thesis using 1(1,2,5) good_unique [OF g 1(4)] unfolding agree_def by auto
  next
    case True
    with post have res: "res = Inr (False, c, s)" by (simp add: try_queue_post_def)
    from search_conflict [OF True] obtain i where first: "first_in (conflict_at self ?t ptr) x y (Some i)" by blast
    let ?tc = "claim self ?t l ?p" and ?t1 = "resume_table (claim self ?t l ?p) l ?p (Some i)"
    from agrees_lock [OF inv free room ptr xy as pick first, of prio undefined] obtain st' where
      1: "ref_do_lock pick l (Range x y) (is_writer ptr) prio st = Some (False, st')"
      "agrees self ?t1 (requeue l ?p (Some i) qs) st'" by auto
    have none: "rd ?tc l = None" "wr ?tc l = None" "pd ?tc l = Some ?p" "owner ?tc l = Some self"
      using set_parent_good(2,3) [OF inv free] by (simp_all add: claim_def del: table_of_simps)
    from set_parent_good(4) [OF inv free] have claimed: "?tc\<lparr>pd := (pd ?tc)(l := None)\<rparr> = ?t\<lparr>owner := (owner ?t)(l \<mapsto> self)\<rparr>"
      by (simp add: claim_def fun_upd_idem del: table_of_simps)
    have own1: "owner ?t1 = (owner ?t)(l \<mapsto> self)"
      by (auto simp: resume_table_def claim_def Core_Resume.extend_def split: lock_state_ptr.splits simp del: table_of_simps)
    have "l \<notin> fst ` set qs" using good_pending(2) [OF g] free by fastforce
    then have qs: "filter (\<lambda>x. fst x \<noteq> l) (requeue l ?p (Some i) qs) = qs"
      by (rule filter_requeue)
    have rel: "release_queue self l (is_writer ptr) (if i = x then None else Some (x, i)) (?t1\<lparr>pd := (pd ?t1)(l := None)\<rparr>)
        (filter (\<lambda>x. fst x \<noteq> l) (requeue l ?p (Some i) qs)) (?t\<lparr>owner := (owner ?t)(l \<mapsto> self)\<rparr>) qs"
      unfolding qs
    proof (rule release_nothing [OF inv g free])
      show "\<And>a e. (if i = x then None else Some (x, i)) = Some (a, e) \<Longrightarrow> a < e"
        using first by (auto simp: first_in_def split: if_splits)
      show "cut (?t1\<lparr>pd := (pd ?t1)(l := None)\<rparr>) (is_writer ptr) l None = ?t\<lparr>owner := (owner ?t)(l \<mapsto> self)\<rparr>"
        using resumed_cut [of ?tc l ?p "Some i"] none(1,2) ptr unfolding claimed by simp
    qed
    have "u_region (is_writer ptr) ?t1 l (if i = x then None else Some (x, i))"
      using resumed_region [OF none(1-3), of i] ptr by (cases "i = x") (simp_all del: table_of_simps)
    from agrees_unlock [OF 1(2) _ this pick rel] obtain st'' where "ref_do_unlock pick l st' = Some st''"
      "agrees self (?t\<lparr>owner := (owner ?t)(l \<mapsto> self)\<rparr>\<lparr>owner := (owner ?t1)(l := None)\<rparr>) qs st''"
      by (auto simp: own1 simp del: table_of_simps)
    moreover have "?t\<lparr>owner := (owner ?t)(l \<mapsto> self)\<rparr>\<lparr>owner := (owner ?t1)(l := None)\<rparr> = ?t"
      using free by (simp add: own1 fun_upd_idem del: table_of_simps)
    ultimately show ?thesis using res 1(1) inv g by (auto simp: agree_def)
  qed
qed

end
