(* ===== verification/Core_Test.thy ===== *)
theory Core_Test
  imports Core_Agree Rb_Test "HOL-Library.AList"
begin

text \<open>
  The test \<open>qc_rbtree_interval_rw_lock_core\<close> of \<open>src/core/rbtree/tests.rs\<close>, which runs the core (module \<open>subj\<close>) against
  the reference (module \<open>refr\<close>): a function of the list of command bytes, with every assertion as a possible fault.  It
  passes for every list of commands.
\<close>

section \<open>The subject\<close>

text \<open>\<open>LockState\<close>, with the address of the boxed lock state.  The box of a lock is at the address that is its identifier.\<close>

datatype boxed_state = BoxedRead nat | BoxedWrite nat | BoxedTryRead nat | BoxedTryWrite nat

record lock_entry =
  sl_range :: "nat range"
  sl_priority :: nat
  sl_state :: boxed_state
  sl_complete :: bool

type_synonym subj_locks = "(nat \<times> lock_entry) list"

text \<open>\<open>RwLockSet\<close> of the subject: the core, with all lock states, and the hash map of locks.\<close>

record subj_set =
  subj_world :: "(unit, nat, nat, nat, nat) world"
  subj_locks :: subj_locks

definition subj_new :: subj_set where
  "subj_new = \<lparr>subj_world = (core_new, lock_states_default), subj_locks = []\<rparr>"

text \<open>A fault of the core is a panic or an abort of the test.\<close>

definition unfault :: "fault + 'a \<Rightarrow> 'a option" where
  "unfault r = (case r of Inl _ \<Rightarrow> None | Inr x \<Rightarrow> Some x)"

lemma unfault_Inr [simp]: "unfault (Inr x) = Some x"
  by (simp add: unfault_def)

text \<open>\<open>TestLockCallback\<close>\<close>

definition test_lock_callback :: "nat \<Rightarrow> (bool, nat) lock_callback" where
  "test_lock_callback k = \<lparr>on_in_progress = (False, k), on_complete = True\<rparr>"

text \<open>\<open>TestUnlockCallback\<close>; without a map it has panicked before.\<close>

definition test_unlock_callback :: "(nat, subj_locks option) unlock_callback" where
  "test_unlock_callback in_progress locks = do {
     locks \<leftarrow> locks;
     lock \<leftarrow> map_of locks in_progress;
     assert (\<not> sl_complete lock);
     Some (AList.update in_progress (lock\<lparr>sl_complete := True\<rparr>) locks)
   }"

definition subj_lock ::
  "bool \<Rightarrow> nat \<Rightarrow> nat range \<Rightarrow> bool \<Rightarrow> nat \<Rightarrow> bool \<Rightarrow> subj_set \<Rightarrow> (bool \<times> subj_set) option" where
  "subj_lock dbg k r write priority is_try st = do {
     ((complete, world), state) \<leftarrow> (
       if \<not> write \<and> \<not> is_try then map_option (\<lambda>x. (x, BoxedRead k))
         (unfault (lock_read dbg () r priority k (test_lock_callback k) (subj_world st)))
       else if write \<and> \<not> is_try then map_option (\<lambda>x. (x, BoxedWrite k))
         (unfault (lock_write dbg () r priority k (test_lock_callback k) (subj_world st)))
       else if \<not> write \<and> is_try then map_option (\<lambda>x. (x, BoxedTryRead k)) (unfault (try_lock_read dbg () r k (subj_world st)))
       else map_option (\<lambda>x. (x, BoxedTryWrite k)) (unfault (try_lock_write dbg () r k (subj_world st))));
     if complete \<or> \<not> is_try then
       Some (complete, \<lparr>subj_world = world, subj_locks = AList.update k
         \<lparr>sl_range = r, sl_priority = priority, sl_state = state, sl_complete = complete\<rparr> (subj_locks st)\<rparr>)
     else do {
       unfault (early_drop (snd world) k);
       Some (complete, st\<lparr>subj_world := world\<rparr>)
     }
   }"

definition state_ptr :: "boxed_state \<Rightarrow> nat" where
  "state_ptr state = (case state of BoxedRead l \<Rightarrow> l | BoxedWrite l \<Rightarrow> l | BoxedTryRead l \<Rightarrow> l | BoxedTryWrite l \<Rightarrow> l)"

text \<open>The lock is removed from the map first, and its boxed state is dropped at the end.\<close>

definition subj_unlock :: "bool \<Rightarrow> nat \<Rightarrow> subj_set \<Rightarrow> subj_set option" where
  "subj_unlock dbg k st = do {
     lock \<leftarrow> map_of (subj_locks st) k;
     let arg = (subj_world st, Some (AList.delete k (subj_locks st)));
     (world, locks) \<leftarrow> (case sl_state lock of
         BoxedRead l \<Rightarrow> map_option snd (unfault (unlock_read dbg () l test_unlock_callback arg))
       | BoxedWrite l \<Rightarrow> map_option snd (unfault (unlock_write dbg () l test_unlock_callback arg))
       | BoxedTryRead l \<Rightarrow> unfault (unlock_try_read dbg () l test_unlock_callback arg)
       | BoxedTryWrite l \<Rightarrow> unfault (unlock_try_write dbg () l test_unlock_callback arg));
     locks \<leftarrow> locks;
     unfault (early_drop (snd world) (state_ptr (sl_state lock)));
     Some \<lparr>subj_world = world, subj_locks = locks\<rparr>
   }"

definition subj_is_complete :: "nat \<Rightarrow> subj_set \<Rightarrow> bool option" where
  "subj_is_complete k st = map_option sl_complete (map_of (subj_locks st) k)"

fun validate_locks :: "(unit, nat, nat, nat, nat) world \<Rightarrow> subj_locks \<Rightarrow> unit option" where
  "validate_locks world [] = Some ()"
| "validate_locks world ((k, lock) # locks) = do {
     actual_complete \<leftarrow> (case sl_state lock of
         BoxedRead l \<Rightarrow> map_option (\<lambda>x. x = Complete) (unfault (inspect_mut () l world))
       | BoxedWrite l \<Rightarrow> map_option (\<lambda>x. x = Complete) (unfault (inspect_mut () l world))
       | BoxedTryRead l \<Rightarrow> Some True
       | BoxedTryWrite l \<Rightarrow> Some True);
     assert (actual_complete = sl_complete lock);
     validate_locks world locks
   }"

definition subj_validate :: "subj_set \<Rightarrow> unit option" where
  "subj_validate st = (let (c, s) = subj_world st in do {
     validate read_node_callback (read_cell s) (reads c);
     validate write_node_callback (write_cell s) (writes c);
     validate pending_node_callback (pending_cell s) (pendings c);
     validate_locks (c, s) (subj_locks st)
   })"

text \<open>\<open>Drop\<close> of the subject cuts everything loose, so that neither the core nor a lock state complains when it is dropped.\<close>

definition subj_drop :: "subj_set \<Rightarrow> unit option" where
  "subj_drop st = (let (c, s) = subj_world st;
       s = fold (\<lambda>(k, lock) s. set_parent_cell s (state_ptr (sl_state lock)) None) (subj_locks st) s in do {
     unfault (core_drop (c\<lparr>reads := None, writes := None, pendings := None\<rparr>));
     fold (\<lambda>(k, lock) r. do { r; unfault (early_drop s (state_ptr (sl_state lock))) }) (subj_locks st) (Some ())
   })"

section \<open>The test\<close>

record test_state =
  ts_next_lock_id :: nat
  ts_locks :: "nat list"
  ts_subj :: subj_set
  ts_ref :: ref_set

definition test_new :: test_state where
  "test_new = \<lparr>ts_next_lock_id = 1, ts_locks = [], ts_subj = subj_new, ts_ref = ref_new\<rparr>"

definition test_unlock ::
  "bool \<Rightarrow> ((nat \<times> bool) set \<Rightarrow> nat \<times> bool) \<Rightarrow> 8 word \<Rightarrow> test_state \<Rightarrow> test_state option" where
  "test_unlock dbg pick x ts = do {
     (k, locks) \<leftarrow> swap_remove (ts_locks ts) (unat x mod length (ts_locks ts));
     subj \<leftarrow> subj_unlock dbg k (ts_subj ts);
     ref \<leftarrow> ref_do_unlock pick k (ts_ref ts);
     Some (ts\<lparr>ts_locks := locks, ts_subj := subj, ts_ref := ref\<rparr>)
   }"

text \<open>The result tells whether the step goes on to the checks; a failed \<open>try\<close> lock does not.\<close>

definition test_lock ::
  "bool \<Rightarrow> ((nat \<times> bool) set \<Rightarrow> nat \<times> bool) \<Rightarrow> 8 word \<Rightarrow> nat range \<Rightarrow> nat \<Rightarrow> test_state \<Rightarrow> (bool \<times> test_state) option" where
  "test_lock dbg pick cmd r priority ts = (
     let k = ts_next_lock_id ts; lock_ty = unat (cmd div 2 mod 4); is_write = lock_ty mod 2 = 1; is_try = 2 \<le> lock_ty in do {
       (subject_complete, subj) \<leftarrow> subj_lock dbg k r is_write priority is_try (ts_subj ts);
       (reference_complete, ref) \<leftarrow> ref_do_lock pick k r is_write priority (ts_ref ts);
       assert (subject_complete = reference_complete);
       if is_try \<and> \<not> subject_complete then do {
         ref \<leftarrow> ref_do_unlock pick k ref;
         Some (False, ts\<lparr>ts_next_lock_id := k + 1, ts_subj := subj, ts_ref := ref\<rparr>)
       } else Some (True, ts\<lparr>ts_next_lock_id := k + 1, ts_locks := ts_locks ts @ [k], ts_subj := subj, ts_ref := ref\<rparr>)
     })"

fun compare_complete :: "nat list \<Rightarrow> subj_set \<Rightarrow> ref_set \<Rightarrow> unit option" where
  "compare_complete [] subj ref = Some ()"
| "compare_complete (k # ks) subj ref = do {
     subject_complete \<leftarrow> subj_is_complete k subj;
     reference_complete \<leftarrow> ref_is_complete k ref;
     assert (subject_complete = reference_complete);
     compare_complete ks subj ref
   }"

definition test_check :: "test_state \<Rightarrow> unit option" where
  "test_check ts = do {
     subj_validate (ts_subj ts);
     compare_complete (ts_locks ts) (ts_subj ts) (ts_ref ts)
   }"

fun position_complete :: "nat list \<Rightarrow> subj_set \<Rightarrow> nat option option" where
  "position_complete [] subj = Some None"
| "position_complete (k # ks) subj = do {
     complete \<leftarrow> subj_is_complete k subj;
     if complete then Some (Some 0) else map_option (map_option Suc) (position_complete ks subj)
   }"

lemma swap_remove_length: "swap_remove xs i = Some (x, ys) \<Longrightarrow> length ys < length xs"
  by (auto simp: swap_remove_def split: if_splits)

text \<open>The release of all locks, complete ones first; it panics in a deadlock.\<close>

function release_all :: "bool \<Rightarrow> nat list \<Rightarrow> subj_set \<Rightarrow> subj_set option" where
  "release_all dbg locks subj = (if locks = [] then Some subj else (
     case position_complete locks subj of
       None \<Rightarrow> None
     | Some None \<Rightarrow> None
     | Some (Some i) \<Rightarrow> (case swap_remove locks i of
         None \<Rightarrow> None
       | Some (k, locks') \<Rightarrow> (case subj_unlock dbg k subj of
           None \<Rightarrow> None
         | Some subj' \<Rightarrow> release_all dbg locks' subj'))))"
  by pat_completeness auto

termination
  by (relation "measure (\<lambda>(dbg, locks, subj). length locks)") (auto dest: swap_remove_length)

declare release_all.simps [simp del]

text \<open>The loop over the commands; when a command lacks its operands, the test ends without the final release.\<close>

fun run_commands ::
  "bool \<Rightarrow> ((nat \<times> bool) set \<Rightarrow> nat \<times> bool) \<Rightarrow> 8 word list \<Rightarrow> test_state \<Rightarrow> subj_set option" where
  "run_commands dbg pick [] ts = release_all dbg (ts_locks ts) (ts_subj ts)"
| "run_commands dbg pick (cmd # cmds) ts = (
     if cmd mod 2 = 0 \<and> ts_locks ts \<noteq> [] then (case cmds of
         [] \<Rightarrow> Some (ts_subj ts)
       | x # cmds \<Rightarrow> do { ts \<leftarrow> test_unlock dbg pick x ts; test_check ts; run_commands dbg pick cmds ts })
     else if cmd mod 2 = 1 \<and> length (ts_locks ts) < 64 then (case cmds of
         x # y # cmds \<Rightarrow> (
           let x = unat x mod LEN; y = unat y mod LEN; r = Range (min x y) (max x y) in
           if rng_start r = rng_end r then run_commands dbg pick cmds ts
           else (case cmds of
               [] \<Rightarrow> Some (ts_subj ts)
             | priority # cmds \<Rightarrow> do {
                 (checked, ts) \<leftarrow> test_lock dbg pick cmd r (unat priority) ts;
                 (if checked then test_check ts else Some ());
                 run_commands dbg pick cmds ts
               }))
       | _ \<Rightarrow> Some (ts_subj ts))
     else do { test_check ts; run_commands dbg pick cmds ts })"

definition qc_rbtree_interval_rw_lock_core ::
  "bool \<Rightarrow> ((nat \<times> bool) set \<Rightarrow> nat \<times> bool) \<Rightarrow> 8 word list \<Rightarrow> unit option" where
  "qc_rbtree_interval_rw_lock_core dbg pick cmds = run_commands dbg pick cmds test_new \<bind> subj_drop"

text \<open>The two smaller tests\<close>

definition qc_waitlist_is_fifo :: "bool \<Rightarrow> bool \<Rightarrow> bool \<Rightarrow> unit option" where
  "qc_waitlist_is_fifo dbg write1 write2 = do {
     (complete, st) \<leftarrow> subj_lock dbg 1 (Range 0 4) True 0 True subj_new;
     assert complete;
     (complete, st) \<leftarrow> subj_lock dbg 2 (Range 0 3) write1 0 False st;
     assert (\<not> complete);
     (complete, st) \<leftarrow> subj_lock dbg 3 (Range 0 2) write2 0 False st;
     assert (\<not> complete);
     st \<leftarrow> subj_unlock dbg 1 st;
     (complete, st) \<leftarrow> subj_lock dbg 4 (Range 2 3) True 0 True st;
     assert (\<not> complete);
     subj_drop st
   }"

definition unblock_multiple :: "bool \<Rightarrow> unit option" where
  "unblock_multiple dbg = do {
     (complete, st) \<leftarrow> subj_lock dbg 1 (Range 0 1) True 0 True subj_new;
     assert complete;
     (complete, st) \<leftarrow> subj_lock dbg 2 (Range 0 4) False 0 False st;
     assert (\<not> complete);
     (complete, st) \<leftarrow> subj_lock dbg 3 (Range 0 5) False 0 False st;
     assert (\<not> complete);
     st \<leftarrow> subj_unlock dbg 1 st;
     complete \<leftarrow> subj_is_complete 2 st;
     assert complete;
     complete \<leftarrow> subj_is_complete 3 st;
     assert complete;
     subj_drop st
   }"

end
