(* ===== verification/Core_Test_Passes.thy ===== *)
theory Core_Test_Passes
  imports Core_Test
begin

text \<open>
  The test of the core against the reference passes for every list of commands: the invariant of the subject, which ties the
  hash map to the core, and the agreement with the reference survive every command.
\<close>

section \<open>The invariant of the subject\<close>

definition box :: "bool \<Rightarrow> bool \<Rightarrow> nat \<Rightarrow> boxed_state" where
  "box w is_try k = (if is_try then (if w then BoxedTryWrite k else BoxedTryRead k)
     else if w then BoxedWrite k else BoxedRead k)"

lemma state_ptr_box [simp]: "state_ptr (box w is_try k) = k"
  by (simp add: box_def state_ptr_def)

text \<open>What the map says of a lock is what the core says.\<close>

definition entry_ok :: "(unit, nat, nat, nat, nat) table \<Rightarrow> nat \<Rightarrow> lock_entry \<Rightarrow> bool" where
  "entry_ok t k x \<longleftrightarrow> (\<exists>w is_try a. sl_state x = box w is_try k \<and> request t k = Some (w, a) \<and>
       (is_try \<longrightarrow> pd t k = None)) \<and>
     (sl_complete x \<longleftrightarrow> pd t k = None) \<and> (\<forall>p. pd t k = Some p \<longrightarrow> p_in_progress p = k)"

definition subj_inv :: "nat set \<Rightarrow> subj_set \<Rightarrow> bool" where
  "subj_inv ks st \<longleftrightarrow> core_inv () (subj_world st) \<and> distinct (map fst (subj_locks st)) \<and> fst ` set (subj_locks st) = ks \<and>
     (\<forall>k. owner (table_of (snd (subj_world st))) k = (if k \<in> ks then Some () else None)) \<and>
     (\<forall>(k, x)\<in>set (subj_locks st). entry_ok (table_of (snd (subj_world st))) k x)"

lemma subj_inv_new: "subj_inv {} subj_new"
  by (simp add: subj_inv_def subj_new_def core_inv_init table_init del: table_of_simps)

lemma subj_inv_at:
  assumes "subj_inv ks st" and "k \<in> ks"
  obtains x where "map_of (subj_locks st) k = Some x" "entry_ok (table_of (snd (subj_world st))) k x"
proof -
  from assms obtain x where "(k, x) \<in> set (subj_locks st)" by (auto simp: subj_inv_def)
  with assms(1) that show ?thesis by (auto simp: subj_inv_def)
qed

section \<open>Unlocking\<close>

text \<open>The callback marks the locks of the log as complete.\<close>

lemma mark_complete:
  assumes "distinct log" and "\<forall>l\<in>set log. \<exists>x. map_of locks l = Some x \<and> \<not> sl_complete x"
  shows "\<exists>locks'. fold test_unlock_callback log (Some locks) = Some locks' \<and> map fst locks' = map fst locks \<and>
    (\<forall>j. map_of locks' j = (if j \<in> set log then map_option (\<lambda>x. x\<lparr>sl_complete := True\<rparr>) (map_of locks j) else map_of locks j))"
  using assms
proof (induction log arbitrary: locks)
  case (Cons l log)
  from Cons.prems(2) obtain x where x: "map_of locks l = Some x" "\<not> sl_complete x" by auto
  let ?locks = "AList.update l (x\<lparr>sl_complete := True\<rparr>) locks"
  have step: "test_unlock_callback l (Some locks) = Some ?locks" using x by (simp add: test_unlock_callback_def)
  have map: "map_of ?locks = (map_of locks)(l \<mapsto> x\<lparr>sl_complete := True\<rparr>)" by (rule update_conv')
  have keys: "map fst ?locks = map fst locks" using map_of_SomeD [OF x(1)] by (force simp: update_keys)
  from Cons.prems have "\<forall>l\<in>set log. \<exists>x. map_of ?locks l = Some x \<and> \<not> sl_complete x" by (auto simp: map)
  with Cons.IH [of ?locks] Cons.prems(1) obtain locks' where
    1: "fold test_unlock_callback log (Some ?locks) = Some locks'" "map fst locks' = map fst ?locks"
    "\<forall>j. map_of locks' j = (if j \<in> set log then map_option (\<lambda>x. x\<lparr>sl_complete := True\<rparr>) (map_of ?locks j) else map_of ?locks j)"
    by auto
  have "map_of locks' j = (if j \<in> set (l # log) then map_option (\<lambda>x. x\<lparr>sl_complete := True\<rparr>) (map_of locks j) else map_of locks j)" for j
    using 1(3) x(1) Cons.prems(1) by (auto simp: map)
  then show ?case using step 1(1,2) keys by (intro exI [of _ locks']) simp
qed simp

lemma request_kind:
  assumes "lock_ok t k" and "request t k = Some (w, a)"
  shows "w \<Longrightarrow> rd t k = None" "\<not> w \<Longrightarrow> wr t k = None"
  using assms by (cases "pd t k"; auto simp: request_def region_def lock_ok_def split: option.splits)+

lemma subj_unlock_post:
  assumes inv: "subj_inv ks st" and k: "k \<in> ks" and world: "subj_world st = (c, s)"
  obtains ret :: "nat option" and res
  where "unlock_post () k c s test_unlock_callback (Some (AList.delete k (subj_locks st))) ret res"
    and "subj_unlock dbg k st = do {
      (world, locks) \<leftarrow> map_option snd (unfault res);
      locks \<leftarrow> locks;
      unfault (early_drop (snd world) k);
      Some \<lparr>subj_world = world, subj_locks = locks\<rparr> }"
proof -
  let ?t = "table_of s" and ?w = "Some (AList.delete k (subj_locks st))"
  obtain x where x: "map_of (subj_locks st) k = Some x" and e: "entry_ok ?t k x"
    using subj_inv_at [OF inv k] world by auto
  from e obtain w is_try a where st: "sl_state x = box w is_try k" "request ?t k = Some (w, a)"
    "is_try \<Longrightarrow> pd ?t k = None" by (auto simp: entry_ok_def)
  from inv world have core: "core_inv () (c, s)" by (simp add: subj_inv_def)
  from inv world k have own: "owner ?t k = Some ()" by (simp add: subj_inv_def del: table_of_simps)
  from core_invD(1) [OF core] have "lock_ok ?t k" by (simp add: table_ok_def)
  note none = request_kind [OF this st(2)]
  let ?res = "if w then unlock_write dbg () k test_unlock_callback ((c, s), ?w) else unlock_read dbg () k test_unlock_callback ((c, s), ?w)"
  have "unlock_post () k c s test_unlock_callback ?w (map_option p_in_progress (pd ?t k)) ?res"
    using unlock_write_ok [OF core own] unlock_read_ok [OF core own] none by (cases w) (simp_all del: table_of_simps)
  moreover have try_eq: "unfault (unlock_try_write dbg () k test_unlock_callback ((c, s), ?w)) = map_option snd (unfault ?res)" if "is_try" "w"
    using unlock_try_write_eq [OF st(3) [OF that(1)], of dbg "()" test_unlock_callback c ?w] that(2)
    by (cases "unlock_try_write dbg () k test_unlock_callback ((c, s), ?w)") (simp_all add: unfault_def)
  moreover have "unfault (unlock_try_read dbg () k test_unlock_callback ((c, s), ?w)) = map_option snd (unfault ?res)" if "is_try" "\<not> w"
    using unlock_try_read_eq [OF st(3) [OF that(1)], of dbg "()" test_unlock_callback c ?w] that(2)
    by (cases "unlock_try_read dbg () k test_unlock_callback ((c, s), ?w)") (simp_all add: unfault_def)
  ultimately have "(case sl_state x of
         BoxedRead l \<Rightarrow> map_option snd (unfault (unlock_read dbg () l test_unlock_callback (subj_world st, ?w)))
       | BoxedWrite l \<Rightarrow> map_option snd (unfault (unlock_write dbg () l test_unlock_callback (subj_world st, ?w)))
       | BoxedTryRead l \<Rightarrow> unfault (unlock_try_read dbg () l test_unlock_callback (subj_world st, ?w))
       | BoxedTryWrite l \<Rightarrow> unfault (unlock_try_write dbg () l test_unlock_callback (subj_world st, ?w))) = map_option snd (unfault ?res)"
    "unlock_post () k c s test_unlock_callback ?w (map_option p_in_progress (pd ?t k)) ?res"
    by (auto simp: st(1) box_def world)
  then show ?thesis using x st(1) by (intro that [OF _ _]) (auto simp: subj_unlock_def Let_def)
qed

text \<open>The released locks are exactly those that the map of an unlocked subject marks.\<close>

lemma subj_inv_remove:
  assumes inv: "subj_inv ks st" and core: "core_inv () (c', s')"
    and rel: "released k (table_of (snd (subj_world st))) (table_of s') log"
    and keys: "map fst locks' = map fst (AList.delete k (subj_locks st))"
    and vals: "\<forall>j. map_of locks' j = (if j \<in> set log then map_option (\<lambda>x. x\<lparr>sl_complete := True\<rparr>)
      (map_of (AList.delete k (subj_locks st)) j) else map_of (AList.delete k (subj_locks st)) j)"
  shows "subj_inv (ks - {k}) \<lparr>subj_world = (c', s'), subj_locks = locks'\<rparr>"
proof -
  let ?t = "table_of (snd (subj_world st))"
  have own: "owner (table_of s') = (owner ?t)(k := None)" and log: "set log = {l. l \<noteq> k \<and> pd ?t l \<noteq> None \<and> pd (table_of s') l = None}"
    and req: "\<And>l. l \<noteq> k \<Longrightarrow> request (table_of s') l = request ?t l"
    and grown: "\<And>l p'. pd (table_of s') l = Some p' \<Longrightarrow> \<exists>p i. pd ?t l = Some p \<and> p' = moved p i"
    using rel unfolding released_def by (simp_all del: table_of_simps) blast
  from inv have d: "distinct (map fst (subj_locks st))" "fst ` set (subj_locks st) = ks" by (simp_all add: subj_inv_def del: table_of_simps)
  then have dist: "distinct (map fst locks')" using keys by (simp add: distinct_delete)
  have entries: "entry_ok (table_of s') j y" if "(j, y) \<in> set locks'" for j y
  proof -
    from that dist have m: "map_of locks' j = Some y" by simp
    with vals obtain x where jk: "j \<noteq> k" and x: "map_of (subj_locks st) j = Some x"
      and y: "y = (if j \<in> set log then x\<lparr>sl_complete := True\<rparr> else x)" by (auto simp: delete_conv' split: if_splits)
    from x have e: "entry_ok ?t j x" using inv by (auto simp: subj_inv_def dest: map_of_SomeD)
    have "sl_state y = sl_state x" by (simp add: y)
    moreover have "pd (table_of s') j = None" if "pd ?t j = None" using grown [of j] that by (cases "pd (table_of s') j") (auto simp del: table_of_simps)
    moreover have "sl_complete y \<longleftrightarrow> pd (table_of s') j = None"
      using e jk calculation(2) log by (auto simp: y entry_ok_def simp del: table_of_simps)
    moreover have "p_in_progress p' = j" if "pd (table_of s') j = Some p'" for p'
      using grown [OF that] e by (auto simp: entry_ok_def simp del: table_of_simps)
    ultimately show ?thesis using e req [OF jk] unfolding entry_ok_def by auto
  qed
  have "fst ` set locks' = set (map fst locks')" by (rule list.set_map [symmetric])
  then have "fst ` set locks' = ks - {k}" using d(2) by (simp add: keys delete_keys)
  then show ?thesis using core own dist entries inv by (auto simp: subj_inv_def simp del: table_of_simps)
qed

lemma subj_unlock_ok:
  assumes inv: "subj_inv ks st" and k: "k \<in> ks"
  shows "\<exists>st'. subj_unlock dbg k st = Some st' \<and> subj_inv (ks - {k}) st' \<and>
    (\<forall>pick ref. picks pick \<longrightarrow> agree () (subj_world st) ref \<longrightarrow>
      (\<exists>ref'. ref_do_unlock pick k ref = Some ref' \<and> agree () (subj_world st') ref'))"
proof -
  obtain c s where world: "subj_world st = (c, s)" by force
  let ?t = "table_of s" and ?locks = "AList.delete k (subj_locks st)"
  obtain ret :: "nat option" and res where
    1: "unlock_post () k c s test_unlock_callback (Some ?locks) ret res" and run: "subj_unlock dbg k st = do {
      (world, locks) \<leftarrow> map_option snd (unfault res);
      locks \<leftarrow> locks;
      unfault (early_drop (snd world) k);
      Some \<lparr>subj_world = world, subj_locks = locks\<rparr> }" by (rule subj_unlock_post [OF inv k world, of dbg])
  from 1 obtain c' s' log where
    2: "res = Inr (ret, (c', s'), fold test_unlock_callback (map (payload ?t) log) (Some ?locks))" "core_inv () (c', s')"
    "released k ?t (table_of s') log" unfolding unlock_post_def by blast
  have own: "owner (table_of s') = (owner ?t)(k := None)" and log: "distinct log" "set log = {l. l \<noteq> k \<and> pd ?t l \<noteq> None \<and> pd (table_of s') l = None}"
    using 2(3) unfolding released_def by (simp_all del: table_of_simps)
  from inv world have owns: "\<And>j. owner ?t j = (if j \<in> ks then Some () else None)" and core: "core_inv () (c, s)"
    by (simp_all add: subj_inv_def del: table_of_simps)
  have pending: "j \<in> ks" if "pd ?t j \<noteq> None" for j
    using free_rows(3) [OF core, of j] owns [of j] that by (auto split: if_splits simp del: table_of_simps)
  have in_log: "\<exists>x. map_of ?locks l = Some x \<and> \<not> sl_complete x \<and> payload ?t l = l" if "l \<in> set log" for l
  proof -
    from that log(2) have l: "l \<noteq> k" "pd ?t l \<noteq> None" by auto
    obtain x where "map_of (subj_locks st) l = Some x" "entry_ok ?t l x" using subj_inv_at [OF inv pending [OF l(2)]] world by auto
    with l show ?thesis by (auto simp: delete_conv' entry_ok_def payload_def simp del: table_of_simps)
  qed
  then have "map (payload ?t) log = log" by (intro map_idI) blast
  moreover from mark_complete [OF log(1)] in_log obtain locks' where
    3: "fold test_unlock_callback log (Some ?locks) = Some locks'" "map fst locks' = map fst ?locks"
    "\<forall>j. map_of locks' j = (if j \<in> set log then map_option (\<lambda>x. x\<lparr>sl_complete := True\<rparr>) (map_of ?locks j) else map_of ?locks j)"
    by metis
  ultimately have run': "subj_unlock dbg k st = Some \<lparr>subj_world = (c', s'), subj_locks = locks'\<rparr>"
    using run 2(1) fun_cong [OF own, of k] by (simp add: early_drop_def)
  have "subj_inv (ks - {k}) \<lparr>subj_world = (c', s'), subj_locks = locks'\<rparr>"
    by (rule subj_inv_remove [OF inv 2(2) _ 3(2,3)]) (simp add: world 2(3) del: table_of_simps)
  moreover have "\<exists>ref'. ref_do_unlock pick k ref = Some ref' \<and> agree () (c', s') ref'"
    if "picks pick" "agree () (subj_world st) ref" for pick ref
    using agree_unlock [OF that(2) [unfolded world] _ that(1) 1] owns k 2(1) by (auto simp del: table_of_simps)
  ultimately show ?thesis using run' by auto
qed

section \<open>Locking\<close>

lemma test_callback_simps [simp]:
  "on_complete (test_lock_callback k) = True" "on_in_progress (test_lock_callback k) = (False, k)"
  by (simp_all add: test_lock_callback_def)

lemma subj_inv_owners: "subj_inv ks st \<Longrightarrow> {k. owner (table_of (snd (subj_world st))) k = Some ()} = ks"
  by (auto simp: subj_inv_def simp del: table_of_simps)

lemma subj_inv_insert:
  assumes inv: "subj_inv ks st" and k: "k \<notin> ks" and core: "core_inv () (c', s')"
    and own: "owner (table_of s') = (owner (table_of (snd (subj_world st))))(k \<mapsto> ())"
    and same: "\<And>l. l \<noteq> k \<Longrightarrow> request (table_of s') l = request (table_of (snd (subj_world st))) l \<and>
      pd (table_of s') l = pd (table_of (snd (subj_world st))) l"
    and x: "entry_ok (table_of s') k x"
  shows "subj_inv (insert k ks) \<lparr>subj_world = (c', s'), subj_locks = AList.update k x (subj_locks st)\<rparr>"
proof -
  let ?locks = "AList.update k x (subj_locks st)"
  from inv have dist: "distinct (map fst (subj_locks st))" and keys: "fst ` set (subj_locks st) = ks"
    and old: "\<And>j y. (j, y) \<in> set (subj_locks st) \<Longrightarrow> entry_ok (table_of (snd (subj_world st))) j y"
    by (auto simp: subj_inv_def simp del: table_of_simps)
  have "fst ` set ?locks = insert k ks" using keys by (simp add: dom_update)
  moreover have d: "distinct (map fst ?locks)" using dist by (rule distinct_update)
  moreover have "entry_ok (table_of s') j y" if "(j, y) \<in> set ?locks" for j y
  proof (cases "j = k")
    case True
    with that d have "map_of ?locks k = Some y" by simp
    then have "y = x" by (simp add: update_conv')
    with x True show ?thesis by simp
  next
    case False
    from that d have "map_of ?locks j = Some y" by simp
    with False have "map_of (subj_locks st) j = Some y" by (simp add: update_conv')
    with old have "entry_ok (table_of (snd (subj_world st))) j y" by (auto dest: map_of_SomeD)
    with same [OF False] show ?thesis by (auto simp: entry_ok_def simp del: table_of_simps)
  qed
  ultimately show ?thesis using inv core own by (auto simp: subj_inv_def simp del: table_of_simps)
qed

text \<open>The blocking locks.\<close>

lemma subj_lock_blocking:
  assumes inv: "subj_inv ks st" and k: "k \<notin> ks" and few: "card ks < 64" and xy: "x < y" "y \<le> LEN" and pick: "picks pick"
    and ag: "agree () (subj_world st) ref"
  shows "\<exists>complete st' ref'. subj_lock dbg k (Range x y) w prio False st = Some (complete, st') \<and> subj_inv (insert k ks) st' \<and>
    ref_do_lock pick k (Range x y) w prio ref = Some (complete, ref') \<and> agree () (subj_world st') ref'"
proof -
  obtain c s where world: "subj_world st = (c, s)" by force
  let ?ptr = "if w then Write k else Read k"
  let ?res = "if w then lock_write dbg () (Range x y) prio k (test_lock_callback k) (c, s)
    else lock_read dbg () (Range x y) prio k (test_lock_callback k) (c, s)"
  from inv world have core: "core_inv () (c, s)" by (simp add: subj_inv_def)
  from inv world k have free: "owner (table_of s) k = None" by (simp add: subj_inv_def del: table_of_simps)
  have room: "room () (table_of s)" using subj_inv_owners [OF inv] few by (simp add: room_def world del: table_of_simps)
  have post: "lock_queue_post () k c s ?ptr x y prio (test_lock_callback k) ?res"
    using lock_write_queue_ok [OF core free room xy(1), where callback = "test_lock_callback k" and prio = prio and dbg = dbg]
      lock_read_queue_ok [OF core free room xy(1), where callback = "test_lock_callback k" and prio = prio and dbg = dbg] by simp
  have ptr: "?ptr = Read k \<or> ?ptr = Write k" and isw: "is_writer ?ptr = w" by simp_all
  from agree_lock [OF ag [unfolded world] free room ptr xy pick post, unfolded isw] obtain r c' s' ref' where
    0: "?res = Inr (case r of None \<Rightarrow> on_complete (test_lock_callback k) | Some _ \<Rightarrow> fst (on_in_progress (test_lock_callback k)), c', s')"
    "ref_do_lock pick k (Range x y) w prio ref = Some (r = None, ref')"
    "agree () (c', s') ref'" "owner (table_of s') = (owner (table_of s))(k \<mapsto> ())"
    "pd (table_of s') = (pd (table_of s))(k := map_option (moved (fresh ?ptr x y prio (snd (on_in_progress (test_lock_callback k))))) r)"
    by blast
  have 1: "?res = Inr (r = None, c', s')" using 0(1) by (cases r) simp_all
  from lock_post_step [OF lock_post_queue [OF post] ptr core refl free room xy(1)] obtain out c'' s'' where
    3: "?res = Inr (out, c'', s'')" "core_inv () (c'', s'')" "request (table_of s'') k = Some (is_writer ?ptr, x, y)"
    "\<forall>l. l \<noteq> k \<longrightarrow> request (table_of s'') l = request (table_of s) l \<and> pd (table_of s'') l = pd (table_of s) l" by blast
  from 1 3(1) have "c'' = c'" "s'' = s'" by simp_all
  note 2 = 3(2-4) [unfolded this isw]
  let ?x = "\<lparr>sl_range = Range x y, sl_priority = prio, sl_state = box w False k, sl_complete = (r = None)\<rparr>"
  have "entry_ok (table_of s') k ?x" using 0(5) 2(2) by (cases r) (auto simp: entry_ok_def simp del: table_of_simps)
  from subj_inv_insert [OF inv k 2(1) _ _ this] 0(4) 2(3)
  have "subj_inv (insert k ks) \<lparr>subj_world = (c', s'), subj_locks = AList.update k ?x (subj_locks st)\<rparr>"
    by (simp add: world del: table_of_simps)
  moreover have "subj_lock dbg k (Range x y) w prio False st =
      Some (r = None, \<lparr>subj_world = (c', s'), subj_locks = AList.update k ?x (subj_locks st)\<rparr>)"
    using 1 by (simp add: subj_lock_def world box_def split: if_splits)
  ultimately show ?thesis using 0(2,3) by auto
qed

text \<open>The non-blocking locks.\<close>

lemma subj_lock_try:
  assumes inv: "subj_inv ks st" and k: "k \<notin> ks" and few: "card ks < 64" and xy: "x < y" "y \<le> LEN" and pick: "picks pick"
    and ag: "agree () (subj_world st) ref"
  shows "(\<exists>st' ref'. subj_lock dbg k (Range x y) w prio True st = Some (True, st') \<and> subj_inv (insert k ks) st' \<and>
      ref_do_lock pick k (Range x y) w prio ref = Some (True, ref') \<and> agree () (subj_world st') ref') \<or>
    (\<exists>st' ref' ref''. subj_lock dbg k (Range x y) w prio True st = Some (False, st') \<and> subj_inv ks st' \<and>
      ref_do_lock pick k (Range x y) w prio ref = Some (False, ref') \<and> ref_do_unlock pick k ref' = Some ref'' \<and>
      agree () (subj_world st') ref'')"
proof -
  obtain c s where world: "subj_world st = (c, s)" by force
  let ?ptr = "if w then Write k else Read k"
  let ?res = "if w then try_lock_write dbg () (Range x y) k (c, s) else try_lock_read dbg () (Range x y) k (c, s)"
  from inv world have core: "core_inv () (c, s)" by (simp add: subj_inv_def)
  from inv world k have free: "owner (table_of s) k = None" by (simp add: subj_inv_def del: table_of_simps)
  have room: "room () (table_of s)" using subj_inv_owners [OF inv] few by (simp add: room_def world del: table_of_simps)
  have post: "try_queue_post () ?ptr x y c s ?res"
    using try_lock_write_queue_ok [OF core free room xy(1)] try_lock_read_queue_ok [OF core free room xy(1)] by simp
  have ptr: "?ptr = Read k \<or> ?ptr = Write k" and isw: "is_writer ?ptr = w" by simp_all
  from agree_try [OF ag [unfolded world] free room ptr xy pick post, of prio, unfolded isw] consider
    (yes) c' s' ref' where "?res = Inr (True, c', s')" "ref_do_lock pick k (Range x y) w prio ref = Some (True, ref')"
      "agree () (c', s') ref'" "owner (table_of s') = (owner (table_of s))(k \<mapsto> ())" "pd (table_of s') = pd (table_of s)"
  | (no) ref' ref'' where "?res = Inr (False, c, s)" "ref_do_lock pick k (Range x y) w prio ref = Some (False, ref')"
      "ref_do_unlock pick k ref' = Some ref''" "agree () (c, s) ref''"
    by blast
  then show ?thesis
  proof cases
    case yes
    from try_post_step [OF try_post_queue [OF post] ptr core refl free] obtain out c'' s'' where
      3: "?res = Inr (out, c'', s'')" "core_inv () (c'', s'')"
      "out \<longrightarrow> request (table_of s'') k = Some (is_writer ?ptr, x, y) \<and> pd (table_of s'') k = None"
      "\<forall>l. l \<noteq> k \<longrightarrow> request (table_of s'') l = request (table_of s) l \<and> pd (table_of s'') l = pd (table_of s) l" by blast
    from yes(1) 3(1) have eq: "out = True" "c'' = c'" "s'' = s'" by simp_all
    from 3(2-4) have 2: "core_inv () (c', s')" "request (table_of s') k = Some (w, x, y)" "pd (table_of s') k = None"
      "\<forall>l. l \<noteq> k \<longrightarrow> request (table_of s') l = request (table_of s) l \<and> pd (table_of s') l = pd (table_of s) l"
      unfolding eq isw by blast+
    let ?x = "\<lparr>sl_range = Range x y, sl_priority = prio, sl_state = box w True k, sl_complete = True\<rparr>"
    have "entry_ok (table_of s') k ?x" using 2 by (auto simp: entry_ok_def simp del: table_of_simps)
    from subj_inv_insert [OF inv k 2(1) _ _ this] yes(4) 2(4)
    have "subj_inv (insert k ks) \<lparr>subj_world = (c', s'), subj_locks = AList.update k ?x (subj_locks st)\<rparr>"
      by (simp add: world del: table_of_simps)
    moreover have "subj_lock dbg k (Range x y) w prio True st =
        Some (True, \<lparr>subj_world = (c', s'), subj_locks = AList.update k ?x (subj_locks st)\<rparr>)"
      using yes(1) by (simp add: subj_lock_def world box_def split: if_splits)
    ultimately show ?thesis using yes(2,3) by auto
  next
    case no
    have "subj_lock dbg k (Range x y) w prio True st = Some (False, st)"
      using no(1) free world by (simp add: subj_lock_def early_drop_def split: if_splits)
    with no inv world show ?thesis by auto
  qed
qed

section \<open>The checks\<close>

lemma validate_locks_ok:
  assumes "\<forall>(k, x)\<in>set locks. entry_ok (table_of s) k x \<and> owner (table_of s) k = Some ()"
  shows "validate_locks (c, s) locks = Some ()"
  using assms
proof (induction locks)
  case (Cons kx locks)
  obtain k x where kx: "kx = (k, x)" by force
  with Cons.prems have e: "entry_ok (table_of s) k x" and own: "parent_cell s k = Some ()" by auto
  have ins: "inspect_mut () k (c, s) = Inr (case pd (table_of s) k of None \<Rightarrow> Complete | Some p \<Rightarrow> InProgress (p_in_progress p))"
    using own by (auto simp: inspect_mut_def view_def split: option.splits)
  from e obtain w is_try where "sl_state x = box w is_try k" "is_try \<longrightarrow> pd (table_of s) k = None"
    "sl_complete x \<longleftrightarrow> pd (table_of s) k = None" by (auto simp: entry_ok_def)
  then show ?case using Cons ins kx
    by (cases w; cases is_try; cases "pd (table_of s) k") (auto simp: box_def simp del: table_of_simps)
qed simp

lemma subj_validate_ok:
  assumes inv: "subj_inv ks st"
  shows "subj_validate st = Some ()"
proof -
  obtain c s where world: "subj_world st = (c, s)" by force
  from inv world have core: "core_inv () (c, s)" by (simp add: subj_inv_def)
  then obtain qs where g: "good () c s qs" by (rule core_inv_good)
  have "validate_locks (c, s) (subj_locks st) = Some ()"
  proof (rule validate_locks_ok, clarify)
    fix k x
    assume x: "(k, x) \<in> set (subj_locks st)"
    then have "k \<in> fst ` set (subj_locks st)" by force
    with x inv world show "entry_ok (table_of s) k x \<and> owner (table_of s) k = Some ()"
      by (auto simp: subj_inv_def simp del: table_of_simps)
  qed
  moreover have "validate read_node_callback (read_cell s) (reads c) = Some ()"
    using g tree_callback.validate_ok [OF read_cb.tree_callback_axioms] unfolding good_def linked_def olist_def by metis
  moreover have "validate write_node_callback (write_cell s) (writes c) = Some ()"
    using g tree_callback.validate_ok [OF write_cb.tree_callback_axioms] unfolding good_def linked_def olist_def by metis
  moreover have "validate pending_node_callback (pending_cell s) (pendings c) = Some ()"
    using g tree_callback.validate_ok [OF pending_cb.tree_callback_axioms] unfolding good_def olist_def by metis
  ultimately show ?thesis by (simp add: subj_validate_def world)
qed

lemma subj_complete:
  assumes "subj_inv ks st" and "k \<in> ks"
  shows "subj_is_complete k st = Some (pd (table_of (snd (subj_world st))) k = None)"
proof -
  obtain x where "map_of (subj_locks st) k = Some x" "entry_ok (table_of (snd (subj_world st))) k x"
    using subj_inv_at [OF assms] .
  then show ?thesis by (simp add: subj_is_complete_def entry_ok_def del: table_of_simps)
qed

lemma compare_complete_ok:
  assumes inv: "subj_inv ks st" and ag: "agree () (subj_world st) ref" and "set locks \<subseteq> ks"
  shows "compare_complete locks st ref = Some ()"
  using assms(3)
proof (induction locks)
  case (Cons k locks)
  obtain c s where world: "subj_world st = (c, s)" by force
  from Cons.prems have k: "k \<in> ks" by simp
  with inv world have "owner (table_of s) k = Some ()" by (simp add: subj_inv_def del: table_of_simps)
  from agree_complete [OF ag [unfolded world] this] subj_complete [OF inv k] Cons show ?case by (simp add: world del: table_of_simps)
qed simp

section \<open>The commands\<close>

definition test_inv :: "test_state \<Rightarrow> bool" where
  "test_inv ts \<longleftrightarrow> subj_inv (set (ts_locks ts)) (ts_subj ts) \<and> agree () (subj_world (ts_subj ts)) (ts_ref ts) \<and>
     distinct (ts_locks ts) \<and> (\<forall>k\<in>set (ts_locks ts). k < ts_next_lock_id ts)"

lemma agree_new: "agree self (core_new, lock_states_default) ref_new"
proof -
  let ?t = "table_of lock_states_default"
  have inv: "core_inv self (core_new, lock_states_default)" by (rule core_inv_init)
  have "ref_ok (rw_locks ref_new) (ref_locks ref_new)"
    by (auto simp: ref_ok_def ref_new_def rw_lock_default_def waiters_def split: if_splits)
  moreover have "owners_at (rw_locks ref_new) i = holders self ?t i" for i
    by (auto simp: owners_at_def holders_def ref_new_def rw_lock_default_def table_init simp del: table_of_simps)
  ultimately have "sim self {} (\<lambda>_. {}) ?t ref_new"
    using core_invD(1,2) [OF inv] by (auto simp: sim_def same_lock_def ref_new_def table_init simp del: table_of_simps)
  then have "agrees self ?t [] ref_new"
    by (simp add: serving_def lists_pending_def fifo_def table_init del: table_of_simps)
  with inv good_init [of self] show ?thesis by (auto simp: agree_def)
qed

lemma test_inv_new: "test_inv test_new"
  using subj_inv_new agree_new by (simp add: test_inv_def test_new_def subj_new_def)

lemma test_check_ok: "test_inv ts \<Longrightarrow> test_check ts = Some ()"
  using subj_validate_ok compare_complete_ok by (auto simp: test_inv_def test_check_def)

lemma test_unlock_ok:
  assumes inv: "test_inv ts" and ne: "ts_locks ts \<noteq> []" and pick: "picks pick"
  shows "\<exists>ts'. test_unlock dbg pick x ts = Some ts' \<and> test_inv ts'"
proof -
  let ?i = "unat x mod length (ts_locks ts)" and ?ks = "set (ts_locks ts)"
  have i: "?i < length (ts_locks ts)" using ne by simp
  from inv have dist: "distinct (ts_locks ts)" by (simp add: test_inv_def)
  from swap_remove_ok [OF i this] obtain locks where
    1: "swap_remove (ts_locks ts) ?i = Some (ts_locks ts ! ?i, locks)" "distinct locks" "set locks = ?ks - {ts_locks ts ! ?i}" .
  have "ts_locks ts ! ?i \<in> ?ks" using i by simp
  with inv pick obtain subj ref where "subj_unlock dbg (ts_locks ts ! ?i) (ts_subj ts) = Some subj" "subj_inv (set locks) subj"
    "ref_do_unlock pick (ts_locks ts ! ?i) (ts_ref ts) = Some ref" "agree () (subj_world subj) ref"
    using subj_unlock_ok [of ?ks "ts_subj ts" "ts_locks ts ! ?i" dbg] 1(3) unfolding test_inv_def by metis
  with 1 inv show ?thesis by (auto simp: test_unlock_def test_inv_def)
qed

lemma test_lock_ok:
  assumes inv: "test_inv ts" and few: "length (ts_locks ts) < 64" and xy: "x < y" "y \<le> LEN" and pick: "picks pick"
  shows "\<exists>checked ts'. test_lock dbg pick cmd (Range x y) priority ts = Some (checked, ts') \<and> test_inv ts'"
proof -
  let ?k = "ts_next_lock_id ts" and ?ks = "set (ts_locks ts)" and ?w = "unat (cmd div 2 mod 4) mod 2 = 1"
  have k: "?k \<notin> ?ks" and si: "subj_inv ?ks (ts_subj ts)" and ag: "agree () (subj_world (ts_subj ts)) (ts_ref ts)"
    and "card ?ks < 64" using inv few by (auto simp: test_inv_def distinct_card)
  note blocking = subj_lock_blocking [OF si k this(4) xy pick ag, of dbg ?w priority]
    and nonblocking = subj_lock_try [OF si k this(4) xy pick ag, of dbg ?w priority]
  have kept: "test_inv (ts\<lparr>ts_next_lock_id := ?k + 1, ts_locks := ts_locks ts @ [?k], ts_subj := subj, ts_ref := ref\<rparr>)"
    if "subj_inv (insert ?k ?ks) subj" "agree () (subj_world subj) ref" for subj ref
    using that inv k by (auto simp: test_inv_def)
  have undone: "test_inv (ts\<lparr>ts_next_lock_id := ?k + 1, ts_subj := subj, ts_ref := ref\<rparr>)"
    if "subj_inv ?ks subj" "agree () (subj_world subj) ref" for subj ref
    using that inv by (auto simp: test_inv_def)
  show ?thesis
  proof (cases "2 \<le> unat (cmd div 2 mod 4)")
    case True
    from nonblocking show ?thesis
    proof (elim disjE exE conjE)
      fix subj ref
      assume "subj_lock dbg ?k (Range x y) ?w priority True (ts_subj ts) = Some (True, subj)"
        "ref_do_lock pick ?k (Range x y) ?w priority (ts_ref ts) = Some (True, ref)"
        "subj_inv (insert ?k ?ks) subj" "agree () (subj_world subj) ref"
      with True kept show ?thesis by (auto simp: test_lock_def Let_def)
    next
      fix subj ref ref'
      assume "subj_lock dbg ?k (Range x y) ?w priority True (ts_subj ts) = Some (False, subj)"
        "ref_do_lock pick ?k (Range x y) ?w priority (ts_ref ts) = Some (False, ref)"
        "ref_do_unlock pick ?k ref = Some ref'"
        "subj_inv ?ks subj" "agree () (subj_world subj) ref'"
      with True undone show ?thesis by (auto simp: test_lock_def Let_def)
    qed
  next
    case False
    with blocking kept show ?thesis by (auto simp: test_lock_def Let_def)
  qed
qed

section \<open>The final release\<close>

text \<open>Some lock is complete, as the core has no deadlock.\<close>

lemma position_complete_ok:
  assumes inv: "subj_inv ks st" and "set locks \<subseteq> ks" and "\<exists>k\<in>set locks. pd (table_of (snd (subj_world st))) k = None"
  shows "\<exists>i<length locks. position_complete locks st = Some (Some i)"
  using assms(2,3)
proof (induction locks)
  case (Cons k locks)
  from Cons.prems(1) have "subj_is_complete k st = Some (pd (table_of (snd (subj_world st))) k = None)"
    using subj_complete [OF inv] by simp
  with Cons show ?case by (cases "pd (table_of (snd (subj_world st))) k = None") (auto simp del: table_of_simps)
qed simp

lemma complete_exists:
  assumes inv: "subj_inv ks st" and k: "k \<in> ks"
  shows "\<exists>k\<in>ks. pd (table_of (snd (subj_world st))) k = None"
proof -
  obtain c s where world: "subj_world st = (c, s)" by force
  from inv world have core: "core_inv () (c, s)" and owns: "\<And>j. owner (table_of s) j = (if j \<in> ks then Some () else None)"
    by (simp_all add: subj_inv_def del: table_of_simps)
  show ?thesis
  proof (cases "pd (table_of s) k")
    case (Some p)
    from owns k have "owner (table_of s) k = Some ()" by simp
    from some_lock_complete [OF core this Some] owns show ?thesis
      unfolding world snd_conv by (metis option.distinct(1))
  qed (use k world in \<open>auto simp del: table_of_simps\<close>)
qed

lemma release_all_ok:
  assumes "subj_inv (set locks) st" and "distinct locks"
  shows "\<exists>st'. release_all dbg locks st = Some st' \<and> subj_inv {} st'"
  using assms
proof (induction "length locks" arbitrary: locks st rule: less_induct)
  case less
  show ?case
  proof (cases "locks = []")
    case False
    then obtain k where "k \<in> set locks" by fastforce
    from position_complete_ok [OF less.prems(1) subset_refl complete_exists [OF less.prems(1) this]] obtain i where
      i: "i < length locks" "position_complete locks st = Some (Some i)" by blast
    from swap_remove_ok [OF i(1) less.prems(2)] obtain locks' where
      1: "swap_remove locks i = Some (locks ! i, locks')" "distinct locks'" "set locks' = set locks - {locks ! i}" .
    from subj_unlock_ok [OF less.prems(1), of "locks ! i" dbg] i(1) obtain st' where
      2: "subj_unlock dbg (locks ! i) st = Some st'" "subj_inv (set locks') st'" unfolding 1(3) by auto
    from less.hyps [OF swap_remove_length [OF 1(1)] 2(2) 1(2)] False i(2) 1(1) 2(1) show ?thesis
      by (simp add: release_all.simps)
  qed (use less.prems in \<open>simp add: release_all.simps\<close>)
qed

lemma subj_drop_ok: "subj_drop st = Some ()"
proof -
  obtain c s where world: "subj_world st = (c, s)" by force
  let ?cut = "fold (\<lambda>(k, lock) s. set_parent_cell s (state_ptr (sl_state lock)) None)"
  have cut: "parent_cell (?cut locks s) l = None" if "parent_cell s l = None \<or> l \<in> (\<lambda>(k, lock). state_ptr (sl_state lock)) ` set locks"
    for l s and locks :: subj_locks
    using that
  proof (induction locks arbitrary: s)
    case (Cons kx locks)
    obtain k x where kx: "kx = (k, x)" by force
    with Cons.prems have "parent_cell (set_parent_cell s (state_ptr (sl_state x)) None) l = None \<or>
        l \<in> (\<lambda>(k, lock). state_ptr (sl_state lock)) ` set locks" by (auto simp: set_parent_cell_def)
    from Cons.IH [OF this] show ?case by (simp add: kx)
  qed simp
  have drop: "fold (\<lambda>(k, lock) r. do { r; unfault (early_drop s (state_ptr (sl_state lock))) }) locks (Some ()) = Some ()"
    if "\<forall>(k, lock)\<in>set locks. parent_cell s (state_ptr (sl_state lock)) = None"
    for s :: "(unit, nat, nat, nat, nat) lock_states" and locks :: subj_locks
    using that by (induction locks) (auto simp: early_drop_def)
  have "\<forall>(k, lock)\<in>set (subj_locks st). parent_cell (?cut (subj_locks st) s) (state_ptr (sl_state lock)) = None"
    by (auto intro!: cut rev_image_eqI)
  from drop [OF this] show ?thesis by (simp add: subj_drop_def world core_drop_def)
qed

section \<open>The whole test\<close>

lemma run_unlock_ok:
  assumes inv: "test_inv ts" and pick: "picks pick" and unlock: "cmd mod 2 = 0 \<and> ts_locks ts \<noteq> []"
    and step: "\<And>cmds ts. length cmds < length (cmd # rest) \<Longrightarrow> test_inv ts \<Longrightarrow> \<exists>st. run_commands dbg pick cmds ts = Some st"
  shows "\<exists>st. run_commands dbg pick (cmd # rest) ts = Some st"
proof (cases rest)
  case (Cons x cmds)
  from test_unlock_ok [OF inv _ pick, of dbg x] unlock obtain ts' where
    1: "test_unlock dbg pick x ts = Some ts'" "test_inv ts'" by blast
  from step [OF _ this(2), of cmds] obtain st where "run_commands dbg pick cmds ts' = Some st" by (auto simp: Cons)
  then show ?thesis unfolding Cons run_commands.simps if_P [OF unlock] by (simp add: 1(1) test_check_ok [OF 1(2)])
qed (simp add: unlock)

lemma run_lock_ok:
  assumes inv: "test_inv ts" and pick: "picks pick" and other: "\<not> (cmd mod 2 = 0 \<and> ts_locks ts \<noteq> [])"
    and lock: "cmd mod 2 = 1 \<and> length (ts_locks ts) < 64"
    and step: "\<And>cmds ts. length cmds < length (cmd # x # y # rest) \<Longrightarrow> test_inv ts \<Longrightarrow> \<exists>st. run_commands dbg pick cmds ts = Some st"
  shows "\<exists>st. run_commands dbg pick (cmd # x # y # rest) ts = Some st"
proof -
  let ?x = "unat x mod LEN" and ?y = "unat y mod LEN"
  let ?r = "Range (min ?x ?y) (max ?x ?y)"
  have run: "run_commands dbg pick (cmd # x # y # rest) ts = (if rng_start ?r = rng_end ?r then run_commands dbg pick rest ts
      else (case rest of
          [] \<Rightarrow> Some (ts_subj ts)
        | priority # cmds \<Rightarrow> do {
            (checked, ts) \<leftarrow> test_lock dbg pick cmd ?r (unat priority) ts;
            (if checked then test_check ts else Some ());
            run_commands dbg pick cmds ts
          }))"
    unfolding run_commands.simps if_not_P [OF other] if_P [OF lock] by (simp only: list.case Let_def)
  show ?thesis
  proof (cases "min ?x ?y = max ?x ?y")
    case True
    with step [OF _ inv, of rest] show ?thesis unfolding run by simp
  next
    case False
    then have xy: "min ?x ?y < max ?x ?y" by linarith
    have len: "max ?x ?y \<le> LEN" by (simp add: LEN_def)
    show ?thesis
    proof (cases rest)
      case (Cons priority cmds)
      from test_lock_ok [OF inv _ xy len pick, of dbg cmd "unat priority"] lock obtain checked ts' where
        1: "test_lock dbg pick cmd ?r (unat priority) ts = Some (checked, ts')" "test_inv ts'" by blast
      from step [OF _ this(2), of cmds] obtain st where "run_commands dbg pick cmds ts' = Some st" by (auto simp: Cons)
      with False 1 show ?thesis unfolding run unfolding Cons by (simp add: test_check_ok [OF 1(2)] del: run_commands.simps)
    qed (use False in \<open>unfold run, simp del: run_commands.simps\<close>)
  qed
qed

lemma run_commands_ok:
  assumes "test_inv ts" and pick: "picks pick"
  shows "\<exists>st. run_commands dbg pick cmds ts = Some st"
  using assms(1)
proof (induction "length cmds" arbitrary: cmds ts rule: less_induct)
  case less
  show ?case
  proof (cases cmds)
    case Nil
    with less.prems release_all_ok [of "ts_locks ts" "ts_subj ts" dbg] show ?thesis by (auto simp: test_inv_def)
  next
    case (Cons cmd rest)
    note step = less.hyps [unfolded Cons]
    consider (unlock) "cmd mod 2 = 0 \<and> ts_locks ts \<noteq> []"
      | (lock) x y cmds' where "\<not> (cmd mod 2 = 0 \<and> ts_locks ts \<noteq> [])" "cmd mod 2 = 1 \<and> length (ts_locks ts) < 64" "rest = x # y # cmds'"
      | (short) "\<not> (cmd mod 2 = 0 \<and> ts_locks ts \<noteq> [])" "cmd mod 2 = 1 \<and> length (ts_locks ts) < 64" "rest = [] \<or> (\<exists>x. rest = [x])"
      | (none) "\<not> (cmd mod 2 = 0 \<and> ts_locks ts \<noteq> [])" "\<not> (cmd mod 2 = 1 \<and> length (ts_locks ts) < 64)"
      by (metis list.exhaust)
    then show ?thesis
    proof cases
      case unlock
      show ?thesis unfolding Cons by (rule run_unlock_ok [OF less.prems pick unlock]) (rule step)
    next
      case lock
      show ?thesis unfolding Cons lock(3) by (rule run_lock_ok [OF less.prems pick lock(1,2)]) (rule step [unfolded lock(3)])
    next
      case short
      then show ?thesis
        unfolding Cons run_commands.simps if_not_P [OF short(1)] if_P [OF short(2)] by auto
    next
      case none
      from step [OF _ less.prems, of rest] obtain st where "run_commands dbg pick rest ts = Some st" by auto
      then show ?thesis
        unfolding Cons run_commands.simps if_not_P [OF none(1)] if_not_P [OF none(2)] by (simp add: test_check_ok [OF less.prems])
    qed
  qed
qed

text \<open>C7. The randomised test of the core passes for every list of commands, whichever owner the hash sets of the reference
  enumerate first: for any sequence of lock, try and unlock operations of both kinds the core and the reference agree on which
  locks are complete, the trees stay valid, no operation panics or aborts, and the final release never finds a deadlock.\<close>

theorem core_equals_reference:
  assumes "\<And>A. A \<noteq> {} \<Longrightarrow> pick A \<in> A"
  shows "qc_rbtree_interval_rw_lock_core dbg pick cmds = Some ()"
proof -
  from assms have "picks pick" by blast
  from run_commands_ok [OF test_inv_new this, of dbg cmds] show ?thesis
    by (auto simp: qc_rbtree_interval_rw_lock_core_def subj_drop_ok)
qed

text \<open>An enumeration of a set of owners that starts with the smallest identifier.\<close>

definition lowest_owner :: "(nat \<times> bool) set \<Rightarrow> nat \<times> bool" where
  "lowest_owner A = (let n = LEAST n. n \<in> fst ` A in (n, (n, True) \<in> A))"

lemma lowest_owner_in: "A \<noteq> {} \<Longrightarrow> lowest_owner A \<in> A"
proof -
  assume "A \<noteq> {}"
  then obtain x where "x \<in> A" by blast
  then have "fst x \<in> fst ` A" by (rule imageI)
  then have "(LEAST n. n \<in> fst ` A) \<in> fst ` A" by (rule LeastI)
  then obtain y where "y \<in> A" "(LEAST n. n \<in> fst ` A) = fst y" by (metis imageE)
  then show ?thesis by (cases y; cases "snd y"; cases "(fst y, True) \<in> A") (simp_all add: lowest_owner_def Let_def)
qed

theorem core_equals_reference_witness:
  "qc_rbtree_interval_rw_lock_core True lowest_owner [1, 3, 9, 5, 3, 4, 7, 2, 7, 0, 20, 1, 0, 0, 0, 0] = Some ()"
  by (rule core_equals_reference) (rule lowest_owner_in)

text \<open>The two tests of particular situations.\<close>

lemma qc_waitlist_is_fifo_passes: "qc_waitlist_is_fifo dbg write1 write2 = Some ()"
proof -
  have "\<forall>dbg\<in>{True, False}. \<forall>write1\<in>{True, False}. \<forall>write2\<in>{True, False}. qc_waitlist_is_fifo dbg write1 write2 = Some ()"
    by code_simp
  then show ?thesis by (cases dbg; cases write1; cases write2) simp_all
qed

lemma unblock_multiple_passes: "unblock_multiple dbg = Some ()"
proof -
  have "unblock_multiple True = Some ()" "unblock_multiple False = Some ()" by code_simp+
  then show ?thesis by (cases dbg) simp_all
qed

end
