(* ===== verification/Core_Interface.thy ===== *)
theory Core_Interface
  imports Core_Cancel
begin

text \<open>
  The trait \<open>IntervalRwLockCore\<close> of \<open>src/core/mod.rs\<close>: its methods as a record of operations, its contract
  as a locale that the raw locks are built on, and the red-black tree core as an instance.
\<close>

section \<open>The operations of the trait\<close>

text \<open>
  \<open>'w\<close> is a core with its lock states, \<open>'out\<close> the output of the lock callback and \<open>'e\<close> the environment
  that the unlock callback acts on.
\<close>

record ('w, 'l, 'i, 'pr, 'ip, 'out, 'e) core_ops =
  op_init :: 'w
  op_lock_read :: "'i range \<Rightarrow> 'pr \<Rightarrow> 'l \<Rightarrow> ('out, 'ip) lock_callback \<Rightarrow> 'w \<Rightarrow> fault + 'out \<times> 'w"
  op_lock_write :: "'i range \<Rightarrow> 'pr \<Rightarrow> 'l \<Rightarrow> ('out, 'ip) lock_callback \<Rightarrow> 'w \<Rightarrow> fault + 'out \<times> 'w"
  op_try_lock_read :: "'i range \<Rightarrow> 'l \<Rightarrow> 'w \<Rightarrow> fault + bool \<times> 'w"
  op_try_lock_write :: "'i range \<Rightarrow> 'l \<Rightarrow> 'w \<Rightarrow> fault + bool \<times> 'w"
  op_unlock_read :: "'l \<Rightarrow> ('ip, 'e) unlock_callback \<Rightarrow> 'w \<times> 'e \<Rightarrow> fault + 'ip option \<times> 'w \<times> 'e"
  op_unlock_write :: "'l \<Rightarrow> ('ip, 'e) unlock_callback \<Rightarrow> 'w \<times> 'e \<Rightarrow> fault + 'ip option \<times> 'w \<times> 'e"
  op_unlock_try_read :: "'l \<Rightarrow> ('ip, 'e) unlock_callback \<Rightarrow> 'w \<times> 'e \<Rightarrow> fault + 'w \<times> 'e"
  op_unlock_try_write :: "'l \<Rightarrow> ('ip, 'e) unlock_callback \<Rightarrow> 'w \<times> 'e \<Rightarrow> fault + 'w \<times> 'e"
  op_inspect_read_mut :: "'l \<Rightarrow> 'w \<Rightarrow> fault + 'ip lock_progress"
  op_inspect_write_mut :: "'l \<Rightarrow> 'w \<Rightarrow> fault + 'ip lock_progress"
  op_set_in_progress :: "'l \<Rightarrow> 'ip \<Rightarrow> 'w \<Rightarrow> 'w option"

text \<open>The implementation by red-black trees; the last operation is a write through the inspected reference.\<close>

definition rbtree_ops ::
  "bool \<Rightarrow> 'c \<Rightarrow> (('c, 'l, 'i::linorder, 'pr::linorder, 'ip) world, 'l, 'i, 'pr, 'ip, 'out, 'e) core_ops" where
  "rbtree_ops dbg self =
     \<lparr>op_init = (core_new, lock_states_default),
      op_lock_read = lock_read dbg self, op_lock_write = lock_write dbg self,
      op_try_lock_read = try_lock_read dbg self, op_try_lock_write = try_lock_write dbg self,
      op_unlock_read = unlock_read dbg self, op_unlock_write = unlock_write dbg self,
      op_unlock_try_read = unlock_try_read dbg self, op_unlock_try_write = unlock_try_write dbg self,
      op_inspect_read_mut = inspect_mut self, op_inspect_write_mut = inspect_mut self,
      op_set_in_progress = set_in_progress\<rparr>"

lemma rbtree_ops_simps [simp]:
  "op_init (rbtree_ops dbg self) = (core_new, lock_states_default)"
  "op_lock_read (rbtree_ops dbg self) = lock_read dbg self"
  "op_lock_write (rbtree_ops dbg self) = lock_write dbg self"
  "op_try_lock_read (rbtree_ops dbg self) = try_lock_read dbg self"
  "op_try_lock_write (rbtree_ops dbg self) = try_lock_write dbg self"
  "op_unlock_read (rbtree_ops dbg self) = unlock_read dbg self"
  "op_unlock_write (rbtree_ops dbg self) = unlock_write dbg self"
  "op_unlock_try_read (rbtree_ops dbg self) = unlock_try_read dbg self"
  "op_unlock_try_write (rbtree_ops dbg self) = unlock_try_write dbg self"
  "op_inspect_read_mut (rbtree_ops dbg self) = inspect_mut self"
  "op_inspect_write_mut (rbtree_ops dbg self) = inspect_mut self"
  "op_set_in_progress (rbtree_ops dbg self) = set_in_progress"
  by (simp_all add: rbtree_ops_def)

section \<open>The contract\<close>

text \<open>
  The client's view of a core: which lock states are unused, what the locks of the core asked for (writer
  flag and range), and which of them still wait, with their \<open>InProgress\<close> objects.
\<close>

type_synonym 'i asking = "bool \<times> 'i \<times> 'i"

definition apart :: "'i::linorder asking \<Rightarrow> 'i asking \<Rightarrow> bool" where
  "apart a b = (case (a, b) of ((u, x, y), (v, x', y')) \<Rightarrow> \<not> u \<and> \<not> v \<or> y \<le> x' \<or> y' \<le> x)"

definition uncontended :: "('l \<Rightarrow> 'i::linorder asking option) \<Rightarrow> 'i asking \<Rightarrow> bool" where
  "uncontended req a \<longleftrightarrow> (\<forall>l b. req l = Some b \<longrightarrow> apart a b)"

text \<open>Locking: the request is registered; it is granted at once, at the latest when nothing is in its way.\<close>

definition lock_law where
  "lock_law ok free req waits l a callback w res \<longleftrightarrow> (\<exists>w' d.
     res = Inr (if d then on_complete callback else fst (on_in_progress callback), w') \<and> ok w' \<and>
     free w' = (free w)(l := False) \<and> req w' = (req w)(l \<mapsto> a) \<and>
     waits w' = (waits w)(l := if d then None else Some (snd (on_in_progress callback))) \<and>
     (uncontended (req w) a \<longrightarrow> d))"

definition try_law where
  "try_law ok free req waits l a w res \<longleftrightarrow>
     res = Inr (False, w) \<and> \<not> uncontended (req w) a \<or>
     (\<exists>w'. res = Inr (True, w') \<and> ok w' \<and>
       free w' = (free w)(l := False) \<and> req w' = (req w)(l \<mapsto> a) \<and> waits w' = waits w)"

text \<open>
  Unlocking: the callback is called once for every lock that stops waiting, with the \<open>InProgress\<close> object of that lock.
\<close>

definition unlock_law ::
  "('w \<Rightarrow> bool) \<Rightarrow> ('w \<Rightarrow> 'l \<Rightarrow> bool) \<Rightarrow> ('w \<Rightarrow> 'l \<Rightarrow> 'i asking option) \<Rightarrow> ('w \<Rightarrow> 'l \<Rightarrow> 'ip option) \<Rightarrow>
   'l \<Rightarrow> 'w \<Rightarrow> ('ip, 'e) unlock_callback \<Rightarrow> 'e \<Rightarrow> 'ip option \<Rightarrow> fault + 'ip option \<times> 'w \<times> 'e \<Rightarrow> bool" where
  "unlock_law ok free req waits l w callback e ret res \<longleftrightarrow> (\<exists>w' log.
     res = Inr (ret, w', fold callback (map (\<lambda>k. the (waits w k)) log) e) \<and> ok w' \<and>
     free w' = (free w)(l := True) \<and> req w' = (req w)(l := None) \<and>
     distinct log \<and> set log = {k. k \<noteq> l \<and> waits w k \<noteq> None \<and> waits w' k = None} \<and>
     waits w' l = None \<and> (\<forall>k. waits w' k \<noteq> None \<longrightarrow> waits w' k = waits w k))"

locale interval_rw_lock_core =
  fixes ops :: "('w, 'l, 'i::linorder, 'pr, 'ip, 'out, 'e) core_ops"
    and limit :: nat
    and ok :: "'w \<Rightarrow> bool"
    and free :: "'w \<Rightarrow> 'l \<Rightarrow> bool"
    and req :: "'w \<Rightarrow> 'l \<Rightarrow> 'i asking option"
    and waits :: "'w \<Rightarrow> 'l \<Rightarrow> 'ip option"
  assumes init_ok: "ok (op_init ops)"
    and init_free: "free (op_init ops) = (\<lambda>_. True)"
    and free_req: "\<lbrakk> ok w; free w l \<rbrakk> \<Longrightarrow> req w l = None"
    and waits_req: "\<lbrakk> ok w; waits w l = Some ip \<rbrakk> \<Longrightarrow> req w l \<noteq> None"
    and req_range: "\<lbrakk> ok w; req w l = Some (u, x, y) \<rbrakk> \<Longrightarrow> x < y"
    and exclusion: "\<lbrakk> ok w; req w l = Some a; waits w l = None; req w l' = Some b; waits w l' = None; l \<noteq> l' \<rbrakk>
      \<Longrightarrow> apart a b"
    and progress: "\<lbrakk> ok w; waits w l = Some ip \<rbrakk> \<Longrightarrow> \<exists>l'. req w l' \<noteq> None \<and> waits w l' = None"
    and lock_read: "\<lbrakk> ok w; free w l; card {l. req w l \<noteq> None} < limit; x < y \<rbrakk> \<Longrightarrow>
      lock_law ok free req waits l (False, x, y) callback w (op_lock_read ops (Range x y) prio l callback w)"
    and lock_write: "\<lbrakk> ok w; free w l; card {l. req w l \<noteq> None} < limit; x < y \<rbrakk> \<Longrightarrow>
      lock_law ok free req waits l (True, x, y) callback w (op_lock_write ops (Range x y) prio l callback w)"
    and try_lock_read: "\<lbrakk> ok w; free w l; card {l. req w l \<noteq> None} < limit; x < y \<rbrakk> \<Longrightarrow>
      try_law ok free req waits l (False, x, y) w (op_try_lock_read ops (Range x y) l w)"
    and try_lock_write: "\<lbrakk> ok w; free w l; card {l. req w l \<noteq> None} < limit; x < y \<rbrakk> \<Longrightarrow>
      try_law ok free req waits l (True, x, y) w (op_try_lock_write ops (Range x y) l w)"
    and unlock_read: "\<lbrakk> ok w; req w l = Some (False, x, y) \<rbrakk> \<Longrightarrow>
      unlock_law ok free req waits l w cb e (waits w l) (op_unlock_read ops l cb (w, e))"
    and unlock_write: "\<lbrakk> ok w; req w l = Some (True, x, y) \<rbrakk> \<Longrightarrow>
      unlock_law ok free req waits l w cb e (waits w l) (op_unlock_write ops l cb (w, e))"
    and unlock_try_read: "\<lbrakk> ok w; req w l = Some (False, x, y); waits w l = None \<rbrakk> \<Longrightarrow>
      unlock_law ok free req waits l w cb e None (map_sum id (Pair None) (op_unlock_try_read ops l cb (w, e)))"
    and unlock_try_write: "\<lbrakk> ok w; req w l = Some (True, x, y); waits w l = None \<rbrakk> \<Longrightarrow>
      unlock_law ok free req waits l w cb e None (map_sum id (Pair None) (op_unlock_try_write ops l cb (w, e)))"
    and inspect_read_mut: "\<lbrakk> ok w; req w l = Some (False, x, y) \<rbrakk> \<Longrightarrow>
      op_inspect_read_mut ops l w = Inr (case waits w l of None \<Rightarrow> Complete | Some ip \<Rightarrow> InProgress ip)"
    and inspect_write_mut: "\<lbrakk> ok w; req w l = Some (True, x, y) \<rbrakk> \<Longrightarrow>
      op_inspect_write_mut ops l w = Inr (case waits w l of None \<Rightarrow> Complete | Some ip \<Rightarrow> InProgress ip)"
    and set_in_progress: "\<lbrakk> ok w; waits w l = Some ip \<rbrakk> \<Longrightarrow>
      \<exists>w'. op_set_in_progress ops l ip' w = Some w' \<and> ok w' \<and> free w' = free w \<and> req w' = req w \<and>
        waits w' = (waits w)(l \<mapsto> ip')"


section \<open>The red-black tree core\<close>

definition rb_free :: "('c, 'l, 'i, 'pr, 'ip) world \<Rightarrow> 'l \<Rightarrow> bool" where
  "rb_free w l \<longleftrightarrow> owner (table_of (snd w)) l = None"

definition rb_req :: "'c \<Rightarrow> ('c, 'l, 'i, 'pr, 'ip) world \<Rightarrow> 'l \<Rightarrow> 'i asking option" where
  "rb_req self w l =
     (if owner (table_of (snd w)) l = Some self then request (table_of (snd w)) l else None)"

definition rb_waits :: "'c \<Rightarrow> ('c, 'l, 'i, 'pr, 'ip) world \<Rightarrow> 'l \<Rightarrow> 'ip option" where
  "rb_waits self w l =
     (if owner (table_of (snd w)) l = Some self then map_option p_in_progress (pd (table_of (snd w)) l) else None)"

lemmas rb_defs = rb_free_def rb_req_def rb_waits_def

lemma rb_req_owned: "core_inv self w \<Longrightarrow> rb_req self w l \<noteq> None \<longleftrightarrow> owner (table_of (snd w)) l = Some self"
  by (cases w) (auto simp: rb_req_def dest: core_invD(4) simp del: table_of_simps)

lemma rb_room: "core_inv self w \<Longrightarrow> card {l. rb_req self w l \<noteq> None} < 2 ^ 63 - 1 \<Longrightarrow> room self (table_of (snd w))"
  unfolding rb_req_owned room_def .

lemma rb_waits_req: "core_inv self w \<Longrightarrow> rb_waits self w l = Some ip \<Longrightarrow> rb_req self w l \<noteq> None"
  unfolding rb_req_owned by (simp add: rb_waits_def del: table_of_simps split: if_splits)

lemma request_range:
  assumes "core_inv self (c, s)" and "request (table_of s) l = Some (u, x, y)"
  shows "x < y"
proof -
  from core_invD(1) [OF assms(1)] have ok: "lock_ok (table_of s) l" "regions_ok (table_of s)" by (simp_all add: table_ok_def)
  show ?thesis
  proof (cases "pd (table_of s) l")
    case None
    with assms(2) regions_ok_region [OF ok(2)] show ?thesis by (simp add: request_def del: table_of_simps)
  next
    case (Some p)
    with ok(1) have "p_start p < rng_end (p_range p)" by (simp add: lock_ok_def)
    with pending_request [OF ok Some] assms(2) show ?thesis by auto
  qed
qed

text \<open>A granted lock has borrowed all that it asked for, and any lock only what it asked for.\<close>

lemma granted_region: "pd t l = None \<Longrightarrow> region t l = request t l"
  by (simp add: request_def)

lemma covers_request:
  assumes inv: "core_inv self (c, s)" and "w_covers (table_of s) l i \<or> r_covers (table_of s) l i"
  shows "\<exists>u x y. request (table_of s) l = Some (u, x, y) \<and> x \<le> i \<and> i < y \<and> (w_covers (table_of s) l i \<longrightarrow> u)"
proof -
  let ?t = "table_of s"
  from core_invD(1) [OF inv] have ok: "lock_ok ?t l" "regions_ok ?t" by (simp_all add: table_ok_def)
  have "rd ?t l = None \<or> wr ?t l = None" using ok(1) by (simp add: lock_ok_def)
  then have "\<exists>u x y. region ?t l = Some (u, x, y) \<and> x \<le> i \<and> i < y \<and> (w_covers ?t l i \<longrightarrow> u)"
    using assms(2) by (auto simp: region_def w_covers_def r_covers_def simp del: table_of_simps)
  then obtain u x y where r: "region ?t l = Some (u, x, y)" "x \<le> i" "i < y" "w_covers ?t l i \<longrightarrow> u" by blast
  show ?thesis
  proof (cases "pd ?t l")
    case None
    with r show ?thesis by (simp add: request_def del: table_of_simps)
  next
    case (Some p)
    with ok(1) have "p_start p < rng_end (p_range p)" by (simp add: lock_ok_def)
    moreover from lock_ok_region [OF ok(1) Some r(1)] have "u = is_writer (p_parent p)" "y = p_start p" by blast+
    moreover from pending_request [OF ok Some] r(1) have "request ?t l = Some (is_writer (p_parent p), x, rng_end (p_range p))"
      by auto
    ultimately show ?thesis using r by force
  qed
qed

lemma rb_exclusion:
  assumes inv: "core_inv self w" and a: "rb_req self w l = Some a" "rb_waits self w l = None"
    and b: "rb_req self w l' = Some b" "rb_waits self w l' = None" and "l \<noteq> l'"
  shows "apart a b"
proof -
  obtain c s where w: "w = (c, s)" by fastforce
  obtain u x y v x' y' where ab: "a = (u, x, y)" "b = (v, x', y')" by (metis prod_cases3)
  note inv = inv [unfolded w]
  from a b have o: "owner (table_of s) l = Some self" "owner (table_of s) l' = Some self"
    and p: "pd (table_of s) l = None" "pd (table_of s) l' = None"
    and q: "request (table_of s) l = Some (u, x, y)" "request (table_of s) l' = Some (v, x', y')"
    by (auto simp: rb_req_def rb_waits_def w ab simp del: table_of_simps split: if_splits)
  from p q have r: "region (table_of s) l = Some (u, x, y)" "region (table_of s) l' = Some (v, x', y')"
    by (simp_all add: granted_region)
  have False if "u \<or> v" "x' < y" "x < y'"
  proof -
    let ?i = "max x x'"
    have "if u then w_covers (table_of s) l ?i else r_covers (table_of s) l ?i"
      "if v then w_covers (table_of s) l' ?i else r_covers (table_of s) l' ?i"
      using region_covers [OF r(1), of ?i] region_covers [OF r(2), of ?i] that(2,3)
        request_range [OF inv q(1)] request_range [OF inv q(2)] by auto
    with core_invD(2) [OF inv] o that(1) \<open>l \<noteq> l'\<close> show False unfolding excl_def by (metis (full_types))
  qed
  then show ?thesis by (auto simp: apart_def ab not_le)
qed

lemma rb_progress:
  assumes inv: "core_inv self w" and "rb_waits self w l = Some ip"
  shows "\<exists>l'. rb_req self w l' \<noteq> None \<and> rb_waits self w l' = None"
proof -
  obtain c s where w: "w = (c, s)" by fastforce
  from assms(2) obtain p where "owner (table_of s) l = Some self" "pd (table_of s) l = Some p"
    by (auto simp: rb_waits_def w simp del: table_of_simps split: if_splits)
  from some_lock_complete [OF inv [unfolded w] this] obtain l' where
    "owner (table_of s) l' = Some self" "pd (table_of s) l' = None" by blast
  then have "rb_req self w l' \<noteq> None \<and> rb_waits self w l' = None"
    unfolding rb_req_owned [OF inv] by (simp add: rb_waits_def w del: table_of_simps)
  then show ?thesis by blast
qed

text \<open>Without contention a search finds nothing.\<close>

lemma rb_uncontended:
  assumes inv: "core_inv self w" and un: "uncontended (rb_req self w) (is_writer ptr, x, y)"
    and i: "x \<le> i" "i < y" "conflict_at self (table_of (snd w)) ptr i"
  shows False
proof -
  obtain c s where w: "w = (c, s)" by fastforce
  let ?t = "table_of s"
  from i(3) obtain k where k: "owner ?t k = Some self" "w_covers ?t k i \<or> r_covers ?t k i" "w_covers ?t k i \<or> is_writer ptr"
    by (cases ptr) (auto simp: conflict_at_def w_at_def r_at_def w simp del: table_of_simps)
  from covers_request [OF inv [unfolded w] k(2)] obtain v x' y' where
    r: "request ?t k = Some (v, x', y')" "x' \<le> i" "i < y'" "w_covers ?t k i \<longrightarrow> v" by blast
  with k(1) have "rb_req self w k = Some (v, x', y')" by (simp add: rb_req_def w del: table_of_simps)
  with un have "apart (is_writer ptr, x, y) (v, x', y')" by (auto simp: uncontended_def)
  with r i(1,2) k(3) show False by (auto simp: apart_def)
qed

lemma extend_same: "owner (Core_Resume.extend t ptr x e) = owner t" "pd (Core_Resume.extend t ptr x e) = pd t"
  by (cases ptr; simp add: Core_Resume.extend_def)+

lemma resume_claim:
  "owner (resume_table (claim self t l p) l p r) = (owner t)(l \<mapsto> self)"
  "map_option p_in_progress (pd (resume_table (claim self t l p) l p r) l) = map_option (\<lambda>_. p_in_progress p) r"
  "l' \<noteq> l \<Longrightarrow> pd (resume_table (claim self t l p) l p r) l' = pd t l'"
  by (auto simp: resume_table_def claim_def extend_same option.map_comp comp_def)

lemma rb_lock_law:
  assumes post: "lock_post self l (table_of (snd w)) ptr x y prio callback res"
    and ptr: "ptr = Read l \<or> ptr = Write l" and u: "u = is_writer ptr"
    and inv: "core_inv self w" and free: "rb_free w l" and room: "card {l. rb_req self w l \<noteq> None} < 2 ^ 63 - 1" and xy: "x < y"
  shows "lock_law (core_inv self) rb_free (rb_req self) (rb_waits self) l (u, x, y) callback w res"
proof -
  obtain c s where w: "w = (c, s)" by fastforce
  let ?t = "table_of s" and ?p = "fresh ptr x y prio (snd (on_in_progress callback))"
  have o: "owner ?t l = None" and rm: "room self ?t"
    using free rb_room [OF inv room] by (simp_all add: rb_free_def w del: table_of_simps)
  from post obtain c' s' r where
    1: "res = Inr (case r of None \<Rightarrow> on_complete callback | Some _ \<Rightarrow> fst (on_in_progress callback), c', s')"
    "first_in (conflict_at self ?t ptr) x y r" "table_of s' = resume_table (claim self ?t l ?p) l ?p r"
    unfolding lock_post_def Let_def w snd_conv by blast
  from lock_post_step [OF post [unfolded w snd_conv] ptr inv [unfolded w] refl o rm xy] 1(1) have
    2: "core_inv self (c', s')" "request (table_of s') l = Some (u, x, y)"
    "\<forall>l'. l' \<noteq> l \<longrightarrow> request (table_of s') l' = request ?t l' \<and> pd (table_of s') l' = pd ?t l'"
    unfolding u by auto
  note tab = resume_claim [where self = self and t = ?t and l = l and p = ?p and r = r, folded 1(3)]
  have "rb_free (c', s') = (rb_free w)(l := False)"
    by (rule ext) (simp add: rb_free_def w tab(1) del: table_of_simps)
  moreover have "rb_req self (c', s') = (rb_req self w)(l \<mapsto> (u, x, y))"
    using 2(2,3) by (intro ext) (simp add: rb_req_def w tab(1) del: table_of_simps)
  moreover have "rb_waits self (c', s') = (rb_waits self w)(l := if r = None then None else Some (snd (on_in_progress callback)))"
    using 2(3) tab(2) by (intro ext) (cases r; simp add: rb_waits_def w tab(1) fresh_def del: table_of_simps)
  moreover have "r = None" if "uncontended (rb_req self w) (u, x, y)"
  proof (rule ccontr)
    assume "r \<noteq> None"
    then obtain i where "r = Some i" by blast
    with 1(2) have "x \<le> i" "i < y" "conflict_at self ?t ptr i" by (auto simp: first_in_def)
    with rb_uncontended [OF inv that [unfolded u]] show False by (simp add: w del: table_of_simps)
  qed
  moreover have "res = Inr (if r = None then on_complete callback else fst (on_in_progress callback), c', s')"
    using 1(1) by (cases r) simp_all
  ultimately show ?thesis using 2(1) unfolding lock_law_def by (intro exI [of _ "(c', s')"] exI [of _ "r = None"]) simp
qed

lemma rb_try_law:
  assumes post: "try_post self (table_of (snd w)) ptr x y (fst w) (snd w) res"
    and ptr: "ptr = Read l \<or> ptr = Write l" and u: "u = is_writer ptr"
    and inv: "core_inv self w" and free: "rb_free w l"
  shows "try_law (core_inv self) rb_free (rb_req self) (rb_waits self) l (u, x, y) w res"
proof -
  obtain c s where w: "w = (c, s)" by fastforce
  let ?t = "table_of s"
  have o: "owner ?t l = None" using free by (simp add: rb_free_def w del: table_of_simps)
  show ?thesis
  proof (cases "\<exists>i. x \<le> i \<and> i < y \<and> conflict_at self ?t ptr i")
    case True
    with post have "res = Inr (False, w)" by (simp add: try_post_def w del: table_of_simps)
    moreover have "\<not> uncontended (rb_req self w) (u, x, y)"
      using True rb_uncontended [OF inv, of ptr x y] unfolding u w snd_conv by blast
    ultimately show ?thesis by (simp add: try_law_def)
  next
    case False
    with post obtain c' s' where g: "res = Inr (True, c', s')" "table_of s' = grant self ?t ptr x y"
      unfolding try_post_def w fst_conv snd_conv if_not_P [OF False] by blast
    from try_post_step [OF post [unfolded w fst_conv snd_conv] ptr inv [unfolded w] refl o] g(1) have
      1: "core_inv self (c', s')" "request (table_of s') l = Some (u, x, y)" "pd (table_of s') l = None"
      "\<forall>l'. l' \<noteq> l \<longrightarrow> request (table_of s') l' = request ?t l' \<and> pd (table_of s') l' = pd ?t l'"
      unfolding u by auto
    have ow: "owner (table_of s') = (owner ?t)(l \<mapsto> self)"
      using ptr unfolding g(2) by (auto simp: grant_def simp del: table_of_simps)
    have "rb_free (c', s') = (rb_free w)(l := False)"
      by (rule ext) (simp add: rb_free_def w ow del: table_of_simps)
    moreover have "rb_req self (c', s') = (rb_req self w)(l \<mapsto> (u, x, y))"
      using 1(2,4) by (intro ext) (simp add: rb_req_def w ow del: table_of_simps)
    moreover have "rb_waits self (c', s') = rb_waits self w"
      using 1(3,4) o by (intro ext) (simp add: rb_waits_def w ow del: table_of_simps)
    ultimately show ?thesis using 1(1) g(1) unfolding try_law_def by blast
  qed
qed

lemma rb_unlock_law:
  assumes post: "unlock_post self l (fst w) (snd w) callback e ret res"
    and inv: "core_inv self w" and own: "rb_req self w l \<noteq> None"
  shows "unlock_law (core_inv self) rb_free (rb_req self) (rb_waits self) l w callback e ret res"
proof -
  obtain c s where w: "w = (c, s)" by fastforce
  let ?t = "table_of s"
  have ol: "owner ?t l = Some self" using own [unfolded rb_req_owned [OF inv]] unfolding w snd_conv .
  from post obtain c' s' log where
    1: "res = Inr (ret, (c', s'), fold callback (map (payload ?t) log) e)" "core_inv self (c', s')"
    "released l ?t (table_of s') log" unfolding unlock_post_def w fst_conv snd_conv by blast
  let ?u = "table_of s'"
  note rel = 1(3) [unfolded released_def]
  have R: "owner ?u = (owner ?t)(l := None)" "\<forall>k. k \<noteq> l \<longrightarrow> request ?u k = request ?t k" "distinct log"
    "set log = {k. k \<noteq> l \<and> pd ?t k \<noteq> None \<and> pd ?u k = None}"
    using rel by (simp_all del: table_of_simps)
  have move: "\<exists>p i. pd ?t k = Some p \<and> p' = moved p i" if "pd ?u k = Some p'" for k p'
  proof -
    from rel have "\<forall>l p'. pd ?u l = Some p' \<longrightarrow> (\<exists>p i. pd ?t l = Some p \<and> p' = moved p i \<and> p_start p \<le> i)"
      by (elim conjE)
    with that show ?thesis by blast
  qed
  have other: "pd ?u k = pd ?t k" if "owner ?t k \<noteq> Some self" for k
  proof -
    from rel have "\<forall>l'. owner ?t l' \<noteq> owner ?t l \<longrightarrow> rd ?u l' = rd ?t l' \<and> wr ?u l' = wr ?t l' \<and> pd ?u l' = pd ?t l'"
      by (elim conjE)
    from this [rule_format, of k] that show ?thesis unfolding ol by blast
  qed
  have own_log: "k \<in> set log \<Longrightarrow> owner ?t k = Some self" for k using other [of k] unfolding R(4) mem_Collect_eq by metis
  have fr: "rb_free (c', s') = (rb_free w)(l := True)"
    by (rule ext) (simp add: rb_free_def w R(1) del: table_of_simps)
  have rq: "rb_req self (c', s') = (rb_req self w)(l := None)"
    using R(2) by (intro ext) (simp add: rb_req_def w R(1) del: table_of_simps)
  have keep: "rb_waits self (c', s') k = rb_waits self w k" if "rb_waits self (c', s') k \<noteq> None" for k
    using that move [of k] by (auto simp: rb_waits_def w R(1) simp del: table_of_simps split: if_splits)
  have wl: "rb_waits self (c', s') l = None" by (simp add: rb_waits_def R(1) del: table_of_simps)
  have sl: "set log = {k. k \<noteq> l \<and> rb_waits self w k \<noteq> None \<and> rb_waits self (c', s') k = None}"
    using own_log by (auto simp: rb_waits_def w R(1,4) simp del: table_of_simps)
  have "map (payload ?t) log = map (\<lambda>k. the (rb_waits self w k)) log"
    using own_log R(4) by (auto simp: rb_waits_def w payload_def simp del: table_of_simps)
  from 1(1) [unfolded this] 1(2) fr rq keep wl R(3) sl show ?thesis unfolding unlock_law_def
    by (intro exI [of _ "(c', s')"] exI [of _ log] conjI) simp_all
qed

text \<open>The mode of a request tells which kind of borrow there is none of.\<close>

lemma rb_owned: "rb_req self (c, s) l = Some a \<Longrightarrow> owner (table_of s) l = Some self"
  by (simp add: rb_req_def del: table_of_simps split: if_splits)

lemma rb_mode:
  assumes inv: "core_inv self (c, s)" and "rb_req self (c, s) l = Some (u, x, y)"
  shows "if u then rd (table_of s) l = None else wr (table_of s) l = None"
proof -
  let ?t = "table_of s"
  from assms(2) have q: "request ?t l = Some (u, x, y)"
    by (simp add: rb_req_def del: table_of_simps split: if_splits)
  from core_invD(1) [OF inv] have ok: "lock_ok ?t l" by (simp add: table_ok_def)
  show ?thesis
    using ok q by (cases "pd ?t l") (auto simp: lock_ok_def request_def region_def simp del: table_of_simps split: option.splits)
qed

lemma rb_waits_None: "rb_req self (c, s) l \<noteq> None \<Longrightarrow> rb_waits self (c, s) l = None \<Longrightarrow> pd (table_of s) l = None"
  by (simp add: rb_req_def rb_waits_def del: table_of_simps split: if_splits)

lemma rb_waits_pd: "owner (table_of s) l = Some self \<Longrightarrow> rb_waits self (c, s) l = map_option p_in_progress (pd (table_of s) l)"
  by (simp add: rb_waits_def del: table_of_simps)

lemma rb_inspect:
  assumes "rb_req self w l \<noteq> None"
  shows "inspect_mut self l w = Inr (case rb_waits self w l of None \<Rightarrow> Complete | Some ip \<Rightarrow> InProgress ip)"
proof -
  obtain c s where w: "w = (c, s)" by fastforce
  from assms obtain a where "rb_req self (c, s) l = Some a" unfolding w not_None_eq by (rule exE)
  from rb_owned [OF this] have "parent_cell s l = Some self" by simp
  then show ?thesis by (cases "pending_cell s l") (simp_all add: inspect_mut_def rb_waits_def w view_def)
qed

lemma rb_set_in_progress:
  assumes inv: "core_inv self w" and "rb_waits self w l = Some ip"
  shows "\<exists>w'. set_in_progress l ip' w = Some w' \<and> core_inv self w' \<and> rb_free w' = rb_free w \<and>
    rb_req self w' = rb_req self w \<and> rb_waits self w' = (rb_waits self w)(l \<mapsto> ip')"
proof -
  obtain c s where w: "w = (c, s)" by fastforce
  from assms(2) obtain p where p: "owner (table_of s) l = Some self" "pd (table_of s) l = Some p"
    by (auto simp: rb_waits_def w simp del: table_of_simps split: if_splits)
  from set_in_progress_ok [OF inv [unfolded w] p, of ip'] obtain s' where
    1: "set_in_progress l ip' (c, s) = Some (c, s')" "core_inv self (c, s')"
    "table_of s' = (table_of s)\<lparr>pd := (pd (table_of s))(l \<mapsto> p\<lparr>p_in_progress := ip'\<rparr>)\<rparr>"
    "\<forall>k. request (table_of s') k = request (table_of s) k" by blast
  have ow: "owner (table_of s') = owner (table_of s)" using 1(3) by (simp del: table_of_simps)
  have "rb_free (c, s') = rb_free w" "rb_req self (c, s') = rb_req self w"
    using 1(4) by (intro ext; simp add: rb_free_def rb_req_def w ow del: table_of_simps)+
  moreover have "rb_waits self (c, s') = (rb_waits self w)(l \<mapsto> ip')"
    using p by (intro ext) (simp add: rb_waits_def w 1(3) del: table_of_simps)
  ultimately show ?thesis using 1(1,2) unfolding w by blast
qed

text \<open>The operations.\<close>

lemma rb_lock:
  assumes inv: "core_inv self w" and free: "rb_free w l" and room: "card {l. rb_req self w l \<noteq> None} < 2 ^ 63 - 1" and xy: "x < y"
  shows "lock_law (core_inv self) rb_free (rb_req self) (rb_waits self) l (False, x, y) callback w
      (lock_read dbg self (Range x y) prio l callback w)"
    and "lock_law (core_inv self) rb_free (rb_req self) (rb_waits self) l (True, x, y) callback w
      (lock_write dbg self (Range x y) prio l callback w)"
    and "try_law (core_inv self) rb_free (rb_req self) (rb_waits self) l (False, x, y) w
      (try_lock_read dbg self (Range x y) l w)"
    and "try_law (core_inv self) rb_free (rb_req self) (rb_waits self) l (True, x, y) w
      (try_lock_write dbg self (Range x y) l w)"
proof -
  obtain c s where w: "w = (c, s)" by fastforce
  have "owner (table_of s) l = None" "room self (table_of s)"
    using free rb_room [OF inv room] by (simp_all add: rb_free_def w del: table_of_simps)
  note pre = inv [unfolded w] this xy
  note post = lock_read_ok [OF pre] lock_write_ok [OF pre] try_lock_read_ok [OF pre] try_lock_write_ok [OF pre]
  show "lock_law (core_inv self) rb_free (rb_req self) (rb_waits self) l (False, x, y) callback w
      (lock_read dbg self (Range x y) prio l callback w)"
    by (rule rb_lock_law [OF _ _ _ inv free room xy, where ptr = "Read l" and prio = prio])
      (simp_all add: w post del: table_of_simps)
  show "lock_law (core_inv self) rb_free (rb_req self) (rb_waits self) l (True, x, y) callback w
      (lock_write dbg self (Range x y) prio l callback w)"
    by (rule rb_lock_law [OF _ _ _ inv free room xy, where ptr = "Write l" and prio = prio])
      (simp_all add: w post del: table_of_simps)
  show "try_law (core_inv self) rb_free (rb_req self) (rb_waits self) l (False, x, y) w
      (try_lock_read dbg self (Range x y) l w)"
    by (rule rb_try_law [OF _ _ _ inv free, where ptr = "Read l"]) (simp_all add: w post del: table_of_simps)
  show "try_law (core_inv self) rb_free (rb_req self) (rb_waits self) l (True, x, y) w
      (try_lock_write dbg self (Range x y) l w)"
    by (rule rb_try_law [OF _ _ _ inv free, where ptr = "Write l"]) (simp_all add: w post del: table_of_simps)
qed

lemma rb_unlock_read:
  assumes inv: "core_inv self w" and q: "rb_req self w l = Some (False, x, y)"
  shows "unlock_law (core_inv self) rb_free (rb_req self) (rb_waits self) l w cb e (rb_waits self w l)
      (unlock_read dbg self l cb (w, e))"
    and "rb_waits self w l = None \<Longrightarrow> unlock_law (core_inv self) rb_free (rb_req self) (rb_waits self) l w cb e None
      (map_sum id (Pair None) (unlock_try_read dbg self l cb (w, e)))"
proof -
  obtain c s where w: "w = (c, s)" by fastforce
  note m = rb_owned [OF q [unfolded w]] rb_mode [OF inv [unfolded w] q [unfolded w], unfolded if_True if_False]
  have "unlock_post self l (fst w) (snd w) cb e (rb_waits self w l) (unlock_read dbg self l cb (w, e))"
    using unlock_read_ok [OF inv [unfolded w] m(1,2), of cb e dbg] unfolding w fst_conv snd_conv rb_waits_pd [OF m(1)] .
  from rb_unlock_law [OF this inv] q show
    law: "unlock_law (core_inv self) rb_free (rb_req self) (rb_waits self) l w cb e (rb_waits self w l)
      (unlock_read dbg self l cb (w, e))" by simp
  assume n: "rb_waits self w l = None"
  have p: "pd (table_of s) l = None" using rb_waits_None [of self c s l] q n unfolding w by simp
  show "unlock_law (core_inv self) rb_free (rb_req self) (rb_waits self) l w cb e None
      (map_sum id (Pair None) (unlock_try_read dbg self l cb (w, e)))"
    using law [unfolded n] unfolding w unlock_try_read_eq [OF p] .
qed

lemma rb_unlock_write:
  assumes inv: "core_inv self w" and q: "rb_req self w l = Some (True, x, y)"
  shows "unlock_law (core_inv self) rb_free (rb_req self) (rb_waits self) l w cb e (rb_waits self w l)
      (unlock_write dbg self l cb (w, e))"
    and "rb_waits self w l = None \<Longrightarrow> unlock_law (core_inv self) rb_free (rb_req self) (rb_waits self) l w cb e None
      (map_sum id (Pair None) (unlock_try_write dbg self l cb (w, e)))"
proof -
  obtain c s where w: "w = (c, s)" by fastforce
  note m = rb_owned [OF q [unfolded w]] rb_mode [OF inv [unfolded w] q [unfolded w], unfolded if_True if_False]
  have "unlock_post self l (fst w) (snd w) cb e (rb_waits self w l) (unlock_write dbg self l cb (w, e))"
    using unlock_write_ok [OF inv [unfolded w] m(1,2), of cb e dbg] unfolding w fst_conv snd_conv rb_waits_pd [OF m(1)] .
  from rb_unlock_law [OF this inv] q show
    law: "unlock_law (core_inv self) rb_free (rb_req self) (rb_waits self) l w cb e (rb_waits self w l)
      (unlock_write dbg self l cb (w, e))" by simp
  assume n: "rb_waits self w l = None"
  have p: "pd (table_of s) l = None" using rb_waits_None [of self c s l] q n unfolding w by simp
  show "unlock_law (core_inv self) rb_free (rb_req self) (rb_waits self) l w cb e None
      (map_sum id (Pair None) (unlock_try_write dbg self l cb (w, e)))"
    using law [unfolded n] unfolding w unlock_try_write_eq [OF p] .
qed

lemma rb_req_range: "core_inv self w \<Longrightarrow> rb_req self w l = Some (u, x, y) \<Longrightarrow> x < y"
  by (cases w) (auto simp: rb_req_def dest: request_range simp del: table_of_simps split: if_splits)

lemma rb_free_req: "core_inv self w \<Longrightarrow> rb_free w l \<Longrightarrow> rb_req self w l = None"
  by (simp add: rb_free_def rb_req_def del: table_of_simps)

lemma rb_free_init: "rb_free (core_new, lock_states_default) = (\<lambda>_. True)"
  by (rule ext) (simp add: rb_free_def table_init del: table_of_simps)

interpretation rb: interval_rw_lock_core "rbtree_ops dbg self" "2 ^ 63 - 1" "core_inv self" rb_free "rb_req self" "rb_waits self"
  by (unfold_locales; (unfold rbtree_ops_simps)?)
    (fact core_inv_init rb_free_init rb_free_req rb_waits_req rb_req_range rb_exclusion rb_progress rb_lock
      rb_unlock_read rb_unlock_write | erule rb_set_in_progress; assumption | rule rb_inspect; simp)+

end
