(* ===== verification/Raw_Mutex.thy ===== *)
theory Raw_Mutex
  imports Core_Interface
begin

text \<open>
  What the raw locks share: the mutex of \<open>src/utils/pinsync.rs\<close>, and the calls of the traits
  \<open>RawIntervalRwLock\<close> and \<open>RawBlockingIntervalRwLock\<close> of \<open>src/raw/mod.rs\<close>.
\<close>

section \<open>Mutexes\<close>

text \<open>The state of a \<open>std::sync::Mutex<()>\<close>: the thread that holds it, and whether it is poisoned.\<close>

record 't std_mutex =
  holder :: "'t option"
  poisoned :: bool

text \<open>\<open>PinMutex\<close>: the mutex is created when it is used for the first time.\<close>

record ('t, 'a) pin_mutex =
  mutex :: "'t std_mutex option"
  guarded :: 'a

definition pin_mutex_new :: "'a \<Rightarrow> ('t, 'a) pin_mutex" where
  "pin_mutex_new x = \<lparr>mutex = None, guarded = x\<rparr>"

definition get_or_init :: "'t std_mutex option \<Rightarrow> 't std_mutex" where
  "get_or_init m = (case m of None \<Rightarrow> \<lparr>holder = None, poisoned = False\<rparr> | Some m \<Rightarrow> m)"

text \<open>
  \<open>PinMutex::lock\<close>: it blocks while the mutex is held, and \<open>unwrap\<close> panics when it is poisoned.  A panic drops the
  guard that is inside the error.
\<close>

datatype 'a locking = WouldBlock | IsPoisoned 'a | Acquired 'a

definition pin_mutex_lock :: "'t \<Rightarrow> ('t, 'a) pin_mutex \<Rightarrow> ('t, 'a) pin_mutex locking" where
  "pin_mutex_lock t pm = (let m = get_or_init (mutex pm) in
     if holder m \<noteq> None then WouldBlock
     else if poisoned m then IsPoisoned (pm\<lparr>mutex := Some m\<rparr>)
     else Acquired (pm\<lparr>mutex := Some (m\<lparr>holder := Some t\<rparr>)\<rparr>))"

text \<open>Dropping the guard; a panicking thread poisons the mutex.\<close>

definition drop_guard :: "bool \<Rightarrow> ('t, 'a) pin_mutex \<Rightarrow> ('t, 'a) pin_mutex" where
  "drop_guard panicking pm = pm\<lparr>mutex :=
     map_option (\<lambda>m. m\<lparr>holder := None, poisoned := poisoned m \<or> panicking\<rparr>) (mutex pm)\<rparr>"

text \<open>
  \<open>Debug\<close>: the data are printed, with the poison flag, only while the formatter holds the mutex; it does not block.
\<close>

datatype 'a shown = ShownData 'a bool | ShownLocked

definition pin_mutex_fmt :: "('t, 'a) pin_mutex \<Rightarrow> 'a shown \<times> ('t, 'a) pin_mutex" where
  "pin_mutex_fmt pm = (let m = get_or_init (mutex pm) in
     (if holder m \<noteq> None then ShownLocked else ShownData (guarded pm) (poisoned m), pm\<lparr>mutex := Some m\<rparr>))"

definition held_by :: "('t, 'a) pin_mutex \<Rightarrow> 't option" where
  "held_by pm = holder (get_or_init (mutex pm))"

definition is_poisoned :: "('t, 'a) pin_mutex \<Rightarrow> bool" where
  "is_poisoned pm = poisoned (get_or_init (mutex pm))"

lemma pin_mutex_new_simps [simp]:
  "held_by (pin_mutex_new x) = None" "\<not> is_poisoned (pin_mutex_new x)" "guarded (pin_mutex_new x) = x"
  by (simp_all add: pin_mutex_new_def held_by_def is_poisoned_def get_or_init_def)

lemma held_by_guarded [simp]: "held_by (pm\<lparr>guarded := x\<rparr>) = held_by pm" "is_poisoned (pm\<lparr>guarded := x\<rparr>) = is_poisoned pm"
  by (simp_all add: held_by_def is_poisoned_def)

lemma drop_guard_simps [simp]:
  "held_by (drop_guard b pm) = None"
  "is_poisoned (drop_guard b pm) \<longleftrightarrow> is_poisoned pm \<or> b \<and> mutex pm \<noteq> None"
  "guarded (drop_guard b pm) = guarded pm"
  by (auto simp: drop_guard_def held_by_def is_poisoned_def get_or_init_def split: option.splits)

lemma pin_mutex_fmt_simps [simp]:
  "held_by (snd (pin_mutex_fmt pm)) = held_by pm" "is_poisoned (snd (pin_mutex_fmt pm)) = is_poisoned pm"
  "guarded (snd (pin_mutex_fmt pm)) = guarded pm"
  "fst (pin_mutex_fmt pm) = (if held_by pm = None then ShownData (guarded pm) (is_poisoned pm) else ShownLocked)"
  by (auto simp: pin_mutex_fmt_def held_by_def is_poisoned_def get_or_init_def Let_def)

lemma pin_mutex_lock_cases:
  obtains (block) t' where "held_by pm = Some t'" "pin_mutex_lock t pm = WouldBlock"
  | (poison) pm' where "held_by pm = None" "is_poisoned pm" "pin_mutex_lock t pm = IsPoisoned pm'"
      "held_by pm' = None" "is_poisoned pm'" "guarded pm' = guarded pm"
  | (acquire) pm' where "held_by pm = None" "\<not> is_poisoned pm" "pin_mutex_lock t pm = Acquired pm'"
      "held_by pm' = Some t" "\<not> is_poisoned pm'" "guarded pm' = guarded pm" "mutex pm' \<noteq> None"
  by (cases "holder (get_or_init (mutex pm))"; cases "poisoned (get_or_init (mutex pm))")
    (auto simp: pin_mutex_lock_def held_by_def is_poisoned_def get_or_init_def Let_def)

section \<open>Calls\<close>

datatype ('l, 'i, 'pr) raw_call =
    RawLockRead "'i range" 'pr 'l
  | RawLockWrite "'i range" 'pr 'l
  | RawTryLockRead "'i range" 'l
  | RawTryLockWrite "'i range" 'l
  | RawUnlockRead 'l
  | RawUnlockWrite 'l
  | RawUnlockTryRead 'l
  | RawUnlockTryWrite 'l

end
