(* ===== verification/Raw_Sync.thy ===== *)
theory Raw_Sync
  imports Raw_Mutex
begin

text \<open>
  The blocking lock of \<open>src/raw/sync.rs\<close>, run by any number of threads.  A method is a sequence of atomic steps: the
  part under the mutex up to the callbacks, every store and unpark of a callback, every load and park of the waiting
  loop.  Only the holder of the mutex accesses the core, so the effects of a critical section on the
  core may be taken together.
\<close>

section \<open>State\<close>

text \<open>\<open>InProgress\<close>: \<open>complete\<close> is the address of a local variable of the waiting thread.\<close>

record ('f, 't) sync_in_progress =
  complete :: 'f
  waiter :: 't

datatype sync_result = Nothing | Answer bool

datatype sync_panic = CorePanic fault | PoisonedMutex | UnexpectedlyCancelled

text \<open>
  Where a thread is: outside of the methods, before the load or the \<open>park\<close> of the waiting loop, in an unlock
  method before storing into the flag of the first of the completed locks, or between this store and the \<open>unpark\<close>.
\<close>

datatype ('l, 'f, 't) control =
    Done sync_result
  | Loading 'l 'f
  | Parking 'l 'f
  | Storing "('f, 't) sync_in_progress option" "('f, 't) sync_in_progress list"
  | Unparking "('f, 't) sync_in_progress option" 't "('f, 't) sync_in_progress list"
  | Panicked sync_panic
  | DanglingPointer

text \<open>
  \<open>flags\<close> are the local variables \<open>complete\<close> that are alive, \<open>token\<close> the park tokens of the threads.
\<close>

record ('w, 'l, 'f, 't) sync_state =
  raw_core :: "('t, 'w) pin_mutex"
  flags :: "'f \<Rightarrow> bool option"
  token :: "'t \<Rightarrow> bool"
  control :: "'t \<Rightarrow> ('l, 'f, 't) control"

type_synonym ('w, 'l, 'i, 'pr, 'f, 't) sync_ops =
  "('w, 'l, 'i, 'pr, ('f, 't) sync_in_progress, bool, ('f, 't) sync_in_progress list) core_ops"

definition sync_init :: "('w, 'l, 'i, 'pr, 'f, 't) sync_ops \<Rightarrow> ('w, 'l, 'f, 't) sync_state" where
  "sync_init ops =
     \<lparr>raw_core = pin_mutex_new (op_init ops), flags = (\<lambda>_. None), token = (\<lambda>_. False), control = (\<lambda>_. Done Nothing)\<rparr>"

abbreviation goto :: "'t \<Rightarrow> ('l, 'f, 't) control \<Rightarrow> ('w, 'l, 'f, 't) sync_state \<Rightarrow> ('w, 'l, 'f, 't) sync_state" where
  "goto t k s \<equiv> s\<lparr>control := (control s)(t := k)\<rparr>"

section \<open>Methods\<close>

text \<open>
  \<open>borrow_core!\<close> and the call of a method of the core.  A panic of the core poisons the mutex.  Without result: the
  thread has to wait for the mutex.
\<close>

definition borrow_core ::
  "'t \<Rightarrow> ('w \<Rightarrow> fault + 'a) \<Rightarrow> (('t, 'w) pin_mutex \<Rightarrow> 'a \<Rightarrow> ('w, 'l, 'f, 't) sync_state) \<Rightarrow>
   ('w, 'l, 'f, 't) sync_state \<Rightarrow> ('w, 'l, 'f, 't) sync_state option" where
  "borrow_core t method continue s = (case pin_mutex_lock t (raw_core s) of
     WouldBlock \<Rightarrow> None
   | IsPoisoned m \<Rightarrow> Some (goto t (Panicked PoisonedMutex) (s\<lparr>raw_core := m\<rparr>))
   | Acquired m \<Rightarrow> Some (case method (guarded m) of
       Inl e \<Rightarrow> goto t (Panicked (CorePanic e)) (s\<lparr>raw_core := drop_guard True m\<rparr>)
     | Inr r \<Rightarrow> continue m r))"

text \<open>\<open>LockCallbackImpl\<close>\<close>

definition sync_lock_callback :: "'t \<Rightarrow> 'f \<Rightarrow> (bool, ('f, 't) sync_in_progress) lock_callback" where
  "sync_lock_callback current f =
     \<lparr>on_in_progress = (False, \<lparr>complete = f, waiter = current\<rparr>), on_complete = True\<rparr>"

text \<open>
  \<open>lock_read\<close> and \<open>lock_write\<close> up to the waiting loop.  \<open>f\<close> is the address of the new variable \<open>complete\<close>, which no
  other live variable has; it dies when the method returns.
\<close>

definition sync_lock ::
  "((bool, ('f, 't) sync_in_progress) lock_callback \<Rightarrow> 'w \<Rightarrow> fault + bool \<times> 'w) \<Rightarrow> 't \<Rightarrow> 'f \<Rightarrow> 'l \<Rightarrow>
   ('w, 'l, 'f, 't) sync_state \<Rightarrow> ('w, 'l, 'f, 't) sync_state option" where
  "sync_lock lock t f l s =
     (if flags s f \<noteq> None then None
      else borrow_core t (lock (sync_lock_callback t f))
        (\<lambda>m (completed, w).
          if completed then goto t (Done Nothing) (s\<lparr>raw_core := drop_guard False (m\<lparr>guarded := w\<rparr>)\<rparr>)
          else goto t (Loading l f) (s\<lparr>raw_core := drop_guard False (m\<lparr>guarded := w\<rparr>), flags := (flags s)(f \<mapsto> False)\<rparr>)) s)"

text \<open>\<open>while !complete.load(..) { park() }\<close>\<close>

definition sync_load :: "'t \<Rightarrow> ('w, 'l, 'f, 't) sync_state \<Rightarrow> ('w, 'l, 'f, 't) sync_state option" where
  "sync_load t s = (case control s t of
     Loading l f \<Rightarrow> Some (case flags s f of
         None \<Rightarrow> goto t DanglingPointer s
       | Some True \<Rightarrow> goto t (Done Nothing) (s\<lparr>flags := (flags s)(f := None)\<rparr>)
       | Some False \<Rightarrow> goto t (Parking l f) s)
   | _ \<Rightarrow> None)"

text \<open>\<open>park\<close> returns when there is a token; it may also return spuriously.\<close>

definition sync_park :: "bool \<Rightarrow> 't \<Rightarrow> ('w, 'l, 'f, 't) sync_state \<Rightarrow> ('w, 'l, 'f, 't) sync_state option" where
  "sync_park spurious t s = (case control s t of
     Parking l f \<Rightarrow>
       if spurious then Some (goto t (Loading l f) s)
       else if token s t then Some (goto t (Loading l f) (s\<lparr>token := (token s)(t := False)\<rparr>))
       else None
   | _ \<Rightarrow> None)"

text \<open>\<open>try_lock_read\<close> and \<open>try_lock_write\<close>\<close>

definition sync_try_lock ::
  "('w \<Rightarrow> fault + bool \<times> 'w) \<Rightarrow> 't \<Rightarrow> ('w, 'l, 'f, 't) sync_state \<Rightarrow> ('w, 'l, 'f, 't) sync_state option" where
  "sync_try_lock try_lock t s =
     borrow_core t try_lock
       (\<lambda>m (b, w). goto t (Done (Answer b)) (s\<lparr>raw_core := drop_guard False (m\<lparr>guarded := w\<rparr>)\<rparr>)) s"

text \<open>
  The unlock methods: the core reports the completed locks to \<open>UnlockCallbackImpl\<close>, which stores into the flag of each and
  unparks its thread, in this order and under the mutex.
\<close>

definition sync_unlock ::
  "('w \<times> ('f, 't) sync_in_progress list \<Rightarrow>
      fault + ('f, 't) sync_in_progress option \<times> 'w \<times> ('f, 't) sync_in_progress list) \<Rightarrow>
   't \<Rightarrow> ('w, 'l, 'f, 't) sync_state \<Rightarrow> ('w, 'l, 'f, 't) sync_state option" where
  "sync_unlock unlock t s =
     borrow_core t (\<lambda>w. unlock (w, []))
       (\<lambda>m (in_progress, w, log). goto t (Storing in_progress log) (s\<lparr>raw_core := m\<lparr>guarded := w\<rparr>\<rparr>)) s"

definition sync_store :: "'t \<Rightarrow> ('w, 'l, 'f, 't) sync_state \<Rightarrow> ('w, 'l, 'f, 't) sync_state option" where
  "sync_store t s = (case control s t of
     Storing r (ip # log) \<Rightarrow> Some (case flags s (complete ip) of
         None \<Rightarrow> goto t DanglingPointer s
       | Some _ \<Rightarrow> goto t (Unparking r (waiter ip) log) (s\<lparr>flags := (flags s)(complete ip \<mapsto> True)\<rparr>))
   | _ \<Rightarrow> None)"

definition sync_unpark :: "'t \<Rightarrow> ('w, 'l, 'f, 't) sync_state \<Rightarrow> ('w, 'l, 'f, 't) sync_state option" where
  "sync_unpark t s = (case control s t of
     Unparking r t' log \<Rightarrow> Some (goto t (Storing r log) (s\<lparr>token := (token s)(t' := True)\<rparr>))
   | _ \<Rightarrow> None)"

text \<open>The end of the unlock methods, with the \<open>debug_assert\<close> that no borrow was cancelled.\<close>

definition sync_leave :: "bool \<Rightarrow> 't \<Rightarrow> ('w, 'l, 'f, 't) sync_state \<Rightarrow> ('w, 'l, 'f, 't) sync_state option" where
  "sync_leave dbg t s = (case control s t of
     Storing r [] \<Rightarrow> Some (
       if dbg \<and> r \<noteq> None then goto t (Panicked UnexpectedlyCancelled) (s\<lparr>raw_core := drop_guard True (raw_core s)\<rparr>)
       else goto t (Done Nothing) (s\<lparr>raw_core := drop_guard False (raw_core s)\<rparr>))
   | _ \<Rightarrow> None)"

section \<open>Steps\<close>

datatype ('l, 'i, 'pr, 'f) sync_action =
    Enter "('l, 'i, 'pr) raw_call" 'f
  | Load | Park | SpuriousWakeup | Store | Unpark | Leave

text \<open>The methods, each up to its first pause.\<close>

definition sync_lock_read where
  "sync_lock_read ops r prio l t f = sync_lock (op_lock_read ops r prio l) t f l"

definition sync_lock_write where
  "sync_lock_write ops r prio l t f = sync_lock (op_lock_write ops r prio l) t f l"

definition sync_try_lock_read where
  "sync_try_lock_read ops r l t = sync_try_lock (op_try_lock_read ops r l) t"

definition sync_try_lock_write where
  "sync_try_lock_write ops r l t = sync_try_lock (op_try_lock_write ops r l) t"

definition sync_unlock_read where
  "sync_unlock_read ops l t = sync_unlock (op_unlock_read ops l collect) t"

definition sync_unlock_write where
  "sync_unlock_write ops l t = sync_unlock (op_unlock_write ops l collect) t"

definition sync_unlock_try_read where
  "sync_unlock_try_read ops l t = sync_unlock (map_sum id (Pair None) \<circ> op_unlock_try_read ops l collect) t"

definition sync_unlock_try_write where
  "sync_unlock_try_write ops l t = sync_unlock (map_sum id (Pair None) \<circ> op_unlock_try_write ops l collect) t"

lemmas sync_methods [simp] =
  sync_lock_read_def sync_lock_write_def sync_try_lock_read_def sync_try_lock_write_def
  sync_unlock_read_def sync_unlock_write_def sync_unlock_try_read_def sync_unlock_try_write_def

fun sync_enter ::
  "('w, 'l, 'i, 'pr, 'f, 't) sync_ops \<Rightarrow> 't \<Rightarrow> 'f \<Rightarrow> ('l, 'i, 'pr) raw_call \<Rightarrow>
   ('w, 'l, 'f, 't) sync_state \<Rightarrow> ('w, 'l, 'f, 't) sync_state option" where
  "sync_enter ops t f (RawLockRead r prio l) = sync_lock_read ops r prio l t f"
| "sync_enter ops t f (RawLockWrite r prio l) = sync_lock_write ops r prio l t f"
| "sync_enter ops t f (RawTryLockRead r l) = sync_try_lock_read ops r l t"
| "sync_enter ops t f (RawTryLockWrite r l) = sync_try_lock_write ops r l t"
| "sync_enter ops t f (RawUnlockRead l) = sync_unlock_read ops l t"
| "sync_enter ops t f (RawUnlockWrite l) = sync_unlock_write ops l t"
| "sync_enter ops t f (RawUnlockTryRead l) = sync_unlock_try_read ops l t"
| "sync_enter ops t f (RawUnlockTryWrite l) = sync_unlock_try_write ops l t"

fun is_done :: "('l, 'f, 't) control \<Rightarrow> bool" where
  "is_done (Done _) = True"
| "is_done _ = False"

fun sync_step ::
  "bool \<Rightarrow> ('w, 'l, 'i, 'pr, 'f, 't) sync_ops \<Rightarrow> 't \<Rightarrow> ('l, 'i, 'pr, 'f) sync_action \<Rightarrow>
   ('w, 'l, 'f, 't) sync_state \<Rightarrow> ('w, 'l, 'f, 't) sync_state option" where
  "sync_step dbg ops t (Enter call f) s = (if is_done (control s t) then sync_enter ops t f call s else None)"
| "sync_step dbg ops t Load s = sync_load t s"
| "sync_step dbg ops t Park s = sync_park False t s"
| "sync_step dbg ops t SpuriousWakeup s = sync_park True t s"
| "sync_step dbg ops t Store s = sync_store t s"
| "sync_step dbg ops t Unpark s = sync_unpark t s"
| "sync_step dbg ops t Leave s = sync_leave dbg t s"

text \<open>What a client may call: its lock states are exclusive, so no other thread is in a method with this one.\<close>

fun waiting_for :: "('l, 'f, 't) control \<Rightarrow> ('l \<times> 'f) option" where
  "waiting_for (Loading l f) = Some (l, f)"
| "waiting_for (Parking l f) = Some (l, f)"
| "waiting_for _ = None"

definition guard_of :: "('w \<Rightarrow> 'l \<Rightarrow> 'i asking option) \<Rightarrow> ('w, 'l, 'f, 't) sync_state \<Rightarrow> 'l \<Rightarrow> 'i asking option" where
  "guard_of req s l =
     (if \<exists>t f. waiting_for (control s t) = Some (l, f) then None else req (guarded (raw_core s)) l)"

fun sync_allowed ::
  "nat \<Rightarrow> ('w \<Rightarrow> 'l \<Rightarrow> bool) \<Rightarrow> ('w \<Rightarrow> 'l \<Rightarrow> 'i::ord asking option) \<Rightarrow> ('w, 'l, 'f, 't) sync_state \<Rightarrow>
   ('l, 'i, 'pr) raw_call \<Rightarrow> bool" where
  "sync_allowed limit free req s (RawLockRead r prio l) \<longleftrightarrow>
     rng_start r < rng_end r \<and> free (guarded (raw_core s)) l \<and> card {l. req (guarded (raw_core s)) l \<noteq> None} < limit"
| "sync_allowed limit free req s (RawLockWrite r prio l) \<longleftrightarrow>
     rng_start r < rng_end r \<and> free (guarded (raw_core s)) l \<and> card {l. req (guarded (raw_core s)) l \<noteq> None} < limit"
| "sync_allowed limit free req s (RawTryLockRead r l) \<longleftrightarrow>
     rng_start r < rng_end r \<and> free (guarded (raw_core s)) l \<and> card {l. req (guarded (raw_core s)) l \<noteq> None} < limit"
| "sync_allowed limit free req s (RawTryLockWrite r l) \<longleftrightarrow>
     rng_start r < rng_end r \<and> free (guarded (raw_core s)) l \<and> card {l. req (guarded (raw_core s)) l \<noteq> None} < limit"
| "sync_allowed limit free req s (RawUnlockRead l) \<longleftrightarrow> (\<exists>x y. guard_of req s l = Some (False, x, y))"
| "sync_allowed limit free req s (RawUnlockWrite l) \<longleftrightarrow> (\<exists>x y. guard_of req s l = Some (True, x, y))"
| "sync_allowed limit free req s (RawUnlockTryRead l) \<longleftrightarrow> (\<exists>x y. guard_of req s l = Some (False, x, y))"
| "sync_allowed limit free req s (RawUnlockTryWrite l) \<longleftrightarrow> (\<exists>x y. guard_of req s l = Some (True, x, y))"

text \<open>The states that threads which keep to this reach, in any interleaving.\<close>

inductive sync_reachable ::
  "bool \<Rightarrow> ('w, 'l, 'i::ord, 'pr, 'f, 't) sync_ops \<Rightarrow> nat \<Rightarrow> ('w \<Rightarrow> 'l \<Rightarrow> bool) \<Rightarrow> ('w \<Rightarrow> 'l \<Rightarrow> 'i asking option) \<Rightarrow>
   ('w, 'l, 'f, 't) sync_state \<Rightarrow> bool"
  for dbg :: bool and ops :: "('w, 'l, 'i, 'pr, 'f, 't) sync_ops" and limit :: nat
    and free :: "'w \<Rightarrow> 'l \<Rightarrow> bool" and req :: "'w \<Rightarrow> 'l \<Rightarrow> 'i asking option" where
  start: "sync_reachable dbg ops limit free req (sync_init ops)"
| enter: "sync_reachable dbg ops limit free req s \<Longrightarrow> sync_allowed limit free req s call \<Longrightarrow>
    sync_step dbg ops t (Enter call f) s = Some s' \<Longrightarrow> sync_reachable dbg ops limit free req s'"
| step: "sync_reachable dbg ops limit free req s \<Longrightarrow> (\<And>call f. a \<noteq> Enter call f) \<Longrightarrow>
    sync_step dbg ops t a s = Some s' \<Longrightarrow> sync_reachable dbg ops limit free req s'"

end
