(* ===== verification/Raw_Sync_Inv.thy ===== *)
theory Raw_Sync_Inv
  imports Raw_Sync
begin

text \<open>
  The invariant of the blocking lock, for any core that keeps the contract of \<open>IntervalRwLockCore\<close>.
\<close>

section \<open>The invariant\<close>

abbreviation core_of :: "('w, 'l, 'f, 't) sync_state \<Rightarrow> 'w" where
  "core_of s \<equiv> guarded (raw_core s)"

abbreviation object :: "'f \<Rightarrow> 't \<Rightarrow> ('f, 't) sync_in_progress" where
  "object f t \<equiv> \<lparr>complete = f, waiter = t\<rparr>"

fun to_notify :: "('l, 'f, 't) control \<Rightarrow> ('f, 't) sync_in_progress list option" where
  "to_notify (Storing r log) = Some log"
| "to_notify (Unparking r t log) = Some log"
| "to_notify _ = None"

fun sane :: "('l, 'f, 't) control \<Rightarrow> bool" where
  "sane (Storing r log) \<longleftrightarrow> r = None"
| "sane (Unparking r t log) \<longleftrightarrow> r = None"
| "sane (Panicked e) \<longleftrightarrow> False"
| "sane DanglingPointer \<longleftrightarrow> False"
| "sane _ \<longleftrightarrow> True"

definition notifying :: "('t \<Rightarrow> ('l, 'f, 't) control) \<Rightarrow> ('f, 't) sync_in_progress \<Rightarrow> bool" where
  "notifying c ip \<longleftrightarrow> (\<exists>t log. to_notify (c t) = Some log \<and> ip \<in> set log)"

definition unparking :: "('t \<Rightarrow> ('l, 'f, 't) control) \<Rightarrow> 't \<Rightarrow> bool" where
  "unparking c t \<longleftrightarrow> (\<exists>t' r log. c t' = Unparking r t log)"

text \<open>
  A thread in the waiting loop: its lock is pending, or the holder of the mutex has still to tell it, or has told it.
\<close>

definition waiter_ok where
  "waiter_ok wts fl c t l f \<longleftrightarrow>
     wts l = Some (object f t) \<and> fl f = Some False \<or>
     wts l = None \<and> notifying c (object f t) \<and> fl f = Some False \<or>
     wts l = None \<and> fl f = Some True"

definition controls_ok where
  "controls_ok rq wts fl tok c hold \<longleftrightarrow>
     (\<forall>t. sane (c t)) \<and>
     (\<forall>t. to_notify (c t) \<noteq> None \<longleftrightarrow> hold = Some t) \<and>
     (\<forall>t l f. waiting_for (c t) = Some (l, f) \<longrightarrow> rq l \<noteq> None \<and> waiter_ok wts fl c t l f) \<and>
     (\<forall>l ip. wts l = Some ip \<longrightarrow> waiting_for (c (waiter ip)) = Some (l, complete ip)) \<and>
     (\<forall>t t' l l' f f'. waiting_for (c t) = Some (l, f) \<longrightarrow> waiting_for (c t') = Some (l', f') \<longrightarrow>
        l = l' \<or> f = f' \<longrightarrow> t = t') \<and>
     (\<forall>t log ip. to_notify (c t) = Some log \<longrightarrow> distinct log \<and> (ip \<in> set log \<longrightarrow>
        fl (complete ip) = Some False \<and> (\<exists>l. waiting_for (c (waiter ip)) = Some (l, complete ip) \<and> wts l = None))) \<and>
     (\<forall>t l f. c t = Parking l f \<longrightarrow> fl f = Some True \<longrightarrow> tok t \<or> unparking c t)"

definition sync_inv where
  "sync_inv ok req waits s \<longleftrightarrow> ok (core_of s) \<and> \<not> is_poisoned (raw_core s) \<and>
     (held_by (raw_core s) \<noteq> None \<longrightarrow> mutex (raw_core s) \<noteq> None) \<and>
     controls_ok (req (core_of s)) (waits (core_of s)) (flags s) (token s) (control s) (held_by (raw_core s))"

lemma controls_okD:
  assumes "controls_ok rq wts fl tok c hold"
  shows "sane (c t)" "to_notify (c t) \<noteq> None \<longleftrightarrow> hold = Some t"
    "waiting_for (c t) = Some (l, f) \<Longrightarrow> rq l \<noteq> None \<and> waiter_ok wts fl c t l f"
    "wts l = Some ip \<Longrightarrow> waiting_for (c (waiter ip)) = Some (l, complete ip)"
    "waiting_for (c t) = Some (l, f) \<Longrightarrow> waiting_for (c t') = Some (l', f') \<Longrightarrow> l = l' \<or> f = f' \<Longrightarrow> t = t'"
    "to_notify (c t) = Some log \<Longrightarrow> distinct log"
    "to_notify (c t) = Some log \<Longrightarrow> ip \<in> set log \<Longrightarrow> fl (complete ip) = Some False"
    "to_notify (c t) = Some log \<Longrightarrow> ip \<in> set log \<Longrightarrow> \<exists>l. waiting_for (c (waiter ip)) = Some (l, complete ip) \<and> wts l = None"
    "c t = Parking l f \<Longrightarrow> fl f = Some True \<Longrightarrow> tok t \<or> unparking c t"
  using assms unfolding controls_ok_def by blast+

lemma waiting_for_Some: "waiting_for k = Some (l, f) \<longleftrightarrow> k = Loading l f \<or> k = Parking l f"
  by (cases k) auto

lemma to_notify_Some: "to_notify k = Some log \<longleftrightarrow> (\<exists>r. k = Storing r log) \<or> (\<exists>r t. k = Unparking r t log)"
  by (cases k) auto

text \<open>Where a thread that is not notifying goes is of no concern to the notifications.\<close>

lemma notifying_update:
  "to_notify (c t) = None \<Longrightarrow> to_notify k = None \<Longrightarrow> notifying (c(t := k)) = notifying c"
  unfolding notifying_def fun_eq_iff by (metis fun_upd_apply option.distinct(1))

lemma unparking_update:
  "(\<And>r t' log. c t \<noteq> Unparking r t' log) \<Longrightarrow> (\<And>r t' log. k \<noteq> Unparking r t' log) \<Longrightarrow> unparking (c(t := k)) = unparking c"
  unfolding unparking_def fun_eq_iff by (metis fun_upd_apply)

section \<open>The waiting loop\<close>

lemma load_done_ok:
  assumes ok: "controls_ok rq wts fl tok c hold" and t: "waiting_for (c t) = Some (l, f)" and f: "fl f = Some True"
  shows "controls_ok rq wts (fl(f := None)) tok (c(t := Done r)) hold"
proof -
  note I = controls_okD [OF ok]
  have tn: "to_notify (c t) = None" using t by (cases "c t") auto
  then have h: "hold \<noteq> Some t" using I(2) [of t] by simp
  have n: "notifying (c(t := Done r)) = notifying c" using tn by (simp add: notifying_update)
  have u: "unparking (c(t := Done r)) = unparking c" using tn by (intro unparking_update) auto
  have other: "f' \<noteq> f" if "waiting_for (c t') = Some (l', f')" "t' \<noteq> t" for t' l' f' using I(5) [OF t that(1)] that(2) by blast
  have nf: "complete ip \<noteq> f" if "to_notify (c t') = Some log" "ip \<in> set log" for t' log ip using I(7) [OF that] f by auto
  have wn: "waiter ip \<noteq> t" if "wts l' = Some ip" for l' ip
    using I(4) [OF that] I(3) [OF t] t f that by (auto simp: waiter_ok_def)
  have nn: "waiter ip \<noteq> t" if "to_notify (c t') = Some log" "ip \<in> set log" for t' log ip
    using I(8) [OF that] nf [OF that] t by auto
  show ?thesis
    unfolding controls_ok_def waiter_ok_def n u
  proof (intro conjI allI impI)
    fix t' l' f' assume "waiting_for ((c(t := Done r)) t') = Some (l', f')"
    then have w: "waiting_for (c t') = Some (l', f')" "t' \<noteq> t" by (auto split: if_splits)
    from I(3) [OF w(1)] other [OF w] show
      "wts l' = Some (object f' t') \<and> (fl(f := None)) f' = Some False \<or>
       wts l' = None \<and> notifying c (object f' t') \<and> (fl(f := None)) f' = Some False \<or>
       wts l' = None \<and> (fl(f := None)) f' = Some True" "rq l' \<noteq> None"
      by (auto simp: waiter_ok_def)
  qed (use I tn h wn nn nf other in \<open>auto split: if_splits\<close>)
qed

lemma loop_ok:
  assumes ok: "controls_ok rq wts fl tok c hold" and t: "waiting_for (c t) = Some (l, f)" "waiting_for k = Some (l, f)"
    and park: "k = Parking l f \<Longrightarrow> fl f = Some False" and tok: "\<And>t'. t' \<noteq> t \<Longrightarrow> tok' t' = tok t'"
  shows "controls_ok rq wts fl tok' (c(t := k)) hold"
proof -
  note I = controls_okD [OF ok]
  have tn: "to_notify (c t) = None" "to_notify k = None" "sane k" using t by (auto simp: waiting_for_Some)
  have n: "notifying (c(t := k)) = notifying c" using tn by (simp add: notifying_update)
  have u: "unparking (c(t := k)) = unparking c" using tn by (intro unparking_update) auto
  have w: "waiting_for ((c(t := k)) t') = waiting_for (c t')" for t' using t by simp
  have tn': "to_notify ((c(t := k)) t') = to_notify (c t')" for t' using tn by simp
  have p: False if "fl f' = Some True" "k = Parking l' f'" for l' f' using park t(2) that by auto
  show ?thesis
    unfolding controls_ok_def waiter_ok_def n u w tn'
  proof (intro conjI allI impI)
    fix t' l' f' assume "(c(t := k)) t' = Parking l' f'" "fl f' = Some True"
    with I(9) [of t' l' f'] p [of f' l'] tok [of t'] show "tok' t' \<or> unparking c t'" by (cases "t' = t") simp_all
  qed (use I tn in \<open>auto simp: waiter_ok_def split: if_splits\<close>)
qed

section \<open>Critical sections\<close>

lemma not_waiting_free:
  assumes "controls_ok rq wts fl tok c hold" "rq l = None"
  shows "waiting_for (c t) \<noteq> Some (l, f)" "wts l = None"
  using controls_okD(3,4) [OF assms(1)] assms(2) by (metis not_None_eq)+

text \<open>A thread that neither waits nor notifies goes on as one; the core may have granted a request.\<close>

lemma grant_ok:
  assumes ok: "controls_ok rq wts fl tok c None" and t: "is_done (c t)" and l: "\<And>k. rq k \<noteq> None \<Longrightarrow> rq' k \<noteq> None"
  shows "controls_ok rq' wts fl tok (c(t := Done r)) None"
proof -
  note I = controls_okD [OF ok]
  have tn: "to_notify (c t) = None" "waiting_for (c t) = None" using t by (cases "c t"; simp)+
  have n: "notifying (c(t := Done r)) = notifying c" using tn by (simp add: notifying_update)
  have u: "unparking (c(t := Done r)) = unparking c" using tn by (intro unparking_update) auto
  have w: "waiting_for ((c(t := Done r)) t') = waiting_for (c t')" for t' using tn by simp
  have tn': "to_notify ((c(t := Done r)) t') = to_notify (c t')" for t' using tn by simp
  show ?thesis
    unfolding controls_ok_def waiter_ok_def n u w tn'
    by (intro conjI allI impI) (use I l in \<open>auto simp: waiter_ok_def split: if_splits\<close>)
qed

lemma block_ok:
  assumes ok: "controls_ok rq wts fl tok c None" and t: "is_done (c t)" and l: "rq l = None" and f: "fl f = None"
  shows "controls_ok (rq(l \<mapsto> a)) (wts(l \<mapsto> object f t)) (fl(f \<mapsto> False)) tok (c(t := Loading l f)) None"
proof -
  note I = controls_okD [OF ok]
  let ?c = "c(t := Loading l f)"
  have tn: "to_notify (c t) = None" "waiting_for (c t) = None" using t by (cases "c t"; simp)+
  have n: "notifying ?c = notifying c" using tn by (simp add: notifying_update)
  have u: "unparking ?c = unparking c" using tn by (intro unparking_update) auto
  have none: "to_notify (c t') = None" for t' using I(2) [of t'] by simp
  have tn': "to_notify (?c t') = None" for t' using none by simp
  have w: "waiting_for (?c t') = Some (l', f') \<longleftrightarrow> t' = t \<and> l' = l \<and> f' = f \<or> waiting_for (c t') = Some (l', f')" for t' l' f'
    using tn by auto
  have nl: "l' \<noteq> l" "f' \<noteq> f" if "waiting_for (c t') = Some (l', f')" for t' l' f'
    using not_waiting_free [OF ok l] I(3) [OF that] that f by (auto simp: waiter_ok_def)
  show ?thesis
    unfolding controls_ok_def waiter_ok_def n u w tn'
  proof (intro conjI allI impI)
    fix t' l' f' assume "t' = t \<and> l' = l \<and> f' = f \<or> waiting_for (c t') = Some (l', f')"
    then show "(wts(l \<mapsto> object f t)) l' = Some (object f' t') \<and> (fl(f \<mapsto> False)) f' = Some False \<or>
        (wts(l \<mapsto> object f t)) l' = None \<and> notifying c (object f' t') \<and> (fl(f \<mapsto> False)) f' = Some False \<or>
        (wts(l \<mapsto> object f t)) l' = None \<and> (fl(f \<mapsto> False)) f' = Some True"
      using I(3) [of t' l' f'] nl [of t' l' f'] by (auto simp: waiter_ok_def)
  next
    fix l' ip assume "(wts(l \<mapsto> object f t)) l' = Some ip"
    then show "waiter ip = t \<and> l' = l \<and> complete ip = f \<or> waiting_for (c (waiter ip)) = Some (l', complete ip)"
      using I(4) by (auto split: if_splits)
  next
    fix t' t'' l' l'' f' f''
    assume "t' = t \<and> l' = l \<and> f' = f \<or> waiting_for (c t') = Some (l', f')"
      "t'' = t \<and> l'' = l \<and> f'' = f \<or> waiting_for (c t'') = Some (l'', f'')" "l' = l'' \<or> f' = f''"
    then show "t' = t''" using nl I(5) by metis
  next
    fix t' l' f' assume "(c(t := Loading l f)) t' = Parking l' f'" "(fl(f \<mapsto> False)) f' = Some True"
    then show "tok t' \<or> unparking c t'" using I(9) by (auto split: if_splits)
  qed (use I nl in \<open>auto split: if_splits\<close>)
qed

section \<open>Unlocking\<close>

lemma unlock_ok:
  assumes ok: "controls_ok rq wts fl tok c None" and t: "is_done (c t)"
    and l: "\<And>t' f. waiting_for (c t') \<noteq> Some (l, f)" and log: "distinct log" "set log = {k. k \<noteq> l \<and> wts k \<noteq> None \<and> wts' k = None}"
    and wts': "wts' l = None" "\<And>k. wts' k \<noteq> None \<Longrightarrow> wts' k = wts k"
  shows "controls_ok (rq(l := None)) wts' fl tok (c(t := Storing None (map (\<lambda>k. the (wts k)) log))) (Some t)"
proof -
  note I = controls_okD [OF ok]
  let ?log = "map (\<lambda>k. the (wts k)) log"
  let ?c = "c(t := Storing None ?log)"
  have tn: "waiting_for (c t) = None" using t by (cases "c t"; simp)
  have none: "to_notify (c t') = None" for t' using I(2) [of t'] by simp
  have nn: "\<not> notifying c ip" for ip by (simp add: notifying_def none)
  have nu: "\<not> unparking c t'" for t' unfolding unparking_def using none by (metis option.distinct(1) to_notify.simps(2))
  have n: "notifying ?c ip \<longleftrightarrow> ip \<in> set ?log" for ip using none by (auto simp: notifying_def split: if_splits)
  have w: "waiting_for (?c t') = waiting_for (c t')" for t' using tn by simp
  have tn': "to_notify (?c t') = (if t' = t then Some ?log else None)" for t' using none by simp
  have entry: "fl (complete ip) = Some False \<and> (\<exists>k. waiting_for (c (waiter ip)) = Some (k, complete ip) \<and> wts' k = None)"
    if "ip \<in> set ?log" for ip
  proof -
    from that log(2) obtain k where k: "wts k = Some ip" "wts' k = None" by auto
    from I(4) [OF k(1)] I(3) [OF I(4) [OF k(1)]] k show ?thesis by (auto simp: waiter_ok_def)
  qed
  have dist: "distinct ?log"
  proof -
    have "inj_on (\<lambda>k. the (wts k)) (set log)"
    proof (rule inj_onI)
      fix k k' assume "k \<in> set log" "k' \<in> set log" "the (wts k) = the (wts k')"
      then obtain ip where "wts k = Some ip" "wts k' = Some ip" using log(2) by auto
      from I(4) [OF this(1)] I(4) [OF this(2)] show "k = k'" by simp
    qed
    then show ?thesis using log(1) by (simp add: distinct_map)
  qed
  show ?thesis
    unfolding controls_ok_def waiter_ok_def w n tn'
  proof (intro conjI allI impI)
    fix t' k f assume wt: "waiting_for (c t') = Some (k, f)"
    with l have kl: "k \<noteq> l" by blast
    from I(3) [OF wt] kl show "(rq(l := None)) k \<noteq> None" by simp
    from I(3) [OF wt] have "wts k = Some (object f t') \<and> fl f = Some False \<or> wts k = None \<and> fl f = Some True"
      using nn by (auto simp: waiter_ok_def)
    then show "wts' k = Some (object f t') \<and> fl f = Some False \<or>
       wts' k = None \<and> object f t' \<in> set ?log \<and> fl f = Some False \<or> wts' k = None \<and> fl f = Some True"
    proof
      assume a: "wts k = Some (object f t') \<and> fl f = Some False"
      show ?thesis
      proof (cases "wts' k = None")
        case True
        with a kl log(2) have "k \<in> set log" by simp
        then have "the (wts k) \<in> set ?log" by simp
        with a True show ?thesis by simp
      next
        case False
        with wts'(2) a show ?thesis by simp
      qed
    next
      assume "wts k = None \<and> fl f = Some True"
      with wts'(2) [of k] show ?thesis by (cases "wts' k") auto
    qed
  next
    fix k ip assume "wts' k = Some ip"
    with wts'(2) [of k] have "wts k = Some ip" by simp
    from I(4) [OF this] show "waiting_for (c (waiter ip)) = Some (k, complete ip)" .
  next
    fix t' k f assume "?c t' = Parking k f" "fl f = Some True"
    with I(9) [of t' k f] nu show "tok t' \<or> unparking ?c t'" by (auto split: if_splits)
  qed (use I dist entry in \<open>auto split: if_splits\<close>)
qed

lemma notifier_alone:
  assumes ok: "controls_ok rq wts fl tok c hold" and t: "to_notify (c t) = Some log"
  shows "hold = Some t" "to_notify (c t') \<noteq> None \<longleftrightarrow> t' = t"
    "notifying c ip \<longleftrightarrow> ip \<in> set log" "waiting_for (c t) = None"
proof -
  from controls_okD(2) [OF ok, of t] t show h: "hold = Some t" by simp
  from controls_okD(2) [OF ok] h show n: "to_notify (c t') \<noteq> None \<longleftrightarrow> t' = t" for t' by auto
  show "notifying c ip \<longleftrightarrow> ip \<in> set log"
    unfolding notifying_def using n t by (metis not_None_eq option.inject)
  show "waiting_for (c t) = None" using t by (cases "c t") auto
qed

lemma store_ok:
  assumes ok: "controls_ok rq wts fl tok c hold" and t: "c t = Storing r (ip # log)"
  shows "controls_ok rq wts (fl(complete ip \<mapsto> True)) tok (c(t := Unparking r (waiter ip) log)) hold"
    and "fl (complete ip) = Some False"
proof -
  note I = controls_okD [OF ok]
  have tn: "to_notify (c t) = Some (ip # log)" using t by simp
  note A = notifier_alone [OF ok tn]
  show fl: "fl (complete ip) = Some False" using I(7) [OF tn] by simp
  let ?c = "c(t := Unparking r (waiter ip) log)"
  have w: "waiting_for (?c t') = waiting_for (c t')" for t' using t by simp
  have tn': "to_notify (?c t') = (if t' = t then Some log else None)" for t' using A(2) [of t'] by auto
  have n: "notifying ?c ip' \<longleftrightarrow> ip' \<in> set log" for ip' unfolding notifying_def tn' by simp
  have u: "unparking ?c (waiter ip)" unfolding unparking_def by (metis fun_upd_same)
  have nu: "\<not> unparking c t'" for t'
  proof
    assume "unparking c t'"
    then obtain t'' r' log' where u: "c t'' = Unparking r' t' log'" by (auto simp: unparking_def)
    with A(2) [of t''] t show False by auto
  qed
  from I(8) [OF tn] obtain l where l: "waiting_for (c (waiter ip)) = Some (l, complete ip)" "wts l = None" by auto
  have d: "distinct (ip # log)" using I(6) [OF tn] .
  have other: "complete ip' \<noteq> complete ip" if "ip' \<in> set log" for ip'
  proof
    assume e: "complete ip' = complete ip"
    from I(8) [OF tn] that obtain l' where "waiting_for (c (waiter ip')) = Some (l', complete ip')" by auto
    from I(5) [OF this l(1)] e have "waiter ip' = waiter ip" by simp
    with e that d show False by (metis distinct.simps(2) sync_in_progress.equality unit.exhaust)
  qed
  show "controls_ok rq wts (fl(complete ip \<mapsto> True)) tok ?c hold"
    unfolding controls_ok_def waiter_ok_def w n tn'
  proof (intro conjI allI impI)
    fix t' l' f' assume wt: "waiting_for (c t') = Some (l', f')"
    then show "rq l' \<noteq> None" using I(3) by blast
    show "wts l' = Some (object f' t') \<and> (fl(complete ip \<mapsto> True)) f' = Some False \<or>
        wts l' = None \<and> object f' t' \<in> set log \<and> (fl(complete ip \<mapsto> True)) f' = Some False \<or>
        wts l' = None \<and> (fl(complete ip \<mapsto> True)) f' = Some True"
    proof (cases "f' = complete ip")
      case True
      with I(5) [OF wt l(1)] have "t' = waiter ip" by simp
      with wt l True show ?thesis by simp
    next
      case False
      then have "object f' t' \<noteq> ip" by auto
      with False I(3) [OF wt] show ?thesis unfolding waiter_ok_def A(3) by auto
    qed
  next
    fix t' l' f' assume p: "?c t' = Parking l' f'" "(fl(complete ip \<mapsto> True)) f' = Some True"
    then have c: "c t' = Parking l' f'" by (auto split: if_splits)
    show "tok t' \<or> unparking ?c t'"
    proof (cases "f' = complete ip")
      case True
      from I(5) [OF _ l(1), of t' l' f'] c True have "t' = waiter ip" by simp
      with u show ?thesis by simp
    next
      case False
      with I(9) [OF c] p(2) nu show ?thesis by simp
    qed
  next
    fix t' show "sane (?c t')" using I(1) [of t'] I(1) [of t] t by simp
  next
    fix t' show "((if t' = t then Some log else None) \<noteq> None) = (hold = Some t')" using A(1) by auto
  qed (use I d other tn in \<open>auto split: if_splits\<close>)
qed

lemma unpark_ok:
  assumes ok: "controls_ok rq wts fl tok c hold" and t: "c t = Unparking r t0 log"
  shows "controls_ok rq wts fl (tok(t0 := True)) (c(t := Storing r log)) hold"
proof -
  note I = controls_okD [OF ok]
  have tn: "to_notify (c t) = Some log" using t by simp
  note A = notifier_alone [OF ok tn]
  let ?c = "c(t := Storing r log)"
  have w: "waiting_for (?c t') = waiting_for (c t')" for t' using t by simp
  have tn': "to_notify (?c t') = to_notify (c t')" for t' using t by simp
  have n: "notifying ?c = notifying c" unfolding notifying_def tn' ..
  have u: "t' = t0" if "unparking c t'" for t'
  proof -
    from that obtain t'' r' log' where u: "c t'' = Unparking r' t' log'" by (auto simp: unparking_def)
    with A(2) [of t''] have "t'' = t" by auto
    with u t show ?thesis by simp
  qed
  show ?thesis
    unfolding controls_ok_def waiter_ok_def w n tn'
  proof (intro conjI allI impI)
    fix t' l f assume p: "?c t' = Parking l f" "fl f = Some True"
    then have "c t' = Parking l f" by (auto split: if_splits)
    from I(9) [OF this p(2)] u show "(tok(t0 := True)) t' \<or> unparking ?c t'" by auto
  next
    fix t' show "sane (?c t')" using I(1) [of t'] I(1) [of t] t by simp
  qed (use I in \<open>auto simp: waiter_ok_def\<close>)
qed

lemma leave_ok:
  assumes ok: "controls_ok rq wts fl tok c hold" and t: "c t = Storing r []"
  shows "controls_ok rq wts fl tok (c(t := Done x)) None"
proof -
  note I = controls_okD [OF ok]
  have tn: "to_notify (c t) = Some []" using t by simp
  note A = notifier_alone [OF ok tn]
  let ?c = "c(t := Done x)"
  have w: "waiting_for (?c t') = waiting_for (c t')" for t' using t by simp
  have tn': "to_notify (?c t') = None" for t' using A(2) [of t'] by auto
  have n: "\<not> notifying ?c ip" "\<not> notifying c ip" for ip using tn' A(3) by (simp_all add: notifying_def)
  have u: "unparking ?c = unparking c" using t by (intro unparking_update) auto
  show ?thesis
    unfolding controls_ok_def waiter_ok_def w tn' u
    by (intro conjI allI impI) (use I n in \<open>auto simp: waiter_ok_def split: if_splits\<close>)
qed

section \<open>All steps\<close>

locale sync_core = interval_rw_lock_core ops limit ok free req waits
  for ops :: "('w, 'l, 'i::linorder, 'pr, 'f, 't) sync_ops" and limit ok free req waits
begin

abbreviation "good_state \<equiv> sync_inv ok req waits"

lemma invD:
  assumes "good_state s"
  shows "ok (core_of s)" "\<not> is_poisoned (raw_core s)" "held_by (raw_core s) \<noteq> None \<Longrightarrow> mutex (raw_core s) \<noteq> None"
    "controls_ok (req (core_of s)) (waits (core_of s)) (flags s) (token s) (control s) (held_by (raw_core s))"
  using assms unfolding sync_inv_def by blast+

lemma inv_init: "good_state (sync_init ops)"
proof -
  have "waits (op_init ops) l = None" for l
    using waits_req [OF init_ok, of l] free_req [OF init_ok, of l] init_free by (cases "waits (op_init ops) l") auto
  then show ?thesis
    using init_ok by (auto simp: sync_inv_def sync_init_def controls_ok_def)
qed

text \<open>A critical section starts with a free mutex; the core's method does not fail.\<close>

lemma borrow_coreE:
  assumes "good_state s" and "borrow_core t method continue s = Some s'" and "method (core_of s) = Inr r"
  obtains m where "held_by (raw_core s) = None" "held_by m = Some t" "\<not> is_poisoned m" "guarded m = core_of s"
    "mutex m \<noteq> None" "s' = continue m r"
  using assms(2,3) invD(2) [OF assms(1)]
  by (cases rule: pin_mutex_lock_cases [of "raw_core s" t]) (auto simp: borrow_core_def)

lemma sync_lock_inv:
  assumes inv: "good_state s" and t: "is_done (control s t)" and step: "sync_lock lock t f l s = Some s'" and fr: "free (core_of s) l"
    and law: "lock_law ok free req waits l a (sync_lock_callback t f) (core_of s) (lock (sync_lock_callback t f) (core_of s))"
  shows "good_state s'"
proof -
  note I = invD [OF inv]
  from law obtain w' d where
    1: "lock (sync_lock_callback t f) (core_of s) = Inr (d, w')" "ok w'" "req w' = (req (core_of s))(l \<mapsto> a)"
    "waits w' = (waits (core_of s))(l := if d then None else Some (object f t))"
    unfolding lock_law_def by (auto simp: sync_lock_callback_def split: if_splits)
  from step have f: "flags s f = None" and b: "borrow_core t (lock (sync_lock_callback t f))
        (\<lambda>m (completed, w).
          if completed then goto t (Done Nothing) (s\<lparr>raw_core := drop_guard False (m\<lparr>guarded := w\<rparr>)\<rparr>)
          else goto t (Loading l f) (s\<lparr>raw_core := drop_guard False (m\<lparr>guarded := w\<rparr>), flags := (flags s)(f \<mapsto> False)\<rparr>)) s = Some s'"
    unfolding sync_lock_def by (auto split: if_splits)
  from borrow_coreE [OF inv b 1(1)] obtain m where
    m: "held_by (raw_core s) = None" "\<not> is_poisoned m" "mutex m \<noteq> None"
    "s' = (case (d, w') of (completed, w) \<Rightarrow>
          if completed then goto t (Done Nothing) (s\<lparr>raw_core := drop_guard False (m\<lparr>guarded := w\<rparr>)\<rparr>)
          else goto t (Loading l f) (s\<lparr>raw_core := drop_guard False (m\<lparr>guarded := w\<rparr>), flags := (flags s)(f \<mapsto> False)\<rparr>))"
    by blast
  note C = I(4) [unfolded m(1)]
  have rl: "req (core_of s) l = None" by (rule free_req [OF I(1) fr])
  have wl: "waits (core_of s) l = None" using not_waiting_free(2) [OF C rl] .
  show ?thesis
  proof (cases d)
    case True
    have "waits w' = waits (core_of s)" using True 1(4) wl by auto
    moreover have "controls_ok (req w') (waits (core_of s)) (flags s) (token s) ((control s)(t := Done Nothing)) None"
      by (rule grant_ok [OF C t]) (simp add: 1(3) del: not_None_eq)
    ultimately show ?thesis using 1(2) m True by (simp add: sync_inv_def)
  next
    case False
    with block_ok [OF C t rl f] 1(2-4) m show ?thesis by (simp add: sync_inv_def)
  qed
qed

lemma try_lock_inv:
  assumes inv: "good_state s" and t: "is_done (control s t)" and step: "sync_try_lock try_lock t s = Some s'"
    and law: "try_law ok free req waits l a (core_of s) (try_lock (core_of s))"
  shows "good_state s'"
proof -
  note I = invD [OF inv]
  from law obtain w' b where
    1: "try_lock (core_of s) = Inr (b, w')" "ok w'" "\<And>k. req (core_of s) k \<noteq> None \<Longrightarrow> req w' k \<noteq> None" "waits w' = waits (core_of s)"
  proof (cases "\<exists>w'. try_lock (core_of s) = Inr (True, w')")
    case True
    with law that show ?thesis unfolding try_law_def by (auto simp del: not_None_eq)
  next
    case False
    with law that I(1) show ?thesis unfolding try_law_def by blast
  qed
  from borrow_coreE [OF inv step [unfolded sync_try_lock_def] 1(1)] obtain m where
    m: "held_by (raw_core s) = None" "\<not> is_poisoned m" "mutex m \<noteq> None"
    "s' = (case (b, w') of (b, w) \<Rightarrow> goto t (Done (Answer b)) (s\<lparr>raw_core := drop_guard False (m\<lparr>guarded := w\<rparr>)\<rparr>))"
    by blast
  with grant_ok [OF I(4) [unfolded m(1)] t 1(3)] 1(2,4) show ?thesis by (simp add: sync_inv_def)
qed

lemma unlock_inv:
  assumes inv: "good_state s" and t: "is_done (control s t)" and step: "sync_unlock unlock t s = Some s'"
    and l: "\<And>t' f. waiting_for (control s t') \<noteq> Some (l, f)"
    and law: "unlock_law ok free req waits l (core_of s) collect [] r (unlock (core_of s, []))" and r: "r = None"
  shows "good_state s'"
proof -
  note I = invD [OF inv]
  from law obtain w' log where
    1: "unlock (core_of s, []) = Inr (None, w', map (\<lambda>k. the (waits (core_of s) k)) log)" "ok w'"
    "req w' = (req (core_of s))(l := None)" "distinct log"
    "set log = {k. k \<noteq> l \<and> waits (core_of s) k \<noteq> None \<and> waits w' k = None}" "waits w' l = None"
    "\<And>k. waits w' k \<noteq> None \<Longrightarrow> waits w' k = waits (core_of s) k"
    unfolding unlock_law_def r by (auto simp: fold_collect)
  let ?log = "map (\<lambda>k. the (waits (core_of s) k)) log"
  from borrow_coreE [OF inv step [unfolded sync_unlock_def] 1(1)] obtain m where
    m: "held_by (raw_core s) = None" "held_by m = Some t" "\<not> is_poisoned m" "mutex m \<noteq> None"
    "s' = (case (None, w', ?log) of (r, w, log) \<Rightarrow> goto t (Storing r log) (s\<lparr>raw_core := m\<lparr>guarded := w\<rparr>\<rparr>))"
    by blast
  with unlock_ok [OF I(4) [unfolded m(1)] t l 1(4-7)] 1(2,3) show ?thesis by (simp add: sync_inv_def)
qed

text \<open>No thread waits for a lock that is behind a guard, and the lock is not pending.\<close>

lemma guard_of_Some:
  assumes inv: "good_state s" and g: "guard_of req s l = Some a"
  shows "req (core_of s) l = Some a" "waiting_for (control s t) \<noteq> Some (l, f)" "waits (core_of s) l = None"
proof -
  from g show "req (core_of s) l = Some a" and w: "waiting_for (control s t) \<noteq> Some (l, f)" for t f
    unfolding guard_of_def by (auto split: if_splits)
  show "waits (core_of s) l = None"
    using controls_okD(4) [OF invD(4) [OF inv], of l] w by (cases "waits (core_of s) l") auto
qed

lemma enter_inv:
  assumes inv: "good_state s" and al: "sync_allowed limit free req s call" and step: "sync_step dbg ops t (Enter call f) s = Some s'"
  shows "good_state s'"
proof -
  note I = invD [OF inv]
  from step have t: "is_done (control s t)" and e: "sync_enter ops t f call s = Some s'" by (simp_all split: if_splits)
  show ?thesis
  proof (cases call)
    case (RawLockRead r prio l)
    with al e show ?thesis
      by (cases r) (auto intro!: sync_lock_inv [OF inv t] lock_read [OF I(1)])
  next
    case (RawLockWrite r prio l)
    with al e show ?thesis
      by (cases r) (auto intro!: sync_lock_inv [OF inv t] lock_write [OF I(1)])
  next
    case (RawTryLockRead r l)
    with al e show ?thesis
      by (cases r) (auto intro!: try_lock_inv [OF inv t] try_lock_read [OF I(1)])
  next
    case (RawTryLockWrite r l)
    with al e show ?thesis
      by (cases r) (auto intro!: try_lock_inv [OF inv t] try_lock_write [OF I(1)])
  next
    case (RawUnlockRead l)
    with al obtain x y where g: "guard_of req s l = Some (False, x, y)" by auto
    note G = guard_of_Some [OF inv g]
    show ?thesis
      by (rule unlock_inv [OF inv t e [unfolded RawUnlockRead sync_enter.simps sync_methods] G(2) unlock_read [OF I(1) G(1)] G(3)])
  next
    case (RawUnlockWrite l)
    with al obtain x y where g: "guard_of req s l = Some (True, x, y)" by auto
    note G = guard_of_Some [OF inv g]
    show ?thesis
      by (rule unlock_inv [OF inv t e [unfolded RawUnlockWrite sync_enter.simps sync_methods] G(2) unlock_write [OF I(1) G(1)] G(3)])
  next
    case (RawUnlockTryRead l)
    with al obtain x y where g: "guard_of req s l = Some (False, x, y)" by auto
    note G = guard_of_Some [OF inv g]
    show ?thesis
      by (rule unlock_inv [OF inv t e [unfolded RawUnlockTryRead sync_enter.simps sync_methods] G(2), of None])
        (simp_all add: unlock_try_read [OF I(1) G(1,3)])
  next
    case (RawUnlockTryWrite l)
    with al obtain x y where g: "guard_of req s l = Some (True, x, y)" by auto
    note G = guard_of_Some [OF inv g]
    show ?thesis
      by (rule unlock_inv [OF inv t e [unfolded RawUnlockTryWrite sync_enter.simps sync_methods] G(2), of None])
        (simp_all add: unlock_try_write [OF I(1) G(1,3)])
  qed
qed

lemma step_inv:
  assumes inv: "good_state s" and a: "\<And>call f. a \<noteq> Enter call f" and step: "sync_step dbg ops t a s = Some s'"
  shows "good_state s'"
proof -
  note I = invD [OF inv]
  note C = I(4)
  show ?thesis
  proof (cases a)
    case (Enter call f)
    with a show ?thesis by blast
  next
    case Load
    with step obtain l f where k: "control s t = Loading l f" by (auto simp: sync_load_def split: control.splits)
    then have w: "waiting_for (control s t) = Some (l, f)" by simp
    from controls_okD(3) [OF C w] obtain b where b: "flags s f = Some b" by (auto simp: waiter_ok_def)
    show ?thesis
    proof (cases b)
      case True
      with load_done_ok [OF C w] b Load step k I show ?thesis by (auto simp: sync_load_def sync_inv_def)
    next
      case False
      with loop_ok [OF C w, of "Parking l f" "token s"] b Load step k I show ?thesis
        by (auto simp: sync_load_def sync_inv_def)
    qed
  next
    case Park
    with step obtain l f where k: "control s t = Parking l f" "s' = goto t (Loading l f) (s\<lparr>token := (token s)(t := False)\<rparr>)"
      by (auto simp: sync_park_def split: control.splits if_splits)
    with loop_ok [OF C, of t l f "Loading l f" "(token s)(t := False)"] I show ?thesis by (simp add: sync_inv_def)
  next
    case SpuriousWakeup
    with step obtain l f where k: "control s t = Parking l f" "s' = goto t (Loading l f) s"
      by (auto simp: sync_park_def split: control.splits if_splits)
    with loop_ok [OF C, of t l f "Loading l f" "token s"] I show ?thesis by (simp add: sync_inv_def)
  next
    case Store
    with step obtain r ip log where k: "control s t = Storing r (ip # log)"
      by (auto simp: sync_store_def split: control.splits list.splits)
    from store_ok [OF C k] Store step k I show ?thesis by (auto simp: sync_store_def sync_inv_def)
  next
    case Unpark
    with step obtain r t' log where k: "control s t = Unparking r t' log"
      by (auto simp: sync_unpark_def split: control.splits)
    from unpark_ok [OF C k] Unpark step k I show ?thesis by (auto simp: sync_unpark_def sync_inv_def)
  next
    case Leave
    with step obtain r where k: "control s t = Storing r []"
      by (auto simp: sync_leave_def split: control.splits list.splits)
    from controls_okD(1) [OF C, of t] k have "r = None" by simp
    with Leave step k have s': "s' = goto t (Done Nothing) (s\<lparr>raw_core := drop_guard False (raw_core s)\<rparr>)"
      by (simp add: sync_leave_def)
    from leave_ok [OF C k] I(1,2) show ?thesis by (simp add: sync_inv_def s')
  qed
qed

lemma reachable_inv: "sync_reachable dbg ops limit free req s \<Longrightarrow> good_state s"
proof (induction rule: sync_reachable.induct)
  case start
  show ?case by (rule inv_init)
next
  case (enter s call t f s')
  from enter.IH enter.hyps(2,3) show ?case by (rule enter_inv)
next
  case (step s a t s')
  from step.IH step.hyps(2,3) show ?case by (rule step_inv)
qed

end

end
