(* ===== verification/Raw_Sync_Progress.thy ===== *)
theory Raw_Sync_Progress
  imports Raw_Sync_Inv
begin

text \<open>
  What the invariant gives: guards exclude each other, granted locks return, somebody can always go on; and the
  steps of a thread inside a method come to an end.
\<close>

section \<open>Enabled steps\<close>

text \<open>The steps of threads inside a method, spurious wake-ups not counted.\<close>

definition internal :: "('l, 'i, 'pr, 'f) sync_action \<Rightarrow> bool" where
  "internal a \<longleftrightarrow> a \<in> {Load, Park, Store, Unpark, Leave}"

definition quiescent ::
  "bool \<Rightarrow> ('w, 'l, 'i, 'pr, 'f, 't) sync_ops \<Rightarrow> ('w, 'l, 'f, 't) sync_state \<Rightarrow> bool" where
  "quiescent dbg ops s \<longleftrightarrow> (\<forall>t. \<forall>a\<in>{Load, Park, Store, Unpark, Leave}. sync_step dbg ops t a s = None)"

lemma quiescentD:
  assumes "quiescent dbg ops s"
  shows "control s t \<noteq> Loading l f" "control s t \<noteq> Storing r log" "control s t \<noteq> Unparking r t' log"
    "control s t = Parking l f \<Longrightarrow> \<not> token s t"
  using assms unfolding quiescent_def sync_step.simps
  by (auto simp: sync_load_def sync_park_def sync_store_def sync_unpark_def sync_leave_def split: if_splits list.splits
    dest!: spec [of _ t] intro: list.exhaust [of log])

context sync_core
begin

lemma no_fault:
  assumes "good_state s"
  shows "control s t \<noteq> DanglingPointer" "control s t \<noteq> Panicked e" "control s t = Storing r log \<Longrightarrow> r = None"
  using controls_okD(1) [OF invD(4) [OF assms], of t] by auto

text \<open>The pointers in \<open>InProgress\<close> objects point to live variables, both in the core and in an unlock method.\<close>

lemma pointers_live:
  assumes "good_state s"
  shows "waits (core_of s) l = Some ip \<Longrightarrow> flags s (complete ip) = Some False"
    and "to_notify (control s t) = Some log \<Longrightarrow> ip \<in> set log \<Longrightarrow> flags s (complete ip) = Some False"
proof -
  note I = controls_okD [OF invD(4) [OF assms]]
  show "flags s (complete ip) = Some False" if w: "waits (core_of s) l = Some ip"
    using I(3) [OF I(4) [OF w]] w by (auto simp: waiter_ok_def)
  show "to_notify (control s t) = Some log \<Longrightarrow> ip \<in> set log \<Longrightarrow> flags s (complete ip) = Some False"
    by (rule I(7))
qed

lemma guards_apart:
  assumes "good_state s" "guard_of req s l = Some a" "guard_of req s l' = Some b" "l \<noteq> l'"
  shows "apart a b"
  using exclusion [OF invD(1) [OF assms(1)] guard_of_Some(1,3) [OF assms(1,2)] guard_of_Some(1,3) [OF assms(1,3)] assms(4)] .

text \<open>When the waiting loop ends, the lock is granted.\<close>

lemma load_returns:
  assumes inv: "good_state s" and w: "waiting_for (control s t) = Some (l, f)"
    and step: "sync_step dbg ops t Load s = Some s'" and d: "is_done (control s' t)"
  shows "guard_of req s' l = req (core_of s) l" "req (core_of s) l \<noteq> None" "waits (core_of s') l = None"
proof -
  note I = controls_okD [OF invD(4) [OF inv]]
  from w step d have k: "control s t = Loading l f" "flags s f = Some True"
    "s' = goto t (Done Nothing) (s\<lparr>flags := (flags s)(f := None)\<rparr>)"
    by (auto simp: sync_load_def waiting_for_Some split: option.splits bool.splits)
  from I(3) [OF w] k(2) show "req (core_of s) l \<noteq> None" and "waits (core_of s') l = None"
    by (auto simp: k(3) waiter_ok_def)
  have "waiting_for (control s' t') \<noteq> Some (l, f')" for t' f'
    using I(5) [OF w, of t' l f'] by (auto simp: k(3) split: if_splits)
  then show "guard_of req s' l = req (core_of s) l" by (simp add: guard_of_def k(3))
qed

text \<open>A quiescent state: the mutex is free, and threads inside a method wait for locks that are pending.\<close>

lemma quiescent_waits:
  assumes inv: "good_state s" and q: "quiescent dbg ops s"
  shows "is_done (control s t) \<or> (\<exists>l f. control s t = Parking l f \<and> waits (core_of s) l = Some (object f t))"
    and "held_by (raw_core s) = None"
proof -
  note I = controls_okD [OF invD(4) [OF inv]] and Q = quiescentD [OF q]
  have n: "to_notify (control s t') = None" for t' using Q(2,3) [of t'] by (cases "control s t'") auto
  show "held_by (raw_core s) = None" using I(2) n by (metis not_None_eq)
  show "is_done (control s t) \<or> (\<exists>l f. control s t = Parking l f \<and> waits (core_of s) l = Some (object f t))"
  proof (cases "control s t")
    case (Parking l f)
    then have w: "waiting_for (control s t) = Some (l, f)" by simp
    have "\<not> unparking (control s) t" using Q(3) by (auto simp: unparking_def)
    with I(9) [OF Parking] Q(4) [OF Parking] have "flags s f \<noteq> Some True" by blast
    with I(3) [OF w] n Parking show ?thesis by (auto simp: waiter_ok_def notifying_def)
  qed (use Q no_fault [OF inv, of t] in auto)
qed

text \<open>And if there is such a thread, there is a guard: some client can unlock.\<close>

lemma quiescent_guard:
  assumes inv: "good_state s" and q: "quiescent dbg ops s" and t: "\<not> is_done (control s t)"
  shows "\<exists>l. guard_of req s l \<noteq> None"
proof -
  from quiescent_waits(1) [OF inv q, of t] t obtain l f where "waits (core_of s) l = Some (object f t)" by auto
  from progress [OF invD(1) [OF inv] this] obtain l' where l': "req (core_of s) l' \<noteq> None" "waits (core_of s) l' = None" by blast
  have "waiting_for (control s t') \<noteq> Some (l', f')" for t' f'
    using quiescent_waits(1) [OF inv q, of t'] l'(2) by (cases "control s t'") auto
  then have "guard_of req s l' = req (core_of s) l'" by (simp add: guard_of_def)
  with l'(1) show ?thesis by metis
qed

text \<open>A call that a client may make goes through as soon as the mutex is free.\<close>

lemma borrow_core_enabled:
  assumes "good_state s" "held_by (raw_core s) = None" "method (core_of s) = Inr r"
  shows "\<exists>s'. borrow_core t method continue s = Some s'"
  using assms(2,3) by (cases rule: pin_mutex_lock_cases [of "raw_core s" t]) (auto simp: borrow_core_def)

lemma law_Inr:
  "lock_law ok free req waits l a cb w res \<Longrightarrow> \<exists>r. res = Inr r"
  "try_law ok free req waits l a w res' \<Longrightarrow> \<exists>r. res' = Inr r"
  "unlock_law ok free req waits l w cb' e ret res'' \<Longrightarrow> \<exists>r. res'' = Inr r"
  unfolding lock_law_def try_law_def unlock_law_def by blast+

lemma enter_enabled:
  assumes inv: "good_state s" and al: "sync_allowed limit free req s call" and t: "is_done (control s t)"
    and h: "held_by (raw_core s) = None" and f: "flags s f = None"
  shows "\<exists>s'. sync_step dbg ops t (Enter call f) s = Some s'"
proof -
  note I = invD [OF inv] and E = borrow_core_enabled [OF inv h]
  have "\<exists>s'. sync_enter ops t f call s = Some s'"
  proof (cases call)
    case (RawLockRead r prio l)
    with al law_Inr(1) [OF lock_read [OF I(1), of l "rng_start r" "rng_end r" "sync_lock_callback t f" prio]] E f show ?thesis
      by (auto simp: sync_lock_def)
  next
    case (RawLockWrite r prio l)
    with al law_Inr(1) [OF lock_write [OF I(1), of l "rng_start r" "rng_end r" "sync_lock_callback t f" prio]] E f show ?thesis
      by (auto simp: sync_lock_def)
  next
    case (RawTryLockRead r l)
    with al law_Inr(2) [OF try_lock_read [OF I(1), of l "rng_start r" "rng_end r"]] E show ?thesis
      by (auto simp: sync_try_lock_def)
  next
    case (RawTryLockWrite r l)
    with al law_Inr(2) [OF try_lock_write [OF I(1), of l "rng_start r" "rng_end r"]] E show ?thesis
      by (auto simp: sync_try_lock_def)
  next
    case (RawUnlockRead l)
    with al obtain x y where "guard_of req s l = Some (False, x, y)" by auto
    from law_Inr(3) [OF unlock_read [OF I(1) guard_of_Some(1) [OF inv this], of collect "[]"]] E RawUnlockRead show ?thesis
      by (auto simp: sync_unlock_def)
  next
    case (RawUnlockWrite l)
    with al obtain x y where "guard_of req s l = Some (True, x, y)" by auto
    from law_Inr(3) [OF unlock_write [OF I(1) guard_of_Some(1) [OF inv this], of collect "[]"]] E RawUnlockWrite show ?thesis
      by (auto simp: sync_unlock_def)
  next
    case (RawUnlockTryRead l)
    with al obtain x y where g: "guard_of req s l = Some (False, x, y)" by auto
    from law_Inr(3) [OF unlock_try_read [OF I(1) guard_of_Some(1,3) [OF inv g], of collect "[]"]] E RawUnlockTryRead show ?thesis
      by (auto simp: sync_unlock_def)
  next
    case (RawUnlockTryWrite l)
    with al obtain x y where g: "guard_of req s l = Some (True, x, y)" by auto
    from law_Inr(3) [OF unlock_try_write [OF I(1) guard_of_Some(1,3) [OF inv g], of collect "[]"]] E RawUnlockTryWrite show ?thesis
      by (auto simp: sync_unlock_def)
  qed
  with t show ?thesis by simp
qed

end

section \<open>Termination\<close>

text \<open>What a thread inside a method still has to do.\<close>

fun work :: "('l, 'f, 't) control \<Rightarrow> nat" where
  "work (Loading l f) = 2"
| "work (Parking l f) = 1"
| "work (Storing r log) = 4 * length log + 1"
| "work (Unparking r t log) = 4 * length log + 4"
| "work _ = 0"

definition effort :: "('w, 'l, 'f, 't) sync_state \<Rightarrow> nat" where
  "effort s = (\<Sum>t\<in>UNIV. work (control s t) + (if token s t then 2 else 0))"

lemma sum_update:
  fixes g :: "'t::finite \<Rightarrow> nat"
  shows "sum (g(t := x)) UNIV + g t = sum g UNIV + x"
proof -
  have "sum (g(t := x)) UNIV = x + sum g (UNIV - {t})" by (subst sum.remove [of _ t]) simp_all
  moreover have "sum g UNIV = g t + sum g (UNIV - {t})" by (subst sum.remove [of _ t]) simp_all
  ultimately show ?thesis by simp
qed

lemma effort_eq: "effort s = sum (\<lambda>t. work (control s t)) UNIV + sum (\<lambda>t. if token s t then 2 else 0) UNIV"
  by (simp add: effort_def sum.distrib)

lemma effort_goto:
  fixes s :: "('w, 'l, 'f, 't::finite) sync_state"
  shows "effort (goto t k s) + work (control s t) = effort s + work k"
proof -
  have *: "(\<lambda>u. work (((control s)(t := k)) u)) = (\<lambda>u. work (control s u))(t := work k)" by auto
  have "sum (\<lambda>u. work (((control s)(t := k)) u)) UNIV + work (control s t) = sum (\<lambda>u. work (control s u)) UNIV + work k"
    unfolding * by (rule sum_update)
  then show ?thesis unfolding effort_eq by simp
qed

lemma effort_token:
  fixes s :: "('w, 'l, 'f, 't::finite) sync_state"
  shows "effort (s\<lparr>token := (token s)(t := b)\<rparr>) + (if token s t then 2 else 0) = effort s + (if b then 2 else 0)"
proof -
  have *: "(\<lambda>u. if ((token s)(t := b)) u then 2 else 0 :: nat) = (\<lambda>u. if token s u then 2 else 0)(t := if b then 2 else 0)" by auto
  have "sum (\<lambda>u. if ((token s)(t := b)) u then 2 else 0 :: nat) UNIV + (if token s t then 2 else 0) =
      sum (\<lambda>u. if token s u then 2 else 0) UNIV + (if b then 2 else 0)"
    unfolding * by (rule sum_update)
  then show ?thesis unfolding effort_eq by simp
qed

lemma effort_other [simp]: "effort (s\<lparr>flags := x\<rparr>) = effort s" "effort (s\<lparr>raw_core := y\<rparr>) = effort s"
  by (simp_all add: effort_def)

lemma internal_decreases:
  fixes s :: "('w, 'l, 'f, 't::finite) sync_state"
  assumes "internal a" and "sync_step dbg ops t a s = Some s'"
  shows "effort s' < effort s"
proof -
  note G = effort_goto [where t = t]
  from assms(1) consider "a = Load" | "a = Park" | "a = Store" | "a = Unpark" | "a = Leave"
    by (auto simp: internal_def)
  then show ?thesis
  proof cases
    case 1
    with assms(2) obtain l f where k: "control s t = Loading l f" by (auto simp: sync_load_def split: control.splits)
    with assms(2) 1 G [where k = "Parking l f" and s = s] G [where k = "Done Nothing" and s = "s\<lparr>flags := (flags s)(f := None)\<rparr>"] G [where k = DanglingPointer and s = s]
    show ?thesis by (auto simp: sync_load_def split: option.splits bool.splits)
  next
    case 2
    with assms(2) obtain l f where k: "control s t = Parking l f" "token s t"
      "s' = goto t (Loading l f) (s\<lparr>token := (token s)(t := False)\<rparr>)"
      by (auto simp: sync_park_def split: control.splits if_splits)
    from G [where k = "Loading l f" and s = "s\<lparr>token := (token s)(t := False)\<rparr>"] effort_token [of s t False] k
    show ?thesis by simp
  next
    case 3
    with assms(2) obtain r ip log where k: "control s t = Storing r (ip # log)"
      by (auto simp: sync_store_def split: control.splits list.splits)
    with assms(2) 3 G [where k = "Unparking r (waiter ip) log" and s = "s\<lparr>flags := (flags s)(complete ip \<mapsto> True)\<rparr>"] G [where k = DanglingPointer and s = s]
    show ?thesis by (auto simp: sync_store_def split: option.splits)
  next
    case 4
    with assms(2) obtain r t' log where k: "control s t = Unparking r t' log"
      "s' = goto t (Storing r log) (s\<lparr>token := (token s)(t' := True)\<rparr>)"
      by (auto simp: sync_unpark_def split: control.splits)
    from G [where k = "Storing r log" and s = "s\<lparr>token := (token s)(t' := True)\<rparr>"] effort_token [of s t' True] k
    show ?thesis by (simp split: if_splits)
  next
    case 5
    with assms(2) obtain r where k: "control s t = Storing r []" by (auto simp: sync_leave_def split: control.splits list.splits)
    with assms(2) 5 G [where k = "Done Nothing" and s = "s\<lparr>raw_core := drop_guard False (raw_core s)\<rparr>"]
      G [where k = "Panicked UnexpectedlyCancelled" and s = "s\<lparr>raw_core := drop_guard True (raw_core s)\<rparr>"]
    show ?thesis by (auto simp: sync_leave_def split: if_splits)
  qed
qed

section \<open>What one step does\<close>

text \<open>Calls: the lock state, what a lock method asks for, and the unlock methods.\<close>

fun call_state :: "('l, 'i, 'pr) raw_call \<Rightarrow> 'l" where
  "call_state (RawLockRead r prio l) = l"
| "call_state (RawLockWrite r prio l) = l"
| "call_state (RawTryLockRead r l) = l"
| "call_state (RawTryLockWrite r l) = l"
| "call_state (RawUnlockRead l) = l"
| "call_state (RawUnlockWrite l) = l"
| "call_state (RawUnlockTryRead l) = l"
| "call_state (RawUnlockTryWrite l) = l"

fun call_asks :: "('l, 'i, 'pr) raw_call \<Rightarrow> 'i asking option" where
  "call_asks (RawLockRead r prio l) = Some (False, rng_start r, rng_end r)"
| "call_asks (RawLockWrite r prio l) = Some (True, rng_start r, rng_end r)"
| "call_asks (RawTryLockRead r l) = Some (False, rng_start r, rng_end r)"
| "call_asks (RawTryLockWrite r l) = Some (True, rng_start r, rng_end r)"
| "call_asks _ = None"

text \<open>The requests, the flags and the place of the thread after a step; a critical section starts with a free mutex.\<close>

context sync_core
begin

lemma lock_effect:
  assumes inv: "good_state s" and step: "sync_lock lock t f l s = Some s'"
    and law: "lock_law ok free req waits l a (sync_lock_callback t f) (core_of s) (lock (sync_lock_callback t f) (core_of s))"
  shows "\<exists>d. req (core_of s') = (req (core_of s))(l \<mapsto> a) \<and> control s' = (control s)(t := if d then Done Nothing else Loading l f) \<and>
    flags s' = (if d then flags s else (flags s)(f \<mapsto> False)) \<and> flags s f = None \<and> held_by (raw_core s) = None"
proof -
  from law obtain w' d where
    1: "lock (sync_lock_callback t f) (core_of s) = Inr (d, w')" "req w' = (req (core_of s))(l \<mapsto> a)"
    unfolding lock_law_def by (auto simp: sync_lock_callback_def split: if_splits)
  from step have f: "flags s f = None" and b: "borrow_core t (lock (sync_lock_callback t f))
        (\<lambda>m (completed, w).
          if completed then goto t (Done Nothing) (s\<lparr>raw_core := drop_guard False (m\<lparr>guarded := w\<rparr>)\<rparr>)
          else goto t (Loading l f) (s\<lparr>raw_core := drop_guard False (m\<lparr>guarded := w\<rparr>), flags := (flags s)(f \<mapsto> False)\<rparr>)) s = Some s'"
    unfolding sync_lock_def by (auto split: if_splits)
  from borrow_coreE [OF inv b 1(1)] obtain m where "held_by (raw_core s) = None"
    "s' = (case (d, w') of (completed, w) \<Rightarrow>
          if completed then goto t (Done Nothing) (s\<lparr>raw_core := drop_guard False (m\<lparr>guarded := w\<rparr>)\<rparr>)
          else goto t (Loading l f) (s\<lparr>raw_core := drop_guard False (m\<lparr>guarded := w\<rparr>), flags := (flags s)(f \<mapsto> False)\<rparr>))"
    by blast
  with 1(2) f show ?thesis by (intro exI [of _ d]) simp
qed

lemma try_effect:
  assumes inv: "good_state s" and step: "sync_try_lock lock t s = Some s'"
    and law: "try_law ok free req waits l a (core_of s) (lock (core_of s))"
  shows "\<exists>b. req (core_of s') = (if b then (req (core_of s))(l \<mapsto> a) else req (core_of s)) \<and> control s' = (control s)(t := Done (Answer b)) \<and>
    flags s' = flags s \<and> held_by (raw_core s) = None"
proof -
  from law obtain b w' where 1: "lock (core_of s) = Inr (b, w')" "req w' = (if b then (req (core_of s))(l \<mapsto> a) else req (core_of s))"
    using that [of False] that [of True] unfolding try_law_def by auto
  from borrow_coreE [OF inv step [unfolded sync_try_lock_def] 1(1)] obtain m where "held_by (raw_core s) = None"
    "s' = (case (b, w') of (b, w) \<Rightarrow> goto t (Done (Answer b)) (s\<lparr>raw_core := drop_guard False (m\<lparr>guarded := w\<rparr>)\<rparr>))"
    by blast
  with 1(2) show ?thesis by (intro exI [of _ b]) simp
qed

lemma unlock_effect:
  assumes inv: "good_state s" and step: "sync_unlock unlock t s = Some s'"
    and law: "unlock_law ok free req waits l (core_of s) collect [] r (unlock (core_of s, []))"
  shows "\<exists>log. req (core_of s') = (req (core_of s))(l := None) \<and> control s' = (control s)(t := Storing r log) \<and>
    flags s' = flags s \<and> held_by (raw_core s) = None"
proof -
  from law obtain w' log where 1: "unlock (core_of s, []) = Inr (r, w', log)" "req w' = (req (core_of s))(l := None)"
    unfolding unlock_law_def by blast
  from borrow_coreE [OF inv step [unfolded sync_unlock_def] 1(1)] obtain m where "held_by (raw_core s) = None"
    "s' = (case (r, w', log) of (r, w, log) \<Rightarrow> goto t (Storing r log) (s\<lparr>raw_core := m\<lparr>guarded := w\<rparr>\<rparr>))"
    by blast
  with 1(2) show ?thesis by (intro exI [of _ log]) simp
qed

lemma enter_lock_effect:
  assumes inv: "good_state s" and al: "sync_allowed limit free req s call" and c: "call_asks call = Some a"
    and step: "sync_step dbg ops t (Enter call f) s = Some s'"
  shows "\<exists>k. control s' = (control s)(t := k) \<and> held_by (raw_core s) = None \<and>
    (req (core_of s') = (req (core_of s))(call_state call \<mapsto> a) \<and> flags s' = flags s \<and> (k = Done Nothing \<or> k = Done (Answer True)) \<or>
     req (core_of s') = (req (core_of s))(call_state call \<mapsto> a) \<and> flags s f = None \<and> flags s' = (flags s)(f \<mapsto> False) \<and>
       k = Loading (call_state call) f \<or>
     req (core_of s') = req (core_of s) \<and> flags s' = flags s \<and> k = Done (Answer False))"
proof -
  note I = invD(1) [OF inv]
  from step have e: "sync_enter ops t f call s = Some s'" by (simp split: if_splits)
  show ?thesis
  proof (cases call)
    case (RawTryLockRead r l)
    obtain x y where "r = Range x y" by (cases r)
    with try_effect [where lock = "op_try_lock_read ops r l", OF inv _ try_lock_read [OF I, of l x y, folded this], of t s'] RawTryLockRead al c e obtain b where
      "req (core_of s') = (if b then (req (core_of s))(l \<mapsto> a) else req (core_of s))" "control s' = (control s)(t := Done (Answer b))"
      "flags s' = flags s" "held_by (raw_core s) = None"
      by auto
    then show ?thesis by (cases b) (auto simp: RawTryLockRead)
  next
    case (RawTryLockWrite r l)
    obtain x y where "r = Range x y" by (cases r)
    with try_effect [where lock = "op_try_lock_write ops r l", OF inv _ try_lock_write [OF I, of l x y, folded this], of t s'] RawTryLockWrite al c e obtain b where
      "req (core_of s') = (if b then (req (core_of s))(l \<mapsto> a) else req (core_of s))" "control s' = (control s)(t := Done (Answer b))"
      "flags s' = flags s" "held_by (raw_core s) = None"
      by auto
    then show ?thesis by (cases b) (auto simp: RawTryLockWrite)
  next
    case (RawLockRead r prio l)
    obtain x y where "r = Range x y" by (cases r)
    with lock_effect [where lock = "op_lock_read ops r prio l", OF inv _ lock_read [OF I, of l x y, folded this], of t f s'] RawLockRead al c e
    show ?thesis by auto
  next
    case (RawLockWrite r prio l)
    obtain x y where "r = Range x y" by (cases r)
    with lock_effect [where lock = "op_lock_write ops r prio l", OF inv _ lock_write [OF I, of l x y, folded this], of t f s'] RawLockWrite al c e
    show ?thesis by auto
  qed (use c in simp_all)
qed

lemma enter_unlock_effect:
  assumes inv: "good_state s" and al: "sync_allowed limit free req s call" and c: "call_asks call = None"
    and step: "sync_step dbg ops t (Enter call f) s = Some s'"
  shows "\<exists>a r log. guard_of req s (call_state call) = Some a \<and> req (core_of s') = (req (core_of s))(call_state call := None) \<and>
    control s' = (control s)(t := Storing r log) \<and> flags s' = flags s \<and> held_by (raw_core s) = None"
proof -
  note I = invD(1) [OF inv]
  from step have e: "sync_enter ops t f call s = Some s'" by (simp split: if_splits)
  show ?thesis
  proof (cases call)
    case (RawUnlockTryRead l)
    with al obtain x y where g: "guard_of req s l = Some (False, x, y)" by auto
    note G = guard_of_Some [OF inv g]
    have "unlock_law ok free req waits l (core_of s) collect [] None ((map_sum id (Pair None) \<circ> op_unlock_try_read ops l collect) (core_of s, []))"
      using unlock_try_read [OF I, of l x y collect "[]"] G(1,3) by simp
    from unlock_effect [where unlock = "map_sum id (Pair None) \<circ> op_unlock_try_read ops l collect", OF inv _ this, of t s'] e g
    show ?thesis by (auto simp: RawUnlockTryRead)
  next
    case (RawUnlockTryWrite l)
    with al obtain x y where g: "guard_of req s l = Some (True, x, y)" by auto
    note G = guard_of_Some [OF inv g]
    have "unlock_law ok free req waits l (core_of s) collect [] None ((map_sum id (Pair None) \<circ> op_unlock_try_write ops l collect) (core_of s, []))"
      using unlock_try_write [OF I, of l x y collect "[]"] G(1,3) by simp
    from unlock_effect [where unlock = "map_sum id (Pair None) \<circ> op_unlock_try_write ops l collect", OF inv _ this, of t s'] e g
    show ?thesis by (auto simp: RawUnlockTryWrite)
  next
    case (RawUnlockRead l)
    with al obtain x y where g: "guard_of req s l = Some (False, x, y)" by auto
    from guard_of_Some(1) [OF inv g] unlock_effect [where unlock = "op_unlock_read ops l collect", OF inv _ unlock_read [OF I, of l x y], of t s'] e g
    show ?thesis by (auto simp: RawUnlockRead)
  next
    case (RawUnlockWrite l)
    with al obtain x y where g: "guard_of req s l = Some (True, x, y)" by auto
    from guard_of_Some(1) [OF inv g] unlock_effect [where unlock = "op_unlock_write ops l collect", OF inv _ unlock_write [OF I, of l x y], of t s'] e g
    show ?thesis by (auto simp: RawUnlockWrite)
  qed (use c in simp_all)
qed

text \<open>Inside the methods nothing changes but where the thread is.\<close>

lemma inside_effect:
  assumes "\<And>call f. a \<noteq> Enter call f" and "sync_step dbg ops t a s = Some s'"
  shows "req (core_of s') = req (core_of s) \<and> (\<forall>t'. t' \<noteq> t \<longrightarrow> control s' t' = control s t') \<and> \<not> is_done (control s t) \<and>
    (waiting_for (control s' t) = waiting_for (control s t) \<or> waiting_for (control s' t) = None \<and>
      (waiting_for (control s t) = None \<or> control s' t = Done Nothing \<or> control s' t = DanglingPointer))"
  using assms by (cases a) (auto simp: sync_load_def sync_park_def sync_store_def sync_unpark_def sync_leave_def
      split: control.splits option.splits list.splits if_splits bool.splits)

end

end
