(* ===== verification/Raw_Sync_Correct.thy ===== *)
theory Raw_Sync_Correct
  imports Raw_Sync_Progress Core_Demo
begin

text \<open>
  The properties of \<open>SyncRawRbTreeIntervalRwLock\<close>: the blocking lock on the red-black tree core.
\<close>

section \<open>The red-black tree core in the blocking lock\<close>

interpretation sync_rb: sync_core "rbtree_ops dbg self" "2 ^ 63 - 1" "core_inv self" rb_free "rb_req self" "rb_waits self"
  by unfold_locales

abbreviation sync_rb_reachable where
  "sync_rb_reachable dbg self \<equiv> sync_reachable dbg (rbtree_ops dbg self) (2 ^ 63 - 1) rb_free (rb_req self)"

section \<open>A session of two threads\<close>

text \<open>
  Thread \<open>True\<close> locks 2..6 for writing; thread \<open>False\<close> asks for 4..8, has to wait and parks.  Then \<open>True\<close> unlocks, and
  \<open>False\<close> wakes up before it is unparked.  In another run, \<open>False\<close> locks 7..9.
\<close>

type_synonym demo_sync =
  "((nat, demo_lock, nat, nat, (nat, bool) sync_in_progress) world, demo_lock, nat, bool) sync_state"

definition demo_ops :: "((nat, demo_lock, nat, nat, (nat, bool) sync_in_progress) world, demo_lock, nat, nat, nat, bool) sync_ops" where
  "demo_ops = rbtree_ops True 0"

definition sync_after :: "bool \<Rightarrow> (demo_lock, nat, nat, nat) sync_action \<Rightarrow> demo_sync \<Rightarrow> demo_sync" where
  "sync_after t a s = (case sync_step True demo_ops t a s of Some s' \<Rightarrow> s' | None \<Rightarrow> s)"

definition sync1 :: demo_sync where
  "sync1 = sync_after True (Enter (RawLockWrite (Range 2 6) 0 LockA) 0) (sync_init demo_ops)"
definition sync2 :: demo_sync where
  "sync2 = sync_after False (Enter (RawLockRead (Range 4 8) 1 LockB) 1) sync1"
definition sync3 :: demo_sync where
  "sync3 = sync_after False Load sync2"
definition sync4 :: demo_sync where
  "sync4 = sync_after True (Enter (RawUnlockWrite LockA) 2) sync3"
definition sync5 :: demo_sync where
  "sync5 = sync_after False SpuriousWakeup (sync_after True Store sync4)"
definition sync6 :: demo_sync where
  "sync6 = sync_after False (Enter (RawTryLockWrite (Range 7 9) TryB) 1) sync1"

abbreviation demo_sync_reachable :: "demo_sync \<Rightarrow> bool" where
  "demo_sync_reachable \<equiv> sync_rb_reachable True 0"

lemma sync_after_enter:
  assumes "demo_sync_reachable s" and "sync_allowed (2 ^ 63 - 1) rb_free (rb_req 0) s call"
  shows "demo_sync_reachable (sync_after t (Enter call f) s)"
  using assms sync_reachable.enter [OF assms, of t f]
  by (auto simp: sync_after_def demo_ops_def split: option.splits)

lemma sync_after_step:
  assumes "demo_sync_reachable s" and "\<And>call f. a \<noteq> Enter call f"
  shows "demo_sync_reachable (sync_after t a s)"
  using assms sync_reachable.step [OF assms, of t]
  by (auto simp: sync_after_def demo_ops_def split: option.splits)

lemma sync_controls:
  "control sync3 True = Done Nothing" "control sync3 False = Parking LockB 1"
  "control sync2 True = Done Nothing" "control sync2 False = Loading LockB 1"
  "control sync1 True = Done Nothing" "control sync1 False = Done Nothing"
  by code_simp+

lemma sync_frees:
  "rb_free (core_of (sync_init demo_ops)) LockA" "rb_free (core_of sync1) LockB"
  "rb_req 0 (core_of sync3) LockA = Some (True, 2, 6)"
  by code_simp+

lemma sync_reachable0: "demo_sync_reachable (sync_init demo_ops)"
  unfolding demo_ops_def by (rule sync_reachable.start)

lemma sync_reachable1: "demo_sync_reachable sync1"
  unfolding sync1_def by (rule sync_after_enter [OF sync_reachable0]) (simp add: sync_frees demo_card del: not_None_eq)

lemma sync_reachable2: "demo_sync_reachable sync2"
  unfolding sync2_def by (rule sync_after_enter [OF sync_reachable1]) (simp add: sync_frees demo_card del: not_None_eq)

lemma sync_reachable3: "demo_sync_reachable sync3"
  unfolding sync3_def by (rule sync_after_step [OF sync_reachable2]) simp

lemma sync_guard3: "guard_of (rb_req 0) sync3 LockA = Some (True, 2, 6)"
  using sync_controls by (auto simp: guard_of_def sync_frees all_bool_eq ex_bool_eq)

lemma sync_reachable4: "demo_sync_reachable sync4"
  unfolding sync4_def by (rule sync_after_enter [OF sync_reachable3]) (simp add: sync_guard3)

lemma sync_controls4: "control sync4 True = Storing None [object 1 False]" "control sync4 False = Parking LockB 1"
  by code_simp+

lemma sync_quiescent3: "quiescent True demo_ops sync3"
  by (auto simp: quiescent_def all_bool_eq sync_controls sync_load_def sync_park_def sync_store_def sync_unpark_def
    sync_leave_def) (code_simp)+

lemma sync_reachable5: "demo_sync_reachable sync5"
  unfolding sync5_def by (intro sync_after_step sync_reachable4) simp_all

lemma sync_controls5: "control sync5 False = Loading LockB 1" "flags sync5 1 = Some True"
  by code_simp+

lemma sync_frees6:
  "rb_free (core_of sync1) TryB" "control sync6 True = Done Nothing" "control sync6 False = Done (Answer True)"
  "rb_req 0 (core_of sync6) LockA = Some (True, 2, 6)" "rb_req 0 (core_of sync6) TryB = Some (True, 7, 9)"
  by code_simp+

lemma sync_reachable6: "demo_sync_reachable sync6"
  unfolding sync6_def by (rule sync_after_enter [OF sync_reachable1]) (simp add: sync_frees6 demo_card del: not_None_eq)

lemma sync_guards6:
  "guard_of (rb_req 0) sync6 LockA = Some (True, 2, 6)" "guard_of (rb_req 0) sync6 TryB = Some (True, 7, 9)"
  by (auto simp: guard_of_def sync_frees6 ex_bool_eq)

section \<open>Properties\<close>

text \<open>C2. Guards exclude each other.  In every state that threads reach, the locks of two guards, that is of
  locks that \<open>lock_*\<close> or \<open>try_lock_*\<close> has returned, are both readers or their ranges do not overlap.\<close>

theorem sync_guards_exclude:
  assumes "sync_rb_reachable dbg self s"
    and "guard_of (rb_req self) s l = Some (u, x, y)" "guard_of (rb_req self) s l' = Some (v, x', y')" "l \<noteq> l'"
  shows "\<not> u \<and> \<not> v \<or> y \<le> x' \<or> y' \<le> x"
  using sync_rb.guards_apart [OF sync_rb.reachable_inv [OF assms(1)] assms(2-4)] by (simp add: apart_def)

theorem sync_guards_exclude_witness: "\<not> True \<and> \<not> True \<or> (6 :: nat) \<le> 7 \<or> (9 :: nat) \<le> 2"
  by (rule sync_guards_exclude [OF sync_reachable6 sync_guards6]) simp

text \<open>C10. No method panics, and the pointers to the local variables of waiting threads that the core keeps, or that an
  unlock method is about to use, are alive when they are used.\<close>

theorem sync_pointers_live:
  assumes "sync_rb_reachable dbg self s"
  shows "control s t \<noteq> DanglingPointer \<and> (\<forall>e. control s t \<noteq> Panicked e) \<and>
    (\<forall>l ip. rb_waits self (core_of s) l = Some ip \<longrightarrow> flags s (complete ip) = Some False) \<and>
    (\<forall>r ip log. control s t = Storing r (ip # log) \<longrightarrow> flags s (complete ip) = Some False)"
proof -
  note inv = sync_rb.reachable_inv [OF assms]
  show ?thesis
    using sync_rb.no_fault [OF inv, of t] sync_rb.pointers_live [OF inv]
    by (metis list.set_intros(1) to_notify.simps(1))
qed

theorem sync_pointers_live_witness: "control sync4 True \<noteq> DanglingPointer \<and> flags sync4 1 = Some False"
  using sync_pointers_live [OF sync_reachable4, of True] by (auto simp: sync_controls4 simp del: One_nat_def)

text \<open>The waiting loop of \<open>lock_read\<close> and \<open>lock_write\<close> ends only when the core has granted the lock.\<close>

lemma sync_loop_returns_granted:
  assumes "sync_rb_reachable dbg self s" and "waiting_for (control s t) = Some (l, f)"
    and "sync_load t s = Some s'" "is_done (control s' t)"
  shows "\<exists>u x y. guard_of (rb_req self) s' l = Some (u, x, y) \<and> rb_waits self (core_of s') l = None"
  using sync_rb.load_returns [OF sync_rb.reachable_inv [OF assms(1)] assms(2), where dbg = dbg and s' = s'] assms(3,4) by auto

text \<open>C8. No lost wake-up and no deadlock.  When no thread can go on by itself, spurious wake-ups aside, the mutex is
  free and the threads inside a method are parked for locks that the core has not granted yet; if there are any, some
  client holds a guard and can unlock.\<close>

theorem sync_no_lost_wakeup:
  assumes "sync_rb_reachable dbg self s" and "quiescent dbg (rbtree_ops dbg self) s"
  shows "held_by (raw_core s) = None \<and>
    (\<forall>t. is_done (control s t) \<or> (\<exists>l f. control s t = Parking l f \<and> rb_waits self (core_of s) l = Some (object f t))) \<and>
    ((\<exists>t. \<not> is_done (control s t)) \<longrightarrow> (\<exists>l. guard_of (rb_req self) s l \<noteq> None))"
proof -
  note inv = sync_rb.reachable_inv [OF assms(1)]
  show ?thesis
    using sync_rb.quiescent_waits [OF inv assms(2)] sync_rb.quiescent_guard [OF inv assms(2)] by blast
qed

theorem sync_no_lost_wakeup_witness:
  "held_by (raw_core sync3) = None \<and>
    (\<exists>l f. control sync3 False = Parking l f \<and> rb_waits 0 (core_of sync3) l = Some (object f False)) \<and>
    (\<exists>l. guard_of (rb_req 0) sync3 l \<noteq> None)"
proof -
  have "\<not> is_done (control sync3 False)" by (simp add: sync_controls)
  with sync_no_lost_wakeup [OF sync_reachable3 sync_quiescent3 [unfolded demo_ops_def]] show ?thesis by blast
qed

text \<open>C33. Methods end.  Every step of a thread inside a method, spurious wake-ups aside, reduces the work that is left, so that
  the threads come to rest.\<close>

theorem sync_methods_end:
  fixes s :: "('w, 'l, 'f, 't::finite) sync_state"
  assumes "internal a" and "sync_step dbg ops t a s = Some s'"
  shows "effort s' < effort s"
  using internal_decreases [OF assms] .

theorem sync_methods_end_witness: "effort (sync_after True Store sync4) < effort sync4"
proof -
  have "\<exists>s'. sync_step True demo_ops True Store sync4 = Some s'"
    by (simp add: sync_store_def sync_controls4)
  then obtain s' where "sync_step True demo_ops True Store sync4 = Some s'" by blast
  with sync_methods_end [OF _ this] show ?thesis by (simp add: sync_after_def internal_def)
qed

end
