(* ===== verification/Raw_Sync_Order.thy ===== *)
theory Raw_Sync_Order
  imports Raw_Sync_Correct
begin

text \<open>
  The memory orderings of the flags of \<open>src/raw/sync.rs\<close>.  \<open>Raw_Sync\<close> interleaves the steps of the threads over one memory;
  here each thread, the mutex, each park token and each flag also carry a view: the unlock calls that happen before what the thread
  does next, or before what a thread does that synchronises with the mutex, token or flag.  A mutex, and \<open>unpark\<close> with \<open>park\<close>,
  pass views on; a flag does if it is stored with \<open>Release\<close> and loaded with \<open>Acquire\<close>.
\<close>

section \<open>Views\<close>

datatype memory_order = Relaxed | Acquire | Release

text \<open>The orderings in the source.\<close>

definition store_order :: memory_order where "store_order = Relaxed"
definition load_order :: memory_order where "load_order = Relaxed"

text \<open>
  The unlock calls are numbered; \<open>releases\<close> are the requests they have released.  \<open>last_store\<close>, \<open>notified\<close> and \<open>woken\<close> record the
  way of a wake-up: the flag a thread has stored last; the flags whose waiting thread has been unparked after the store; and
  those whose waiting thread has come back from \<open>park\<close> since.
\<close>

record ('i, 'f, 't) views =
  releases :: "'i asking list"
  seen :: "'t \<Rightarrow> nat set"
  mutex_view :: "nat set"
  token_view :: "'t \<Rightarrow> nat set"
  flag_view :: "'f \<Rightarrow> nat set"
  last_store :: "'t \<Rightarrow> 'f option"
  notified :: "'f set"
  woken :: "'f set"

definition views_init :: "('i, 'f, 't) views" where
  "views_init = \<lparr>releases = [], seen = (\<lambda>_. {}), mutex_view = {}, token_view = (\<lambda>_. {}), flag_view = (\<lambda>_. {}),
     last_store = (\<lambda>_. None), notified = {}, woken = {}\<rparr>"

definition see :: "'t \<Rightarrow> nat set \<Rightarrow> ('i, 'f, 't) views \<Rightarrow> ('i, 'f, 't) views" where
  "see t ns v = v\<lparr>seen := (seen v)(t := seen v t \<union> ns)\<rparr>"

definition new_flag :: "'f \<Rightarrow> ('i, 'f, 't) views \<Rightarrow> ('i, 'f, 't) views" where
  "new_flag f v = v\<lparr>flag_view := (flag_view v)(f := {}), notified := notified v - {f}, woken := woken v - {f}\<rparr>"

text \<open>What a step from the state \<open>s\<close> does to the views.\<close>

fun view_step ::
  "memory_order \<Rightarrow> memory_order \<Rightarrow> ('w \<Rightarrow> 'l \<Rightarrow> 'i asking option) \<Rightarrow> 't \<Rightarrow> ('l, 'i, 'pr, 'f) sync_action \<Rightarrow>
   ('w, 'l, 'f, 't) sync_state \<Rightarrow> ('i, 'f, 't) views \<Rightarrow> ('i, 'f, 't) views" where
  "view_step so lo req t (Enter call f) s v = (let v = see t (mutex_view v) v in case call_asks call of
     Some a \<Rightarrow> (let v = (if flags s f = None then new_flag f v else v) in v\<lparr>mutex_view := seen v t\<rparr>)
   | None \<Rightarrow> see t {length (releases v)} (v\<lparr>releases := releases v @ [the (req (core_of s) (call_state call))]\<rparr>))"
| "view_step so lo req t Load s v = (case control s t of
     Loading l f \<Rightarrow> if lo = Acquire then see t (flag_view v f) v else v | _ \<Rightarrow> v)"
| "view_step so lo req t Park s v = (case control s t of
     Parking l f \<Rightarrow> (see t (token_view v t) v)\<lparr>woken := woken v \<union> ({f} \<inter> notified v)\<rparr> | _ \<Rightarrow> v)"
| "view_step so lo req t SpuriousWakeup s v = v"
| "view_step so lo req t Store s v = (case control s t of
     Storing r (ip # log) \<Rightarrow> v\<lparr>flag_view := (flag_view v)(complete ip := if so = Release then seen v t else {}),
       last_store := (last_store v)(t \<mapsto> complete ip)\<rparr>
   | _ \<Rightarrow> v)"
| "view_step so lo req t Unpark s v = (case control s t of
     Unparking r t' log \<Rightarrow> v\<lparr>token_view := (token_view v)(t' := token_view v t' \<union> seen v t),
       notified := notified v \<union> set_option (last_store v t)\<rparr>
   | _ \<Rightarrow> v)"
| "view_step so lo req t Leave s v = v\<lparr>mutex_view := seen v t\<rparr>"

fun action_allowed where
  "action_allowed limit free req s (Enter call f) \<longleftrightarrow> sync_allowed limit free req s call"
| "action_allowed limit free req s _ \<longleftrightarrow> True"

inductive ordered_reachable ::
  "memory_order \<Rightarrow> memory_order \<Rightarrow> bool \<Rightarrow> ('w, 'l, 'i::linorder, 'pr, 'f, 't) sync_ops \<Rightarrow> nat \<Rightarrow> ('w \<Rightarrow> 'l \<Rightarrow> bool) \<Rightarrow>
   ('w \<Rightarrow> 'l \<Rightarrow> 'i asking option) \<Rightarrow> ('w, 'l, 'f, 't) sync_state \<Rightarrow> ('i, 'f, 't) views \<Rightarrow> bool"
  for so lo :: memory_order and dbg :: bool and ops :: "('w, 'l, 'i, 'pr, 'f, 't) sync_ops" and limit :: nat
    and free :: "'w \<Rightarrow> 'l \<Rightarrow> bool" and req :: "'w \<Rightarrow> 'l \<Rightarrow> 'i asking option" where
  start: "ordered_reachable so lo dbg ops limit free req (sync_init ops) views_init"
| step: "ordered_reachable so lo dbg ops limit free req s v \<Longrightarrow> action_allowed limit free req s a \<Longrightarrow>
    sync_step dbg ops t a s = Some s' \<Longrightarrow> ordered_reachable so lo dbg ops limit free req s' (view_step so lo req t a s v)"

lemma ordered_sync_reachable:
  "ordered_reachable so lo dbg ops limit free req s v \<Longrightarrow> sync_reachable dbg ops limit free req s"
proof (induction rule: ordered_reachable.induct)
  case start
  show ?case by (rule sync_reachable.start)
next
  case (step s v a t s')
  show ?case
  proof (cases "\<exists>call f. a = Enter call f")
    case True
    with step show ?thesis by (auto intro: sync_reachable.enter)
  next
    case False
    with step show ?thesis by (blast intro: sync_reachable.step)
  qed
qed

section \<open>What the views contain\<close>

text \<open>The unlock calls that released something in conflict with a request.\<close>

definition conflicts :: "('i::linorder, 'f, 't) views \<Rightarrow> 'i asking \<Rightarrow> nat set" where
  "conflicts v a = {n. n < length (releases v) \<and> \<not> apart (releases v ! n) a}"

definition all_seen :: "('i, 'f, 't) views \<Rightarrow> nat set \<Rightarrow> bool" where
  "all_seen v ns \<longleftrightarrow> {..<length (releases v)} \<subseteq> ns"

definition waiter_sees where
  "waiter_sees so v fl t f a \<longleftrightarrow> (if fl f = Some True
     then (so = Release \<longrightarrow> conflicts v a \<subseteq> flag_view v f) \<and> (f \<in> notified v \<longrightarrow> conflicts v a \<subseteq> token_view v t) \<and>
       (f \<in> woken v \<longrightarrow> conflicts v a \<subseteq> seen v t)
     else f \<notin> notified v \<and> f \<notin> woken v)"

definition views_ok where
  "views_ok so rq s v \<longleftrightarrow>
     (\<forall>t. to_notify (control s t) \<noteq> None \<longrightarrow> all_seen v (seen v t)) \<and>
     ((\<forall>t. to_notify (control s t) = None) \<longrightarrow> all_seen v (mutex_view v)) \<and>
     (\<forall>t l f a. waiting_for (control s t) = Some (l, f) \<longrightarrow> rq l = Some a \<longrightarrow> waiter_sees so v (flags s) t f a) \<and>
     (\<forall>h r t log. control s h = Unparking r t log \<longrightarrow> (\<exists>f. last_store v h = Some f \<and>
        (\<forall>t' l. waiting_for (control s t') = Some (l, f) \<longrightarrow> t' = t \<and> flags s f = Some True)))"

lemma views_okD:
  assumes "views_ok so rq s v"
  shows "to_notify (control s t) \<noteq> None \<Longrightarrow> all_seen v (seen v t)"
    and "(\<And>t. to_notify (control s t) = None) \<Longrightarrow> all_seen v (mutex_view v)"
    and "waiting_for (control s t) = Some (l, f) \<Longrightarrow> rq l = Some a \<Longrightarrow> waiter_sees so v (flags s) t f a"
    and "control s h = Unparking r t log \<Longrightarrow>
      \<exists>f. last_store v h = Some f \<and> (\<forall>t' l. waiting_for (control s t') = Some (l, f) \<longrightarrow> t' = t \<and> flags s f = Some True)"
  using assms unfolding views_ok_def by blast+

lemma views_okI:
  assumes "\<And>t. to_notify (control s t) \<noteq> None \<Longrightarrow> all_seen v (seen v t)"
    and "(\<And>t. to_notify (control s t) = None) \<Longrightarrow> all_seen v (mutex_view v)"
    and "\<And>t l f a. waiting_for (control s t) = Some (l, f) \<Longrightarrow> rq l = Some a \<Longrightarrow> waiter_sees so v (flags s) t f a"
    and "\<And>h r t log. control s h = Unparking r t log \<Longrightarrow>
      \<exists>f. last_store v h = Some f \<and> (\<forall>t' l. waiting_for (control s t') = Some (l, f) \<longrightarrow> t' = t \<and> flags s f = Some True)"
  shows "views_ok so rq s v"
  using assms unfolding views_ok_def by blast

lemma all_seen_mono: "all_seen v ns \<Longrightarrow> releases v' = releases v \<Longrightarrow> ns \<subseteq> ns' \<Longrightarrow> all_seen v' ns'"
  by (auto simp: all_seen_def)

lemma conflicts_all: "all_seen v ns \<Longrightarrow> conflicts v a \<subseteq> ns"
  by (auto simp: all_seen_def conflicts_def)

lemma waiter_sees_mono:
  assumes "waiter_sees so v fl t f a" and "conflicts v' a \<subseteq> conflicts v a" "flag_view v' f = flag_view v f"
    and "token_view v t \<subseteq> token_view v' t" "seen v t \<subseteq> seen v' t" "f \<in> notified v' \<longleftrightarrow> f \<in> notified v"
    and "f \<in> woken v' \<longleftrightarrow> f \<in> woken v" "fl' f = fl f"
  shows "waiter_sees so v' fl' t f a"
  using assms unfolding waiter_sees_def by (auto split: if_splits)

lemma see_simps [simp]:
  "releases (see t ns v) = releases v" "seen (see t ns v) = (seen v)(t := seen v t \<union> ns)" "mutex_view (see t ns v) = mutex_view v"
  "token_view (see t ns v) = token_view v" "flag_view (see t ns v) = flag_view v" "last_store (see t ns v) = last_store v"
  "notified (see t ns v) = notified v" "woken (see t ns v) = woken v"
  by (simp_all add: see_def)

lemma new_flag_simps [simp]:
  "releases (new_flag f v) = releases v" "seen (new_flag f v) = seen v" "mutex_view (new_flag f v) = mutex_view v"
  "token_view (new_flag f v) = token_view v" "flag_view (new_flag f v) = (flag_view v)(f := {})" "last_store (new_flag f v) = last_store v"
  "notified (new_flag f v) = notified v - {f}" "woken (new_flag f v) = woken v - {f}"
  by (simp_all add: new_flag_def)

context sync_core
begin

lemma mutex_free:
  assumes "good_state s" "held_by (raw_core s) = None"
  shows "to_notify (control s t) = None"
  using controls_okD(2) [OF invD(4) [OF assms(1)], of t] assms(2) by (cases "to_notify (control s t)") simp_all

lemma waiter_facts:
  assumes "good_state s" and "waiting_for (control s t) = Some (l, f)"
  shows "flags s f \<noteq> None" "req (core_of s) l \<noteq> None" "flags s f = Some True \<Longrightarrow> waits (core_of s) l = None"
  using controls_okD(3) [OF invD(4) [OF assms(1)] assms(2)] by (auto simp: waiter_ok_def)

lemma views_enter_lock:
  assumes inv: "good_state s" and V: "views_ok so (req (core_of s)) s v" and al: "sync_allowed limit free req s call"
    and c: "call_asks call = Some a" and step: "sync_step dbg ops t (Enter call f) s = Some s'"
  shows "views_ok so (req (core_of s')) s' (view_step so lo req t (Enter call f) s v)"
proof -
  let ?v = "view_step so lo req t (Enter call f) s v" and ?l = "call_state call"
  from enter_lock_effect [OF inv al c step] obtain k where k1: "control s' = (control s)(t := k)" "held_by (raw_core s) = None" and
    e: "req (core_of s') = (req (core_of s))(?l \<mapsto> a) \<and> flags s' = flags s \<and> (k = Done Nothing \<or> k = Done (Answer True)) \<or>
     req (core_of s') = (req (core_of s))(?l \<mapsto> a) \<and> flags s f = None \<and> flags s' = (flags s)(f \<mapsto> False) \<and> k = Loading ?l f \<or>
     req (core_of s') = req (core_of s) \<and> flags s' = flags s \<and> k = Done (Answer False)" by blast
  have k2: "to_notify k = None" "\<And>l f'. waiting_for k = Some (l, f') \<Longrightarrow> f' = f \<and> flags s f = None \<and> flags s' f = Some False"
    "\<And>l'. l' \<noteq> ?l \<Longrightarrow> req (core_of s') l' = req (core_of s) l'" "\<And>f'. f' \<noteq> f \<Longrightarrow> flags s' f' = flags s f'"
    "flags s f \<noteq> None \<Longrightarrow> flags s' f = flags s f" using e by auto
  note k = k1 k2
  have fr: "req (core_of s) ?l = None" using al c free_req [OF invD(1) [OF inv], of ?l] by (cases call) simp_all
  have n: "to_notify (control s t') = None" for t' by (rule mutex_free [OF inv k(2)])
  have "all_seen v (mutex_view v)" using views_okD(2) [OF V n] .
  then have "all_seen ?v (mutex_view ?v)" by (rule all_seen_mono) (auto simp: Let_def c)
  moreover have n': "to_notify (control s' t') = None" for t' using n k(1,3) by simp
  moreover have "control s' h \<noteq> Unparking r t' log" for h r t' log using n' [of h] by auto
  moreover have "waiter_sees so ?v (flags s') t' f' b"
    if w: "waiting_for (control s' t') = Some (l', f')" and r: "req (core_of s') l' = Some b" for t' l' f' b
  proof (cases "t' = t")
    case True
    with w k(1,4) have "f' = f" "flags s f = None" "flags s' f = Some False" by auto
    then show ?thesis by (simp add: waiter_sees_def Let_def c)
  next
    case False
    with w k(1) have w: "waiting_for (control s t') = Some (l', f')" by simp
    note W = waiter_facts [OF inv w]
    have "l' \<noteq> ?l" using W(2) fr by auto
    with r k(5) have "req (core_of s) l' = Some b" by simp
    from views_okD(3) [OF V w this] have "waiter_sees so v (flags s) t' f' b" .
    then show ?thesis
    proof (rule waiter_sees_mono)
      show "flags s' f' = flags s f'" using W(1) k(6,7) by (cases "f' = f") auto
    qed (use W(1) in \<open>auto simp: Let_def c conflicts_def\<close>)
  qed
  ultimately show ?thesis by (intro views_okI) simp_all
qed

lemma views_enter_unlock:
  assumes inv: "good_state s" and V: "views_ok so (req (core_of s)) s v" and al: "sync_allowed limit free req s call"
    and c: "call_asks call = None" and step: "sync_step dbg ops t (Enter call f) s = Some s'"
  shows "views_ok so (req (core_of s')) s' (view_step so lo req t (Enter call f) s v)"
proof -
  let ?v = "view_step so lo req t (Enter call f) s v" and ?l = "call_state call"
  from enter_unlock_effect [OF inv al c step] obtain a r log where
    e: "guard_of req s ?l = Some a" "req (core_of s') = (req (core_of s))(?l := None)" "control s' = (control s)(t := Storing r log)"
    "flags s' = flags s" "held_by (raw_core s) = None" by blast
  note G = guard_of_Some [OF inv e(1)]
  have n: "to_notify (control s t') = None" for t' by (rule mutex_free [OF inv e(5)])
  have all: "all_seen v (mutex_view v)" using views_okD(2) [OF V n] .
  have "all_seen ?v (seen ?v t)" using all by (auto simp: all_seen_def Let_def c lessThan_Suc)
  moreover have "control s' h \<noteq> Unparking r t' log" for h r t' log using n [of h] e(3) by auto
  moreover have "waiter_sees so ?v (flags s') t' f' b"
    if w': "waiting_for (control s' t') = Some (l', f')" and r: "req (core_of s') l' = Some b" for t' l' f' b
  proof -
    from w' e(3) have w: "waiting_for (control s t') = Some (l', f')" by (simp split: if_splits)
    note W = waiter_facts [OF inv w]
    have l': "l' \<noteq> ?l" using G(2) [of t' f'] w by auto
    with r e(2) have r: "req (core_of s) l' = Some b" by simp
    note ws = views_okD(3) [OF V w this]
    show ?thesis
    proof (cases "flags s f' = Some True")
      case True
      from exclusion [OF invD(1) [OF inv] G(1,3) r W(3) [OF True]] l' have "apart a b" by blast
      then have "conflicts ?v b \<subseteq> conflicts v b" using G(1) by (auto simp: conflicts_def Let_def c nth_append)
      then show ?thesis by (rule waiter_sees_mono [OF ws]) (auto simp: Let_def c e(4))
    next
      case False
      with ws show ?thesis by (auto simp: waiter_sees_def Let_def c e(4))
    qed
  qed
  moreover have "t' = t" if "to_notify (control s' t') \<noteq> None" for t' using that n e(3) by (cases "t' = t") simp_all
  moreover have "to_notify (control s' t) \<noteq> None" using e(3) by simp
  ultimately show ?thesis by (intro views_okI) metis+
qed

text \<open>The steps inside the methods that keep the flags.\<close>

lemma views_keep:
  assumes V: "views_ok so (req (core_of s)) s v" and r: "req (core_of s') = req (core_of s)" "releases v' = releases v"
    and c: "\<And>t. waiting_for (control s' t) = waiting_for (control s t)" "\<And>h r t log. control s' h = Unparking r t log \<Longrightarrow> control s h = Unparking r t log"
    and f: "flags s' = flags s" "flag_view v' = flag_view v" "notified v' = notified v" "last_store v' = last_store v"
    and m: "\<And>t. seen v t \<subseteq> seen v' t" "\<And>t. token_view v t \<subseteq> token_view v' t"
    and n: "\<And>t. to_notify (control s' t) \<noteq> None \<Longrightarrow> all_seen v' (seen v' t)"
      "(\<And>t. to_notify (control s' t) = None) \<Longrightarrow> all_seen v' (mutex_view v')"
    and w: "\<And>t l f a. f \<in> woken v' \<Longrightarrow> f \<notin> woken v \<Longrightarrow> waiting_for (control s t) = Some (l, f) \<Longrightarrow> req (core_of s) l = Some a \<Longrightarrow>
      flags s f = Some True \<and> conflicts v a \<subseteq> seen v' t" and wm: "woken v \<subseteq> woken v'"
  shows "views_ok so (req (core_of s')) s' v'"
proof -
  have "waiter_sees so v' (flags s') t f a" if "waiting_for (control s' t) = Some (l, f)" "req (core_of s') l = Some a" for t l f a
  proof -
    from that c(1) r have g: "waiting_for (control s t) = Some (l, f)" "req (core_of s) l = Some a" by simp_all
    have cf: "conflicts v' a = conflicts v a" by (simp add: conflicts_def r(2))
    from views_okD(3) [OF V g] w [OF _ _ g] m [of t] wm show ?thesis
      unfolding waiter_sees_def cf f by (auto split: if_splits)
  qed
  moreover have "\<exists>f. last_store v' h = Some f \<and> (\<forall>t' l. waiting_for (control s' t') = Some (l, f) \<longrightarrow> t' = t \<and> flags s' f = Some True)"
    if "control s' h = Unparking r t log" for h r t log
    using views_okD(4) [OF V c(2) [OF that]] by (simp add: c(1) f)
  ultimately show ?thesis by (intro views_okI n) assumption+
qed

lemma views_load:
  assumes inv: "good_state s" and V: "views_ok so (req (core_of s)) s v" and step: "sync_step dbg ops t Load s = Some s'"
    and v': "v' = view_step so lo req t Load s v"
  shows "views_ok so (req (core_of s')) s' v'"
proof -
  from step obtain l f where k: "control s t = Loading l f" by (auto simp: sync_load_def split: control.splits)
  then have w: "waiting_for (control s t) = Some (l, f)" by simp
  note W = waiter_facts [OF inv w]
  have v: "releases v' = releases v" "flag_view v' = flag_view v" "notified v' = notified v" "last_store v' = last_store v"
    "token_view v' = token_view v" "woken v' = woken v" "mutex_view v' = mutex_view v" "seen v t' \<subseteq> seen v' t'" for t'
    by (auto simp: k v')
  have tn: "to_notify (control s' t') = to_notify (control s t')" "core_of s' = core_of s" for t'
    using step k W(1) by (auto simp: sync_load_def split: option.splits bool.splits)
  have unp: "control s' h = Unparking r t' log \<Longrightarrow> control s h = Unparking r t' log" for h r t' log
    using step k W(1) by (auto simp: sync_load_def split: option.splits bool.splits if_splits)
  have n: "to_notify (control s' t') \<noteq> None \<Longrightarrow> all_seen v' (seen v' t')"
    "(\<And>t. to_notify (control s' t) = None) \<Longrightarrow> all_seen v' (mutex_view v')" for t'
    unfolding tn using all_seen_mono [OF views_okD(1) [OF V] v(1,8)] all_seen_mono [OF views_okD(2) [OF V] v(1)] v(7) by blast+
  show ?thesis
  proof (cases "flags s f = Some True")
    case False
    with step k W(1) have s': "s' = goto t (Parking l f) s" by (auto simp: sync_load_def split: option.splits bool.splits)
    show ?thesis by (rule views_keep [OF V _ v(1) _ unp _ v(2-4,8) _ n]) (auto simp: s' v k)
  next
    case True
    with step k have s': "s' = goto t (Done Nothing) (s\<lparr>flags := (flags s)(f := None)\<rparr>)" by (auto simp: sync_load_def)
    have "waiter_sees so v' (flags s') t' f' b" if w': "waiting_for (control s' t') = Some (l', f')" and r: "req (core_of s') l' = Some b"
      for t' l' f' b
    proof -
      from w' have w2: "waiting_for (control s t') = Some (l', f')" "t' \<noteq> t" by (auto simp: s' split: if_splits)
      have "f' \<noteq> f" using controls_okD(5) [OF invD(4) [OF inv] w w2(1)] w2(2) by blast
      then have fl: "flags s' f' = flags s f'" by (simp add: s')
      from r have "req (core_of s) l' = Some b" by (simp add: s')
      from views_okD(3) [OF V w2(1) this] show ?thesis
        by (rule waiter_sees_mono) (simp_all only: v fl conflicts_def order_refl)
    qed
    moreover have "\<exists>f. last_store v' h = Some f \<and> (\<forall>t' l. waiting_for (control s' t') = Some (l, f) \<longrightarrow> t' = t1 \<and> flags s' f = Some True)"
      if h: "control s' h = Unparking r t1 log" for h r t1 log
    proof -
      from views_okD(4) [OF V unp [OF h]] obtain f1 where
        f1: "last_store v h = Some f1" "\<And>t' l. waiting_for (control s t') = Some (l, f1) \<Longrightarrow> t' = t1 \<and> flags s f1 = Some True" by blast
      have "t' = t1 \<and> flags s' f1 = Some True" if w': "waiting_for (control s' t') = Some (l', f1)" for t' l'
      proof -
        from w' have w2: "waiting_for (control s t') = Some (l', f1)" "t' \<noteq> t" by (auto simp: s' split: if_splits)
        have "f1 \<noteq> f" using controls_okD(5) [OF invD(4) [OF inv] w w2(1)] w2(2) by blast
        with f1(2) [OF w2(1)] show ?thesis by (simp add: s')
      qed
      with f1(1) v(4) show ?thesis by auto
    qed
    ultimately show ?thesis by (intro views_okI n) assumption+
  qed
qed

lemma views_park:
  assumes inv: "good_state s" and V: "views_ok so (req (core_of s)) s v" and step: "sync_step dbg ops t Park s = Some s'"
    and v': "v' = view_step so lo req t Park s v"
  shows "views_ok so (req (core_of s')) s' v'"
proof -
  from step obtain l f where k: "control s t = Parking l f" and s': "s' = goto t (Loading l f) (s\<lparr>token := (token s)(t := False)\<rparr>)"
    by (auto simp: sync_park_def split: control.splits if_splits)
  have v: "releases v' = releases v" "flag_view v' = flag_view v" "notified v' = notified v" "last_store v' = last_store v"
    "token_view v' = token_view v" "woken v \<subseteq> woken v'" "mutex_view v' = mutex_view v" "seen v t' \<subseteq> seen v' t'" for t'
    by (auto simp: k v')
  have tn: "to_notify (control s' t') = to_notify (control s t')" for t' using k by (simp add: s')
  have n: "to_notify (control s' t') \<noteq> None \<Longrightarrow> all_seen v' (seen v' t')"
    "(\<And>t. to_notify (control s' t) = None) \<Longrightarrow> all_seen v' (mutex_view v')" for t'
    unfolding tn using all_seen_mono [OF views_okD(1) [OF V] v(1,8)] all_seen_mono [OF views_okD(2) [OF V] v(1)] v(7) by blast+
  have w: "flags s f' = Some True \<and> conflicts v b \<subseteq> seen v' t'"
    if f': "f' \<in> woken v'" "f' \<notin> woken v" and g: "waiting_for (control s t') = Some (l', f')" "req (core_of s) l' = Some b" for t' l' f' b
  proof -
    from f' have 1: "f' = f" "f \<in> notified v" by (auto simp: v' k)
    with controls_okD(5) [OF invD(4) [OF inv] g(1), of t l f] k have "t' = t" by simp
    with views_okD(3) [OF V g] 1 f' show ?thesis by (auto simp: waiter_sees_def v' k split: if_splits)
  qed
  show ?thesis by (rule views_keep [OF V _ v(1) _ _ _ v(2-4,8) _ n w v(6)]) (auto simp: s' v(5) k split: if_splits)
qed

lemma views_spurious:
  assumes V: "views_ok so (req (core_of s)) s v" and step: "sync_step dbg ops t SpuriousWakeup s = Some s'"
  shows "views_ok so (req (core_of s')) s' v"
proof -
  from step obtain l f where k: "control s t = Parking l f" and s': "s' = goto t (Loading l f) s"
    by (auto simp: sync_park_def split: control.splits if_splits)
  have tn: "to_notify (control s' t') = to_notify (control s t')" for t' using k by (simp add: s')
  have n: "to_notify (control s' t') \<noteq> None \<Longrightarrow> all_seen v (seen v t')"
    "(\<And>t. to_notify (control s' t) = None) \<Longrightarrow> all_seen v (mutex_view v)" for t'
    unfolding tn by (rule views_okD(1,2) [OF V], assumption)+
  show ?thesis by (rule views_keep [OF V _ refl _ _ _ refl refl refl _ _ n]) (auto simp: s' k split: if_splits)
qed

lemma views_store:
  assumes inv: "good_state s" and V: "views_ok so (req (core_of s)) s v" and step: "sync_step dbg ops t Store s = Some s'"
    and v': "v' = view_step so lo req t Store s v"
  shows "views_ok so (req (core_of s')) s' v'"
proof -
  note C = controls_okD [OF invD(4) [OF inv]]
  from step obtain r ip log where k: "control s t = Storing r (ip # log)" by (auto simp: sync_store_def split: control.splits list.splits)
  let ?f = "complete ip"
  have tn: "to_notify (control s t) = Some (ip # log)" by (simp add: k)
  from C(7) [OF tn] have f: "flags s ?f = Some False" by simp
  from C(8) [OF tn] obtain l where w: "waiting_for (control s (waiter ip)) = Some (l, ?f)" by force
  from step k f have s': "s' = goto t (Unparking r (waiter ip) log) (s\<lparr>flags := (flags s)(?f \<mapsto> True)\<rparr>)" by (simp add: sync_store_def)
  have all: "all_seen v (seen v t)" using views_okD(1) [OF V] tn by simp
  have wait: "waiting_for (control s' t') = waiting_for (control s t')" for t' using k by (simp add: s')
  have alone: "t' = t" if "to_notify (control s' t') \<noteq> None" for t'
    using C(2) [of t'] C(2) [of t] that tn by (cases "t' = t") (auto simp: s')
  show ?thesis
  proof (rule views_okI)
    show "all_seen v' (seen v' t')" if "to_notify (control s' t') \<noteq> None" for t'
      using alone [OF that] all by (simp add: v' k all_seen_def)
    show "all_seen v' (mutex_view v')" if "\<And>t. to_notify (control s' t) = None" using that [of t] by (simp add: s')
  next
    fix t' l' f' b assume g: "waiting_for (control s' t') = Some (l', f')" "req (core_of s') l' = Some b"
    from g wait have g': "waiting_for (control s t') = Some (l', f')" "req (core_of s) l' = Some b" by (simp_all add: s')
    note ws = views_okD(3) [OF V g']
    show "waiter_sees so v' (flags s') t' f' b"
    proof (cases "f' = ?f")
      case True
      with ws f conflicts_all [OF all, of b] show ?thesis by (auto simp: waiter_sees_def s' v' k conflicts_def)
    next
      case False
      then show ?thesis by (intro waiter_sees_mono [OF ws]) (simp_all add: s' v' k conflicts_def)
    qed
  next
    fix h r' t1 log' assume h: "control s' h = Unparking r' t1 log'"
    then have "h = t" by (intro alone) simp
    with h have h': "h = t" "t1 = waiter ip" by (simp_all add: s')
    have "last_store v' h = Some ?f" "flags s' ?f = Some True" by (simp_all add: v' k s' h')
    moreover have "t' = waiter ip" if "waiting_for (control s' t') = Some (l', ?f)" for t' l'
      using C(5) [OF w, of t' l' ?f] that wait by simp
    ultimately show "\<exists>f. last_store v' h = Some f \<and> (\<forall>t' l. waiting_for (control s' t') = Some (l, f) \<longrightarrow> t' = t1 \<and> flags s' f = Some True)"
      unfolding h'(2) by blast
  qed
qed

lemma views_unpark:
  assumes inv: "good_state s" and V: "views_ok so (req (core_of s)) s v" and step: "sync_step dbg ops t Unpark s = Some s'"
    and v': "v' = view_step so lo req t Unpark s v"
  shows "views_ok so (req (core_of s')) s' v'"
proof -
  note C = controls_okD [OF invD(4) [OF inv]]
  from step obtain r t1 log where k: "control s t = Unparking r t1 log" by (auto simp: sync_unpark_def split: control.splits)
  with step have s': "s' = goto t (Storing r log) (s\<lparr>token := (token s)(t1 := True)\<rparr>)" by (simp add: sync_unpark_def)
  from views_okD(4) [OF V k] obtain f where
    f: "last_store v t = Some f" "\<And>t' l. waiting_for (control s t') = Some (l, f) \<Longrightarrow> t' = t1 \<and> flags s f = Some True" by blast
  have tn: "to_notify (control s' t') = to_notify (control s t')" for t' using k by (simp add: s')
  have wait: "waiting_for (control s' t') = waiting_for (control s t')" for t' using k by (simp add: s')
  have all: "all_seen v (seen v t)" using views_okD(1) [OF V, of t] k by simp
  have v: "releases v' = releases v" "seen v' = seen v" "mutex_view v' = mutex_view v" "flag_view v' = flag_view v"
    "last_store v' = last_store v" "woken v' = woken v" "notified v' = insert f (notified v)"
    "token_view v' = (token_view v)(t1 := token_view v t1 \<union> seen v t)"
    by (auto simp: v' k f(1))
  show ?thesis
  proof (rule views_okI)
    show "all_seen v' (seen v' t')" if "to_notify (control s' t') \<noteq> None" for t'
      using views_okD(1) [OF V, of t'] that by (simp add: tn v all_seen_def)
    show "all_seen v' (mutex_view v')" if "\<And>t. to_notify (control s' t) = None" using that [of t] by (simp add: s')
  next
    fix t' l' f' b assume g: "waiting_for (control s' t') = Some (l', f')" "req (core_of s') l' = Some b"
    from g wait have g': "waiting_for (control s t') = Some (l', f')" "req (core_of s) l' = Some b" by (simp_all add: s')
    note ws = views_okD(3) [OF V g']
    have fl: "flags s' = flags s" and cf: "conflicts v' b = conflicts v b" by (simp_all add: s' conflicts_def v)
    show "waiter_sees so v' (flags s') t' f' b"
    proof (cases "f' = f")
      case True
      with f(2) g'(1) have "t' = t1" "flags s f' = Some True" by simp_all
      with ws conflicts_all [OF all, of b] True show ?thesis unfolding waiter_sees_def fl cf by (auto simp: v)
    next
      case False
      with ws show ?thesis unfolding waiter_sees_def fl cf by (auto simp: v split: if_splits)
    qed
  next
    fix h r' t2 log' assume h: "control s' h = Unparking r' t2 log'"
    then have "h \<noteq> t" by (auto simp: s')
    moreover have "to_notify (control s h) \<noteq> None" unfolding tn [symmetric] h by simp
    ultimately show "\<exists>f. last_store v' h = Some f \<and> (\<forall>t' l. waiting_for (control s' t') = Some (l, f) \<longrightarrow> t' = t2 \<and> flags s' f = Some True)"
      using C(2) [of h] C(2) [of t] k by simp
  qed
qed

lemma views_leave:
  assumes inv: "good_state s" and V: "views_ok so (req (core_of s)) s v" and step: "sync_step dbg ops t Leave s = Some s'"
    and v': "v' = view_step so lo req t Leave s v"
  shows "views_ok so (req (core_of s')) s' v'"
proof -
  note C = controls_okD [OF invD(4) [OF inv]]
  from step obtain r where k: "control s t = Storing r []" by (auto simp: sync_leave_def split: control.splits list.splits)
  with C(1) [of t] have "r = None" by simp
  with step k have s': "s' = goto t (Done Nothing) (s\<lparr>raw_core := drop_guard False (raw_core s)\<rparr>)" by (simp add: sync_leave_def)
  have all: "all_seen v (seen v t)" using views_okD(1) [OF V, of t] k by simp
  have other: "to_notify (control s' t') = None" for t'
  proof (cases "t' = t")
    case False
    with C(2) [of t'] C(2) [of t] k show ?thesis by (cases "to_notify (control s t')") (simp_all add: s')
  qed (simp add: s')
  show ?thesis
  proof (rule views_okI)
    fix t' l' f' b assume g: "waiting_for (control s' t') = Some (l', f')" "req (core_of s') l' = Some b"
    then have g': "waiting_for (control s t') = Some (l', f')" "req (core_of s) l' = Some b" by (auto simp: s' split: if_splits)
    have fl: "flags s' = flags s" by (simp add: s')
    show "waiter_sees so v' (flags s') t' f' b" unfolding fl by (rule waiter_sees_mono [OF views_okD(3) [OF V g']]) (simp_all add: v' conflicts_def)
  next
    fix h r' t2 log' assume h: "control s' h = Unparking r' t2 log'"
    with other [of h] show "\<exists>f. last_store v' h = Some f \<and> (\<forall>t' l. waiting_for (control s' t') = Some (l, f) \<longrightarrow> t' = t2 \<and> flags s' f = Some True)"
      by simp
  qed (use other all in \<open>simp_all add: v' all_seen_def\<close>)
qed

lemma views_init_ok: "views_ok so (req (core_of (sync_init ops))) (sync_init ops) views_init"
  by (auto simp: views_ok_def sync_init_def views_init_def all_seen_def)

lemma ordered_views: "ordered_reachable so lo dbg ops limit free req s v \<Longrightarrow> good_state s \<and> views_ok so (req (core_of s)) s v"
proof (induction rule: ordered_reachable.induct)
  case start
  show ?case using inv_init views_init_ok by blast
next
  case (step s v a t s')
  have "sync_reachable dbg ops limit free req s'"
    by (rule ordered_sync_reachable, rule ordered_reachable.step) (rule step.hyps)+
  then have good: "good_state s'" by (rule reachable_inv)
  have inv: "good_state s" and V: "views_ok so (req (core_of s)) s v" using step.IH by blast+
  have "views_ok so (req (core_of s')) s' (view_step so lo req t a s v)"
  proof (cases a)
    case (Enter call f)
    with step.hyps(2,3) have e: "sync_allowed limit free req s call" "sync_step dbg ops t (Enter call f) s = Some s'" by simp_all
    show ?thesis
    proof (cases "call_asks call")
      case None
      from views_enter_unlock [OF inv V e(1) None e(2)] show ?thesis unfolding Enter .
    next
      case (Some b)
      from views_enter_lock [OF inv V e(1) Some e(2)] show ?thesis unfolding Enter .
    qed
  next
    case SpuriousWakeup
    with views_spurious [OF V] step.hyps(3) show ?thesis by simp
  qed (use step.hyps(3) views_load [OF inv V _ refl] views_park [OF inv V _ refl] views_store [OF inv V _ refl]
      views_unpark [OF inv V _ refl] views_leave [OF inv V _ refl] in \<open>simp_all only:\<close>)
  with good show ?case by blast
qed

text \<open>What a thread has seen when a locking method returns.\<close>

lemma return_seen:
  assumes R: "ordered_reachable so lo dbg ops limit free req s v" and w: "waiting_for (control s t) = Some (l, f)"
    and step: "sync_step dbg ops t Load s = Some s'" and d: "is_done (control s' t)" and a: "req (core_of s) l = Some a"
    and order: "so = Release \<and> lo = Acquire \<or> f \<in> woken v"
    and v': "v' = view_step so lo req t Load s v"
  shows "conflicts v' a \<subseteq> seen v' t"
proof -
  from ordered_views [OF R] have inv: "good_state s" and V: "views_ok so (req (core_of s)) s v" by blast+
  from w step d have k: "control s t = Loading l f" "flags s f = Some True"
    by (auto simp: sync_load_def waiting_for_Some split: option.splits bool.splits)
  from views_okD(3) [OF V w a] k(2) order show ?thesis by (auto simp: waiter_sees_def v' k(1) conflicts_def)
qed

lemma enter_seen:
  assumes R: "ordered_reachable so lo dbg ops limit free req s v" and al: "sync_allowed limit free req s call"
    and c: "call_asks call = Some a" and step: "sync_step dbg ops t (Enter call f) s = Some s'"
    and v': "v' = view_step so lo req t (Enter call f) s v"
  shows "conflicts v' a \<subseteq> seen v' t"
proof -
  from ordered_views [OF R] have inv: "good_state s" and V: "views_ok so (req (core_of s)) s v" by blast+
  from enter_lock_effect [OF inv al c step] have "held_by (raw_core s) = None" by blast
  then have "to_notify (control s t') = None" for t' by (rule mutex_free [OF inv])
  then have "all_seen v (mutex_view v)" by (rule views_okD(2) [OF V])
  then show ?thesis by (auto simp: v' Let_def c all_seen_def conflicts_def)
qed

end

section \<open>Runs of two threads\<close>

abbreviation ordered_rb_reachable where
  "ordered_rb_reachable so lo dbg self \<equiv> ordered_reachable so lo dbg (rbtree_ops dbg self) (2 ^ 63 - 1) rb_free (rb_req self)"

type_synonym demo_ordered = "demo_sync \<times> (nat, nat, bool) views"

definition ordered_after :: "bool \<Rightarrow> (demo_lock, nat, nat, nat) sync_action \<Rightarrow> demo_ordered \<Rightarrow> demo_ordered" where
  "ordered_after t a sv = (case sync_step True demo_ops t a (fst sv) of
     Some s' \<Rightarrow> (s', view_step store_order load_order (rb_req 0) t a (fst sv) (snd sv)) | None \<Rightarrow> sv)"

text \<open>
  With the orderings of the source.  \<open>waiting\<close>: thread \<open>True\<close> has locked 2..6 for writing, and thread \<open>False\<close>, which asks for
  4..8, is about to load its flag.  \<open>raced\<close>: meanwhile, \<open>True\<close> has unlocked and stored into the flag.  \<open>awake\<close>: \<open>False\<close> has parked
  before, and \<open>True\<close> has unparked it.
\<close>

definition waiting :: demo_ordered where
  "waiting = ordered_after False (Enter (RawLockRead (Range 4 8) 1 LockB) 1)
     (ordered_after True (Enter (RawLockWrite (Range 2 6) 0 LockA) 0) (sync_init demo_ops, views_init))"

definition raced :: demo_ordered where
  "raced = ordered_after True Store (ordered_after True (Enter (RawUnlockWrite LockA) 2) waiting)"

definition awake :: demo_ordered where
  "awake = ordered_after False Park (ordered_after True Unpark (ordered_after True Store
     (ordered_after True (Enter (RawUnlockWrite LockA) 2) (ordered_after False Load waiting))))"

abbreviation demo_ordered_reachable :: "demo_ordered \<Rightarrow> bool" where
  "demo_ordered_reachable sv \<equiv> ordered_rb_reachable store_order load_order True 0 (fst sv) (snd sv)"

lemma ordered_after_reachable:
  assumes "demo_ordered_reachable sv" and "action_allowed (2 ^ 63 - 1) rb_free (rb_req 0) (fst sv) a"
  shows "demo_ordered_reachable (ordered_after t a sv)"
  using assms ordered_reachable.step [OF assms, of t] by (auto simp: ordered_after_def demo_ops_def split: option.splits)

lemma waiting_state: "fst waiting = sync2"
  by (simp add: waiting_def ordered_after_def sync2_def sync1_def sync_after_def split: option.splits)

lemma waiting_reachable: "demo_ordered_reachable waiting"
proof -
  have "demo_ordered_reachable (sync_init demo_ops, views_init)" by (simp add: demo_ops_def ordered_reachable.start)
  moreover have "fst (ordered_after True (Enter (RawLockWrite (Range 2 6) 0 LockA) 0) (sync_init demo_ops, views_init)) = sync1"
    by (simp add: ordered_after_def sync1_def sync_after_def split: option.splits)
  ultimately show ?thesis
    unfolding waiting_def by (intro ordered_after_reachable) (simp_all add: sync_frees demo_card del: not_None_eq)
qed

lemma waiting_guard: "guard_of (rb_req 0) sync2 LockA = Some (True, 2, 6)"
  using sync_controls by (auto simp: guard_of_def ex_bool_eq) code_simp

lemma raced_reachable: "demo_ordered_reachable raced"
  unfolding raced_def by (intro ordered_after_reachable waiting_reachable) (simp_all add: waiting_state waiting_guard)

lemma raced_facts:
  "control (fst raced) False = Loading LockB 1" "flags (fst raced) 1 = Some True" "rb_req 0 (core_of (fst raced)) LockB = Some (False, 4, 8)"
  "releases (snd raced) = [(True, 2, 6)]" "0 \<notin> seen (snd raced) False"
  by code_simp+

lemma awake_reachable: "demo_ordered_reachable awake"
proof -
  have "fst (ordered_after False Load waiting) = sync3"
    by (simp add: ordered_after_def waiting_state sync3_def sync_after_def split: option.splits)
  then show ?thesis
    unfolding awake_def by (intro ordered_after_reachable waiting_reachable) (simp_all add: sync_guard3)
qed

lemma awake_facts:
  "control (fst awake) False = Loading LockB 1" "flags (fst awake) 1 = Some True" "rb_req 0 (core_of (fst awake)) LockB = Some (False, 4, 8)"
  "releases (snd awake) = [(True, 2, 6)]" "1 \<in> woken (snd awake)"
  by code_simp+

section \<open>Properties\<close>

text \<open>C30. Data races.  With the orderings of the source, a thread may return from \<open>lock_read\<close> without having seen the release of a lock
  that was in its way: the thread that unlocks has stored into the flag, and the waiting thread loads the flag before it
  parks.  Then nothing orders the accesses under the released writer lock before those under the new guard.\<close>

theorem relaxed_flag_races:
  "\<exists>(s :: demo_sync) (v :: (nat, nat, bool) views) s'. ordered_rb_reachable store_order load_order True 0 s v \<and> sync_load False s = Some s' \<and>
    is_done (control s' False) \<and> guard_of (rb_req 0) s' LockB = Some (False, 4, 8) \<and> releases v = [(True, 2, 6)] \<and>
    0 \<notin> seen (view_step store_order load_order (rb_req 0) False (Load :: (demo_lock, nat, nat, nat) sync_action) s v) False"
proof -
  let ?s = "fst raced" and ?v = "snd raced"
  define s' where "s' = goto False (Done Nothing) (?s\<lparr>flags := (flags ?s)(1 := None)\<rparr>)"
  have load: "sync_load False ?s = Some s'" by (simp add: sync_load_def raced_facts(1,2) s'_def del: One_nat_def)
  have "guard_of (rb_req 0) s' LockB = Some (False, 4, 8)"
    using sync_rb.load_returns(1) [where self = 0 and dbg = True and t = False and l = LockB and f = 1 and s = ?s and s' = s']
      sync_rb.ordered_views [OF raced_reachable] load raced_facts(1,3) by (simp add: s'_def del: One_nat_def)
  moreover have "view_step store_order load_order (rb_req 0) False (Load :: (demo_lock, nat, nat, nat) sync_action) ?s ?v = ?v"
    by (simp add: raced_facts load_order_def)
  ultimately show ?thesis
    using raced_reachable load raced_facts(4,5) by (intro exI [of _ ?s] exI [of _ ?v] exI [of _ s']) (simp add: s'_def del: One_nat_def view_step.simps)
qed

text \<open>C29. Synchronisation.  A thread whose waiting loop ends has seen every release of a lock that was in the way of its own, if it has come
  back from \<open>park\<close> after the \<open>unpark\<close> that followed the store into its flag, as with the orderings of the source, or if the
  flag is stored with \<open>Release\<close> and loaded with \<open>Acquire\<close>.\<close>

theorem return_sees_releases:
  assumes "ordered_rb_reachable so lo dbg self s v" and "waiting_for (control s t) = Some (l, f)" "rb_req self (core_of s) l = Some a"
    and "sync_load t s = Some s'" "is_done (control s' t)" and "so = Release \<and> lo = Acquire \<or> f \<in> woken v"
    and "v' = view_step so lo (rb_req self) t Load s v" and "n < length (releases v)" "\<not> apart (releases v ! n) a"
  shows "n \<in> seen v' t"
proof -
  have "sync_step dbg (rbtree_ops dbg self) t Load s = Some s'" using assms(4) by simp
  from sync_rb.return_seen [OF assms(1,2) this assms(5,3,6,7)] have "conflicts v' a \<subseteq> seen v' t" .
  moreover have "releases v' = releases v" by (simp add: assms(7) split: control.splits)
  ultimately show ?thesis using assms(8,9) by (auto simp: conflicts_def)
qed

theorem return_sees_releases_witness:
  "0 \<in> seen (view_step store_order load_order (rb_req 0) False (Load :: (demo_lock, nat, nat, nat) sync_action) (fst awake) (snd awake)) False"
proof -
  have "sync_load False (fst awake) = Some (goto False (Done Nothing) ((fst awake)\<lparr>flags := (flags (fst awake))(1 := None)\<rparr>))"
    by (simp add: sync_load_def awake_facts del: One_nat_def)
  from return_sees_releases [OF awake_reachable _ awake_facts(3) this _ _ refl, of 1 0] show ?thesis
    by (simp add: awake_facts apart_def del: One_nat_def)
qed

end
