(* ===== verification/Raw_Future.thy ===== *)
theory Raw_Future
  imports Raw_Mutex
begin

text \<open>
  The lock for futures of \<open>src/raw/future.rs\<close>.  A method locks the mutex, a parameter of the source, for its whole
  body, so that it is one function on the core and on the log of wakers that have been woken.
\<close>

section \<open>Wakers\<close>

text \<open>
  A \<open>Waker\<close> is supplied by the executor that polls: \<open>will_wake\<close> and \<open>clone\<close> are its operations.
\<close>

record 'k waker_api =
  will_wake :: "'k \<Rightarrow> 'k \<Rightarrow> bool"
  clone_waker :: "'k \<Rightarrow> 'k"

text \<open>\<open>InProgress\<close> and \<open>InProgress::set_waker\<close>\<close>

record 'k async_in_progress =
  waker :: "'k option"

definition set_waker :: "'k waker_api \<Rightarrow> 'k async_in_progress \<Rightarrow> 'k \<Rightarrow> 'k async_in_progress" where
  "set_waker wk ip new = (case waker ip of
     Some old \<Rightarrow> if will_wake wk old new then ip else ip\<lparr>waker := Some (clone_waker wk new)\<rparr>
   | None \<Rightarrow> ip\<lparr>waker := Some (clone_waker wk new)\<rparr>)"

section \<open>Methods\<close>

datatype poll = Ready | Pending

type_synonym ('w, 'l, 'i, 'pr, 'k) async_ops =
  "('w, 'l, 'i, 'pr, 'k async_in_progress, unit, 'k list) core_ops"

text \<open>\<open>LockCallbackImpl\<close> and \<open>UnlockCallbackImpl\<close>\<close>

definition async_lock_callback :: "(unit, 'k async_in_progress) lock_callback" where
  "async_lock_callback = \<lparr>on_in_progress = ((), \<lparr>waker = None\<rparr>), on_complete = ()\<rparr>"

definition async_unlock_callback :: "('k async_in_progress, 'k list) unlock_callback" where
  "async_unlock_callback ip log = (case waker ip of Some k \<Rightarrow> log @ [k] | None \<Rightarrow> log)"

definition start_lock_read ::
  "('w, 'l, 'i, 'pr, 'k) async_ops \<Rightarrow> 'i range \<Rightarrow> 'pr \<Rightarrow> 'l \<Rightarrow> 'w \<Rightarrow> fault + 'w" where
  "start_lock_read ops r prio l w = map_sum id snd (op_lock_read ops r prio l async_lock_callback w)"

definition start_lock_write ::
  "('w, 'l, 'i, 'pr, 'k) async_ops \<Rightarrow> 'i range \<Rightarrow> 'pr \<Rightarrow> 'l \<Rightarrow> 'w \<Rightarrow> fault + 'w" where
  "start_lock_write ops r prio l w = map_sum id snd (op_lock_write ops r prio l async_lock_callback w)"

text \<open>
  Both poll methods inspect the lock; \<open>set_waker\<close> writes through the reference that the inspection returns.
\<close>

definition poll_lock ::
  "'k waker_api \<Rightarrow> ('w, 'l, 'i, 'pr, 'k) async_ops \<Rightarrow> ('l \<Rightarrow> 'w \<Rightarrow> fault + 'k async_in_progress lock_progress) \<Rightarrow>
   'l \<Rightarrow> 'k \<Rightarrow> 'w \<Rightarrow> fault + poll \<times> 'w" where
  "poll_lock wk ops inspect l cx w = (case inspect l w of
     Inl e \<Rightarrow> Inl e
   | Inr Complete \<Rightarrow> Inr (Ready, w)
   | Inr (InProgress in_progress) \<Rightarrow>
       (case op_set_in_progress ops l (set_waker wk in_progress cx) w of
          None \<Rightarrow> Inl Aborted
        | Some w' \<Rightarrow> Inr (Pending, w')))"

definition poll_lock_read ::
  "'k waker_api \<Rightarrow> ('w, 'l, 'i, 'pr, 'k) async_ops \<Rightarrow> 'l \<Rightarrow> 'k \<Rightarrow> 'w \<Rightarrow> fault + poll \<times> 'w" where
  "poll_lock_read wk ops = poll_lock wk ops (op_inspect_read_mut ops)"

definition poll_lock_write ::
  "'k waker_api \<Rightarrow> ('w, 'l, 'i, 'pr, 'k) async_ops \<Rightarrow> 'l \<Rightarrow> 'k \<Rightarrow> 'w \<Rightarrow> fault + poll \<times> 'w" where
  "poll_lock_write wk ops = poll_lock wk ops (op_inspect_write_mut ops)"

definition async_try_lock_read ::
  "('w, 'l, 'i, 'pr, 'k) async_ops \<Rightarrow> 'i range \<Rightarrow> 'l \<Rightarrow> 'w \<Rightarrow> fault + bool \<times> 'w" where
  [simp]: "async_try_lock_read ops r l = op_try_lock_read ops r l"

definition async_try_lock_write ::
  "('w, 'l, 'i, 'pr, 'k) async_ops \<Rightarrow> 'i range \<Rightarrow> 'l \<Rightarrow> 'w \<Rightarrow> fault + bool \<times> 'w" where
  [simp]: "async_try_lock_write ops r l = op_try_lock_write ops r l"

text \<open>\<open>unlock_read\<close>, \<open>unlock_write\<close> and the non-blocking ones; a cancelled \<open>InProgress\<close> object is dropped.\<close>

definition async_unlock_read ::
  "('w, 'l, 'i, 'pr, 'k) async_ops \<Rightarrow> 'l \<Rightarrow> 'w \<times> 'k list \<Rightarrow> fault + 'w \<times> 'k list" where
  "async_unlock_read ops l s = map_sum id snd (op_unlock_read ops l async_unlock_callback s)"

definition async_unlock_write ::
  "('w, 'l, 'i, 'pr, 'k) async_ops \<Rightarrow> 'l \<Rightarrow> 'w \<times> 'k list \<Rightarrow> fault + 'w \<times> 'k list" where
  "async_unlock_write ops l s = map_sum id snd (op_unlock_write ops l async_unlock_callback s)"

definition async_unlock_try_read ::
  "('w, 'l, 'i, 'pr, 'k) async_ops \<Rightarrow> 'l \<Rightarrow> 'w \<times> 'k list \<Rightarrow> fault + 'w \<times> 'k list" where
  "async_unlock_try_read ops l s = op_unlock_try_read ops l async_unlock_callback s"

definition async_unlock_try_write ::
  "('w, 'l, 'i, 'pr, 'k) async_ops \<Rightarrow> 'l \<Rightarrow> 'w \<times> 'k list \<Rightarrow> fault + 'w \<times> 'k list" where
  "async_unlock_try_write ops l s = op_unlock_try_write ops l async_unlock_callback s"

section \<open>Calls\<close>

datatype ('l, 'i, 'pr, 'k) async_call =
    StartLockRead "'i range" 'pr 'l
  | StartLockWrite "'i range" 'pr 'l
  | PollLockRead 'l 'k
  | PollLockWrite 'l 'k
  | AsyncUnlockRead 'l
  | AsyncUnlockWrite 'l
  | AsyncTryLockRead "'i range" 'l
  | AsyncTryLockWrite "'i range" 'l
  | AsyncUnlockTryRead 'l
  | AsyncUnlockTryWrite 'l

datatype async_reply = Started | Polled poll | Tried bool | Released

fun async_perform ::
  "'k waker_api \<Rightarrow> ('w, 'l, 'i, 'pr, 'k) async_ops \<Rightarrow> ('l, 'i, 'pr, 'k) async_call \<Rightarrow> 'w \<times> 'k list \<Rightarrow>
   fault + async_reply \<times> 'w \<times> 'k list" where
  "async_perform wk ops (StartLockRead r prio l) (w, log) =
     map_sum id (\<lambda>w. (Started, w, log)) (start_lock_read ops r prio l w)"
| "async_perform wk ops (StartLockWrite r prio l) (w, log) =
     map_sum id (\<lambda>w. (Started, w, log)) (start_lock_write ops r prio l w)"
| "async_perform wk ops (PollLockRead l k) (w, log) =
     map_sum id (\<lambda>(p, w). (Polled p, w, log)) (poll_lock_read wk ops l k w)"
| "async_perform wk ops (PollLockWrite l k) (w, log) =
     map_sum id (\<lambda>(p, w). (Polled p, w, log)) (poll_lock_write wk ops l k w)"
| "async_perform wk ops (AsyncUnlockRead l) s = map_sum id (Pair Released) (async_unlock_read ops l s)"
| "async_perform wk ops (AsyncUnlockWrite l) s = map_sum id (Pair Released) (async_unlock_write ops l s)"
| "async_perform wk ops (AsyncTryLockRead r l) (w, log) =
     map_sum id (\<lambda>(b, w). (Tried b, w, log)) (async_try_lock_read ops r l w)"
| "async_perform wk ops (AsyncTryLockWrite r l) (w, log) =
     map_sum id (\<lambda>(b, w). (Tried b, w, log)) (async_try_lock_write ops r l w)"
| "async_perform wk ops (AsyncUnlockTryRead l) s = map_sum id (Pair Released) (async_unlock_try_read ops l s)"
| "async_perform wk ops (AsyncUnlockTryWrite l) s = map_sum id (Pair Released) (async_unlock_try_write ops l s)"

fun async_target :: "('l, 'i, 'pr, 'k) async_call \<Rightarrow> 'l" where
  "async_target (StartLockRead r prio l) = l"
| "async_target (StartLockWrite r prio l) = l"
| "async_target (PollLockRead l k) = l"
| "async_target (PollLockWrite l k) = l"
| "async_target (AsyncUnlockRead l) = l"
| "async_target (AsyncUnlockWrite l) = l"
| "async_target (AsyncTryLockRead r l) = l"
| "async_target (AsyncTryLockWrite r l) = l"
| "async_target (AsyncUnlockTryRead l) = l"
| "async_target (AsyncUnlockTryWrite l) = l"

text \<open>
  What a client may call: to lock with an unused lock state, to poll or release a lock that it has started, pending or
  not, and to release a non-blocking lock that it got.
\<close>

definition startable ::
  "nat \<Rightarrow> ('w \<Rightarrow> 'l \<Rightarrow> bool) \<Rightarrow> ('w \<Rightarrow> 'l \<Rightarrow> 'i::ord asking option) \<Rightarrow> 'w \<Rightarrow> 'i range \<Rightarrow> 'l \<Rightarrow> bool" where
  "startable limit free req w r l \<longleftrightarrow>
     rng_start r < rng_end r \<and> free w l \<and> card {k. req w k \<noteq> None} < limit"

definition asked_for :: "('w \<Rightarrow> 'l \<Rightarrow> 'i asking option) \<Rightarrow> 'w \<Rightarrow> bool \<Rightarrow> 'l \<Rightarrow> bool" where
  "asked_for req w u l \<longleftrightarrow> (\<exists>x y. req w l = Some (u, x, y))"

fun async_allowed ::
  "nat \<Rightarrow> ('w \<Rightarrow> 'l \<Rightarrow> bool) \<Rightarrow> ('w \<Rightarrow> 'l \<Rightarrow> 'i::ord asking option) \<Rightarrow> ('w \<Rightarrow> 'l \<Rightarrow> 'ip option) \<Rightarrow> 'w \<Rightarrow>
   ('l, 'i, 'pr, 'k) async_call \<Rightarrow> bool" where
  "async_allowed limit free req waits w (StartLockRead r prio l) = startable limit free req w r l"
| "async_allowed limit free req waits w (StartLockWrite r prio l) = startable limit free req w r l"
| "async_allowed limit free req waits w (PollLockRead l k) = asked_for req w False l"
| "async_allowed limit free req waits w (PollLockWrite l k) = asked_for req w True l"
| "async_allowed limit free req waits w (AsyncUnlockRead l) = asked_for req w False l"
| "async_allowed limit free req waits w (AsyncUnlockWrite l) = asked_for req w True l"
| "async_allowed limit free req waits w (AsyncTryLockRead r l) = startable limit free req w r l"
| "async_allowed limit free req waits w (AsyncTryLockWrite r l) = startable limit free req w r l"
| "async_allowed limit free req waits w (AsyncUnlockTryRead l) \<longleftrightarrow> asked_for req w False l \<and> waits w l = None"
| "async_allowed limit free req waits w (AsyncUnlockTryWrite l) \<longleftrightarrow> asked_for req w True l \<and> waits w l = None"

text \<open>Runs of allowed calls, and those among them that leave one lock state alone.\<close>

inductive async_run ::
  "'k waker_api \<Rightarrow> ('w, 'l, 'i::ord, 'pr, 'k) async_ops \<Rightarrow> nat \<Rightarrow> ('w \<Rightarrow> 'l \<Rightarrow> bool) \<Rightarrow> ('w \<Rightarrow> 'l \<Rightarrow> 'i asking option) \<Rightarrow>
   ('w \<Rightarrow> 'l \<Rightarrow> 'k async_in_progress option) \<Rightarrow> 'l set \<Rightarrow> 'w \<times> 'k list \<Rightarrow> 'w \<times> 'k list \<Rightarrow> bool"
  for wk :: "'k waker_api" and ops :: "('w, 'l, 'i, 'pr, 'k) async_ops" and limit :: nat and free :: "'w \<Rightarrow> 'l \<Rightarrow> bool"
    and req :: "'w \<Rightarrow> 'l \<Rightarrow> 'i asking option" and waits :: "'w \<Rightarrow> 'l \<Rightarrow> 'k async_in_progress option"
    and K :: "'l set" and s :: "'w \<times> 'k list" where
  stop: "async_run wk ops limit free req waits K s s"
| call: "async_run wk ops limit free req waits K s s' \<Longrightarrow> async_allowed limit free req waits (fst s') c \<Longrightarrow>
    async_target c \<notin> K \<Longrightarrow> async_perform wk ops c s' = Inr (r, s'') \<Longrightarrow>
    async_run wk ops limit free req waits K s s''"

section \<open>Any core that keeps the contract\<close>

lemma map_filter_the:
  "(\<And>k. k \<in> set ks \<Longrightarrow> f k \<noteq> None) \<Longrightarrow>
   List.map_filter g (map (\<lambda>k. the (f k)) ks) = List.map_filter (\<lambda>k. Option.bind (f k) g) ks"
proof (induction ks)
  case (Cons a ks)
  then obtain y where "f a = Some y" by fastforce
  with Cons show ?case by (simp add: List.map_filter_simps split: option.split)
qed (simp add: List.map_filter_simps)

text \<open>As documented, a waker that another one \<open>will_wake\<close>, or a clone of a waker, wakes the same task.\<close>

definition waker_laws :: "'k waker_api \<Rightarrow> ('k \<Rightarrow> 'task) \<Rightarrow> bool" where
  "waker_laws wk task \<longleftrightarrow>
     (\<forall>a b. will_wake wk a b \<longrightarrow> task a = task b) \<and> (\<forall>a. task (clone_waker wk a) = task a)"

text \<open>A poll tells whether the lock is granted; if not it leaves a waker of the polling task behind.\<close>

definition poll_law ::
  "('w \<Rightarrow> bool) \<Rightarrow> ('w \<Rightarrow> 'l \<Rightarrow> bool) \<Rightarrow> ('w \<Rightarrow> 'l \<Rightarrow> 'i asking option) \<Rightarrow> ('w \<Rightarrow> 'l \<Rightarrow> 'k async_in_progress option) \<Rightarrow>
   ('k \<Rightarrow> 'task) \<Rightarrow> 'l \<Rightarrow> 'k \<Rightarrow> 'w \<Rightarrow> fault + poll \<times> 'w \<Rightarrow> bool" where
  "poll_law ok free req waits task l cx w res \<longleftrightarrow>
     (if waits w l = None then res = Inr (Ready, w)
      else \<exists>w' k. res = Inr (Pending, w') \<and> ok w' \<and> free w' = free w \<and> req w' = req w \<and>
        waits w' = (waits w)(l \<mapsto> \<lparr>waker = Some k\<rparr>) \<and> task k = task cx)"

text \<open>
  What a call does to the locks of others: it completes some, and wakes exactly the registered wakers of those.
\<close>

definition step_law ::
  "('w \<Rightarrow> bool) \<Rightarrow> ('w \<Rightarrow> 'l \<Rightarrow> bool) \<Rightarrow> ('w \<Rightarrow> 'l \<Rightarrow> 'i asking option) \<Rightarrow> ('w \<Rightarrow> 'l \<Rightarrow> 'k async_in_progress option) \<Rightarrow>
   'l \<Rightarrow> 'w \<Rightarrow> 'k list \<Rightarrow> fault + async_reply \<times> 'w \<times> 'k list \<Rightarrow> bool" where
  "step_law ok free req waits l w log res \<longleftrightarrow> (\<exists>r w' ks. res = Inr (r, w', log @ List.map_filter (\<lambda>k. Option.bind (waits w k) waker) ks) \<and> ok w' \<and>
     set ks = {k. k \<noteq> l \<and> waits w k \<noteq> None \<and> waits w' k = None} \<and>
     (\<forall>k. k \<noteq> l \<longrightarrow> waits w' k \<noteq> None \<longrightarrow> waits w' k = waits w k) \<and>
     (\<forall>k. k \<noteq> l \<longrightarrow> req w' k = req w k \<and> free w' k = free w k))"

locale async_core = interval_rw_lock_core ops limit ok free req waits
  for ops :: "('w, 'l, 'i::linorder, 'pr, 'k) async_ops" and limit ok free req waits +
  fixes wk :: "'k waker_api" and task :: "'k \<Rightarrow> 'task"
  assumes wakers: "waker_laws wk task"
begin

lemma set_waker_task: "\<exists>k. waker (set_waker wk ip cx) = Some k \<and> task k = task cx"
  using wakers by (auto simp: set_waker_def waker_laws_def split: option.splits)

lemma fold_callback: "fold async_unlock_callback ips log = log @ List.map_filter waker ips"
  by (induction ips arbitrary: log) (auto simp: async_unlock_callback_def List.map_filter_simps split: option.splits)

lemma poll_ok:
  assumes "ok w" and "inspect l w = Inr (case waits w l of None \<Rightarrow> Complete | Some ip \<Rightarrow> InProgress ip)"
  shows "poll_law ok free req waits task l cx w (poll_lock wk ops inspect l cx w)"
proof (cases "waits w l")
  case None
  with assms(2) show ?thesis by (simp add: poll_law_def poll_lock_def)
next
  case (Some ip)
  obtain k where k: "waker (set_waker wk ip cx) = Some k" "task k = task cx" using set_waker_task by blast
  then have e: "set_waker wk ip cx = \<lparr>waker = Some k\<rparr>" by simp
  from set_in_progress [OF assms(1) Some, of "set_waker wk ip cx"] obtain w' where
    "op_set_in_progress ops l (set_waker wk ip cx) w = Some w'" "ok w'" "free w' = free w" "req w' = req w"
    "waits w' = (waits w)(l \<mapsto> set_waker wk ip cx)" by blast
  with Some k e assms(2) show ?thesis by (auto simp: poll_law_def poll_lock_def)
qed

lemma step_law_quiet:
  assumes "res = Inr (r, w', log)" "ok w'" "\<And>k. k \<noteq> l \<Longrightarrow> waits w' k = waits w k \<and> req w' k = req w k \<and> free w' k = free w k"
  shows "step_law ok free req waits l w log res"
  unfolding step_law_def by (intro exI [of _ r] exI [of _ w'] exI [of _ "[]"]) (use assms in \<open>auto simp: List.map_filter_simps\<close>)

lemma step_law_unlock:
  assumes law: "unlock_law ok free req waits l w async_unlock_callback log ret res" and res: "res' = map_sum id (\<lambda>(r, s). (x, s)) res"
  shows "step_law ok free req waits l w log res'"
proof -
  from law obtain w' ks where
    1: "res = Inr (ret, w', fold async_unlock_callback (map (\<lambda>k. the (waits w k)) ks) log)" "ok w'"
    "free w' = (free w)(l := True)" "req w' = (req w)(l := None)"
    "set ks = {k. k \<noteq> l \<and> waits w k \<noteq> None \<and> waits w' k = None}" "\<forall>k. waits w' k \<noteq> None \<longrightarrow> waits w' k = waits w k"
    unfolding unlock_law_def by blast
  have "List.map_filter waker (map (\<lambda>k. the (waits w k)) ks) = List.map_filter (\<lambda>k. Option.bind (waits w k) waker) ks"
    using 1(5) by (intro map_filter_the) simp
  with 1 res show ?thesis unfolding step_law_def fold_callback
    by (intro exI [of _ x] exI [of _ w'] exI [of _ ks]) simp
qed

lemma asked_forE:
  assumes "asked_for req w u l" obtains x y where "req w l = Some (u, x, y)"
  using assms unfolding asked_for_def by blast

lemma lock_step:
  assumes "lock_law ok free req waits l a cb w res" and "res' = map_sum id (\<lambda>w. (x, w, log)) (map_sum id snd res)"
  shows "step_law ok free req waits l w log res'"
proof -
  from assms(1) obtain w' d where
    "res = Inr (if d then on_complete cb else fst (on_in_progress cb), w')" "ok w'" "free w' = (free w)(l := False)"
    "req w' = (req w)(l \<mapsto> a)" "waits w' = (waits w)(l := if d then None else Some (snd (on_in_progress cb)))"
    unfolding lock_law_def by blast
  with assms(2) show ?thesis by (intro step_law_quiet [of _ x w']) simp_all
qed

lemma try_step:
  assumes "try_law ok free req waits l a w res" "ok w" and "res' = map_sum id (\<lambda>(b, w). (Tried b, w, log)) res"
  shows "step_law ok free req waits l w log res'"
  using assms(1) unfolding try_law_def
proof (elim disjE exE conjE)
  assume "res = Inr (False, w)"
  with assms(2,3) show ?thesis by (intro step_law_quiet [of _ "Tried False" w]) simp_all
next
  fix w' assume "res = Inr (True, w')" "ok w'" "free w' = (free w)(l := False)" "req w' = (req w)(l \<mapsto> a)" "waits w' = waits w"
  with assms(3) show ?thesis by (intro step_law_quiet [of _ "Tried True" w']) simp_all
qed

lemma poll_step:
  assumes "poll_law ok free req waits task l cx w res" "ok w" and "res' = map_sum id (\<lambda>(p, w). (Polled p, w, log)) res"
  shows "step_law ok free req waits l w log res'"
proof (cases "waits w l")
  case None
  with assms show ?thesis by (intro step_law_quiet [of _ "Polled Ready" w]) (simp_all add: poll_law_def)
next
  case (Some ip)
  with assms(1) obtain w' where "res = Inr (Pending, w')" "ok w'" "free w' = free w" "req w' = req w"
    "\<And>k. k \<noteq> l \<Longrightarrow> waits w' k = waits w k" by (auto simp: poll_law_def)
  with assms(3) show ?thesis by (intro step_law_quiet [of _ "Polled Pending" w']) simp_all
qed

lemma polls:
  assumes "ok w"
  shows "asked_for req w False l \<Longrightarrow> poll_law ok free req waits task l cx w (poll_lock_read wk ops l cx w)"
    and "asked_for req w True l \<Longrightarrow> poll_law ok free req waits task l cx w (poll_lock_write wk ops l cx w)"
  unfolding poll_lock_read_def poll_lock_write_def
  by (auto elim!: asked_forE intro!: poll_ok assms inspect_read_mut inspect_write_mut)

lemma call_step:
  assumes ok: "ok w" and al: "async_allowed limit free req waits w c"
  shows "step_law ok free req waits (async_target c) w log (async_perform wk ops c (w, log))"
proof (cases c)
  case (StartLockRead r prio l)
  with al lock_read [OF ok, of l "rng_start r" "rng_end r" async_lock_callback prio] show ?thesis
    by (auto simp: startable_def start_lock_read_def intro: lock_step)
next
  case (StartLockWrite r prio l)
  with al lock_write [OF ok, of l "rng_start r" "rng_end r" async_lock_callback prio] show ?thesis
    by (auto simp: startable_def start_lock_write_def intro: lock_step)
next
  case (PollLockRead l cx)
  with al polls(1) [OF ok, of l cx] ok show ?thesis by (auto intro: poll_step)
next
  case (PollLockWrite l cx)
  with al polls(2) [OF ok, of l cx] ok show ?thesis by (auto intro: poll_step)
next
  case (AsyncUnlockRead l)
  with al obtain x y where "req w l = Some (False, x, y)" by (auto elim: asked_forE)
  from step_law_unlock [OF unlock_read [OF ok this], of _ Released] show ?thesis
    by (simp add: AsyncUnlockRead async_unlock_read_def sum.map_comp comp_def case_prod_unfold id_def)
next
  case (AsyncUnlockWrite l)
  with al obtain x y where "req w l = Some (True, x, y)" by (auto elim: asked_forE)
  from step_law_unlock [OF unlock_write [OF ok this], of _ Released] show ?thesis
    by (simp add: AsyncUnlockWrite async_unlock_write_def sum.map_comp comp_def case_prod_unfold id_def)
next
  case (AsyncTryLockRead r l)
  with al try_lock_read [OF ok, of l "rng_start r" "rng_end r"] ok show ?thesis
    by (auto simp: startable_def intro: try_step)
next
  case (AsyncTryLockWrite r l)
  with al try_lock_write [OF ok, of l "rng_start r" "rng_end r"] ok show ?thesis
    by (auto simp: startable_def intro: try_step)
next
  case (AsyncUnlockTryRead l)
  with al obtain x y where "req w l = Some (False, x, y)" "waits w l = None" by (auto elim: asked_forE)
  from step_law_unlock [OF unlock_try_read [OF ok this], of _ Released] show ?thesis
    by (simp add: AsyncUnlockTryRead async_unlock_try_read_def sum.map_comp comp_def case_prod_unfold id_def)
next
  case (AsyncUnlockTryWrite l)
  with al obtain x y where "req w l = Some (True, x, y)" "waits w l = None" by (auto elim: asked_forE)
  from step_law_unlock [OF unlock_try_write [OF ok this], of _ Released] show ?thesis
    by (simp add: AsyncUnlockTryWrite async_unlock_try_write_def sum.map_comp comp_def case_prod_unfold id_def)
qed

abbreviation "run \<equiv> async_run wk ops limit free req waits"

lemma run_ok: "run K s s' \<Longrightarrow> ok (fst s) \<Longrightarrow> ok (fst s')"
proof (induction rule: async_run.induct)
  case (call s' c r s'')
  obtain w log where s': "s' = (w, log)" by fastforce
  from call_step [of w c log] call s' show ?case by (auto simp: step_law_def)
qed

text \<open>Calls do not fail.\<close>

lemma calls_succeed:
  assumes "ok w" "async_allowed limit free req waits w c"
  shows "\<exists>r s'. async_perform wk ops c (w, log) = Inr (r, s')"
  using call_step [OF assms, of log] by (auto simp: step_law_def)

text \<open>A lock that waits with a registered waker goes on waiting with it, or the waker is woken.\<close>

lemma run_wakes:
  assumes "run {l} s s'" and "ok (fst s)" and "waits (fst s) l = Some ip" "waker ip = Some k"
  shows "\<exists>new. snd s' = snd s @ new \<and> req (fst s') l = req (fst s) l \<and> (waits (fst s') l = Some ip \<or> waits (fst s') l = None \<and> k \<in> set new)"
  using assms(1)
proof (induction rule: async_run.induct)
  case stop
  with assms(3) show ?case by simp
next
  case (call s' c r s'')
  obtain w log where s': "s' = (w, log)" by fastforce
  from call.IH s' obtain new where
    IH: "log = snd s @ new" "req w l = req (fst s) l" "waits w l = Some ip \<or> waits w l = None \<and> k \<in> set new" by auto
  from run_ok [OF call.hyps(1) assms(2)] s' have "ok w" by simp
  from call_step [OF this, of c log] call.hyps(2,4) s' obtain w' ks where
    1: "s'' = (w', log @ List.map_filter (\<lambda>k. Option.bind (waits w k) waker) ks)"
    "set ks = {k. k \<noteq> async_target c \<and> waits w k \<noteq> None \<and> waits w' k = None}"
    "\<forall>k. k \<noteq> async_target c \<longrightarrow> waits w' k \<noteq> None \<longrightarrow> waits w' k = waits w k"
    "\<forall>k. k \<noteq> async_target c \<longrightarrow> req w' k = req w k \<and> free w' k = free w k"
    by (auto simp: step_law_def)
  have l: "l \<noteq> async_target c" using call.hyps(3) by auto
  have "waits w' l = Some ip \<or> waits w' l = None \<and> k \<in> set (new @ List.map_filter (\<lambda>k. Option.bind (waits w k) waker) ks)"
  proof (cases "waits w l")
    case None
    with 1(3) l IH(3) show ?thesis by auto
  next
    case (Some ip')
    with IH(3) have w: "waits w l = Some ip" by auto
    show ?thesis
    proof (cases "waits w' l")
      case None
      with w l 1(2) have "l \<in> set ks" by simp
      with w assms(4) have "k \<in> set (List.map_filter (\<lambda>k. Option.bind (waits w k) waker) ks)"
        by (force simp: List.map_filter_def)
      with None show ?thesis by simp
    next
      case (Some _)
      with 1(3) l w show ?thesis by auto
    qed
  qed
  with 1(1,4) l IH(1,2) show ?case by auto
qed

text \<open>What a poll that has to wait registers.\<close>

lemma poll_registers:
  assumes "poll_law ok free req waits task l cx w (Inr (Pending, w'))"
  shows "ok w'" "req w' = req w" "\<exists>k. waits w' l = Some \<lparr>waker = Some k\<rparr> \<and> task k = task cx"
  using assms by (auto simp: poll_law_def split: if_splits)

end

end
