(* ===== verification/Raw_Future_Correct.thy ===== *)
theory Raw_Future_Correct
  imports Raw_Future Core_Demo
begin

text \<open>
  The properties of \<open>AsyncRawRbTreeIntervalRwLock\<close>: the lock for futures on the red-black tree core.
\<close>

section \<open>The red-black tree core in the lock for futures\<close>

lemma async_rb:
  assumes "waker_laws wk task"
  shows "async_core (rbtree_ops dbg self) (2 ^ 63 - 1) (core_inv self) rb_free (rb_req self) (rb_waits self) wk task"
  by unfold_locales (rule assms)

text \<open>The wakers of \<open>std::task::Wake\<close> are clones of an \<open>Arc\<close>: the same pointer, compared by \<open>will_wake\<close>.\<close>

definition arc_waker :: "'k waker_api" where
  "arc_waker = \<lparr>will_wake = (=), clone_waker = id\<rparr>"

interpretation async_rb: async_core "rbtree_ops dbg self" "2 ^ 63 - 1" "core_inv self" rb_free "rb_req self" "rb_waits self"
  arc_waker id
  by (rule async_rb) (simp add: arc_waker_def waker_laws_def)

abbreviation async_rb_run where
  "async_rb_run wk dbg self \<equiv> async_run wk (rbtree_ops dbg self) (2 ^ 63 - 1) rb_free (rb_req self) (rb_waits self)"

abbreviation async_init :: "('c, 'l, 'i, 'pr, 'ip) world \<times> 'k list" where
  "async_init \<equiv> ((core_new, lock_states_default), [])"

lemma async_reachable_inv:
  assumes "async_rb_run wk dbg self K async_init (w, log)"
    and "waker_laws wk task"
  shows "core_inv self w"
  using async_core.run_ok [OF async_rb [OF assms(2)] assms(1)] by (simp add: core_inv_init)

section \<open>A session\<close>

text \<open>
  Task 70 locks 2..6 for writing; task 71 starts to lock 4..8 for reading and polls in vain.  Then 70 unlocks.
\<close>

type_synonym demo_async = "(nat, demo_lock, nat, nat, nat async_in_progress) world \<times> nat list"

definition async_after :: "(demo_lock, nat, nat, nat) async_call \<Rightarrow> demo_async \<Rightarrow> demo_async" where
  "async_after c s = (case async_perform arc_waker (rbtree_ops True 0) c s of Inl _ \<Rightarrow> s | Inr (_, s') \<Rightarrow> s')"

definition async1 :: demo_async where "async1 = async_after (StartLockWrite (Range 2 6) 0 LockA) async_init"
definition async2 :: demo_async where "async2 = async_after (StartLockRead (Range 4 8) 1 LockB) async1"
definition async3 :: demo_async where "async3 = async_after (PollLockRead LockB 71) async2"
definition async4 :: demo_async where "async4 = async_after (AsyncUnlockWrite LockA) async3"

abbreviation demo_async_run :: "demo_lock set \<Rightarrow> demo_async \<Rightarrow> demo_async \<Rightarrow> bool" where
  "demo_async_run \<equiv> async_rb_run arc_waker True 0"

lemma async_after_run:
  assumes "demo_async_run K s s'" "async_allowed (2 ^ 63 - 1) rb_free (rb_req 0) (rb_waits 0) (fst s') c" "async_target c \<notin> K"
  shows "demo_async_run K s (async_after c s')"
  using async_run.call [OF assms] assms(1) by (auto simp: async_after_def split: sum.splits)

lemma async_views:
  "rb_free (fst (async_init :: demo_async)) LockA" "rb_free (fst async1) LockB"
  "rb_req 0 (fst async3) LockA = Some (True, 2, 6)" "rb_req 0 (fst async2) LockB = Some (False, 4, 8)"
  "rb_waits 0 (fst async2) LockB = Some \<lparr>waker = None\<rparr>"
  by code_simp+

lemma async_run1: "demo_async_run {} async_init async1"
  unfolding async1_def by (rule async_after_run [OF async_run.stop])
    (use async_views(1) in \<open>simp_all add: startable_def demo_card del: not_None_eq\<close>)

lemma async_run2: "demo_async_run {} async_init async2"
  unfolding async2_def by (rule async_after_run [OF async_run1])
    (simp_all add: startable_def async_views demo_card del: not_None_eq)

lemma async_run4: "demo_async_run {LockB} async3 async4"
  unfolding async4_def by (rule async_after_run [OF async_run.stop]) (simp_all add: asked_for_def async_views)

lemma map_sum_fst: "map_sum id fst r = Inr p \<Longrightarrow> r = Inr (p, snd (projr r))"
  by (cases r) auto

lemma poll_ready: "poll_lock wk ops inspect l cx w = Inr (Ready, w') \<Longrightarrow> w' = w"
  by (auto simp: poll_lock_def split: sum.splits lock_progress.splits option.splits)

lemma async_after_poll:
  "poll_lock_read arc_waker (rbtree_ops True 0) l cx w = Inr (p, w') \<Longrightarrow> async_after (PollLockRead l cx) (w, log) = (w', log)"
  by (simp add: async_after_def)

lemma async_polls:
  "poll_lock_read arc_waker (rbtree_ops True 0) LockB 71 (fst async2) = Inr (Pending, fst async3)"
  "poll_lock_read arc_waker (rbtree_ops True 0) LockB 71 (fst async4) = Inr (Ready, fst async4)"
  "snd async2 = []" "snd async3 = []"
proof -
  have r: "map_sum id fst (poll_lock_read arc_waker (rbtree_ops True 0) LockB 71 (fst async2)) = Inr Pending"
    "map_sum id fst (poll_lock_read arc_waker (rbtree_ops True 0) LockB 71 (fst async4)) = Inr Ready"
    by code_simp+
  show "poll_lock_read arc_waker (rbtree_ops True 0) LockB 71 (fst async2) = Inr (Pending, fst async3)"
    using async_after_poll [OF map_sum_fst [OF r(1)], of "snd async2"] map_sum_fst [OF r(1)]
    by (simp add: async3_def)
  show "poll_lock_read arc_waker (rbtree_ops True 0) LockB 71 (fst async4) = Inr (Ready, fst async4)"
    using map_sum_fst [OF r(2)] poll_ready [of arc_waker _ _ LockB 71 "fst async4"] unfolding poll_lock_read_def by metis
  show "snd async2 = []" "snd async3 = []" by code_simp+
qed

lemma arc_waker_laws: "waker_laws arc_waker id"
  by (simp add: arc_waker_def waker_laws_def)

section \<open>Properties\<close>

text \<open>C19. A poll answers \<open>Ready\<close> exactly when the lock is granted, and then nothing changes.  Otherwise the lock goes on
  waiting with a waker of the polling task, and nothing else changes.\<close>

theorem async_poll_correct:
  assumes "core_inv self w" and "asked_for (rb_req self) w u l"
    and "waker_laws wk task"
  shows "let res = (if u then poll_lock_write else poll_lock_read) wk (rbtree_ops dbg self) l cx w in
    if rb_waits self w l = None then res = Inr (Ready, w)
    else \<exists>w' k. res = Inr (Pending, w') \<and> core_inv self w' \<and> rb_free w' = rb_free w \<and> rb_req self w' = rb_req self w \<and>
      rb_waits self w' = (rb_waits self w)(l \<mapsto> \<lparr>waker = Some k\<rparr>) \<and> task k = task cx"
  using async_core.polls [OF async_rb [OF assms(3), where dbg = dbg] assms(1), where l = l and cx = cx] assms(2)
  by (cases u) (auto simp: poll_law_def)

theorem async_poll_correct_witness:
  "let res = poll_lock_read arc_waker (rbtree_ops True 0) LockB 71 (fst async2) in
    if rb_waits 0 (fst async2) LockB = None then res = Inr (Ready, fst async2)
    else \<exists>w' k. res = Inr (Pending, w') \<and> core_inv 0 w' \<and> rb_free w' = rb_free (fst async2) \<and>
      rb_req 0 w' = rb_req 0 (fst async2) \<and>
      rb_waits 0 w' = (rb_waits 0 (fst async2))(LockB \<mapsto> \<lparr>waker = Some k\<rparr>) \<and> id k = (71 :: nat)"
proof -
  have "core_inv 0 (fst async2)"
    by (rule async_reachable_inv [OF _ arc_waker_laws, of True 0 "{}" _ "snd async2"], unfold prod.collapse) (rule async_run2)
  from async_poll_correct [OF this _ arc_waker_laws, of False LockB True 71] show ?thesis
    by (simp add: asked_for_def async_views Let_def)
qed

text \<open>C9. No lost wake-up, for readers and writers (\<open>u\<close>).  A task that has polled a lock in vain is woken before, or when, the
  lock is granted, whatever the calls for other lock states in between: if a later poll answers \<open>Ready\<close>, a waker of the task
  has been woken after the first poll.\<close>

theorem async_no_lost_wakeup:
  assumes "async_rb_run wk dbg self K async_init (w, log)"
    and "poll = (if u then poll_lock_write else poll_lock_read)"
    and "asked_for (rb_req self) w u l" and "poll wk (rbtree_ops dbg self) l cx w = Inr (Pending, w1)"
    and "async_rb_run wk dbg self {l} (w1, log) (w2, log')"
    and "poll wk (rbtree_ops dbg self) l cx' w2 = Inr (Ready, w3)"
    and "waker_laws wk task"
  shows "\<exists>new k. log' = log @ new \<and> k \<in> set new \<and> task k = task cx"
proof -
  note core = async_rb [OF assms(7), where dbg = dbg and self = self]
  have law: "poll_law (core_inv self) rb_free (rb_req self) (rb_waits self) task l cx w (poll wk (rbtree_ops dbg self) l cx w)"
    if "core_inv self w" "asked_for (rb_req self) w u l" for w cx
    using async_core.polls [OF core that(1), of l cx] that(2) by (cases u) (simp_all add: assms(2))
  have "core_inv self w" by (rule async_reachable_inv [OF assms(1,7)])
  from async_core.poll_registers [OF core law [OF this assms(3), of cx, unfolded assms(4)]] obtain k where
    k: "core_inv self w1" "rb_req self w1 = rb_req self w" "rb_waits self w1 l = Some \<lparr>waker = Some k\<rparr>" "task k = task cx"
    by blast
  from async_core.run_wakes [OF core assms(5)] k obtain new where
    new: "log' = log @ new" "rb_req self w2 l = rb_req self w1 l"
    "rb_waits self w2 l = Some \<lparr>waker = Some k\<rparr> \<or> rb_waits self w2 l = None \<and> k \<in> set new" by fastforce
  have inv2: "core_inv self w2" using async_core.run_ok [OF core assms(5)] k(1) by simp
  have "asked_for (rb_req self) w2 u l" using assms(3) new(2) k(2) by (simp add: asked_for_def)
  from law [OF inv2 this, of cx'] assms(6) have "rb_waits self w2 l = None"
    by (cases "rb_waits self w2 l") (auto simp: poll_law_def)
  with new k(4) show ?thesis by auto
qed

theorem async_no_lost_wakeup_witness: "\<exists>new k. snd async4 = [] @ new \<and> k \<in> set new \<and> id k = (71 :: nat)"
proof -
  have r: "demo_async_run {} async_init (fst async2, [])" "demo_async_run {LockB} (fst async3, []) (fst async4, snd async4)"
    using async_run2 async_run4 async_polls(3,4) by (metis prod.collapse)+
  have a: "asked_for (rb_req 0) (fst async2) False LockB" by (simp add: asked_for_def async_views)
  have "\<exists>new k. snd async4 = [] @ new \<and> k \<in> set new \<and> id k = id (71 :: nat)"
    by (rule async_no_lost_wakeup [where u = False, unfolded if_False, OF r(1) refl a async_polls(1) r(2) async_polls(2) arc_waker_laws])
  then show ?thesis by simp
qed

text \<open>C34. Every call that a client may make returns without a panic, and two locks that are granted afterwards are
  both readers or do not overlap.\<close>

theorem async_calls_return:
  assumes "async_rb_run wk dbg self K async_init (w, log)" and "waker_laws wk task"
    and "async_allowed (2 ^ 63 - 1) rb_free (rb_req self) (rb_waits self) w c"
  shows "\<exists>r w' log'. async_perform wk (rbtree_ops dbg self) c (w, log) = Inr (r, w', log') \<and>
    (\<forall>l l' u x y v x' y'. l \<noteq> l' \<longrightarrow> rb_req self w' l = Some (u, x, y) \<longrightarrow> rb_waits self w' l = None \<longrightarrow>
       rb_req self w' l' = Some (v, x', y') \<longrightarrow> rb_waits self w' l' = None \<longrightarrow> \<not> u \<and> \<not> v \<or> y \<le> x' \<or> y' \<le> x)"
proof -
  from async_core.call_step [OF async_rb [OF assms(2), where dbg = dbg] async_reachable_inv [OF assms(1,2)] assms(3), of log]
  obtain r w' log' where 1: "async_perform wk (rbtree_ops dbg self) c (w, log) = Inr (r, w', log')" "core_inv self w'"
    unfolding step_law_def by blast
  from rb_exclusion [OF 1(2)] have "apart a b" if "rb_req self w' l = Some a" "rb_waits self w' l = None"
    "rb_req self w' l' = Some b" "rb_waits self w' l' = None" "l \<noteq> l'" for l l' a b using that by blast
  with 1(1) show ?thesis by (fastforce simp: apart_def)
qed

theorem async_calls_return_witness:
  "\<exists>r w' log'. async_perform arc_waker (rbtree_ops True 0) (AsyncUnlockRead LockB) (fst async2, []) = Inr (r, w', log')"
proof -
  have "demo_async_run {} async_init (fst async2, [])" using async_run2 async_polls(3) by (metis prod.collapse)
  from async_calls_return [OF this arc_waker_laws, of "AsyncUnlockRead LockB"] show ?thesis
    by (auto simp: asked_for_def async_views)
qed

end
