(* ===== verification/Raw_Local.thy ===== *)
theory Raw_Local
  imports Raw_Mutex Core_Demo
begin

text \<open>
  The non-thread-safe lock of \<open>src/raw/local.rs\<close>, and the proof that it implements a plain map of disjoint
  intervals.
\<close>

section \<open>The lock\<close>

text \<open>
  \<open>PinCell\<close>: the flag is set while a method runs.  It is found set only by code that a method calls, that is by the
  \<open>Ord\<close> implementation of the index type.
\<close>

record 'w pin_cell =
  borrowed :: bool
  contents :: 'w

datatype local_panic = NotReentrant | Deadlocked | LocalPanic fault | NeverObject

type_synonym ('w, 'l, 'i, 'pr, 'ip) local_ops = "('w, 'l, 'i, 'pr, 'ip, unit, bool) core_ops"

definition local_new :: "('w, 'l, 'i, 'pr, 'ip) local_ops \<Rightarrow> 'w pin_cell" where
  "local_new ops = \<lparr>borrowed = False, contents = op_init ops\<rparr>"

text \<open>\<open>borrow_core!\<close>: the flag is reset when the method returns or panics.\<close>

definition with_core :: "('w \<Rightarrow> fault + 'a \<times> 'w) \<Rightarrow> 'w pin_cell \<Rightarrow> local_panic + 'a \<times> 'w pin_cell" where
  "with_core method c =
     (if borrowed c then Inl NotReentrant
      else map_sum LocalPanic (\<lambda>(x, w). (x, c\<lparr>contents := w\<rparr>)) (method (contents c)))"

definition local_try_lock_read ::
  "('w, 'l, 'i, 'pr, 'ip) local_ops \<Rightarrow> 'i range \<Rightarrow> 'l \<Rightarrow> 'w pin_cell \<Rightarrow> local_panic + bool \<times> 'w pin_cell" where
  "local_try_lock_read ops r l = with_core (op_try_lock_read ops r l)"

definition local_try_lock_write ::
  "('w, 'l, 'i, 'pr, 'ip) local_ops \<Rightarrow> 'i range \<Rightarrow> 'l \<Rightarrow> 'w pin_cell \<Rightarrow> local_panic + bool \<times> 'w pin_cell" where
  "local_try_lock_write ops r l = with_core (op_try_lock_write ops r l)"

text \<open>
  The type of \<open>InProgress\<close> objects is empty, and the callback \<open>()\<close> can only be called with such an object.  The model
  records a call in its environment, as an error of the operation.
\<close>

definition never_callback :: "('ip, bool) unlock_callback" where
  "never_callback ip called = True"

definition unlock_never :: "('w \<times> bool \<Rightarrow> fault + 'w \<times> bool) \<Rightarrow> 'w pin_cell \<Rightarrow> local_panic + unit \<times> 'w pin_cell" where
  "unlock_never unlock c = (case with_core (\<lambda>w. map_sum id (\<lambda>(w, called). (called, w)) (unlock (w, False))) c of
     Inl e \<Rightarrow> Inl e
   | Inr (called, c) \<Rightarrow> if called then Inl NeverObject else Inr ((), c))"

definition local_unlock_try_read ::
  "('w, 'l, 'i, 'pr, 'ip) local_ops \<Rightarrow> 'l \<Rightarrow> 'w pin_cell \<Rightarrow> local_panic + unit \<times> 'w pin_cell" where
  "local_unlock_try_read ops l = unlock_never (op_unlock_try_read ops l never_callback)"

definition local_unlock_try_write ::
  "('w, 'l, 'i, 'pr, 'ip) local_ops \<Rightarrow> 'l \<Rightarrow> 'w pin_cell \<Rightarrow> local_panic + unit \<times> 'w pin_cell" where
  "local_unlock_try_write ops l = unlock_never (op_unlock_try_write ops l never_callback)"

text \<open>The blocking interface: one thread that has to wait for itself is deadlocked.\<close>

definition or_deadlocked :: "local_panic + bool \<times> 'w pin_cell \<Rightarrow> local_panic + unit \<times> 'w pin_cell" where
  "or_deadlocked r = (case r of
     Inl e \<Rightarrow> Inl e
   | Inr (True, c) \<Rightarrow> Inr ((), c)
   | Inr (False, c) \<Rightarrow> Inl Deadlocked)"

definition local_lock_read ::
  "('w, 'l, 'i, 'pr, 'ip) local_ops \<Rightarrow> 'i range \<Rightarrow> 'l \<Rightarrow> 'w pin_cell \<Rightarrow> local_panic + unit \<times> 'w pin_cell" where
  "local_lock_read ops r l c = or_deadlocked (local_try_lock_read ops r l c)"

definition local_lock_write ::
  "('w, 'l, 'i, 'pr, 'ip) local_ops \<Rightarrow> 'i range \<Rightarrow> 'l \<Rightarrow> 'w pin_cell \<Rightarrow> local_panic + unit \<times> 'w pin_cell" where
  "local_lock_write ops r l c = or_deadlocked (local_try_lock_write ops r l c)"

definition local_unlock_read ::
  "('w, 'l, 'i, 'pr, 'ip) local_ops \<Rightarrow> 'l \<Rightarrow> 'w pin_cell \<Rightarrow> local_panic + unit \<times> 'w pin_cell" where
  "local_unlock_read = local_unlock_try_read"

definition local_unlock_write ::
  "('w, 'l, 'i, 'pr, 'ip) local_ops \<Rightarrow> 'l \<Rightarrow> 'w pin_cell \<Rightarrow> local_panic + unit \<times> 'w pin_cell" where
  "local_unlock_write = local_unlock_try_write"

text \<open>Any method; \<open>Some b\<close> is the answer of a non-blocking one.\<close>

fun local_perform ::
  "('w, 'l, 'i, 'pr, 'ip) local_ops \<Rightarrow> ('l, 'i, 'pr) raw_call \<Rightarrow> 'w pin_cell \<Rightarrow>
   local_panic + bool option \<times> 'w pin_cell" where
  "local_perform ops (RawLockRead r prio l) c = map_sum id (\<lambda>(_, c). (None, c)) (local_lock_read ops r l c)"
| "local_perform ops (RawLockWrite r prio l) c = map_sum id (\<lambda>(_, c). (None, c)) (local_lock_write ops r l c)"
| "local_perform ops (RawTryLockRead r l) c = map_sum id (\<lambda>(b, c). (Some b, c)) (local_try_lock_read ops r l c)"
| "local_perform ops (RawTryLockWrite r l) c = map_sum id (\<lambda>(b, c). (Some b, c)) (local_try_lock_write ops r l c)"
| "local_perform ops (RawUnlockRead l) c = map_sum id (\<lambda>(_, c). (None, c)) (local_unlock_read ops l c)"
| "local_perform ops (RawUnlockWrite l) c = map_sum id (\<lambda>(_, c). (None, c)) (local_unlock_write ops l c)"
| "local_perform ops (RawUnlockTryRead l) c = map_sum id (\<lambda>(_, c). (None, c)) (local_unlock_try_read ops l c)"
| "local_perform ops (RawUnlockTryWrite l) c = map_sum id (\<lambda>(_, c). (None, c)) (local_unlock_try_write ops l c)"

section \<open>Specification\<close>

text \<open>
  The abstract lock is the map from lock states to what they have locked: locking succeeds when nothing is in its way.
\<close>

definition spec_lock ::
  "bool \<Rightarrow> 'l \<Rightarrow> 'i::linorder asking \<Rightarrow> ('l \<Rightarrow> 'i asking option) \<Rightarrow> local_panic + bool option \<times> ('l \<Rightarrow> 'i asking option)" where
  "spec_lock blocking l a m =
     (if uncontended m a then Inr (if blocking then None else Some True, m(l \<mapsto> a))
      else if blocking then Inl Deadlocked else Inr (Some False, m))"

fun spec_perform ::
  "('l, 'i::linorder, 'pr) raw_call \<Rightarrow> ('l \<Rightarrow> 'i asking option) \<Rightarrow> local_panic + bool option \<times> ('l \<Rightarrow> 'i asking option)" where
  "spec_perform (RawLockRead r prio l) m = spec_lock True l (False, rng_start r, rng_end r) m"
| "spec_perform (RawLockWrite r prio l) m = spec_lock True l (True, rng_start r, rng_end r) m"
| "spec_perform (RawTryLockRead r l) m = spec_lock False l (False, rng_start r, rng_end r) m"
| "spec_perform (RawTryLockWrite r l) m = spec_lock False l (True, rng_start r, rng_end r) m"
| "spec_perform (RawUnlockRead l) m = Inr (None, m(l := None))"
| "spec_perform (RawUnlockWrite l) m = Inr (None, m(l := None))"
| "spec_perform (RawUnlockTryRead l) m = Inr (None, m(l := None))"
| "spec_perform (RawUnlockTryWrite l) m = Inr (None, m(l := None))"

text \<open>What a client may call: to lock with an unused lock state and to unlock what it has locked.\<close>

fun local_allowed ::
  "nat \<Rightarrow> ('w \<Rightarrow> 'l \<Rightarrow> bool) \<Rightarrow> ('w \<Rightarrow> 'l \<Rightarrow> 'i::ord asking option) \<Rightarrow> 'w \<Rightarrow> ('l, 'i, 'pr) raw_call \<Rightarrow> bool" where
  "local_allowed limit free req w (RawLockRead r prio l) \<longleftrightarrow>
     rng_start r < rng_end r \<and> free w l \<and> card {k. req w k \<noteq> None} < limit"
| "local_allowed limit free req w (RawLockWrite r prio l) \<longleftrightarrow>
     rng_start r < rng_end r \<and> free w l \<and> card {k. req w k \<noteq> None} < limit"
| "local_allowed limit free req w (RawTryLockRead r l) \<longleftrightarrow>
     rng_start r < rng_end r \<and> free w l \<and> card {k. req w k \<noteq> None} < limit"
| "local_allowed limit free req w (RawTryLockWrite r l) \<longleftrightarrow>
     rng_start r < rng_end r \<and> free w l \<and> card {k. req w k \<noteq> None} < limit"
| "local_allowed limit free req w (RawUnlockRead l) \<longleftrightarrow> (\<exists>x y. req w l = Some (False, x, y))"
| "local_allowed limit free req w (RawUnlockWrite l) \<longleftrightarrow> (\<exists>x y. req w l = Some (True, x, y))"
| "local_allowed limit free req w (RawUnlockTryRead l) \<longleftrightarrow> (\<exists>x y. req w l = Some (False, x, y))"
| "local_allowed limit free req w (RawUnlockTryWrite l) \<longleftrightarrow> (\<exists>x y. req w l = Some (True, x, y))"

section \<open>Refinement\<close>

text \<open>The abstraction of a cell is \<open>req (contents c)\<close>; nothing is ever pending.\<close>

definition local_inv :: "('w \<Rightarrow> bool) \<Rightarrow> ('w \<Rightarrow> 'l \<Rightarrow> 'ip option) \<Rightarrow> 'w pin_cell \<Rightarrow> bool" where
  "local_inv ok waits c \<longleftrightarrow> \<not> borrowed c \<and> ok (contents c) \<and> waits (contents c) = (\<lambda>_. None)"

text \<open>An answer of the lock matches one of the specification.\<close>

definition refines ::
  "('w pin_cell \<Rightarrow> bool) \<Rightarrow> ('w \<Rightarrow> 'm) \<Rightarrow> local_panic + 'a \<times> 'w pin_cell \<Rightarrow> local_panic + 'a \<times> 'm \<Rightarrow> bool" where
  "refines iv f r sp = (case r of
     Inl e \<Rightarrow> sp = Inl e
   | Inr (x, c) \<Rightarrow> iv c \<and> sp = Inr (x, f (contents c)))"

locale local_core = interval_rw_lock_core ops limit ok free req waits
  for ops :: "('w, 'l, 'i::linorder, 'pr, 'ip) local_ops" and limit ok free req waits
begin

abbreviation "good_cell \<equiv> local_inv ok waits"

lemma good_cell_new: "good_cell (local_new ops)"
proof -
  have "waits (op_init ops) l = None" for l
    using waits_req [OF init_ok, of l] free_req [OF init_ok, of l] init_free by (cases "waits (op_init ops) l") auto
  then show ?thesis by (simp add: local_inv_def local_new_def init_ok fun_eq_iff)
qed

text \<open>Without pending locks, a non-blocking lock answers whether it is uncontended.\<close>

lemma try_spec:
  assumes c: "good_cell c" and fr: "free (contents c) l" and law: "try_law ok free req waits l a (contents c) (lock (contents c))"
  shows "refines good_cell req (map_sum id (\<lambda>(b, c). (Some b, c)) (with_core lock c)) (spec_lock False l a (req (contents c)))"
    and "refines good_cell req (map_sum id (\<lambda>(_, c). (None, c)) (or_deadlocked (with_core lock c))) (spec_lock True l a (req (contents c)))"
proof -
  let ?w = "contents c"
  from c have C: "\<not> borrowed c" "ok ?w" "waits ?w = (\<lambda>_. None)" by (simp_all add: local_inv_def)
  have un: "uncontended (req ?w) a" if "lock ?w = Inr (True, w')" "ok w'" "req w' = (req ?w)(l \<mapsto> a)" "waits w' = waits ?w" for w'
    unfolding uncontended_def
  proof (intro allI impI)
    fix k b assume b: "req ?w k = Some b"
    then have "k \<noteq> l" using free_req [OF C(2) fr] by auto
    with exclusion [OF that(2), of l a k b] b that(3,4) C(3) show "apart a b" by auto
  qed
  from law have "if uncontended (req ?w) a then \<exists>w'. lock ?w = Inr (True, w') \<and> ok w' \<and> req w' = (req ?w)(l \<mapsto> a) \<and> waits w' = waits ?w
      else lock ?w = Inr (False, ?w)"
    unfolding try_law_def using un by auto
  then show "refines good_cell req (map_sum id (\<lambda>(b, c). (Some b, c)) (with_core lock c)) (spec_lock False l a (req ?w))"
    "refines good_cell req (map_sum id (\<lambda>(_, c). (None, c)) (or_deadlocked (with_core lock c))) (spec_lock True l a (req ?w))"
    using c C by (auto simp: with_core_def or_deadlocked_def refines_def spec_lock_def local_inv_def split: if_splits)
qed

lemma unlock_spec:
  assumes c: "good_cell c"
    and law: "unlock_law ok free req waits l (contents c) never_callback False None
      (map_sum id (Pair None) (unlock (contents c, False)))"
  shows "refines good_cell req (map_sum id (\<lambda>(_, c). (None, c)) (unlock_never unlock c)) (Inr (None, (req (contents c))(l := None)))"
proof -
  let ?w = "contents c"
  from c have C: "\<not> borrowed c" "waits ?w = (\<lambda>_. None)" by (simp_all add: local_inv_def)
  from law obtain w' log where
    1: "map_sum id (Pair (None :: 'ip option)) (unlock (?w, False)) = Inr (None, w', fold never_callback (map (\<lambda>k. the (waits ?w k)) log) False)"
    "ok w'" "req w' = (req ?w)(l := None)" "set log = {k. k \<noteq> l \<and> waits ?w k \<noteq> None \<and> waits w' k = None}"
    "\<forall>k. waits w' k \<noteq> None \<longrightarrow> waits w' k = waits ?w k"
    unfolding unlock_law_def by blast
  have "log = []" using 1(4) C(2) by simp
  with 1(1) have u: "unlock (?w, False) = Inr (w', False)" by (cases "unlock (?w, False)") auto
  have "waits w' = (\<lambda>_. None)"
  proof (rule ext)
    fix k show "waits w' k = None" using 1(5) [rule_format, of k] C(2) by (cases "waits w' k") auto
  qed
  with u 1(2,3) C(1) show ?thesis by (simp add: unlock_never_def with_core_def refines_def local_inv_def)
qed

lemma perform_spec:
  assumes c: "good_cell c" and al: "local_allowed limit free req (contents c) call"
  shows "refines good_cell req (local_perform ops call c) (spec_perform call (req (contents c)))"
proof -
  from c have ok: "ok (contents c)" and w: "waits (contents c) l = None" for l by (simp_all add: local_inv_def)
  note unl = local_unlock_read_def local_unlock_write_def local_unlock_try_read_def local_unlock_try_write_def
  show ?thesis
  proof (cases call)
    case (RawLockRead r prio l)
    with al try_spec(2) [OF c, where l = l and lock = "op_try_lock_read ops r l"] try_lock_read [OF ok, of l "rng_start r" "rng_end r"] show ?thesis
      by (simp add: local_lock_read_def local_try_lock_read_def)
  next
    case (RawLockWrite r prio l)
    with al try_spec(2) [OF c, where l = l and lock = "op_try_lock_write ops r l"] try_lock_write [OF ok, of l "rng_start r" "rng_end r"] show ?thesis
      by (simp add: local_lock_write_def local_try_lock_write_def)
  next
    case (RawTryLockRead r l)
    with al try_spec(1) [OF c, where l = l and lock = "op_try_lock_read ops r l"] try_lock_read [OF ok, of l "rng_start r" "rng_end r"] show ?thesis
      by (simp add: local_try_lock_read_def)
  next
    case (RawTryLockWrite r l)
    with al try_spec(1) [OF c, where l = l and lock = "op_try_lock_write ops r l"] try_lock_write [OF ok, of l "rng_start r" "rng_end r"] show ?thesis
      by (simp add: local_try_lock_write_def)
  next
    case (RawUnlockRead l)
    with al obtain x y where "req (contents c) l = Some (False, x, y)" by auto
    from unlock_spec [where unlock = "op_unlock_try_read ops l never_callback", OF c unlock_try_read [OF ok this w]] RawUnlockRead show ?thesis by (simp add: unl)
  next
    case (RawUnlockWrite l)
    with al obtain x y where "req (contents c) l = Some (True, x, y)" by auto
    from unlock_spec [where unlock = "op_unlock_try_write ops l never_callback", OF c unlock_try_write [OF ok this w]] RawUnlockWrite show ?thesis by (simp add: unl)
  next
    case (RawUnlockTryRead l)
    with al obtain x y where "req (contents c) l = Some (False, x, y)" by auto
    from unlock_spec [where unlock = "op_unlock_try_read ops l never_callback", OF c unlock_try_read [OF ok this w]] RawUnlockTryRead show ?thesis by (simp add: unl)
  next
    case (RawUnlockTryWrite l)
    with al obtain x y where "req (contents c) l = Some (True, x, y)" by auto
    from unlock_spec [where unlock = "op_unlock_try_write ops l never_callback", OF c unlock_try_write [OF ok this w]] RawUnlockTryWrite show ?thesis by (simp add: unl)
  qed
qed

end

section \<open>The red-black tree core in the local lock\<close>

interpretation local_rb: local_core "rbtree_ops dbg self" "2 ^ 63 - 1" "core_inv self" rb_free "rb_req self" "rb_waits self"
  by unfold_locales

abbreviation local_rb_inv where
  "local_rb_inv self \<equiv> local_inv (core_inv self) (rb_waits self)"

text \<open>A method called by the core, in a comparison of indices, panics before it touches anything.\<close>

lemma reentrant_call: "borrowed c \<Longrightarrow> local_perform ops call c = Inl NotReentrant"
  by (cases call) (simp_all add: local_lock_read_def local_lock_write_def local_try_lock_read_def local_try_lock_write_def
    local_unlock_read_def local_unlock_write_def local_unlock_try_read_def local_unlock_try_write_def
    unlock_never_def or_deadlocked_def with_core_def)

text \<open>C11. The local lock on three red-black trees implements a map of locked ranges.  A lock succeeds exactly when its range
  conflicts with no other in the map, a blocking lock panics with \<open>deadlocked\<close> otherwise, an unlock removes the range;
  no lock is ever left pending, and the invariant that this needs is kept.\<close>

theorem local_lock_refines_map:
  assumes "local_rb_inv self c" and "local_allowed (2 ^ 63 - 1) rb_free (rb_req self) (contents c) call"
  shows "refines (local_rb_inv self) (rb_req self) (local_perform (rbtree_ops dbg self) call c)
    (spec_perform call (rb_req self (contents c)))"
  by (rule local_rb.perform_spec [OF assms])

definition demo_cell :: "(nat, demo_lock, nat, nat, nat) world pin_cell" where
  "demo_cell = snd (projr (local_perform (rbtree_ops True 0) (RawTryLockWrite (Range 2 6) LockA :: (demo_lock, nat, nat) raw_call) (local_new (rbtree_ops True 0))))"

lemma demo_cell_inv: "local_rb_inv 0 demo_cell"
proof -
  let ?c = "local_new (rbtree_ops True 0) :: (nat, demo_lock, nat, nat, nat) world pin_cell"
  let ?r = "local_perform (rbtree_ops True 0) (RawTryLockWrite (Range 2 6) LockA :: (demo_lock, nat, nat) raw_call) ?c"
  have "rb_free (contents ?c) LockA" by code_simp
  then have "refines (local_rb_inv 0) (rb_req 0) ?r (spec_perform (RawTryLockWrite (Range 2 6) LockA :: (demo_lock, nat, nat) raw_call) (rb_req 0 (contents ?c)))"
    by (intro local_rb.perform_spec [where call = "RawTryLockWrite (Range 2 6) LockA :: (demo_lock, nat, nat) raw_call"] local_rb.good_cell_new) (simp add: demo_card del: not_None_eq)
  moreover have "map_sum (\<lambda>_. ()) (\<lambda>_. ()) ?r = Inr ()" by code_simp
  ultimately show ?thesis by (auto simp: refines_def demo_cell_def split: sum.splits)
qed

theorem local_lock_refines_map_witness:
  "refines (local_rb_inv 0) (rb_req 0) (local_perform (rbtree_ops True 0) (RawLockRead (Range 4 8) (1 :: nat) LockB) demo_cell)
    (spec_perform (RawLockRead (Range 4 8) (1 :: nat) LockB) (rb_req 0 (contents demo_cell)))"
proof (rule local_lock_refines_map [OF demo_cell_inv])
  have "rb_free (contents demo_cell) LockB" by code_simp
  then show "local_allowed (2 ^ 63 - 1) rb_free (rb_req 0) (contents demo_cell) (RawLockRead (Range 4 8) (1 :: nat) LockB)"
    by (simp add: demo_card del: not_None_eq)
qed

end
