(* ===== verification/Slice.thy ===== *)
theory Slice
  imports Raw_Local Raw_Future_Correct
begin

text \<open>
  The high-level locks of \<open>src/hl/slice.rs\<close>: a container, a raw lock on the indices of its elements, and guards that
  give access to subslices; the traits of \<open>src/raw/mod.rs\<close> as records of operations.
\<close>

section \<open>The traits of raw locks\<close>

text \<open>\<open>'r\<close> is a raw lock with its lock states, \<open>'e\<close> its panics.\<close>

record ('r, 'l, 'e) raw_ops =
  raw_init :: 'r
  raw_try_lock_read :: "nat range \<Rightarrow> 'l \<Rightarrow> 'r \<Rightarrow> 'e + bool \<times> 'r"
  raw_try_lock_write :: "nat range \<Rightarrow> 'l \<Rightarrow> 'r \<Rightarrow> 'e + bool \<times> 'r"
  raw_unlock_try_read :: "'l \<Rightarrow> 'r \<Rightarrow> 'e + 'r"
  raw_unlock_try_write :: "'l \<Rightarrow> 'r \<Rightarrow> 'e + 'r"

record ('r, 'l, 'e, 'pr) raw_blocking_ops = "('r, 'l, 'e) raw_ops" +
  raw_lock_read :: "nat range \<Rightarrow> 'pr \<Rightarrow> 'l \<Rightarrow> 'r \<Rightarrow> 'e + 'r"
  raw_lock_write :: "nat range \<Rightarrow> 'pr \<Rightarrow> 'l \<Rightarrow> 'r \<Rightarrow> 'e + 'r"
  raw_unlock_read :: "'l \<Rightarrow> 'r \<Rightarrow> 'e + 'r"
  raw_unlock_write :: "'l \<Rightarrow> 'r \<Rightarrow> 'e + 'r"

record ('r, 'l, 'e, 'pr, 'k) raw_async_ops = "('r, 'l, 'e) raw_ops" +
  raw_start_lock_read :: "nat range \<Rightarrow> 'pr \<Rightarrow> 'l \<Rightarrow> 'r \<Rightarrow> 'e + 'r"
  raw_start_lock_write :: "nat range \<Rightarrow> 'pr \<Rightarrow> 'l \<Rightarrow> 'r \<Rightarrow> 'e + 'r"
  raw_poll_lock_read :: "'l \<Rightarrow> 'k \<Rightarrow> 'r \<Rightarrow> 'e + poll \<times> 'r"
  raw_poll_lock_write :: "'l \<Rightarrow> 'k \<Rightarrow> 'r \<Rightarrow> 'e + poll \<times> 'r"
  raw_async_unlock_read :: "'l \<Rightarrow> 'r \<Rightarrow> 'e + 'r"
  raw_async_unlock_write :: "'l \<Rightarrow> 'r \<Rightarrow> 'e + 'r"

text \<open>The implementations \<open>LocalRawIntervalRwLock\<close> and \<open>AsyncRawIntervalRwLock\<close>\<close>

definition local_raw :: "('w, 'l, nat, 'pr, 'ip) local_ops \<Rightarrow> ('w pin_cell, 'l, local_panic, 'q) raw_blocking_ops" where
  "local_raw ops =
     \<lparr>raw_init = local_new ops,
      raw_try_lock_read = local_try_lock_read ops, raw_try_lock_write = local_try_lock_write ops,
      raw_unlock_try_read = (\<lambda>l r. map_sum id snd (local_unlock_try_read ops l r)),
      raw_unlock_try_write = (\<lambda>l r. map_sum id snd (local_unlock_try_write ops l r)),
      raw_lock_read = (\<lambda>r prio l c. map_sum id snd (local_lock_read ops r l c)),
      raw_lock_write = (\<lambda>r prio l c. map_sum id snd (local_lock_write ops r l c)),
      raw_unlock_read = (\<lambda>l r. map_sum id snd (local_unlock_read ops l r)),
      raw_unlock_write = (\<lambda>l r. map_sum id snd (local_unlock_write ops l r))\<rparr>"

definition async_raw ::
  "'k waker_api \<Rightarrow> ('w, 'l, nat, 'pr, 'k) async_ops \<Rightarrow> ('w \<times> 'k list, 'l, fault, 'pr, 'k) raw_async_ops" where
  "async_raw wk ops =
     \<lparr>raw_init = (op_init ops, []),
      raw_try_lock_read = (\<lambda>r l (w, log). map_sum id (\<lambda>(b, w). (b, w, log)) (async_try_lock_read ops r l w)),
      raw_try_lock_write = (\<lambda>r l (w, log). map_sum id (\<lambda>(b, w). (b, w, log)) (async_try_lock_write ops r l w)),
      raw_unlock_try_read = async_unlock_try_read ops, raw_unlock_try_write = async_unlock_try_write ops,
      raw_start_lock_read = (\<lambda>r prio l (w, log). map_sum id (\<lambda>w. (w, log)) (start_lock_read ops r prio l w)),
      raw_start_lock_write = (\<lambda>r prio l (w, log). map_sum id (\<lambda>w. (w, log)) (start_lock_write ops r prio l w)),
      raw_poll_lock_read = (\<lambda>l cx (w, log). map_sum id (\<lambda>(p, w). (p, w, log)) (poll_lock_read wk ops l cx w)),
      raw_poll_lock_write = (\<lambda>l cx (w, log). map_sum id (\<lambda>(p, w). (p, w, log)) (poll_lock_write wk ops l cx w)),
      raw_async_unlock_read = async_unlock_read ops, raw_async_unlock_write = async_unlock_write ops\<rparr>"

section \<open>The lock\<close>

text \<open>A pointer to a slice, and \<open>SliceIntervalRwLock\<close>\<close>

record slice_ptr =
  base :: nat
  elems :: nat

record ('c, 'r) slice_lock =
  container :: 'c
  raw :: 'r
  ptr :: slice_ptr

datatype 'e slice_panic = OutOfBounds | DerefPanic | PolledAfterCompletion | RawPanic 'e

text \<open>
  \<open>deref_mut\<close> is the container's; it may panic.  A method that panics leaves the lock as it is.
\<close>

definition slice_new :: "('c \<Rightarrow> slice_ptr option) \<Rightarrow> ('r, 'l, 'e, 'x) raw_ops_scheme \<Rightarrow> 'c \<Rightarrow> 'e slice_panic + ('c, 'r) slice_lock" where
  "slice_new deref_mut rops c = (case deref_mut c of
     None \<Rightarrow> Inl DerefPanic
   | Some p \<Rightarrow> Inr \<lparr>container = c, raw = raw_init rops, ptr = p\<rparr>)"

definition replace_container ::
  "('c \<Rightarrow> slice_ptr option) \<Rightarrow> 'c \<Rightarrow> ('c, 'r) slice_lock \<Rightarrow> 'e slice_panic + 'c \<times> ('c, 'r) slice_lock" where
  "replace_container deref_mut c s = (case deref_mut c of
     None \<Rightarrow> Inl DerefPanic
   | Some p \<Rightarrow> Inr (container s, s\<lparr>container := c, ptr := p\<rparr>))"

definition take_container ::
  "('c \<Rightarrow> slice_ptr option) \<Rightarrow> 'c \<Rightarrow> ('c, 'r) slice_lock \<Rightarrow> 'e slice_panic + 'c \<times> ('c, 'r) slice_lock" where
  "take_container deref_mut default_container = replace_container deref_mut default_container"

text \<open>
  \<open>update_container\<close>: the pointer is updated by a destructor, whether the closure returns or panics (\<open>None\<close>).  A
  panic of \<open>deref_mut\<close> in this destructor ends the program if the closure has panicked, and unwinds otherwise.
\<close>

datatype 'x outcome = Returns 'x | Unwinds | Aborts

definition update_container ::
  "('c \<Rightarrow> slice_ptr option) \<Rightarrow> ('c \<Rightarrow> 'x option \<times> 'c) \<Rightarrow> ('c, 'r) slice_lock \<Rightarrow> 'x outcome \<times> ('c, 'r) slice_lock" where
  "update_container deref_mut updater s = (case updater (container s) of (r, c) \<Rightarrow>
     let s = s\<lparr>container := c\<rparr> in
     (case deref_mut c of
        Some p \<Rightarrow> (case r of Some x \<Rightarrow> Returns x | None \<Rightarrow> Unwinds, s\<lparr>ptr := p\<rparr>)
      | None \<Rightarrow> (case r of Some _ \<Rightarrow> Unwinds | None \<Rightarrow> Aborts, s)))"

definition slice_len :: "('c, 'r) slice_lock \<Rightarrow> nat" where
  "slice_len s = elems (ptr s)"

definition slice_is_empty :: "('c, 'r) slice_lock \<Rightarrow> bool" where
  "slice_is_empty s \<longleftrightarrow> slice_len s = 0"

text \<open>\<open>as_ptr\<close>, \<open>as_non_null_ptr\<close> and \<open>get_mut\<close>; \<open>mem\<close> has the elements by address.\<close>

definition as_ptr :: "('c, 'r) slice_lock \<Rightarrow> slice_ptr" where
  "as_ptr s = ptr s"

definition slice_at :: "slice_ptr \<Rightarrow> (nat \<Rightarrow> 'a) \<Rightarrow> 'a list" where
  "slice_at p mem = map mem [base p ..< base p + elems p]"

definition get_mut :: "('c, 'r) slice_lock \<Rightarrow> (nat \<Rightarrow> 'a) \<Rightarrow> 'a list" where
  "get_mut s mem = slice_at (ptr s) mem"

definition slice :: "('c, 'r) slice_lock \<Rightarrow> nat range \<Rightarrow> 'e slice_panic + slice_ptr" where
  "slice s r =
     (if rng_start r \<le> rng_end r \<and> rng_end r \<le> elems (ptr s)
      then Inr \<lparr>base = base (ptr s) + rng_start r, elems = rng_end r - rng_start r\<rparr> else Inl OutOfBounds)"

section \<open>Guards\<close>

text \<open>
  A guard has the address of its lock state and a pointer to its subslice.  There are six types of guards;
  \<open>ReadLockGuard\<close> stands for \<open>AsyncReadLockGuard\<close>, too, which differs only in the trait of the raw lock, and so does
  \<open>WriteLockGuard\<close>.
\<close>

datatype guard_kind = TryReadLockGuard | TryWriteLockGuard | ReadLockGuard | WriteLockGuard

record 'l guard =
  lock_kind :: guard_kind
  lock_state :: 'l
  guard_ptr :: slice_ptr

datatype try_lock_error = TryWouldBlock

definition slice_try ::
  "(nat range \<Rightarrow> 'l \<Rightarrow> 'r \<Rightarrow> 'e + bool \<times> 'r) \<Rightarrow> guard_kind \<Rightarrow> nat range \<Rightarrow> 'l \<Rightarrow> ('c, 'r) slice_lock \<Rightarrow>
   'e slice_panic + (try_lock_error + 'l guard) \<times> ('c, 'r) slice_lock" where
  "slice_try try_lock k r l s = (case slice s r of
     Inl e \<Rightarrow> Inl e
   | Inr p \<Rightarrow> (case try_lock r l (raw s) of
       Inl e \<Rightarrow> Inl (RawPanic e)
     | Inr (b, raw') \<Rightarrow>
         Inr (if b then Inr \<lparr>lock_kind = k, lock_state = l, guard_ptr = p\<rparr> else Inl TryWouldBlock, s\<lparr>raw := raw'\<rparr>)))"

definition try_read where
  "try_read rops = slice_try (raw_try_lock_read rops) TryReadLockGuard"

definition try_write where
  "try_write rops = slice_try (raw_try_lock_write rops) TryWriteLockGuard"

text \<open>\<open>read\<close> and \<open>write\<close>, and the first part of \<open>async_read\<close> and \<open>async_write\<close>\<close>

definition slice_lock_then ::
  "(nat range \<Rightarrow> 'pr \<Rightarrow> 'l \<Rightarrow> 'r \<Rightarrow> 'e + 'r) \<Rightarrow> guard_kind \<Rightarrow> nat range \<Rightarrow> 'pr \<Rightarrow> 'l \<Rightarrow> ('c, 'r) slice_lock \<Rightarrow>
   'e slice_panic + 'l guard \<times> ('c, 'r) slice_lock" where
  "slice_lock_then lock k r prio l s = (case slice s r of
     Inl e \<Rightarrow> Inl e
   | Inr p \<Rightarrow> map_sum RawPanic
       (\<lambda>raw'. (\<lparr>lock_kind = k, lock_state = l, guard_ptr = p\<rparr>, s\<lparr>raw := raw'\<rparr>)) (lock r prio l (raw s)))"

definition slice_read where
  "slice_read rops = slice_lock_then (raw_lock_read rops) ReadLockGuard"

definition slice_write where
  "slice_write rops = slice_lock_then (raw_lock_write rops) WriteLockGuard"

text \<open>\<open>Drop\<close> of the guards of non-blocking and blocking locks, and of those of futures\<close>

definition drop_lock_guard ::
  "('r, 'l, 'e, 'pr, 'x) raw_blocking_ops_scheme \<Rightarrow> 'l guard \<Rightarrow> ('c, 'r) slice_lock \<Rightarrow> 'e slice_panic + ('c, 'r) slice_lock" where
  "drop_lock_guard rops g s = map_sum RawPanic (\<lambda>raw'. s\<lparr>raw := raw'\<rparr>)
     ((case lock_kind g of
         TryReadLockGuard \<Rightarrow> raw_unlock_try_read rops
       | TryWriteLockGuard \<Rightarrow> raw_unlock_try_write rops
       | ReadLockGuard \<Rightarrow> raw_unlock_read rops
       | WriteLockGuard \<Rightarrow> raw_unlock_write rops) (lock_state g) (raw s))"

definition drop_async_guard ::
  "('r, 'l, 'e, 'pr, 'k, 'x) raw_async_ops_scheme \<Rightarrow> 'l guard \<Rightarrow> ('c, 'r) slice_lock \<Rightarrow> 'e slice_panic + ('c, 'r) slice_lock" where
  "drop_async_guard rops g s = map_sum RawPanic (\<lambda>raw'. s\<lparr>raw := raw'\<rparr>)
     ((case lock_kind g of
         TryReadLockGuard \<Rightarrow> raw_unlock_try_read rops
       | TryWriteLockGuard \<Rightarrow> raw_unlock_try_write rops
       | ReadLockGuard \<Rightarrow> raw_async_unlock_read rops
       | WriteLockGuard \<Rightarrow> raw_async_unlock_write rops) (lock_state g) (raw s))"

text \<open>
  \<open>WithState\<close>, a guard with its own lock state, and its destructor: \<open>guard\<close> is declared, and dropped, before \<open>state\<close>.
  \<open>drop_state\<close> is the destructor of the lock state.
\<close>

record 'l with_state =
  ws_guard :: "'l guard option"
  ws_state :: 'l

definition drop_with_state ::
  "('l guard \<Rightarrow> ('c, 'r) slice_lock \<Rightarrow> 'e slice_panic + ('c, 'r) slice_lock) \<Rightarrow>
   ('l \<Rightarrow> ('c, 'r) slice_lock \<Rightarrow> 'e slice_panic + ('c, 'r) slice_lock) \<Rightarrow> 'l with_state \<Rightarrow> ('c, 'r) slice_lock \<Rightarrow>
   'e slice_panic + ('c, 'r) slice_lock" where
  "drop_with_state drop_its_guard drop_state ws s =
     (case (case ws_guard ws of None \<Rightarrow> Inr s | Some g \<Rightarrow> drop_its_guard g s) of
        Inl e \<Rightarrow> Inl e
      | Inr s \<Rightarrow> drop_state (ws_state ws) s)"

text \<open>
  \<open>try_read_boxed\<close> and \<open>try_write_boxed\<close>, \<open>read_boxed\<close> and \<open>write_boxed\<close>, with the lock state allocated at \<open>l\<close>.  The box is
  dropped when the lock fails.
\<close>

definition try_boxed ::
  "('l \<Rightarrow> ('c, 'r) slice_lock \<Rightarrow> 'e slice_panic + ('c, 'r) slice_lock) \<Rightarrow>
   ('l \<Rightarrow> ('c, 'r) slice_lock \<Rightarrow> 'e slice_panic + (try_lock_error + 'l guard) \<times> ('c, 'r) slice_lock) \<Rightarrow>
   'l \<Rightarrow> ('c, 'r) slice_lock \<Rightarrow> 'e slice_panic + (try_lock_error + 'l with_state) \<times> ('c, 'r) slice_lock" where
  "try_boxed drop_state lock l s = (case lock l s of
     Inl e \<Rightarrow> Inl e
   | Inr (Inr g, s) \<Rightarrow> Inr (Inr \<lparr>ws_guard = Some g, ws_state = l\<rparr>, s)
   | Inr (Inl err, s) \<Rightarrow> map_sum id (Pair (Inl err)) (drop_state l s))"

definition lock_boxed ::
  "('l \<Rightarrow> ('c, 'r) slice_lock \<Rightarrow> 'e slice_panic + 'l guard \<times> ('c, 'r) slice_lock) \<Rightarrow>
   'l \<Rightarrow> ('c, 'r) slice_lock \<Rightarrow> 'e slice_panic + 'l with_state \<times> ('c, 'r) slice_lock" where
  "lock_boxed lock l s = map_sum id (\<lambda>(g, s). (\<lparr>ws_guard = Some g, ws_state = l\<rparr>, s)) (lock l s)"

definition try_read_boxed where
  "try_read_boxed drop_state rops r = try_boxed drop_state (try_read rops r)"

definition try_write_boxed where
  "try_write_boxed drop_state rops r = try_boxed drop_state (try_write rops r)"

definition read_boxed where
  "read_boxed rops r prio = lock_boxed (slice_read rops r prio)"

definition write_boxed where
  "write_boxed rops r prio = lock_boxed (slice_write rops r prio)"

text \<open>\<open>Deref\<close>, and an assignment through \<open>DerefMut\<close> with the bounds check of indexing.\<close>

definition guard_deref :: "'l guard \<Rightarrow> (nat \<Rightarrow> 'a) \<Rightarrow> 'a list" where
  "guard_deref g mem = map mem [base (guard_ptr g) ..< base (guard_ptr g) + elems (guard_ptr g)]"

definition guard_assign :: "'l guard \<Rightarrow> nat \<Rightarrow> 'a \<Rightarrow> (nat \<Rightarrow> 'a) \<Rightarrow> 'e slice_panic + (nat \<Rightarrow> 'a)" where
  "guard_assign g i x mem =
     (if i < elems (guard_ptr g) then Inr (mem(base (guard_ptr g) + i := x)) else Inl OutOfBounds)"

text \<open>\<open>deref\<close> of a boxed guard, which unwraps its guard, and an assignment through \<open>pin_deref_mut\<close>\<close>

definition with_state_deref :: "'l with_state \<Rightarrow> (nat \<Rightarrow> 'a) \<Rightarrow> 'a list option" where
  "with_state_deref ws mem = map_option (\<lambda>g. guard_deref g mem) (ws_guard ws)"

definition with_state_assign :: "'l with_state \<Rightarrow> nat \<Rightarrow> 'a \<Rightarrow> (nat \<Rightarrow> 'a) \<Rightarrow> ('e slice_panic + (nat \<Rightarrow> 'a)) option" where
  "with_state_assign ws i x mem = map_option (\<lambda>g. guard_assign g i x mem) (ws_guard ws)"

text \<open>What a guard shows are the elements of its range, in the slice that \<open>get_mut\<close> returns.\<close>

lemma guard_deref_subslice:
  assumes "slice s r = Inr (guard_ptr g)"
  shows "guard_deref g mem = take (rng_end r - rng_start r) (drop (rng_start r) (get_mut s mem))"
proof -
  from assms have "guard_ptr g = \<lparr>base = base (ptr s) + rng_start r, elems = rng_end r - rng_start r\<rparr>"
    "rng_start r \<le> rng_end r" "rng_end r \<le> elems (ptr s)" by (auto simp: slice_def split: if_splits)
  then show ?thesis by (simp add: guard_deref_def get_mut_def slice_at_def drop_map take_map drop_upt take_upt)
qed

lemma lock_boxed_deref:
  assumes "lock_boxed lock l s = Inr (ws, s')"
  obtains g where "lock l s = Inr (g, s')" "with_state_deref ws mem = Some (guard_deref g mem)"
  using assms by (cases "lock l s") (auto simp: lock_boxed_def with_state_deref_def)

section \<open>Futures\<close>

text \<open>\<open>ReadLockFuture\<close> and \<open>WriteLockFuture\<close>: the guard that a poll will return.\<close>

type_synonym 'l lock_future = "'l guard option"

definition async_read where
  "async_read rops r prio l s =
     map_sum id (\<lambda>(g, s). (Some g, s)) (slice_lock_then (raw_start_lock_read rops) ReadLockGuard r prio l s)"

definition async_write where
  "async_write rops r prio l s =
     map_sum id (\<lambda>(g, s). (Some g, s)) (slice_lock_then (raw_start_lock_write rops) WriteLockGuard r prio l s)"

text \<open>\<open>Future::poll\<close>: the result is a guard, or none when the lock is pending.\<close>

definition future_poll ::
  "('r, 'l, 'e, 'pr, 'k, 'x) raw_async_ops_scheme \<Rightarrow> 'k \<Rightarrow> 'l lock_future \<Rightarrow> ('c, 'r) slice_lock \<Rightarrow>
   'e slice_panic + 'l guard option \<times> 'l lock_future \<times> ('c, 'r) slice_lock" where
  "future_poll rops cx fut s = (case fut of
     None \<Rightarrow> Inl PolledAfterCompletion
   | Some g \<Rightarrow> (case (if lock_kind g = WriteLockGuard then raw_poll_lock_write rops else raw_poll_lock_read rops)
         (lock_state g) cx (raw s) of
       Inl e \<Rightarrow> Inl (RawPanic e)
     | Inr (Pending, raw') \<Rightarrow> Inr (None, Some g, s\<lparr>raw := raw'\<rparr>)
     | Inr (Ready, raw') \<Rightarrow> Inr (Some g, None, s\<lparr>raw := raw'\<rparr>)))"

definition is_terminated :: "'l lock_future \<Rightarrow> bool" where
  "is_terminated fut \<longleftrightarrow> fut = None"

text \<open>Dropping a future drops the guard of the pending lock.\<close>

definition drop_future ::
  "('r, 'l, 'e, 'pr, 'k, 'x) raw_async_ops_scheme \<Rightarrow> 'l lock_future \<Rightarrow> ('c, 'r) slice_lock \<Rightarrow> 'e slice_panic + ('c, 'r) slice_lock" where
  "drop_future rops fut s = (case fut of None \<Rightarrow> Inr s | Some g \<Rightarrow> drop_async_guard rops g s)"

section \<open>Boxed futures\<close>

text \<open>
  \<open>async_read_boxed\<close> and \<open>async_write_boxed\<close> are asynchronous functions: the first poll allocates the box, at \<open>l\<close>, and
  locks; later polls poll the future of the lock.
\<close>

datatype ('pr, 'l) boxed_future = Unresumed "nat range" 'pr | Suspended "'l lock_future" 'l | Returned

definition await_boxed ::
  "('r, 'l, 'e, 'pr, 'k, 'x) raw_async_ops_scheme \<Rightarrow> 'k \<Rightarrow> 'l lock_future \<Rightarrow> 'l \<Rightarrow> ('c, 'r) slice_lock \<Rightarrow>
   'e slice_panic + 'l with_state option \<times> ('pr, 'l) boxed_future \<times> ('c, 'r) slice_lock" where
  "await_boxed rops cx fut l s = map_sum id
     (\<lambda>(res, fut, s). case res of
        None \<Rightarrow> (None, Suspended fut l, s)
      | Some g \<Rightarrow> (Some \<lparr>ws_guard = Some g, ws_state = l\<rparr>, Returned, s)) (future_poll rops cx fut s)"

definition boxed_poll ::
  "('r, 'l, 'e, 'pr, 'k, 'x) raw_async_ops_scheme \<Rightarrow>
   (nat range \<Rightarrow> 'pr \<Rightarrow> 'l \<Rightarrow> ('c, 'r) slice_lock \<Rightarrow> 'e slice_panic + 'l lock_future \<times> ('c, 'r) slice_lock) \<Rightarrow>
   'l \<Rightarrow> 'k \<Rightarrow> ('pr, 'l) boxed_future \<Rightarrow> ('c, 'r) slice_lock \<Rightarrow>
   'e slice_panic + 'l with_state option \<times> ('pr, 'l) boxed_future \<times> ('c, 'r) slice_lock" where
  "boxed_poll rops lock l cx fut s = (case fut of
     Unresumed r prio \<Rightarrow> (case lock r prio l s of
       Inl e \<Rightarrow> Inl e
     | Inr (fut, s) \<Rightarrow> await_boxed rops cx fut l s)
   | Suspended fut l \<Rightarrow> await_boxed rops cx fut l s
   | Returned \<Rightarrow> Inl PolledAfterCompletion)"

definition async_read_boxed where
  "async_read_boxed rops = boxed_poll rops (async_read rops)"

definition async_write_boxed where
  "async_write_boxed rops = boxed_poll rops (async_write rops)"

text \<open>A future that is dropped while it waits drops the future of the lock before the box.\<close>

definition drop_boxed_future ::
  "('r, 'l, 'e, 'pr, 'k, 'x) raw_async_ops_scheme \<Rightarrow>
   ('l \<Rightarrow> ('c, 'r) slice_lock \<Rightarrow> 'e slice_panic + ('c, 'r) slice_lock) \<Rightarrow> ('pr, 'l) boxed_future \<Rightarrow>
   ('c, 'r) slice_lock \<Rightarrow> 'e slice_panic + ('c, 'r) slice_lock" where
  "drop_boxed_future rops drop_state fut s = (case fut of
     Suspended fut l \<Rightarrow> (case drop_future rops fut s of
       Inl e \<Rightarrow> Inl e
     | Inr s \<Rightarrow> drop_with_state (drop_async_guard rops) drop_state \<lparr>ws_guard = None, ws_state = l\<rparr> s)
   | _ \<Rightarrow> Inr s)"

end
