(* ===== verification/Slice_Guards.thy ===== *)
theory Slice_Guards
  imports Slice
begin

text \<open>
  Guards and the memory: for any raw lock that keeps its contract, two guards of which one is a writer have disjoint
  subslices, so that no access through one guard is seen through another.
\<close>

section \<open>The contract of a raw lock\<close>

text \<open>
  \<open>held\<close> is what the granted locks have locked.  A lock that has been acquired stays until its lock state is released.
\<close>

definition keeps :: "('r \<Rightarrow> 'l \<Rightarrow> 'a option) \<Rightarrow> 'l \<Rightarrow> 'r \<Rightarrow> 'r \<Rightarrow> bool" where
  "keeps held l r r' \<longleftrightarrow> (\<forall>k a. k \<noteq> l \<longrightarrow> held r k = Some a \<longrightarrow> held r' k = Some a)"

definition granted_law where
  "granted_law fine held l a r r' \<longleftrightarrow> fine r' \<and> keeps held l r r' \<and> held r' l = Some a"

definition acquire_law where
  "acquire_law fine held l a r res \<longleftrightarrow> (\<exists>r'. res = Inr (True, r') \<and> granted_law fine held l a r r') \<or>
     (\<exists>r'. res = Inr (False, r') \<and> fine r' \<and> keeps held l r r' \<and> held r' l = held r l)"

definition release_law where
  "release_law fine held l r res \<longleftrightarrow> (\<exists>r'. res = Inr r' \<and> fine r' \<and> keeps held l r r' \<and> held r' l = None)"

locale raw_exclusion =
  fixes fine :: "'r \<Rightarrow> bool"
    and held :: "'r \<Rightarrow> 'l \<Rightarrow> nat asking option"
  assumes held_apart: "\<lbrakk> fine r; held r l = Some a; held r l' = Some b; l \<noteq> l' \<rbrakk> \<Longrightarrow> apart a b"

text \<open>Locks whose methods return at once.\<close>

locale raw_lock = raw_exclusion fine held
  for rops :: "('r, 'l, 'e, 'x) raw_ops_scheme" and fine and vacant :: "'r \<Rightarrow> 'l \<Rightarrow> bool" and held +
  assumes init_fine: "fine (raw_init rops)" and init_held: "held (raw_init rops) l = None"
    and vacant_held: "\<lbrakk> fine r; vacant r l \<rbrakk> \<Longrightarrow> held r l = None"
    and try_read_law: "\<lbrakk> fine r; vacant r l; x < y \<rbrakk> \<Longrightarrow>
      acquire_law fine held l (False, x, y) r (raw_try_lock_read rops (Range x y) l r)"
    and try_write_law: "\<lbrakk> fine r; vacant r l; x < y \<rbrakk> \<Longrightarrow>
      acquire_law fine held l (True, x, y) r (raw_try_lock_write rops (Range x y) l r)"
    and unlock_try_read_law: "\<lbrakk> fine r; held r l = Some (False, x, y) \<rbrakk> \<Longrightarrow> release_law fine held l r (raw_unlock_try_read rops l r)"
    and unlock_try_write_law: "\<lbrakk> fine r; held r l = Some (True, x, y) \<rbrakk> \<Longrightarrow> release_law fine held l r (raw_unlock_try_write rops l r)"

text \<open>A blocking lock on one thread may panic instead.\<close>

locale raw_blocking_lock = raw_lock rops fine vacant held
  for rops :: "('r, 'l, 'e, 'pr, 'x) raw_blocking_ops_scheme" and fine vacant held +
  assumes lock_read_law: "\<lbrakk> fine r; vacant r l; x < y; raw_lock_read rops (Range x y) prio l r = Inr r' \<rbrakk> \<Longrightarrow>
      granted_law fine held l (False, x, y) r r'"
    and lock_write_law: "\<lbrakk> fine r; vacant r l; x < y; raw_lock_write rops (Range x y) prio l r = Inr r' \<rbrakk> \<Longrightarrow>
      granted_law fine held l (True, x, y) r r'"
    and unlock_read_law: "\<lbrakk> fine r; held r l = Some (False, x, y) \<rbrakk> \<Longrightarrow> release_law fine held l r (raw_unlock_read rops l r)"
    and unlock_write_law: "\<lbrakk> fine r; held r l = Some (True, x, y) \<rbrakk> \<Longrightarrow> release_law fine held l r (raw_unlock_write rops l r)"

section \<open>Guards of a lock\<close>

definition is_write_guard :: "'l guard \<Rightarrow> bool" where
  "is_write_guard g \<longleftrightarrow> lock_kind g = TryWriteLockGuard \<or> lock_kind g = WriteLockGuard"

text \<open>A guard, by the address of its lock state, points into the slice, to what its lock has locked.\<close>

definition guard_ok :: "('r \<Rightarrow> 'l \<Rightarrow> nat asking option) \<Rightarrow> ('c, 'r) slice_lock \<Rightarrow> 'l \<Rightarrow> 'l guard \<Rightarrow> bool" where
  "guard_ok held s l g \<longleftrightarrow> lock_state g = l \<and> (\<exists>x y. x < y \<and> y \<le> elems (ptr s) \<and>
     held (raw s) l = Some (is_write_guard g, x, y) \<and> guard_ptr g = \<lparr>base = base (ptr s) + x, elems = y - x\<rparr>)"

definition guards_ok where
  "guards_ok fine held s gs \<longleftrightarrow> fine (raw s) \<and> (\<forall>l g. gs l = Some g \<longrightarrow> guard_ok held s l g)"

definition addresses :: "'l guard \<Rightarrow> nat set" where
  "addresses g = {base (guard_ptr g) ..< base (guard_ptr g) + elems (guard_ptr g)}"

lemma deref_outside: "a \<notin> addresses g \<Longrightarrow> guard_deref g (mem(a := v)) = guard_deref g mem"
  by (simp add: guard_deref_def addresses_def)

lemma assign_inside: "guard_assign g i v mem = Inr mem' \<Longrightarrow> \<exists>a\<in>addresses g. mem' = mem(a := v)"
  by (auto simp: guard_assign_def addresses_def split: if_splits)

lemma guard_inside: "guard_ok held s l g \<Longrightarrow> addresses g \<subseteq> {base (ptr s) ..< base (ptr s) + elems (ptr s)}"
  by (auto simp: guard_ok_def addresses_def)

text \<open>A step that keeps the locks of the other guards.\<close>

lemma guard_ok_keeps:
  assumes "guard_ok held s k g" and "keeps held l (raw s) r'" "k \<noteq> l"
  shows "guard_ok held (s\<lparr>raw := r'\<rparr>) k g"
  using assms by (fastforce simp: guard_ok_def keeps_def)

lemma guards_add:
  assumes "guards_ok fine held s gs" "fine r'" "keeps held l (raw s) r'"
    and "gs' = gs(l \<mapsto> g)" "guard_ok held (s\<lparr>raw := r'\<rparr>) l g"
  shows "guards_ok fine held (s\<lparr>raw := r'\<rparr>) gs'"
  using assms guard_ok_keeps [of held s _ _ l r'] by (auto simp: guards_ok_def)

lemma guards_drop:
  assumes "guards_ok fine held s gs" "fine r'" "keeps held l (raw s) r'"
  shows "guards_ok fine held (s\<lparr>raw := r'\<rparr>) (gs(l := None))"
  using assms guard_ok_keeps [of held s _ _ l r'] by (auto simp: guards_ok_def)

lemma guards_same:
  assumes "guards_ok fine held s gs" "fine r'" "keeps held l (raw s) r'" and "gs l = None"
  shows "guards_ok fine held (s\<lparr>raw := r'\<rparr>) gs"
  using assms guard_ok_keeps [of held s _ _ l r'] by (fastforce simp: guards_ok_def)

definition subslice :: "('c, 'r) slice_lock \<Rightarrow> nat range \<Rightarrow> slice_ptr" where
  "subslice s r = \<lparr>base = base (ptr s) + rng_start r, elems = rng_end r - rng_start r\<rparr>"

lemma slice_in: "rng_start r < rng_end r \<Longrightarrow> rng_end r \<le> elems (ptr s) \<Longrightarrow> slice s r = Inr (subslice s r)"
  by (simp add: slice_def subslice_def)

lemma slice_out: "elems (ptr s) < rng_end r \<Longrightarrow> slice s r = Inl OutOfBounds"
  by (simp add: slice_def)

context raw_exclusion
begin

lemma guards_disjoint:
  assumes "guards_ok fine held s gs" and "gs l = Some g" "gs l' = Some g'" "l \<noteq> l'" and "is_write_guard g \<or> is_write_guard g'"
  shows "addresses g \<inter> addresses g' = {}"
proof -
  from assms(1-3) have ok: "guard_ok held s l g" "guard_ok held s l' g'" and f: "fine (raw s)"
    by (simp_all add: guards_ok_def)
  from ok obtain x y x' y' where
    g: "x < y" "held (raw s) l = Some (is_write_guard g, x, y)" "guard_ptr g = \<lparr>base = base (ptr s) + x, elems = y - x\<rparr>"
    "x' < y'" "held (raw s) l' = Some (is_write_guard g', x', y')" "guard_ptr g' = \<lparr>base = base (ptr s) + x', elems = y' - x'\<rparr>"
    unfolding guard_ok_def by (elim exE conjE) (rule that)
  from held_apart [OF f g(2,5) assms(4)] assms(5) have "y \<le> x' \<or> y' \<le> x" by (auto simp: apart_def)
  with g show ?thesis by (auto simp: addresses_def)
qed

end

context raw_lock
begin

text \<open>Acquiring and releasing locks keeps the guards.\<close>

lemma acquire_guards:
  assumes gs: "guards_ok fine held s gs" and r: "rng_start r < rng_end r" "rng_end r \<le> elems (ptr s)"
    and law: "granted_law fine held l (u, rng_start r, rng_end r) (raw s) r'"
    and g: "g = \<lparr>lock_kind = k, lock_state = l, guard_ptr = subslice s r\<rparr>" "is_write_guard g = u"
  shows "guards_ok fine held (s\<lparr>raw := r'\<rparr>) (gs(l \<mapsto> g))"
proof -
  from law have 1: "fine r'" "keeps held l (raw s) r'" "held r' l = Some (u, rng_start r, rng_end r)"
    by (auto simp: granted_law_def)
  have "guard_ok held (s\<lparr>raw := r'\<rparr>) l g" using r 1(3) g by (auto simp: guard_ok_def subslice_def)
  with guards_add [OF gs 1(1,2)] show ?thesis by simp
qed

lemma try_guards:
  assumes gs: "guards_ok fine held s gs" "gs l = None" and r: "rng_start r < rng_end r" "rng_end r \<le> elems (ptr s)"
    and law: "acquire_law fine held l (u, rng_start r, rng_end r) (raw s) (lock r l (raw s))"
    and k: "k = (if u then TryWriteLockGuard else TryReadLockGuard)"
  shows "\<exists>x s'. slice_try lock k r l s = Inr (x, s') \<and> ptr s' = ptr s \<and>
      guards_ok fine held s' (case x of Inl _ \<Rightarrow> gs | Inr g \<Rightarrow> gs(l \<mapsto> g))"
proof -
  let ?g = "\<lparr>lock_kind = k, lock_state = l, guard_ptr = subslice s r\<rparr>"
  have g: "is_write_guard ?g = u" using k by (simp add: is_write_guard_def)
  from law show ?thesis
    unfolding acquire_law_def
  proof (elim disjE exE conjE)
    fix r' assume 1: "lock r l (raw s) = Inr (True, r')" "granted_law fine held l (u, rng_start r, rng_end r) (raw s) r'"
    from acquire_guards [OF gs(1) r 1(2) refl g] 1(1) show ?thesis by (simp add: slice_try_def slice_in [OF r])
  next
    fix r' assume 1: "lock r l (raw s) = Inr (False, r')" "fine r'" "keeps held l (raw s) r'"
    from guards_same [OF gs(1) 1(2,3) gs(2)] 1(1) show ?thesis by (simp add: slice_try_def slice_in [OF r])
  qed
qed

lemma release_guards:
  assumes gs: "guards_ok fine held s gs" and law: "release_law fine held l (raw s) (unlock (raw s))"
  shows "\<exists>s'. map_sum f (\<lambda>raw'. s\<lparr>raw := raw'\<rparr>) (unlock (raw s)) = Inr s' \<and> ptr s' = ptr s \<and> guards_ok fine held s' (gs(l := None))"
proof -
  from law obtain r' where 1: "unlock (raw s) = Inr r'" "fine r'" "keeps held l (raw s) r'" by (auto simp: release_law_def)
  from guards_drop [OF gs 1(2,3)] 1(1) show ?thesis by simp
qed

lemma guard_held:
  assumes "guards_ok fine held s gs" "gs l = Some g"
  obtains x y where "fine (raw s)" "lock_state g = l" "held (raw s) l = Some (is_write_guard g, x, y)"
  using assms unfolding guards_ok_def guard_ok_def by blast

end

end
