(* ===== verification/Slice_System.thy ===== *)
theory Slice_System
  imports Slice_Guards
begin

text \<open>
  A slice lock with its memory and its guards, under any sequence of locking, assigning and dropping: a guard sees no
  writes but its own.
\<close>

section \<open>Steps\<close>

record ('c, 'r, 'l, 'a) slice_state =
  slice_of :: "('c, 'r) slice_lock"
  memory :: "nat \<Rightarrow> 'a"
  guards :: "'l \<Rightarrow> 'l guard option"

datatype ('l, 'pr, 'a) slice_call =
    SliceTryRead "nat range" 'l
  | SliceTryWrite "nat range" 'l
  | SliceRead "nat range" 'pr 'l
  | SliceWrite "nat range" 'pr 'l
  | SliceDrop 'l
  | SliceAssign 'l nat 'a

fun slice_target :: "('l, 'pr, 'a) slice_call \<Rightarrow> 'l" where
  "slice_target (SliceTryRead r l) = l"
| "slice_target (SliceTryWrite r l) = l"
| "slice_target (SliceRead r prio l) = l"
| "slice_target (SliceWrite r prio l) = l"
| "slice_target (SliceDrop l) = l"
| "slice_target (SliceAssign l i v) = l"

text \<open>A guard that a method returns becomes live under the address of its lock state.\<close>

definition store_tried ::
  "'l \<Rightarrow> ('c, 'r, 'l, 'a) slice_state \<Rightarrow> (try_lock_error + 'l guard) \<times> ('c, 'r) slice_lock \<Rightarrow> ('c, 'r, 'l, 'a) slice_state" where
  "store_tried l st = (\<lambda>(x, s). st\<lparr>slice_of := s, guards := (case x of Inl _ \<Rightarrow> guards st | Inr g \<Rightarrow> (guards st)(l \<mapsto> g))\<rparr>)"

definition store_guard ::
  "'l \<Rightarrow> ('c, 'r, 'l, 'a) slice_state \<Rightarrow> 'l guard \<times> ('c, 'r) slice_lock \<Rightarrow> ('c, 'r, 'l, 'a) slice_state" where
  "store_guard l st = (\<lambda>(g, s). st\<lparr>slice_of := s, guards := (guards st)(l \<mapsto> g)\<rparr>)"

text \<open>Without a guard there is nothing to drop or to assign through: no step.\<close>

fun slice_perform ::
  "('r, 'l, 'e, 'pr, 'x) raw_blocking_ops_scheme \<Rightarrow> ('l, 'pr, 'a) slice_call \<Rightarrow> ('c, 'r, 'l, 'a) slice_state \<Rightarrow>
   'e slice_panic + ('c, 'r, 'l, 'a) slice_state" where
  "slice_perform rops (SliceTryRead r l) st = map_sum id (store_tried l st) (try_read rops r l (slice_of st))"
| "slice_perform rops (SliceTryWrite r l) st = map_sum id (store_tried l st) (try_write rops r l (slice_of st))"
| "slice_perform rops (SliceRead r prio l) st = map_sum id (store_guard l st) (slice_read rops r prio l (slice_of st))"
| "slice_perform rops (SliceWrite r prio l) st = map_sum id (store_guard l st) (slice_write rops r prio l (slice_of st))"
| "slice_perform rops (SliceDrop l) st = (case guards st l of
     None \<Rightarrow> Inr st
   | Some g \<Rightarrow> map_sum id (\<lambda>s. st\<lparr>slice_of := s, guards := (guards st)(l := None)\<rparr>) (drop_lock_guard rops g (slice_of st)))"
| "slice_perform rops (SliceAssign l i v) st = (case guards st l of
     None \<Rightarrow> Inr st
   | Some g \<Rightarrow> map_sum id (\<lambda>m. st\<lparr>memory := m\<rparr>) (guard_assign g i v (memory st)))"

text \<open>
  What safe code may do: ranges as the documentation asks for, lock states that are not in use, assignments through
  write guards.
\<close>

fun slice_allowed ::
  "('r \<Rightarrow> 'l \<Rightarrow> bool) \<Rightarrow> ('c, 'r, 'l, 'a) slice_state \<Rightarrow> ('l, 'pr, 'a) slice_call \<Rightarrow> bool" where
  "slice_allowed vacant st (SliceTryRead r l) \<longleftrightarrow> rng_start r < rng_end r \<and> guards st l = None \<and> vacant (raw (slice_of st)) l"
| "slice_allowed vacant st (SliceTryWrite r l) \<longleftrightarrow> rng_start r < rng_end r \<and> guards st l = None \<and> vacant (raw (slice_of st)) l"
| "slice_allowed vacant st (SliceRead r prio l) \<longleftrightarrow> rng_start r < rng_end r \<and> guards st l = None \<and> vacant (raw (slice_of st)) l"
| "slice_allowed vacant st (SliceWrite r prio l) \<longleftrightarrow> rng_start r < rng_end r \<and> guards st l = None \<and> vacant (raw (slice_of st)) l"
| "slice_allowed vacant st (SliceDrop l) \<longleftrightarrow> True"
| "slice_allowed vacant st (SliceAssign l i v) \<longleftrightarrow> (\<forall>g. guards st l = Some g \<longrightarrow> is_write_guard g)"

text \<open>Sequences of calls that do not concern the lock states in \<open>K\<close>; a panic leaves the state as it is.\<close>

inductive slice_run ::
  "('r, 'l, 'e, 'pr, 'x) raw_blocking_ops_scheme \<Rightarrow> ('r \<Rightarrow> 'l \<Rightarrow> bool) \<Rightarrow> 'l set \<Rightarrow> ('c, 'r, 'l, 'a) slice_state \<Rightarrow>
   ('c, 'r, 'l, 'a) slice_state \<Rightarrow> bool"
  for rops :: "('r, 'l, 'e, 'pr, 'x) raw_blocking_ops_scheme" and vacant :: "'r \<Rightarrow> 'l \<Rightarrow> bool" and K :: "'l set"
    and st :: "('c, 'r, 'l, 'a) slice_state" where
  stop: "slice_run rops vacant K st st"
| call: "slice_run rops vacant K st st' \<Longrightarrow> slice_allowed vacant st' c \<Longrightarrow> slice_target c \<notin> K \<Longrightarrow>
    slice_perform rops c st' = Inr st'' \<Longrightarrow> slice_run rops vacant K st st''"

section \<open>Isolation\<close>

context raw_blocking_lock
begin

definition state_ok :: "('c, 'r, 'l, 'a) slice_state \<Rightarrow> bool" where
  "state_ok st \<longleftrightarrow> guards_ok fine held (slice_of st) (guards st)"

text \<open>A call keeps the invariant; other guards stay and see the same values.\<close>

definition isolated where
  "isolated l st st' \<longleftrightarrow> state_ok st' \<and> ptr (slice_of st') = ptr (slice_of st) \<and> (\<forall>k. k \<noteq> l \<longrightarrow> guards st' k = guards st k) \<and>
     (\<forall>k g. k \<noteq> l \<longrightarrow> guards st k = Some g \<longrightarrow> guard_deref g (memory st') = guard_deref g (memory st))"

lemma tried_isolated:
  assumes ok: "state_ok st" and al: "rng_start r < rng_end r" "guards st l = None"
    and law: "acquire_law fine held l (u, rng_start r, rng_end r) (raw (slice_of st)) (lock r l (raw (slice_of st)))"
    and k: "k = (if u then TryWriteLockGuard else TryReadLockGuard)"
    and step: "map_sum id (store_tried l st) (slice_try lock k r l (slice_of st)) = Inr st'"
  shows "isolated l st st'"
proof (cases "rng_end r \<le> elems (ptr (slice_of st))")
  case True
  from try_guards [where lock = lock, OF ok [unfolded state_ok_def] al(2,1) True law k] obtain x s' where
    "slice_try lock k r l (slice_of st) = Inr (x, s')" "ptr s' = ptr (slice_of st)"
    "guards_ok fine held s' (case x of Inl _ \<Rightarrow> guards st | Inr g \<Rightarrow> (guards st)(l \<mapsto> g))" by blast
  with step show ?thesis by (auto simp: isolated_def state_ok_def store_tried_def split: sum.splits)
next
  case False
  with step show ?thesis by (simp add: slice_try_def slice_out)
qed

lemma locked_isolated:
  assumes ok: "state_ok st" and al: "rng_start r < rng_end r" "guards st l = None"
    and law: "\<And>r'. lock r prio l (raw (slice_of st)) = Inr r' \<Longrightarrow>
      granted_law fine held l (u, rng_start r, rng_end r) (raw (slice_of st)) r'"
    and k: "k = (if u then WriteLockGuard else ReadLockGuard)"
    and step: "map_sum id (store_guard l st) (slice_lock_then lock k r prio l (slice_of st)) = Inr st'"
  shows "isolated l st st'"
proof (cases "rng_end r \<le> elems (ptr (slice_of st))")
  case True
  let ?g = "\<lparr>lock_kind = k, lock_state = l, guard_ptr = subslice (slice_of st) r\<rparr>"
  from step obtain r' where r': "lock r prio l (raw (slice_of st)) = Inr r'"
    "st' = st\<lparr>slice_of := (slice_of st)\<lparr>raw := r'\<rparr>, guards := (guards st)(l \<mapsto> ?g)\<rparr>"
    by (cases "lock r prio l (raw (slice_of st))") (auto simp: slice_lock_then_def slice_in [OF al(1) True] store_guard_def)
  have "is_write_guard ?g = u" using k by (simp add: is_write_guard_def)
  from acquire_guards [OF ok [unfolded state_ok_def] al(1) True law [OF r'(1)] refl this] show ?thesis
    by (simp add: isolated_def state_ok_def r'(2))
next
  case False
  with step show ?thesis by (simp add: slice_lock_then_def slice_out)
qed

lemma dropped_isolated:
  assumes ok: "state_ok st" and g: "guards st l = Some g"
  shows "\<exists>st'. slice_perform rops (SliceDrop l) st = Inr st' \<and> isolated l st st' \<and> guards st' l = None"
proof -
  let ?s = "slice_of st"
  from guard_held [OF ok [unfolded state_ok_def] g] obtain x y where
    1: "fine (raw ?s)" "lock_state g = l" "held (raw ?s) l = Some (is_write_guard g, x, y)" by blast
  note laws = unlock_try_read_law unlock_try_write_law unlock_read_law unlock_write_law
  have "\<exists>s'. drop_lock_guard rops g ?s = Inr s' \<and> ptr s' = ptr ?s \<and> guards_ok fine held s' ((guards st)(l := None))"
    unfolding drop_lock_guard_def 1(2)
    by (rule release_guards [OF ok [unfolded state_ok_def]])
      (use 1 in \<open>cases "lock_kind g"; auto simp: is_write_guard_def intro: laws\<close>)
  with g show ?thesis by (auto simp: isolated_def state_ok_def)
qed

lemma assigned_isolated:
  assumes ok: "state_ok st" and g: "guards st l = Some g" "is_write_guard g"
    and step: "guard_assign g i v (memory st) = Inr m"
  shows "isolated l st (st\<lparr>memory := m\<rparr>)"
proof -
  from assign_inside [OF step] obtain a where a: "a \<in> addresses g" "m = (memory st)(a := v)" by blast
  have "guard_deref g' m = guard_deref g' (memory st)" if "k \<noteq> l" "guards st k = Some g'" for k g'
    using guards_disjoint [OF ok [unfolded state_ok_def] g(1) that(2)] that(1) g(2) a by (auto intro: deref_outside)
  with ok show ?thesis by (simp add: isolated_def state_ok_def)
qed

lemma call_isolated:
  assumes ok: "state_ok st" and al: "slice_allowed vacant st c" and step: "slice_perform rops c st = Inr st'"
  shows "isolated (slice_target c) st st'"
proof -
  have f: "fine (raw (slice_of st))" using ok by (simp add: state_ok_def guards_ok_def)
  have same: "isolated l st st" for l using ok by (simp add: isolated_def)
  show ?thesis
  proof (cases c)
    case (SliceTryRead r l)
    with al step try_read_law [OF f, of l "rng_start r" "rng_end r"] show ?thesis
      by (auto simp: try_read_def intro: tried_isolated [OF ok, where u = False])
  next
    case (SliceTryWrite r l)
    with al step try_write_law [OF f, of l "rng_start r" "rng_end r"] show ?thesis
      by (auto simp: try_write_def intro: tried_isolated [OF ok, where u = True])
  next
    case (SliceRead r prio l)
    with al step lock_read_law [OF f, of l "rng_start r" "rng_end r" prio] show ?thesis
      by (auto simp: slice_read_def intro: locked_isolated [OF ok, where u = False and lock = "raw_lock_read rops" and r = r and prio = prio and k = ReadLockGuard])
  next
    case (SliceWrite r prio l)
    with al step lock_write_law [OF f, of l "rng_start r" "rng_end r" prio] show ?thesis
      by (auto simp: slice_write_def intro: locked_isolated [OF ok, where u = True and lock = "raw_lock_write rops" and r = r and prio = prio and k = WriteLockGuard])
  next
    case (SliceDrop l)
    with step same dropped_isolated [OF ok, of l] show ?thesis by (cases "guards st l") auto
  next
    case (SliceAssign l i v)
    show ?thesis
    proof (cases "guards st l")
      case (Some g)
      with SliceAssign al step obtain m where
        "is_write_guard g" "(guard_assign g i v (memory st) :: 'e slice_panic + _) = Inr m" "st' = st\<lparr>memory := m\<rparr>"
        by (cases "guard_assign g i v (memory st) :: 'e slice_panic + _") auto
      with SliceAssign assigned_isolated [OF ok Some] show ?thesis by auto
    qed (use SliceAssign step same in auto)
  qed
qed

lemma run_isolated:
  "slice_run rops vacant K st st' \<Longrightarrow> state_ok st \<Longrightarrow> state_ok st' \<and> ptr (slice_of st') = ptr (slice_of st) \<and>
    (\<forall>k\<in>K. guards st' k = guards st k \<and> (\<forall>g. guards st k = Some g \<longrightarrow> guard_deref g (memory st') = guard_deref g (memory st)))"
proof (induction rule: slice_run.induct)
  case (call st' c st'')
  from call.IH [OF call.prems] call_isolated [of st' c st''] call.hyps show ?case
    unfolding isolated_def by (metis (no_types, lifting))
qed simp

text \<open>A new lock has no guards.\<close>

lemma new_ok: "slice_new deref_mut rops c = Inr s \<Longrightarrow> state_ok \<lparr>slice_of = s, memory = m, guards = (\<lambda>_. None)\<rparr>"
  by (auto simp: slice_new_def state_ok_def guards_ok_def init_fine split: option.splits)

end

end
