(* ===== verification/Slice_Instances.thy ===== *)
theory Slice_Instances
  imports Slice_System
begin

text \<open>
  The local lock and the lock for futures, on the red-black tree core, as raw locks of a slice: both keep the contract of
  \<open>Slice_Guards\<close>.
\<close>

section \<open>The local lock under a slice\<close>

definition local_held :: "'c \<Rightarrow> ('c, 'l, 'i, 'pr, 'ip) world pin_cell \<Rightarrow> 'l \<Rightarrow> 'i asking option" where
  "local_held self r = rb_req self (contents r)"

definition local_vacant :: "'c \<Rightarrow> ('c, 'l, 'i, 'pr, 'ip) world pin_cell \<Rightarrow> 'l \<Rightarrow> bool" where
  "local_vacant self r l \<longleftrightarrow> rb_free (contents r) l \<and> card {k. rb_req self (contents r) k \<noteq> None} < 2 ^ 63 - 1"

lemma local_raw_simps [simp]:
  "raw_init (local_raw ops) = local_new ops"
  "raw_try_lock_read (local_raw ops) = local_try_lock_read ops"
  "raw_try_lock_write (local_raw ops) = local_try_lock_write ops"
  "raw_unlock_try_read (local_raw ops) l r = map_sum id snd (local_unlock_try_read ops l r)"
  "raw_unlock_try_write (local_raw ops) l r = map_sum id snd (local_unlock_try_write ops l r)"
  "raw_lock_read (local_raw ops) rng prio l c = map_sum id snd (local_lock_read ops rng l c)"
  "raw_lock_write (local_raw ops) rng prio l c = map_sum id snd (local_lock_write ops rng l c)"
  "raw_unlock_read (local_raw ops) l r = map_sum id snd (local_unlock_read ops l r)"
  "raw_unlock_write (local_raw ops) l r = map_sum id snd (local_unlock_write ops l r)"
  by (simp_all add: local_raw_def)

lemma map_sum_Inr: "map_sum f g s = Inr y \<longleftrightarrow> (\<exists>x. s = Inr x \<and> g x = y)"
  by (cases s) auto

text \<open>The answers of the local lock, by its specification.\<close>

lemma local_try_answer:
  assumes "local_rb_inv self r" "local_vacant self r l" "x < y"
  shows "if uncontended (local_held self r) (u, x, y)
    then \<exists>r'. (if u then local_try_lock_write else local_try_lock_read) (rbtree_ops dbg self) (Range x y) l r = Inr (True, r') \<and>
      local_rb_inv self r' \<and> local_held self r' = (local_held self r)(l \<mapsto> (u, x, y))
    else \<exists>r'. (if u then local_try_lock_write else local_try_lock_read) (rbtree_ops dbg self) (Range x y) l r = Inr (False, r') \<and>
      local_rb_inv self r' \<and> local_held self r' = local_held self r"
proof -
  let ?call = "if u then RawTryLockWrite (Range x y) l else RawTryLockRead (Range x y) l"
  have "local_allowed (2 ^ 63 - 1) rb_free (rb_req self) (contents r) ?call"
    using assms(2,3) by (simp add: local_vacant_def)
  from local_rb.perform_spec [OF assms(1) this, of dbg] show ?thesis
    by (cases u) (auto simp: refines_def spec_lock_def local_held_def map_sum_Inr split: sum.splits if_splits)
qed

lemma local_lock_answer:
  assumes "local_rb_inv self r" "local_vacant self r l" "x < y"
    and "map_sum id snd ((if u then local_lock_write else local_lock_read) (rbtree_ops dbg self) (Range x y) l r) = Inr r'"
  shows "uncontended (local_held self r) (u, x, y) \<and> local_rb_inv self r' \<and> local_held self r' = (local_held self r)(l \<mapsto> (u, x, y))"
proof -
  let ?call = "if u then RawLockWrite (Range x y) undefined l else RawLockRead (Range x y) undefined l"
  have "local_allowed (2 ^ 63 - 1) rb_free (rb_req self) (contents r) ?call"
    using assms(2,3) by (simp add: local_vacant_def)
  from local_rb.perform_spec [OF assms(1) this, of dbg] assms(4) show ?thesis
    by (cases u) (auto simp: refines_def spec_lock_def local_held_def map_sum_Inr split: sum.splits if_splits)
qed

lemma local_unlock_exact:
  assumes "local_rb_inv self r" "local_held self r l = Some (u, x, y)"
  shows "\<exists>r'. (if u then local_unlock_try_write else local_unlock_try_read) (rbtree_ops dbg self) l r = Inr ((), r') \<and>
    local_rb_inv self r' \<and> local_held self r' = (local_held self r)(l := None)"
proof -
  let ?call = "if u then RawUnlockTryWrite l else RawUnlockTryRead l"
  have "local_allowed (2 ^ 63 - 1) rb_free (rb_req self) (contents r) ?call"
    using assms(2) by (simp add: local_held_def)
  from local_rb.perform_spec [OF assms(1) this, of dbg] show ?thesis
    by (cases u) (auto simp: refines_def local_held_def map_sum_Inr split: sum.splits)
qed

lemma local_unlock_answer:
  assumes "local_rb_inv self r" "local_held self r l = Some (u, x, y)"
  shows "release_law (local_rb_inv self) (local_held self) l r
    (map_sum id snd ((if u then local_unlock_try_write else local_unlock_try_read) (rbtree_ops dbg self) l r))"
  using local_unlock_exact [OF assms, of dbg] by (auto simp: release_law_def keeps_def)

lemma local_fine: "local_rb_inv self r \<Longrightarrow> core_inv self (contents r)" "local_rb_inv self r \<Longrightarrow> rb_waits self (contents r) l = None"
  by (simp_all add: local_inv_def)

lemma local_init_held: "local_held self (local_new (rbtree_ops dbg self)) l = None"
  by (simp add: local_held_def local_new_def rb_req_def table_init del: table_of_simps)

lemma local_vacant_held: "local_rb_inv self r \<Longrightarrow> local_vacant self r l \<Longrightarrow> local_held self r l = None"
  by (simp add: local_vacant_def local_held_def rb_free_req [OF local_fine(1)])

lemma local_held_apart:
  "local_rb_inv self r \<Longrightarrow> local_held self r l = Some a \<Longrightarrow> local_held self r l' = Some b \<Longrightarrow> l \<noteq> l' \<Longrightarrow> apart a b"
  using rb_exclusion [OF local_fine(1)] local_fine(2) by (fastforce simp: local_held_def)

lemma local_acquire:
  assumes "local_rb_inv self r" "local_vacant self r l" "x < y"
  shows "acquire_law (local_rb_inv self) (local_held self) l (False, x, y) r (local_try_lock_read (rbtree_ops dbg self) (Range x y) l r)"
    and "acquire_law (local_rb_inv self) (local_held self) l (True, x, y) r (local_try_lock_write (rbtree_ops dbg self) (Range x y) l r)"
  using local_try_answer [OF assms, of False dbg] local_try_answer [OF assms, of True dbg]
  by (auto simp: acquire_law_def granted_law_def keeps_def split: if_splits)

lemma local_granted:
  assumes "local_rb_inv self r" "local_vacant self r l" "x < y"
  shows "map_sum id snd (local_lock_read (rbtree_ops dbg self) (Range x y) l r) = Inr r' \<Longrightarrow>
      granted_law (local_rb_inv self) (local_held self) l (False, x, y) r r'"
    and "map_sum id snd (local_lock_write (rbtree_ops dbg self) (Range x y) l r) = Inr r' \<Longrightarrow>
      granted_law (local_rb_inv self) (local_held self) l (True, x, y) r r'"
  using local_lock_answer [OF assms, of False dbg r'] local_lock_answer [OF assms, of True dbg r']
  by (auto simp: granted_law_def keeps_def)

lemma local_release:
  assumes "local_rb_inv self r"
  shows "local_held self r l = Some (False, x, y) \<Longrightarrow>
      release_law (local_rb_inv self) (local_held self) l r (map_sum id snd (local_unlock_try_read (rbtree_ops dbg self) l r))"
    and "local_held self r l = Some (True, x, y) \<Longrightarrow>
      release_law (local_rb_inv self) (local_held self) l r (map_sum id snd (local_unlock_try_write (rbtree_ops dbg self) l r))"
  using local_unlock_answer [OF assms, of l False x y dbg] local_unlock_answer [OF assms, of l True x y dbg] by simp_all

interpretation local_slice: raw_blocking_lock "local_raw (rbtree_ops dbg self)" "local_rb_inv self" "local_vacant self" "local_held self"
  by unfold_locales
    (simp_all only: local_raw_simps local_unlock_read_def local_unlock_write_def local_rb.good_cell_new local_init_held
      local_vacant_held local_acquire local_granted local_release | erule (3) local_held_apart)+

section \<open>The lock for futures under a slice\<close>

text \<open>A lock is held when it has been granted.\<close>

definition async_fine :: "'c \<Rightarrow> ('c, 'l, 'i::linorder, 'pr::linorder, 'k async_in_progress) world \<times> 'k list \<Rightarrow> bool" where
  "async_fine self r \<longleftrightarrow> core_inv self (fst r)"

definition async_held :: "'c \<Rightarrow> ('c, 'l, 'i, 'pr, 'k async_in_progress) world \<times> 'k list \<Rightarrow> 'l \<Rightarrow> 'i asking option" where
  "async_held self r l = (if rb_waits self (fst r) l = None then rb_req self (fst r) l else None)"

definition async_vacant :: "'c \<Rightarrow> ('c, 'l, 'i, 'pr, 'k async_in_progress) world \<times> 'k list \<Rightarrow> 'l \<Rightarrow> bool" where
  "async_vacant self r l \<longleftrightarrow> rb_free (fst r) l \<and> card {k. rb_req self (fst r) k \<noteq> None} < 2 ^ 63 - 1"

lemma async_raw_simps [simp]:
  "raw_init (async_raw wk ops) = (op_init ops, [])"
  "raw_try_lock_read (async_raw wk ops) rng l r = map_sum id (\<lambda>(b, w). (b, w, snd r)) (op_try_lock_read ops rng l (fst r))"
  "raw_try_lock_write (async_raw wk ops) rng l r = map_sum id (\<lambda>(b, w). (b, w, snd r)) (op_try_lock_write ops rng l (fst r))"
  "raw_unlock_try_read (async_raw wk ops) l r = async_unlock_try_read ops l r"
  "raw_unlock_try_write (async_raw wk ops) l r = async_unlock_try_write ops l r"
  "raw_start_lock_read (async_raw wk ops) rng prio l r = map_sum id (\<lambda>w. (w, snd r)) (start_lock_read ops rng prio l (fst r))"
  "raw_start_lock_write (async_raw wk ops) rng prio l r = map_sum id (\<lambda>w. (w, snd r)) (start_lock_write ops rng prio l (fst r))"
  "raw_poll_lock_read (async_raw wk ops) l cx r = map_sum id (\<lambda>(p, w). (p, w, snd r)) (poll_lock_read wk ops l cx (fst r))"
  "raw_poll_lock_write (async_raw wk ops) l cx r = map_sum id (\<lambda>(p, w). (p, w, snd r)) (poll_lock_write wk ops l cx (fst r))"
  "raw_async_unlock_read (async_raw wk ops) l r = async_unlock_read ops l r"
  "raw_async_unlock_write (async_raw wk ops) l r = async_unlock_write ops l r"
  by (simp_all add: async_raw_def case_prod_unfold)

lemma async_init_held: "async_held self (op_init (rbtree_ops dbg self), []) l = None"
  by (simp add: async_held_def rb_req_def table_init del: table_of_simps)

lemma async_vacant_held: "async_fine self r \<Longrightarrow> async_vacant self r l \<Longrightarrow> async_held self r l = None"
  by (simp add: async_vacant_def async_held_def async_fine_def rb_free_req)

lemma async_held_apart:
  "async_fine self r \<Longrightarrow> async_held self r l = Some a \<Longrightarrow> async_held self r l' = Some b \<Longrightarrow> l \<noteq> l' \<Longrightarrow> apart a b"
  using rb_exclusion [of self "fst r" l a l' b] by (simp add: async_fine_def async_held_def split: if_splits)

lemma async_try:
  assumes law: "try_law (core_inv self) rb_free (rb_req self) (rb_waits self) l a (fst r) res"
    and fine: "async_fine self r" and free: "rb_free (fst r) l"
  shows "acquire_law (async_fine self) (async_held self) l a r (map_sum id (\<lambda>(b, w). (b, w, snd r)) res)"
proof -
  have n: "rb_waits self (fst r) l = None"
    using rb_waits_req [of self "fst r" l] rb_free_req [of self "fst r" l] fine free
    by (cases "rb_waits self (fst r) l") (auto simp: async_fine_def)
  from law show ?thesis unfolding try_law_def
  proof (elim disjE exE conjE)
    assume "res = Inr (False, fst r)"
    with fine show ?thesis by (simp add: acquire_law_def keeps_def)
  next
    fix w' assume "res = Inr (True, w')" "core_inv self w'" "rb_req self w' = (rb_req self (fst r))(l \<mapsto> a)" "rb_waits self w' = rb_waits self (fst r)"
    with n show ?thesis by (simp add: acquire_law_def granted_law_def keeps_def async_fine_def async_held_def)
  qed
qed

lemma async_acquire:
  assumes "async_fine self r" "async_vacant self r l" "x < y"
  shows "acquire_law (async_fine self) (async_held self) l (False, x, y) r
      (map_sum id (\<lambda>(b, w). (b, w, snd r)) (op_try_lock_read (rbtree_ops dbg self) (Range x y) l (fst r)))"
    and "acquire_law (async_fine self) (async_held self) l (True, x, y) r
      (map_sum id (\<lambda>(b, w). (b, w, snd r)) (op_try_lock_write (rbtree_ops dbg self) (Range x y) l (fst r)))"
proof -
  have 1: "core_inv self (fst r)" "rb_free (fst r) l" "card {k. rb_req self (fst r) k \<noteq> None} < 2 ^ 63 - 1"
    using assms(1,2) by (simp_all add: async_fine_def async_vacant_def del: not_None_eq)
  note attempt = async_try [OF _ assms(1) 1(2)]
  show "acquire_law (async_fine self) (async_held self) l (False, x, y) r
      (map_sum id (\<lambda>(b, w). (b, w, snd r)) (op_try_lock_read (rbtree_ops dbg self) (Range x y) l (fst r)))"
    "acquire_law (async_fine self) (async_held self) l (True, x, y) r
      (map_sum id (\<lambda>(b, w). (b, w, snd r)) (op_try_lock_write (rbtree_ops dbg self) (Range x y) l (fst r)))"
    using attempt [OF rb.try_lock_read [OF 1 assms(3)]] attempt [OF rb.try_lock_write [OF 1 assms(3)]] .
qed

text \<open>Unlocking, of a granted or of a pending lock.\<close>

lemma async_unlock:
  assumes "unlock_law (core_inv self) rb_free (rb_req self) (rb_waits self) l (fst r) cb log ret (map_sum id (Pair ret) res)"
  shows "release_law (async_fine self) (async_held self) l r res"
proof -
  from assms obtain w' where
    w': "\<exists>e. map_sum id (Pair ret) res = Inr (ret, w', e)" "core_inv self w'" "rb_req self w' = (rb_req self (fst r))(l := None)"
    "\<forall>k. rb_waits self w' k \<noteq> None \<longrightarrow> rb_waits self w' k = rb_waits self (fst r) k"
    unfolding unlock_law_def by blast
  from w'(1) obtain e where "res = Inr (w', e)" by (auto simp: map_sum_Inr)
  moreover have "keeps (async_held self) l r (w', e)"
    using w'(3,4) by (fastforce simp: keeps_def async_held_def split: if_splits)
  ultimately show ?thesis using w'(2,3) by (simp add: release_law_def async_fine_def async_held_def)
qed

lemma async_release:
  assumes "async_fine self r"
  shows "async_held self r l = Some (False, x, y) \<Longrightarrow>
      release_law (async_fine self) (async_held self) l r (async_unlock_try_read (rbtree_ops dbg self) l r)"
    and "async_held self r l = Some (True, x, y) \<Longrightarrow>
      release_law (async_fine self) (async_held self) l r (async_unlock_try_write (rbtree_ops dbg self) l r)"
  using assms async_unlock [OF rb.unlock_try_read [of self "fst r" l x y async_unlock_callback "snd r" dbg]]
    async_unlock [OF rb.unlock_try_write [of self "fst r" l x y async_unlock_callback "snd r" dbg]]
  by (simp_all add: async_fine_def async_held_def async_unlock_try_read_def async_unlock_try_write_def split: if_splits)

interpretation async_slice: raw_lock "async_raw wk (rbtree_ops dbg self)" "async_fine self" "async_vacant self" "async_held self"
proof unfold_locales
  show "async_fine self (raw_init (async_raw wk (rbtree_ops dbg self)))" by (simp add: async_fine_def core_inv_init)
qed (simp_all only: async_raw_simps async_init_held async_vacant_held async_acquire async_release | erule (3) async_held_apart)+

end
