(* ===== verification/Slice_Correct.thy ===== *)
theory Slice_Correct
  imports Slice_Instances
begin

text \<open>
  The properties of slice locks, most of them of \<open>LocalRbTreeSliceIntervalRwLock\<close>.
\<close>

section \<open>A session\<close>

text \<open>
  A slice of ten elements at address 100.  \<open>LockA\<close> locks 2..6 for writing and assigns to its first element,
  \<open>LockB\<close> locks 6..8 for reading.
\<close>

type_synonym demo_local = "(nat, demo_lock, nat, nat, nat) world pin_cell"
type_synonym demo_slice = "(nat, demo_local) slice_lock"
type_synonym demo_state = "(nat, demo_local, demo_lock, nat) slice_state"
type_synonym demo_slice_call = "(demo_lock, nat, nat) slice_call"

definition demo_raw :: "bool \<Rightarrow> (demo_local, demo_lock, local_panic, nat) raw_blocking_ops" where
  "demo_raw dbg = local_raw (rbtree_ops dbg 0)"

definition demo_deref :: "nat \<Rightarrow> slice_ptr option" where
  "demo_deref c = (if c = 0 then None else Some \<lparr>base = c, elems = 10\<rparr>)"

definition slice0 :: demo_slice where
  "slice0 = \<lparr>container = 100, raw = local_new (rbtree_ops True 0), ptr = \<lparr>base = 100, elems = 10\<rparr>\<rparr>"

definition slice_after :: "bool \<Rightarrow> demo_slice_call \<Rightarrow> demo_state \<Rightarrow> demo_state" where
  "slice_after dbg c st = (case slice_perform (demo_raw dbg) c st of Inl _ \<Rightarrow> st | Inr st' \<Rightarrow> st')"

definition state0 :: demo_state where "state0 = \<lparr>slice_of = slice0, memory = (\<lambda>a. a), guards = (\<lambda>_. None)\<rparr>"
definition state1 :: demo_state where "state1 = slice_after True (SliceWrite (Range 2 6) 0 LockA) state0"
definition state2 :: demo_state where "state2 = slice_after True (SliceAssign LockA 0 7) state1"
definition state3 :: demo_state where "state3 = slice_after True (SliceTryRead (Range 6 8) LockB) state2"

lemma slice0_new: "(slice_new demo_deref (demo_raw True) 100 :: local_panic slice_panic + demo_slice) = Inr slice0"
  by (simp add: slice_new_def demo_deref_def slice0_def demo_raw_def)

lemma slice_views:
  "rb_free (contents (raw (slice_of state0))) LockA" "guards state0 LockA = None"
  "guards state1 LockA = Some \<lparr>lock_kind = WriteLockGuard, lock_state = LockA, guard_ptr = \<lparr>base = 102, elems = 4\<rparr>\<rparr>"
  "guards state2 LockA = Some \<lparr>lock_kind = WriteLockGuard, lock_state = LockA, guard_ptr = \<lparr>base = 102, elems = 4\<rparr>\<rparr>"
  "rb_free (contents (raw (slice_of state2))) LockB" "guards state2 LockB = None"
  "guards state3 LockB = Some \<lparr>lock_kind = TryReadLockGuard, lock_state = LockB, guard_ptr = \<lparr>base = 106, elems = 2\<rparr>\<rparr>"
  by code_simp+

lemma demo_vacant: "local_vacant 0 (r :: demo_local) l \<longleftrightarrow> rb_free (contents r) l"
  by (simp add: local_vacant_def demo_card del: not_None_eq)

abbreviation demo_slice_run :: "demo_lock set \<Rightarrow> demo_state \<Rightarrow> demo_state \<Rightarrow> bool" where
  "demo_slice_run \<equiv> slice_run (demo_raw True) (local_vacant 0)"

lemma slice_after_run:
  assumes "demo_slice_run K st st'" and "slice_allowed (local_vacant 0) st' c" "slice_target c \<notin> K"
  shows "demo_slice_run K st (slice_after True c st')"
  using slice_run.call [OF assms] assms(1) by (auto simp: slice_after_def split: sum.splits)

lemma slice_run2: "demo_slice_run {} state0 state2"
  unfolding state2_def
proof (rule slice_after_run)
  show "demo_slice_run {} state0 state1"
    unfolding state1_def by (rule slice_after_run [OF slice_run.stop]) (simp_all add: slice_views demo_vacant)
qed (simp_all add: slice_views is_write_guard_def)

lemma slice_run3: "demo_slice_run {LockA} state2 state3"
  unfolding state3_def by (rule slice_after_run [OF slice_run.stop]) (simp_all add: slice_views demo_vacant)

section \<open>Guards\<close>

text \<open>C3. Isolation: while a guard lives, whatever else is locked, assigned or dropped on its lock, the guard sees the same
  values, all of them elements of the slice.\<close>

theorem slice_isolation:
  fixes m :: "nat \<Rightarrow> 'a"
  assumes "slice_new deref_mut (local_raw (rbtree_ops dbg self)) c = Inr s"
    and "slice_run (local_raw (rbtree_ops dbg self)) (local_vacant self) {} \<lparr>slice_of = s, memory = m, guards = (\<lambda>_. None)\<rparr> st"
    and "guards st l = Some g"
    and "slice_run (local_raw (rbtree_ops dbg self)) (local_vacant self) {l} st st'"
  shows "guards st' l = Some g \<and> guard_deref g (memory st') = guard_deref g (memory st) \<and>
    addresses g \<subseteq> {base (ptr s) ..< base (ptr s) + elems (ptr s)}"
proof -
  from local_slice.run_isolated [OF assms(2) local_slice.new_ok [OF assms(1)]]
  have 1: "local_slice.state_ok self st" "ptr (slice_of st) = ptr s" by simp_all
  from 1(1) assms(3) have "guard_ok (local_held self) (slice_of st) l g"
    by (simp add: local_slice.state_ok_def guards_ok_def)
  from guard_inside [OF this] local_slice.run_isolated [OF assms(4) 1(1)] assms(3) 1(2) show ?thesis by simp
qed

theorem slice_isolation_witness:
  "guards state3 LockA = Some \<lparr>lock_kind = WriteLockGuard, lock_state = LockA, guard_ptr = \<lparr>base = 102, elems = 4\<rparr>\<rparr> \<and>
   guard_deref \<lparr>lock_kind = WriteLockGuard, lock_state = LockA, guard_ptr = \<lparr>base = 102, elems = 4\<rparr>\<rparr> (memory state3) =
   guard_deref \<lparr>lock_kind = WriteLockGuard, lock_state = LockA, guard_ptr = \<lparr>base = 102, elems = 4\<rparr>\<rparr> (memory state2) \<and>
   addresses \<lparr>lock_kind = WriteLockGuard, lock_state = LockA, guard_ptr = \<lparr>base = 102, elems = 4\<rparr>\<rparr>
     \<subseteq> {base (ptr slice0) ..< base (ptr slice0) + elems (ptr slice0)}"
  by (rule slice_isolation [where self = 0 and dbg = True, OF slice0_new [unfolded demo_raw_def]
    slice_run2 [unfolded state0_def demo_raw_def] slice_views(4) slice_run3 [unfolded demo_raw_def]])

text \<open>The answer of a non-blocking lock.\<close>

lemma slice_try_ok:
  assumes "local_rb_inv self (raw s)" "local_vacant self (raw s) l" and "rng_start r < rng_end r"
  shows "let res = (if u then try_write else try_read) (local_raw (rbtree_ops dbg self)) r l s in
    if elems (ptr s) < rng_end r then res = Inl OutOfBounds
    else if uncontended (local_held self (raw s)) (u, rng_start r, rng_end r)
      then \<exists>g s'. res = Inr (Inr g, s') \<and> ptr s' = ptr s \<and> guard_ok (local_held self) s' l g \<and> is_write_guard g = u \<and>
        guard_ptr g = \<lparr>base = base (ptr s) + rng_start r, elems = rng_end r - rng_start r\<rparr> \<and> local_rb_inv self (raw s') \<and>
        local_held self (raw s') = (local_held self (raw s))(l \<mapsto> (u, rng_start r, rng_end r))
      else \<exists>s'. res = Inr (Inl TryWouldBlock, s') \<and> ptr s' = ptr s \<and> local_rb_inv self (raw s') \<and>
        local_held self (raw s') = local_held self (raw s)"
proof (cases "elems (ptr s) < rng_end r")
  case True
  then show ?thesis by (simp add: try_read_def try_write_def slice_try_def slice_out)
next
  case False
  then have "rng_end r \<le> elems (ptr s)" by simp
  note sl = slice_in [OF assms(3) this]
  from local_try_answer [OF assms, of u dbg] show ?thesis
    using assms(3) \<open>rng_end r \<le> elems (ptr s)\<close>
    by (cases u; cases "uncontended (local_held self (raw s)) (u, rng_start r, rng_end r)")
      (auto simp: try_read_def try_write_def slice_try_def sl subslice_def guard_ok_def is_write_guard_def)
qed

text \<open>C23. The answer of \<open>try_read\<close> and \<open>try_write\<close>.  A range that ends behind the slice is refused; otherwise the
  call succeeds exactly if the range conflicts with no other lock, with a guard of the range, and changes nothing
  otherwise.\<close>

theorem slice_try_correct:
  assumes "local_rb_inv self (raw s)" "local_vacant self (raw s) l" and "rng_start r < rng_end r"
  shows "let res = (if u then try_write else try_read) (local_raw (rbtree_ops dbg self)) r l s in
    if elems (ptr s) < rng_end r then res = Inl OutOfBounds
    else if uncontended (local_held self (raw s)) (u, rng_start r, rng_end r)
      then \<exists>g s'. res = Inr (Inr g, s') \<and> ptr s' = ptr s \<and> guard_ok (local_held self) s' l g \<and> is_write_guard g = u \<and>
        guard_ptr g = \<lparr>base = base (ptr s) + rng_start r, elems = rng_end r - rng_start r\<rparr> \<and> local_rb_inv self (raw s') \<and>
        local_held self (raw s') = (local_held self (raw s))(l \<mapsto> (u, rng_start r, rng_end r))
      else \<exists>s'. res = Inr (Inl TryWouldBlock, s') \<and> ptr s' = ptr s \<and> local_rb_inv self (raw s') \<and>
        local_held self (raw s') = local_held self (raw s)"
  using slice_try_ok [OF assms] .

lemma demo_fine:
  assumes "demo_slice_run K state0 st"
  shows "local_rb_inv 0 (raw (slice_of st))"
proof -
  from local_slice.new_ok [OF slice0_new [unfolded demo_raw_def], of "\<lambda>a. a"] have "local_slice.state_ok 0 state0"
    unfolding state0_def .
  from local_slice.run_isolated [OF assms [unfolded demo_raw_def] this] show ?thesis
    by (simp add: local_slice.state_ok_def guards_ok_def)
qed

lemma held_state2: "local_held 0 (raw (slice_of state2)) = [LockA \<mapsto> (True, 2, 6)]"
proof (rule ext)
  have "map (local_held 0 (raw (slice_of state2))) [LockA, LockB, LockC, TryA, TryB] = [Some (True, 2, 6), None, None, None, None]"
    by code_simp
  then show "local_held 0 (raw (slice_of state2)) l = [LockA \<mapsto> (True, 2, 6)] l" for l by (cases l) simp_all
qed

theorem slice_try_correct_witness:
  "\<exists>g s'. (try_read (local_raw (rbtree_ops True 0)) (Range 6 8) LockB (slice_of state2) ::
      local_panic slice_panic + (try_lock_error + demo_lock guard) \<times> demo_slice) = Inr (Inr g, s') \<and>
    guard_ok (local_held 0) s' LockB g \<and> guard_ptr g = \<lparr>base = 106, elems = 2\<rparr>"
proof -
  have "ptr (slice_of state2) = \<lparr>base = 100, elems = 10\<rparr>" "uncontended (local_held 0 (raw (slice_of state2))) (False, 6, 8)"
    unfolding held_state2 by code_simp (simp add: uncontended_def apart_def)
  then show ?thesis
    using slice_try_correct [OF demo_fine [OF slice_run2], of LockB "Range 6 8" False True]
    by (auto simp: demo_vacant slice_views)
qed

text \<open>C32. In a release build the bounds check of the slice admits an empty range, which the core does not refuse.  Safe
  calls then give out two write guards at the same time for the same element.\<close>

theorem release_build_guards_alias:
  "\<exists>st g g'. fold (slice_after False) [SliceTryWrite (Range 5 8) LockA, SliceTryWrite (Range 5 5) LockB,
        SliceTryWrite (Range 9 10) LockC, SliceTryWrite (Range 6 7) TryB] state0 = st \<and>
    guards st LockA = Some g \<and> guards st TryB = Some g' \<and> is_write_guard g \<and> is_write_guard g' \<and>
    106 \<in> addresses g \<inter> addresses g'"
proof -
  let ?st = "fold (slice_after False) [SliceTryWrite (Range 5 8) LockA, SliceTryWrite (Range 5 5) LockB,
      SliceTryWrite (Range 9 10) LockC, SliceTryWrite (Range 6 7) TryB] state0"
  have "guards ?st LockA = Some \<lparr>lock_kind = TryWriteLockGuard, lock_state = LockA, guard_ptr = \<lparr>base = 105, elems = 3\<rparr>\<rparr>"
    "guards ?st TryB = Some \<lparr>lock_kind = TryWriteLockGuard, lock_state = TryB, guard_ptr = \<lparr>base = 106, elems = 1\<rparr>\<rparr>"
    by code_simp+
  then show ?thesis by (simp add: is_write_guard_def addresses_def)
qed

section \<open>The container\<close>

text \<open>The owner of a lock changes its container while there are no guards; a panic may be caught.\<close>

datatype 'c container_call = ReplaceContainer 'c | TakeContainer | UpdateContainer "'c \<Rightarrow> unit option \<times> 'c"

fun container_perform ::
  "('c \<Rightarrow> slice_ptr option) \<Rightarrow> 'c \<Rightarrow> 'c container_call \<Rightarrow> ('c, 'r) slice_lock option \<Rightarrow> ('c, 'r) slice_lock option" where
  "container_perform deref_mut default_c call None = None"
| "container_perform deref_mut default_c (ReplaceContainer c) (Some s) =
     (case replace_container deref_mut c s :: unit slice_panic + _ of Inl _ \<Rightarrow> Some s | Inr (_, s) \<Rightarrow> Some s)"
| "container_perform deref_mut default_c TakeContainer (Some s) =
     (case take_container deref_mut default_c s :: unit slice_panic + _ of Inl _ \<Rightarrow> Some s | Inr (_, s) \<Rightarrow> Some s)"
| "container_perform deref_mut default_c (UpdateContainer f) (Some s) =
     (case update_container deref_mut f s of (Aborts, s) \<Rightarrow> None | (_, s) \<Rightarrow> Some s)"

text \<open>\<open>deref_mut\<close> does not panic right after the closure has returned.\<close>

fun gentle :: "('c \<Rightarrow> slice_ptr option) \<Rightarrow> 'c container_call \<Rightarrow> bool" where
  "gentle deref_mut (UpdateContainer f) \<longleftrightarrow> (\<forall>c. fst (f c) \<noteq> None \<longrightarrow> deref_mut (snd (f c)) \<noteq> None)"
| "gentle deref_mut _ \<longleftrightarrow> True"

lemma container_step:
  "gentle deref_mut call \<Longrightarrow> deref_mut (container s) = Some (ptr s) \<Longrightarrow>
    container_perform deref_mut default_c call (Some s) = Some s' \<Longrightarrow> deref_mut (container s') = Some (ptr s') \<and> raw s' = raw s"
  by (cases call) (auto simp: replace_container_def take_container_def update_container_def Let_def
    dest!: spec [of _ "container s"] split: option.splits prod.splits sum.splits if_splits)

lemma container_aborted: "fold (container_perform deref_mut default_c) calls None = None"
  by (induction calls) simp_all

text \<open>C28. The cached pointer of a lock is that of its container, whatever its owner does with the container, and through
  any panics on the way, unless \<open>deref_mut\<close> panics right after a closure has returned.  The locks are not
  touched.\<close>

theorem container_pointer_is_current:
  assumes "slice_new deref_mut rops c = Inr s" and "\<forall>call\<in>set calls. gentle deref_mut call"
    and "fold (container_perform deref_mut default_c) calls (Some s) = Some s'"
  shows "deref_mut (container s') = Some (ptr s') \<and> raw s' = raw s"
proof -
  have "deref_mut (container s) = Some (ptr s)" using assms(1) by (auto simp: slice_new_def split: option.splits)
  then show ?thesis using assms(2,3)
  proof (induction calls arbitrary: s)
    case (Cons call calls)
    then obtain s1 where "container_perform deref_mut default_c call (Some s) = Some s1"
      by (cases "container_perform deref_mut default_c call (Some s)") (auto simp: container_aborted)
    with container_step [of deref_mut call s default_c s1] Cons show ?case by auto
  qed simp
qed

theorem container_pointer_is_current_witness:
  "demo_deref 300 = Some \<lparr>base = 300, elems = 10\<rparr> \<and> raw (slice0\<lparr>container := 300, ptr := \<lparr>base = 300, elems = 10\<rparr>\<rparr>) = raw slice0"
  using container_pointer_is_current [where default_c = 400 and s' = "slice0\<lparr>container := 300, ptr := \<lparr>base = 300, elems = 10\<rparr>\<rparr>"
      and calls = "[ReplaceContainer 200, TakeContainer, UpdateContainer (\<lambda>_. (None, 300))]", OF slice0_new]
  by (simp add: demo_deref_def slice0_def replace_container_def take_container_def update_container_def)

text \<open>If \<open>deref_mut\<close> panics right after the closure has returned, the program does not abort: the panic unwinds
  and leaves the new container with the pointer of the old one, and later guards point there.\<close>

lemma stale_pointer_after_panic:
  "\<exists>s g s'. update_container demo_deref (\<lambda>_. (Some (), 0)) slice0 = (Unwinds, s) \<and> container s = 0 \<and> demo_deref 0 = None \<and>
    (try_read (demo_raw True) (Range 2 6) LockA s :: local_panic slice_panic + (try_lock_error + demo_lock guard) \<times> demo_slice)
      = Inr (Inr g, s') \<and> guard_ptr g = \<lparr>base = 102, elems = 4\<rparr>"
proof -
  let ?s = "slice0\<lparr>container := 0\<rparr>"
  have u: "update_container demo_deref (\<lambda>_. (Some (), 0)) slice0 = (Unwinds, ?s)"
    by (simp add: update_container_def demo_deref_def)
  have "map_sum (\<lambda>_. ()) (map_sum (\<lambda>_. ()) guard_ptr \<circ> fst) (try_read (demo_raw True) (Range 2 6) LockA ?s) =
      Inr (Inr \<lparr>base = 102, elems = 4\<rparr>)" by code_simp
  with u show ?thesis by (auto simp: map_sum_Inr demo_deref_def)
qed

section \<open>Boxed guards\<close>

text \<open>The destructor of a lock state, by \<open>early_drop\<close>\<close>

definition local_drop_state ::
  "'l \<Rightarrow> ('c, ('q, 'l, 'i, 'pr, 'ip) world pin_cell) slice_lock \<Rightarrow>
   local_panic slice_panic + ('c, ('q, 'l, 'i, 'pr, 'ip) world pin_cell) slice_lock" where
  "local_drop_state l s = (case early_drop (snd (contents (raw s))) l of
     Inl e \<Rightarrow> Inl (RawPanic (LocalPanic e))
   | Inr _ \<Rightarrow> Inr s)"

lemma drop_free: "local_drop_state l s = (if rb_free (contents (raw s)) l then Inr s else Inl (RawPanic (LocalPanic StillLinked)))"
  by (simp add: local_drop_state_def early_drop_def rb_free_def view_def)

lemma local_unlock_frees:
  assumes "local_rb_inv self r" "local_held self r l = Some (u, x, y)"
    and "(if u then local_unlock_try_write else local_unlock_try_read) (rbtree_ops dbg self) l r = Inr ((), r')"
  shows "rb_free (contents r') l"
proof -
  let ?res = "(if u then op_unlock_try_write else op_unlock_try_read) (rbtree_ops dbg self :: (_, _, _, _, _) local_ops) l never_callback (contents r, False)"
  have "unlock_law (core_inv self) rb_free (rb_req self) (rb_waits self) l (contents r) never_callback False None (map_sum id (Pair None) ?res)"
    using rb.unlock_try_read [OF local_fine(1) [OF assms(1)], of l x y never_callback False dbg]
      rb.unlock_try_write [OF local_fine(1) [OF assms(1)], of l x y never_callback False dbg] local_fine(2) [OF assms(1)] assms(2)
    by (cases u) (simp_all add: local_held_def)
  then obtain w' e where "?res = Inr (w', e)" "rb_free w' = (rb_free (contents r))(l := True)"
    unfolding unlock_law_def by (auto simp: map_sum_Inr)
  with assms(3) show ?thesis
    by (cases u) (auto simp: local_unlock_try_write_def local_unlock_try_read_def unlock_never_def with_core_def split: if_splits)
qed

text \<open>Dropping a boxed guard.\<close>

lemma drop_boxed:
  assumes inv: "local_rb_inv self (raw s)" and held: "local_held self (raw s) l = Some (u, x, y)"
    and g: "lock_state g = l" "is_write_guard g = u"
  shows "\<exists>s'. drop_with_state (drop_lock_guard (local_raw (rbtree_ops dbg self) :: (_, _, _, 'q) raw_blocking_ops)) local_drop_state \<lparr>ws_guard = Some g, ws_state = l\<rparr> s = Inr s' \<and>
      local_rb_inv self (raw s') \<and> local_held self (raw s') = (local_held self (raw s))(l := None) \<and> rb_free (contents (raw s')) l"
    and "local_drop_state l s = Inl (RawPanic (LocalPanic StillLinked))"
proof -
  let ?unlock = "(if u then local_unlock_try_write else local_unlock_try_read) (rbtree_ops dbg self) l (raw s)"
  from local_unlock_exact [OF inv held, of dbg] obtain r' where
    r': "?unlock = Inr ((), r')" "local_rb_inv self r'" "local_held self r' = (local_held self (raw s))(l := None)" by blast
  from local_unlock_frees [OF inv held r'(1)] have f: "rb_free (contents r') l" .
  have "drop_lock_guard (local_raw (rbtree_ops dbg self) :: (_, _, _, 'q) raw_blocking_ops) g s = Inr (s\<lparr>raw := r'\<rparr>)"
    using r'(1) g by (cases "lock_kind g")
      (auto simp: drop_lock_guard_def is_write_guard_def local_unlock_read_def local_unlock_write_def)
  with r' f show "\<exists>s'. drop_with_state (drop_lock_guard (local_raw (rbtree_ops dbg self) :: (_, _, _, 'q) raw_blocking_ops)) local_drop_state \<lparr>ws_guard = Some g, ws_state = l\<rparr> s = Inr s' \<and>
      local_rb_inv self (raw s') \<and> local_held self (raw s') = (local_held self (raw s))(l := None) \<and> rb_free (contents (raw s')) l"
    by (simp add: drop_with_state_def drop_free)
  have "\<not> rb_free (contents (raw s)) l"
    using held rb_free_req [OF local_fine(1) [OF inv], of l] by (auto simp: local_held_def)
  then show "local_drop_state l s = Inl (RawPanic (LocalPanic StillLinked))" by (simp add: drop_free)
qed

lemma local_try_fails:
  assumes "local_rb_inv self r" "local_vacant self r l" "x < y" and "\<not> uncontended (local_held self r) (u, x, y)"
  shows "(if u then local_try_lock_write else local_try_lock_read) (rbtree_ops dbg self) (Range x y) l r = Inr (False, r)"
proof -
  let ?op = "(if u then op_try_lock_write else op_try_lock_read) (rbtree_ops dbg self :: (_, _, _, _, _) local_ops) (Range x y) l (contents r)"
  have "card {k. rb_req self (contents r) k \<noteq> None} < 2 ^ 63 - 1" "rb_free (contents r) l"
    using assms(2) by (simp_all add: local_vacant_def del: not_None_eq)
  then have "try_law (core_inv self) rb_free (rb_req self) (rb_waits self) l (u, x, y) (contents r) ?op"
    using rb.try_lock_read [OF local_fine(1) [OF assms(1)], of l x y dbg] rb.try_lock_write [OF local_fine(1) [OF assms(1)], of l x y dbg]
      assms(3) by (cases u) (simp_all del: not_None_eq)
  then have "?op = Inr (False, contents r) \<or> (\<exists>w'. ?op = Inr (True, w'))" unfolding try_law_def by blast
  with local_try_answer [OF assms(1-3), of u dbg] assms(4) show ?thesis
    by (cases u) (auto simp: local_try_lock_write_def local_try_lock_read_def with_core_def split: if_splits)
qed

lemma slice_lock_ok:
  assumes inv: "local_rb_inv self (raw s)" "local_vacant self (raw s) l" "rng_start r < rng_end r"
    and lock: "(if u then slice_write else slice_read) (local_raw (rbtree_ops dbg self)) r prio l s = Inr (g, s1)"
  shows "guard_ok (local_held self) s1 l g \<and> is_write_guard g = u \<and> local_rb_inv self (raw s1) \<and>
    local_held self (raw s1) = (local_held self (raw s))(l \<mapsto> (u, rng_start r, rng_end r))"
proof (cases "elems (ptr s) < rng_end r")
  case True
  with lock show ?thesis by (cases u) (simp_all add: slice_read_def slice_write_def slice_lock_then_def slice_out)
next
  case False
  then have "rng_end r \<le> elems (ptr s)" by simp
  note sl = slice_in [OF assms(3) this]
  from local_lock_answer [OF inv, of u dbg "raw s1"] lock show ?thesis
    using assms(3) \<open>rng_end r \<le> elems (ptr s)\<close>
    by (cases u) (auto simp: slice_read_def slice_write_def slice_lock_then_def sl subslice_def guard_ok_def is_write_guard_def map_sum_Inr)
qed

text \<open>What dropping a box does that has been returned for the lock state at \<open>l\<close> in the state \<open>s\<close>.\<close>

definition boxed_life where
  "boxed_life self rops u l s ws s1 \<longleftrightarrow>
     ws_state ws = l \<and> (\<exists>g. ws_guard ws = Some g \<and> guard_ok (local_held self) s1 l g \<and> is_write_guard g = u) \<and>
     local_drop_state l s1 = Inl (RawPanic (LocalPanic StillLinked)) \<and>
     (\<exists>s2. drop_with_state (drop_lock_guard rops) local_drop_state ws s1 = Inr s2 \<and> local_rb_inv self (raw s2) \<and>
       local_held self (raw s2) = local_held self (raw s) \<and> rb_free (contents (raw s2)) l)"

lemma boxed_lives:
  fixes s :: "('c, ('q, 'l, nat, 'pr::linorder, 'ip) world pin_cell) slice_lock"
  assumes "local_held self (raw s) l = None" and "rops = (local_raw (rbtree_ops dbg self) :: (_, _, _, 'x) raw_blocking_ops)"
    and "guard_ok (local_held self) s1 l g" "is_write_guard g = u" "local_rb_inv self (raw s1)"
    and "local_held self (raw s1) = (local_held self (raw s))(l \<mapsto> (u, x, y))"
  shows "boxed_life self rops u l s \<lparr>ws_guard = Some g, ws_state = l\<rparr> s1"
proof -
  have "local_held self (raw s1) l = Some (u, x, y)" "lock_state g = l"
    using assms(3,6) by (simp_all add: guard_ok_def)
  from drop_boxed(1) [where 'q = 'x and dbg = dbg, OF assms(5) this assms(4)] drop_boxed(2) [OF assms(5) this assms(4)] assms show ?thesis
    by (auto simp: boxed_life_def fun_upd_idem)
qed

text \<open>C24. The life of a boxed guard.  The guard that any of the boxed methods returns is valid, and its lock state could not
  be dropped before it.  Dropping the box drops the guard first, so that it succeeds and leaves no trace.  A non-blocking
  method that fails drops its lock state without a fault and leaves the lock as it was.\<close>

theorem boxed_guard_life:
  fixes s :: "('c, ('q, 'l, nat, 'pr::linorder, 'ip) world pin_cell) slice_lock"
  assumes "local_rb_inv self (raw s)" "local_vacant self (raw s) l" "rng_start r < rng_end r" "rng_end r \<le> elems (ptr s)"
    and "rops = (local_raw (rbtree_ops dbg self) :: (_, _, _, 'x) raw_blocking_ops)"
  shows "((if u then try_write_boxed else try_read_boxed) local_drop_state rops r l s = Inr (Inl TryWouldBlock, s) \<or>
      (\<exists>ws s1. (if u then try_write_boxed else try_read_boxed) local_drop_state rops r l s = Inr (Inr ws, s1) \<and>
        boxed_life self rops u l s ws s1)) \<and>
    (\<forall>ws s1. (if u then write_boxed else read_boxed) rops r prio l s = Inr (ws, s1) \<longrightarrow> boxed_life self rops u l s ws s1)"
proof (intro conjI allI impI)
  note life = boxed_lives [OF local_vacant_held [OF assms(1,2)] assms(5)]
  show "(if u then try_write_boxed else try_read_boxed) local_drop_state rops r l s = Inr (Inl TryWouldBlock, s) \<or>
    (\<exists>ws s1. (if u then try_write_boxed else try_read_boxed) local_drop_state rops r l s = Inr (Inr ws, s1) \<and>
      boxed_life self rops u l s ws s1)"
  proof (cases "uncontended (local_held self (raw s)) (u, rng_start r, rng_end r)")
    case True
    with slice_try_ok [OF assms(1-3), of u dbg] assms(4) obtain g s1 where
      "(if u then try_write else try_read) rops r l s = Inr (Inr g, s1)" "guard_ok (local_held self) s1 l g" "is_write_guard g = u"
      "local_rb_inv self (raw s1)" "local_held self (raw s1) = (local_held self (raw s))(l \<mapsto> (u, rng_start r, rng_end r))"
      unfolding assms(5) by (auto simp: Let_def)
    with life [of s1 g] show ?thesis by (cases u) (auto simp: try_write_boxed_def try_read_boxed_def try_boxed_def)
  next
    case False
    have f: "rb_free (contents (raw s)) l" using assms(2) by (simp add: local_vacant_def)
    from local_try_fails [OF assms(1-3) False, of dbg] f show ?thesis
      by (cases u) (simp_all add: slice_in [OF assms(3,4)] assms(5) try_write_boxed_def try_read_boxed_def try_boxed_def try_write_def try_read_def slice_try_def drop_free)
  qed
next
  fix ws s1 assume "(if u then write_boxed else read_boxed) rops r prio l s = Inr (ws, s1)"
  then obtain g where "(if u then slice_write else slice_read) rops r prio l s = Inr (g, s1)" "ws = \<lparr>ws_guard = Some g, ws_state = l\<rparr>"
    by (cases u) (auto simp: write_boxed_def read_boxed_def lock_boxed_def map_sum_Inr)
  with slice_lock_ok [OF assms(1-3), of u dbg prio g s1] boxed_lives [OF local_vacant_held [OF assms(1,2)] assms(5), of s1 g]
  show "boxed_life self rops u l s ws s1" unfolding assms(5) by simp
qed

theorem boxed_guard_life_witness:
  "try_write_boxed local_drop_state (demo_raw True) (Range 4 8) LockB (slice_of state2) = Inr (Inl TryWouldBlock, slice_of state2) \<or>
   (\<exists>ws s1. try_write_boxed local_drop_state (demo_raw True) (Range 4 8) LockB (slice_of state2) = Inr (Inr ws, s1) \<and>
     boxed_life 0 (demo_raw True) True LockB (slice_of state2) ws s1)"
proof -
  have "elems (ptr (slice_of state2)) = 10" by code_simp
  with boxed_guard_life [OF demo_fine [OF slice_run2], of LockB "Range 4 8" "demo_raw True" True True 0] show ?thesis
    by (simp add: demo_vacant slice_views demo_raw_def)
qed

end
