(* ===== verification/Slice_Futures.thy ===== *)
theory Slice_Futures
  imports Slice_Correct
begin

text \<open>
  The futures of \<open>AsyncRbTreeSliceIntervalRwLock\<close>: what they resolve to, and what dropping them does.
\<close>

section \<open>Locks of a future\<close>

context async_core
begin

lemma run_keeps_request: "run {l} s s' \<Longrightarrow> ok (fst s) \<Longrightarrow> req (fst s') l = req (fst s) l"
proof (induction rule: async_run.induct)
  case (call s' c r s'')
  obtain w log where s': "s' = (w, log)" by fastforce
  from run_ok [OF call.hyps(1) call.prems] s' have "ok w" by simp
  from call_step [OF this, of c log] call.hyps(2-4) s' have "req (fst s'') l = req w l" by (auto simp: step_law_def)
  with call.IH [OF call.prems] s' show ?case by simp
qed simp

end

text \<open>What \<open>async_read\<close> and \<open>async_write\<close> leave behind, and what it is like after calls for other locks.\<close>

definition future_of :: "bool \<Rightarrow> 'l \<Rightarrow> slice_ptr \<Rightarrow> 'l lock_future" where
  "future_of u l p = Some \<lparr>lock_kind = if u then WriteLockGuard else ReadLockGuard, lock_state = l, guard_ptr = p\<rparr>"

lemma start_law:
  assumes "async_fine self r" "async_vacant self r l" "rng_start rng < rng_end rng"
  shows "\<exists>w. (if u then start_lock_write else start_lock_read) (rbtree_ops dbg self) rng prio l (fst r) = Inr w \<and>
    core_inv self w \<and> rb_req self w l = Some (u, rng_start rng, rng_end rng)"
proof -
  let ?w = "fst r" and ?ops = "rbtree_ops dbg self :: (_, _, _, _, _) async_ops"
  have 1: "core_inv self ?w" "rb_free ?w l" "card {k. rb_req self ?w k \<noteq> None} < 2 ^ 63 - 1"
    using assms(1,2) by (simp_all add: async_fine_def async_vacant_def del: not_None_eq)
  have "lock_law (core_inv self) rb_free (rb_req self) (rb_waits self) l (u, rng_start rng, rng_end rng) async_lock_callback ?w
      ((if u then op_lock_write else op_lock_read) ?ops rng prio l async_lock_callback ?w)"
    using rb.lock_read [OF 1 assms(3), where callback = async_lock_callback and dbg = dbg and prio = prio]
      rb.lock_write [OF 1 assms(3), where callback = async_lock_callback and dbg = dbg and prio = prio]
    by (cases u) simp_all
  then show ?thesis
    unfolding lock_law_def by (cases u) (auto simp: start_lock_read_def start_lock_write_def)
qed

lemma started:
  assumes r: "rng_start r < rng_end r" "rng_end r \<le> elems (ptr s)" and fine: "async_fine self (raw s)" "async_vacant self (raw s) l"
    and start: "(if u then async_write else async_read) (async_raw wk (rbtree_ops dbg self)) r prio l s = Inr (fut, s1)"
  shows "fut = future_of u l (subslice s r) \<and> ptr s1 = ptr s \<and> async_fine self (raw s1) \<and>
    rb_req self (fst (raw s1)) l = Some (u, rng_start r, rng_end r)"
proof -
  from start_law [OF fine r(1), of u dbg prio] start show ?thesis
    by (cases u) (auto simp: async_write_def async_read_def slice_lock_then_def slice_in [OF r] future_of_def async_fine_def)
qed

lemma after_run:
  assumes "waker_laws wk task" and "async_rb_run wk dbg self {l} r r'" "async_fine self r"
  shows "async_fine self r' \<and> rb_req self (fst r') l = rb_req self (fst r) l"
  using async_core.run_ok [OF async_rb [OF assms(1)] assms(2)] async_core.run_keeps_request [OF async_rb [OF assms(1)] assms(2)] assms(3)
  by (simp add: async_fine_def)

text \<open>Polling and dropping such a future.\<close>

lemma poll_future:
  assumes wk: "waker_laws wk task" and fine: "async_fine self (raw s)" and q: "asked_for (rb_req self) (fst (raw s)) u l"
    and fut: "fut = future_of u l p"
  shows "if rb_waits self (fst (raw s)) l = None
    then future_poll (async_raw wk (rbtree_ops dbg self)) cx fut s = Inr (fut, None, s)
    else \<exists>w k. future_poll (async_raw wk (rbtree_ops dbg self)) cx fut s = Inr (None, fut, s\<lparr>raw := (w, snd (raw s))\<rparr>) \<and>
      core_inv self w \<and> rb_free w = rb_free (fst (raw s)) \<and> rb_req self w = rb_req self (fst (raw s)) \<and>
      rb_waits self w = (rb_waits self (fst (raw s)))(l \<mapsto> \<lparr>waker = Some k\<rparr>) \<and> task k = task cx"
proof -
  have "poll_law (core_inv self) rb_free (rb_req self) (rb_waits self) task l cx (fst (raw s))
      ((if u then poll_lock_write else poll_lock_read) wk (rbtree_ops dbg self) l cx (fst (raw s)))"
    using async_core.polls [OF async_rb [OF wk, where dbg = dbg], of self "fst (raw s)" l cx] fine q
    by (cases u) (simp_all add: async_fine_def)
  note law = this [unfolded poll_law_def]
  show ?thesis
  proof (cases "rb_waits self (fst (raw s)) l")
    case None
    with law show ?thesis by (cases u) (simp_all add: future_poll_def fut future_of_def)
  next
    case (Some ip)
    with law obtain w k where
      "(if u then poll_lock_write else poll_lock_read) wk (rbtree_ops dbg self) l cx (fst (raw s)) = Inr (Pending, w)"
      "core_inv self w" "rb_free w = rb_free (fst (raw s))" "rb_req self w = rb_req self (fst (raw s))"
      "rb_waits self w = (rb_waits self (fst (raw s)))(l \<mapsto> \<lparr>waker = Some k\<rparr>)" "task k = task cx" by auto
    with Some show ?thesis by (cases u) (auto simp: future_poll_def fut future_of_def simp del: split_paired_Ex)
  qed
qed

text \<open>What a released lock leaves behind: the locks that it completes, of which exactly the registered wakers are woken.\<close>

definition cancel_law ::
  "'c \<Rightarrow> 'l \<Rightarrow> ('c, 'l, 'i::linorder, 'pr::linorder, 'k async_in_progress) world \<times> 'k list \<Rightarrow>
   ('c, 'l, 'i, 'pr, 'k async_in_progress) world \<times> 'k list \<Rightarrow> bool" where
  "cancel_law self l r r' \<longleftrightarrow> core_inv self (fst r') \<and>
     rb_free (fst r') = (rb_free (fst r))(l := True) \<and> rb_req self (fst r') = (rb_req self (fst r))(l := None) \<and>
     (\<forall>k. rb_waits self (fst r') k \<noteq> None \<longrightarrow> rb_waits self (fst r') k = rb_waits self (fst r) k) \<and>
     (\<exists>ks. snd r' = snd r @ List.map_filter (\<lambda>k. Option.bind (rb_waits self (fst r) k) waker) ks \<and>
        set ks = {k. k \<noteq> l \<and> rb_waits self (fst r) k \<noteq> None \<and> rb_waits self (fst r') k = None})"

lemma cancel_keeps: "cancel_law self l r r' \<Longrightarrow> async_fine self r' \<and> keeps (async_held self) l r r'"
  unfolding cancel_law_def by (fastforce simp: keeps_def async_held_def async_fine_def split: if_splits)

lemma drop_future_law:
  assumes fine: "async_fine self (raw s)" and q: "rb_req self (fst (raw s)) l = Some (u, x, y)" and fut: "fut = future_of u l p"
  shows "\<exists>rw. drop_future (async_raw wk (rbtree_ops dbg self)) fut s = Inr (s\<lparr>raw := rw\<rparr>) \<and> cancel_law self l (raw s) rw"
proof -
  obtain w log where r: "raw s = (w, log)" by fastforce
  let ?un = "(if u then op_unlock_write else op_unlock_read) (rbtree_ops dbg self :: (_, _, _, _, _) async_ops) l async_unlock_callback (w, log)"
  have "unlock_law (core_inv self) rb_free (rb_req self) (rb_waits self) l w async_unlock_callback log (rb_waits self w l) ?un"
    using rb.unlock_read [of self w l x y async_unlock_callback log dbg] rb.unlock_write [of self w l x y async_unlock_callback log dbg]
      fine q r by (cases u) (simp_all add: async_fine_def)
  then obtain w' ks where
    1: "?un = Inr (rb_waits self w l, w', fold async_unlock_callback (map (\<lambda>k. the (rb_waits self w k)) ks) log)" "core_inv self w'"
      "rb_free w' = (rb_free w)(l := True)" "rb_req self w' = (rb_req self w)(l := None)"
      "set ks = {k. k \<noteq> l \<and> rb_waits self w k \<noteq> None \<and> rb_waits self w' k = None}"
      "\<forall>k. rb_waits self w' k \<noteq> None \<longrightarrow> rb_waits self w' k = rb_waits self w k"
    unfolding unlock_law_def by blast
  have "List.map_filter waker (map (\<lambda>k. the (rb_waits self w k)) ks) = List.map_filter (\<lambda>k. Option.bind (rb_waits self w k) waker) ks"
    using 1(5) by (intro map_filter_the) simp
  with 1(1) have un: "?un = Inr (rb_waits self w l, w', log @ List.map_filter (\<lambda>k. Option.bind (rb_waits self w k) waker) ks)"
    by (simp add: async_rb.fold_callback)
  let ?rw = "(w', log @ List.map_filter (\<lambda>k. Option.bind (rb_waits self w k) waker) ks)"
  have "drop_future (async_raw wk (rbtree_ops dbg self)) fut s = Inr (s\<lparr>raw := ?rw\<rparr>)"
    using un r by (cases u) (simp_all add: drop_future_def fut future_of_def drop_async_guard_def async_unlock_read_def async_unlock_write_def)
  moreover have "cancel_law self l (raw s) ?rw" unfolding cancel_law_def using 1(2-6) by (auto simp: r)
  ultimately show ?thesis by blast
qed

section \<open>The life of a future\<close>

text \<open>
  What may happen between the creation of a future and the next look at it: any calls for other locks, and polls of the future
  itself that leave it pending.
\<close>

inductive future_run ::
  "'k waker_api \<Rightarrow> bool \<Rightarrow> 'q \<Rightarrow> 'l \<Rightarrow>
   'l lock_future \<times> ('c, ('q, 'l, nat, 'pr::linorder, 'k async_in_progress) world \<times> 'k list) slice_lock \<Rightarrow>
   'l lock_future \<times> ('c, ('q, 'l, nat, 'pr, 'k async_in_progress) world \<times> 'k list) slice_lock \<Rightarrow> bool"
  for wk :: "'k waker_api" and dbg :: bool and self :: 'q and l :: 'l
    and start :: "'l lock_future \<times> ('c, ('q, 'l, nat, 'pr, 'k async_in_progress) world \<times> 'k list) slice_lock" where
  created: "future_run wk dbg self l start start"
| others: "future_run wk dbg self l start (fut, s) \<Longrightarrow>
    async_allowed (2 ^ 63 - 1) rb_free (rb_req self) (rb_waits self) (fst (raw s)) c \<Longrightarrow> async_target c \<noteq> l \<Longrightarrow>
    async_perform wk (rbtree_ops dbg self) c (raw s) = Inr (r, rw) \<Longrightarrow> future_run wk dbg self l start (fut, s\<lparr>raw := rw\<rparr>)"
| polled: "future_run wk dbg self l start (fut, s) \<Longrightarrow>
    (future_poll (async_raw wk (rbtree_ops dbg self)) cx fut s :: fault slice_panic + _) = Inr (None, fut', s') \<Longrightarrow>
    future_run wk dbg self l start (fut', s')"

lemma future_run_keeps:
  assumes "future_run wk dbg self l (fut, s) (fut', s')" and wk: "waker_laws wk task" and fut: "fut = future_of u l p"
    and "async_fine self (raw s)" "rb_req self (fst (raw s)) l = Some (u, x, y)"
  shows "fut' = fut \<and> ptr s' = ptr s \<and> async_fine self (raw s') \<and> rb_req self (fst (raw s')) l = Some (u, x, y)"
  using assms(1)
proof (induction "(fut', s')" arbitrary: fut' s' rule: future_run.induct)
  case created
  with assms(4,5) show ?case by simp
next
  case (others fut1 s1 c r rw)
  note IH = others.hyps(2)
  have "core_inv self (fst (raw s1))" using IH by (simp add: async_fine_def)
  from async_core.call_step [OF async_rb [OF wk] this others.hyps(3), where log = "snd (raw s1)", of dbg] others.hyps(4,5)
  have "core_inv self (fst rw) \<and> rb_req self (fst rw) l = rb_req self (fst (raw s1)) l" by (auto simp: step_law_def)
  with IH show ?case by (simp add: async_fine_def)
next
  case (polled fut1 s1 cx fut2 s2)
  note IH = polled.hyps(2)
  then have "asked_for (rb_req self) (fst (raw s1)) u l" by (simp add: asked_for_def)
  from poll_future [OF wk _ this, of fut1 p dbg cx] IH fut polled.hyps(3) show ?case
    by (auto simp: async_fine_def future_of_def split: if_splits)
qed

section \<open>A session\<close>

text \<open>\<open>LockA\<close> has been locked for writing; a future waits for 4..8 and task 71 polls it; then \<open>LockA\<close> is unlocked.\<close>

type_synonym demo_async_slice = "(nat, demo_async) slice_lock"

definition future0 :: demo_async_slice where
  "future0 = \<lparr>container = 100, raw = async1, ptr = \<lparr>base = 100, elems = 10\<rparr>\<rparr>"

abbreviation demo_async_raw :: "(demo_async, demo_lock, fault, nat, nat) raw_async_ops" where
  "demo_async_raw \<equiv> async_raw arc_waker (rbtree_ops True 0)"

lemma future_facts:
  "async_fine 0 (raw future0)" "async_vacant 0 (raw future0) LockB" "ptr future0 = \<lparr>base = 100, elems = 10\<rparr>"
proof -
  have "core_inv 0 (fst async1)"
    by (rule async_reachable_inv [OF _ arc_waker_laws, of True 0 "{}" _ "snd async1"], unfold prod.collapse) (rule async_run1)
  then show "async_fine 0 (raw future0)" by (simp add: future0_def async_fine_def)
  show "async_vacant 0 (raw future0) LockB" "ptr future0 = \<lparr>base = 100, elems = 10\<rparr>"
    by (simp_all add: future0_def async_vacant_def async_views demo_card del: not_None_eq)
qed

lemma future_start:
  "(async_read demo_async_raw (Range 4 8) 1 LockB future0 :: fault slice_panic + demo_lock lock_future \<times> demo_async_slice) =
    Inr (future_of False LockB \<lparr>base = 104, elems = 4\<rparr>, future0\<lparr>raw := async2\<rparr>)"
proof -
  have "map_sum (\<lambda>_. ()) (\<lambda>_. ()) (start_lock_read (rbtree_ops True 0) (Range 4 8) 1 LockB (fst async1)) = Inr ()" by code_simp
  then obtain w where w: "start_lock_read (rbtree_ops True 0) (Range 4 8) 1 LockB (fst async1) = Inr w" by (auto simp: map_sum_Inr)
  then have "async_perform arc_waker (rbtree_ops True 0) (StartLockRead (Range 4 8) 1 LockB) async1 = Inr (Started, w, snd async1)"
    by (metis (no_types, lifting) async_perform.simps(1) map_sum.simps(2) prod.collapse)
  then have "async2 = (w, snd async1)" unfolding async2_def async_after_def by simp
  with w show ?thesis
    by (simp add: async_read_def slice_lock_then_def slice_def future0_def future_of_def del: One_nat_def)
qed

text \<open>The future is polled in vain by task 71; then the other lock is released.\<close>

lemma future_session:
  "future_run arc_waker True 0 LockB (future_of False LockB \<lparr>base = 104, elems = 4\<rparr>, future0\<lparr>raw := async2\<rparr>)
    (future_of False LockB \<lparr>base = 104, elems = 4\<rparr>, future0\<lparr>raw := async3\<rparr>)" (is "future_run _ _ _ _ ?s ?p")
  "future_run arc_waker True 0 LockB (future_of False LockB \<lparr>base = 104, elems = 4\<rparr>, future0\<lparr>raw := async2\<rparr>)
    (future_of False LockB \<lparr>base = 104, elems = 4\<rparr>, future0\<lparr>raw := async4\<rparr>)"
proof -
  have "(fst async3, snd async2) = async3" using async_polls(3,4) by (simp add: prod_eq_iff)
  then have "(future_poll demo_async_raw 71 (future_of False LockB \<lparr>base = 104, elems = 4\<rparr>) (future0\<lparr>raw := async2\<rparr>) ::
      fault slice_panic + _) = Inr (None, future_of False LockB \<lparr>base = 104, elems = 4\<rparr>, future0\<lparr>raw := async3\<rparr>)"
    using async_polls(1) by (simp add: future_poll_def future_of_def)
  from future_run.polled [OF future_run.created this] show 1: "future_run arc_waker True 0 LockB ?s ?p" .
  have "map_sum (\<lambda>_. ()) (\<lambda>_. ()) (async_unlock_write (rbtree_ops True 0) LockA async3) = Inr ()" by code_simp
  then obtain rw where "async_unlock_write (rbtree_ops True 0) LockA async3 = Inr rw" by (auto simp: map_sum_Inr)
  then have "async_perform arc_waker (rbtree_ops True 0) (AsyncUnlockWrite LockA) async3 = Inr (Released, async4)"
    by (simp add: async4_def async_after_def)
  then show "future_run arc_waker True 0 LockB ?s (future_of False LockB \<lparr>base = 104, elems = 4\<rparr>, future0\<lparr>raw := async4\<rparr>)"
    using future_run.others [OF 1, of "AsyncUnlockWrite LockA"] by (simp add: asked_for_def async_views)
qed

section \<open>Properties of futures\<close>

text \<open>C21. A future resolves to a guard.  A poll of a future, whatever calls for other locks and polls of the future itself have come
  before, does not panic.  It is ready if and only if the lock has been granted.  A pending poll leaves the future as it is and
  stores a waker of the polling task with its lock; no waker is woken and nothing else changes.  A ready poll changes no lock and
  returns a guard of the range that was asked for, which has no element in common with any other guard if one
  of them writes; the future has then terminated, and to poll it again panics.\<close>

theorem future_yields_guard:
  assumes "waker_laws wk task" and "async_fine self (raw s)" "async_vacant self (raw s) l"
    and "rng_start r < rng_end r" "rng_end r \<le> elems (ptr s)" and "rops = async_raw wk (rbtree_ops dbg self)"
    and "(if u then async_write else async_read) rops r prio l s = Inr (fut, s1)"
    and "future_run wk dbg self l (fut, s1) (fut', s')"
  shows "\<exists>res fut'' s2. future_poll rops cx fut' s' = Inr (res, fut'', s2) \<and> async_fine self (raw s2) \<and> ptr s2 = ptr s \<and>
    (res = None \<longleftrightarrow> rb_waits self (fst (raw s')) l \<noteq> None) \<and>
    (case res of
       None \<Rightarrow> fut'' = fut \<and> async_held self (raw s2) l = None \<and>
         (\<exists>w k. s2 = s'\<lparr>raw := (w, snd (raw s'))\<rparr> \<and> rb_free w = rb_free (fst (raw s')) \<and> rb_req self w = rb_req self (fst (raw s')) \<and>
           rb_waits self w = (rb_waits self (fst (raw s')))(l \<mapsto> \<lparr>waker = Some k\<rparr>) \<and> task k = task cx)
     | Some g \<Rightarrow> s2 = s' \<and> guard_ok (async_held self) s2 l g \<and> is_write_guard g = u \<and>
         guard_ptr g = \<lparr>base = base (ptr s) + rng_start r, elems = rng_end r - rng_start r\<rparr> \<and>
         (\<forall>l' g'. l' \<noteq> l \<longrightarrow> guard_ok (async_held self) s2 l' g' \<longrightarrow> u \<or> is_write_guard g' \<longrightarrow> addresses g \<inter> addresses g' = {}) \<and>
         is_terminated fut'' \<and> future_poll rops cx' fut'' s2 = Inl PolledAfterCompletion)"
proof -
  from started [OF assms(4,5,2,3) assms(7) [unfolded assms(6)]] have
    1: "fut = future_of u l (subslice s r)" "ptr s1 = ptr s" "async_fine self (raw s1)"
      "rb_req self (fst (raw s1)) l = Some (u, rng_start r, rng_end r)" by simp_all
  from future_run_keeps [OF assms(8,1) 1(1,3,4)] 1(2) have
    2: "fut' = fut" "ptr s' = ptr s" "async_fine self (raw s')" "rb_req self (fst (raw s')) l = Some (u, rng_start r, rng_end r)" by simp_all
  then have "asked_for (rb_req self) (fst (raw s')) u l" by (simp add: asked_for_def)
  note poll = poll_future [OF assms(1) 2(3) this 1(1), of dbg cx, folded assms(6)]
  show ?thesis
  proof (cases "rb_waits self (fst (raw s')) l")
    case None
    from 1(1) obtain g where g: "fut = Some g" "is_write_guard g = u" "guard_ptr g = subslice s r" "lock_state g = l"
      by (auto simp: future_of_def is_write_guard_def)
    have ok: "guard_ok (async_held self) s' l g"
      using None 2(2,4) g assms(4,5) by (simp add: guard_ok_def async_held_def subslice_def)
    have "addresses g \<inter> addresses g' = {}" if "l' \<noteq> l" "guard_ok (async_held self) s' l' g'" "u \<or> is_write_guard g'" for l' g'
      using async_slice.guards_disjoint [where self = self and s = s' and gs = "[l \<mapsto> g, l' \<mapsto> g']" and l = l and l' = l'] that ok g(2) 2(3)
      by (auto simp: guards_ok_def)
    moreover have "future_poll rops cx fut s' = Inr (Some g, None, s')" using poll None g(1) by simp
    ultimately show ?thesis using None ok g 2(1-3)
      by (rule_tac exI [of _ "Some g"], rule_tac exI [of _ None], rule_tac exI [of _ s'])
        (simp add: subslice_def is_terminated_def, simp add: future_poll_def)
  next
    case (Some ip)
    with poll obtain w k where w: "future_poll rops cx fut s' = Inr (None, fut, s'\<lparr>raw := (w, snd (raw s'))\<rparr>)" "core_inv self w"
      "rb_free w = rb_free (fst (raw s'))" "rb_req self w = rb_req self (fst (raw s'))"
      "rb_waits self w = (rb_waits self (fst (raw s')))(l \<mapsto> \<lparr>waker = Some k\<rparr>)" "task k = task cx" by auto
    then have "async_held self (w, snd (raw s')) l = None" by (simp add: async_held_def)
    with w Some 2(1,2) show ?thesis
      by (rule_tac exI [of _ None], rule_tac exI [of _ fut], rule_tac exI [of _ "s'\<lparr>raw := (w, snd (raw s'))\<rparr>"])
        (auto simp: async_fine_def simp del: split_paired_Ex)
  qed
qed

theorem future_yields_guard_witness:
  "\<exists>res fut'' s2. (future_poll demo_async_raw 72 (future_of False LockB \<lparr>base = 104, elems = 4\<rparr>) (future0\<lparr>raw := async4\<rparr>) ::
      fault slice_panic + _) = Inr (res, fut'', s2) \<and> (res = None \<longleftrightarrow> rb_waits 0 (fst async4) LockB \<noteq> None) \<and>
    (case res of None \<Rightarrow> fut'' = future_of False LockB \<lparr>base = 104, elems = 4\<rparr> \<and> async_held 0 (raw s2) LockB = None
     | Some g \<Rightarrow> guard_ok (async_held 0) s2 LockB g \<and> guard_ptr g = \<lparr>base = 104, elems = 4\<rparr> \<and> is_terminated fut'')"
proof -
  note 1 = future_yields_guard [OF arc_waker_laws future_facts(1,2) _ _ refl, where r = "Range 4 8" and u = False and prio = 1 and cx = 72 and cx' = 72,
      unfolded if_False, OF _ _ future_start future_session(2), unfolded future_facts(3)]
  let ?p = "future_poll demo_async_raw 72 (future_of False LockB \<lparr>base = 104, elems = 4\<rparr>) (future0\<lparr>raw := async4\<rparr>) ::
      fault slice_panic + _"
  have 2: "rng_start (Range 4 8) < rng_end (Range (4 :: nat) 8)" "rng_end (Range 4 8) \<le> elems \<lparr>base = 100, elems = 10\<rparr>" by simp_all
  from 1 [OF 2] obtain res fut'' s2 where p: "?p = Inr (res, fut'', s2)" by blast
  from 1 [OF 2] show ?thesis unfolding p by (cases res) auto
qed



section \<open>Boxed futures\<close>

definition async_drop_state ::
  "'l \<Rightarrow> ('c, ('q, 'l, 'i, 'pr, 'ip) world \<times> 'k list) slice_lock \<Rightarrow>
   fault slice_panic + ('c, ('q, 'l, 'i, 'pr, 'ip) world \<times> 'k list) slice_lock" where
  "async_drop_state l s = (case early_drop (snd (fst (raw s))) l of Inl e \<Rightarrow> Inl (RawPanic e) | Inr _ \<Rightarrow> Inr s)"

lemma async_drop_free:
  "async_drop_state l s = (if rb_free (fst (raw s)) l then Inr s else Inl (RawPanic StillLinked))"
  by (simp add: async_drop_state_def early_drop_def rb_free_def view_def)

lemma requested_not_free: "async_fine self r \<Longrightarrow> rb_req self (fst r) l = Some a \<Longrightarrow> \<not> rb_free (fst r) l"
  using rb_free_req [of self "fst r" l] by (auto simp: async_fine_def)

text \<open>What drops the lock of a future, and then its lock state.\<close>

lemma drop_both:
  assumes "async_fine self (raw s)" "rb_req self (fst (raw s)) l = Some (u, x, y)" "fut = future_of u l p"
  shows "async_drop_state l s = Inl (RawPanic StillLinked)"
    and "\<exists>s2. drop_future (async_raw wk (rbtree_ops dbg self)) fut s = Inr s2 \<and> async_drop_state l s2 = Inr s2 \<and>
      async_fine self (raw s2) \<and> rb_free (fst (raw s2)) l \<and> keeps (async_held self) l (raw s) (raw s2)"
proof -
  show "async_drop_state l s = Inl (RawPanic StillLinked)" using requested_not_free [OF assms(1,2)] by (simp add: async_drop_free)
  from drop_future_law [OF assms, of wk dbg] obtain rw where
    1: "drop_future (async_raw wk (rbtree_ops dbg self)) fut s = Inr (s\<lparr>raw := rw\<rparr>)" "cancel_law self l (raw s) rw" by blast
  from this(2) have "rb_free (fst rw) l" by (simp add: cancel_law_def)
  with 1 cancel_keeps [OF 1(2)] obtain s2 where
    "drop_future (async_raw wk (rbtree_ops dbg self)) fut s = Inr s2" "rb_free (fst (raw s2)) l"
    "async_fine self (raw s2)" "keeps (async_held self) l (raw s) (raw s2)" by auto
  then show "\<exists>s2. drop_future (async_raw wk (rbtree_ops dbg self)) fut s = Inr s2 \<and> async_drop_state l s2 = Inr s2 \<and>
      async_fine self (raw s2) \<and> rb_free (fst (raw s2)) l \<and> keeps (async_held self) l (raw s) (raw s2)"
    by (intro exI [of _ s2]) (simp add: async_drop_free)
qed

text \<open>The life of a boxed future.  The first poll allocates the lock state and locks.  If the lock is granted, the result is
  a box whose guard must be, and is, dropped before its lock state.  Otherwise the future may be dropped while it
  waits, whatever others do: it drops its lock before its lock state, which could not be dropped earlier, without a
  fault and without harm to the locks of others.\<close>

lemma boxed_future_life:
  assumes "waker_laws wk task" and "async_fine self (raw s)" "async_vacant self (raw s) l"
    and "rng_start r < rng_end r" "rng_end r \<le> elems (ptr s)" and "rops = async_raw wk (rbtree_ops dbg self)"
  shows "\<exists>res fut s1. (if u then async_write_boxed else async_read_boxed) rops l cx (Unresumed r prio) s = Inr (res, fut, s1) \<and>
    (case res of
       Some ws \<Rightarrow> fut = Returned \<and> async_drop_state l s1 = Inl (RawPanic StillLinked) \<and>
         (\<exists>s2. drop_with_state (drop_async_guard rops) async_drop_state ws s1 = Inr s2 \<and> rb_free (fst (raw s2)) l \<and>
           keeps (async_held self) l (raw s1) (raw s2))
     | None \<Rightarrow> \<forall>rw. async_rb_run wk dbg self {l} (raw s1) rw \<longrightarrow>
         async_drop_state l (s1\<lparr>raw := rw\<rparr>) = Inl (RawPanic StillLinked) \<and>
         (\<exists>s2. drop_boxed_future rops async_drop_state fut (s1\<lparr>raw := rw\<rparr>) = Inr s2 \<and> rb_free (fst (raw s2)) l \<and>
           keeps (async_held self) l rw (raw s2)))"
proof -
  let ?fut = "future_of u l (subslice s r)" and ?q = "(u, rng_start r, rng_end r)"
  from start_law [OF assms(2-4), of u dbg prio] obtain w where
    w: "(if u then start_lock_write else start_lock_read) (rbtree_ops dbg self) r prio l (fst (raw s)) = Inr w"
    "core_inv self w" "rb_req self w l = Some ?q" by blast
  let ?s = "s\<lparr>raw := (w, snd (raw s))\<rparr>"
  have start: "(if u then async_write else async_read) rops r prio l s = Inr (?fut, ?s)"
    using w(1) by (cases u) (simp_all add: assms(6) async_write_def async_read_def slice_lock_then_def slice_in [OF assms(4,5)] future_of_def)
  then have boxed: "(if u then async_write_boxed else async_read_boxed) rops l cx (Unresumed r prio) s = await_boxed rops cx ?fut l ?s"
    by (cases u) (simp_all add: async_write_boxed_def async_read_boxed_def boxed_poll_def)
  have f: "async_fine self (raw ?s)" "rb_req self (fst (raw ?s)) l = Some ?q" using w(2,3) by (simp_all add: async_fine_def)
  then have "asked_for (rb_req self) (fst (raw ?s)) u l" by (simp add: asked_for_def)
  note poll = poll_future [where p = "subslice s r" and dbg = dbg and cx = cx, OF assms(1) f(1) this refl]
  show ?thesis
  proof (cases "rb_waits self (fst (raw ?s)) l")
    case None
    from drop_both(1) [OF f refl [of ?fut]] drop_both(2) [where p = "subslice s r" and wk = wk and dbg = dbg, OF f refl] poll None show ?thesis
      unfolding assms(6) boxed [unfolded assms(6)] await_boxed_def
      by (auto simp: future_of_def drop_with_state_def drop_future_def)
  next
    case (Some ip)
    with poll obtain s1 where s1: "future_poll rops cx ?fut ?s = Inr (None, ?fut, s1)" "async_fine self (raw s1)"
      "rb_req self (fst (raw s1)) l = Some ?q" using f(2) unfolding assms(6) by (auto simp: async_fine_def)
    have "async_drop_state l (s1\<lparr>raw := rw\<rparr>) = Inl (RawPanic StillLinked) \<and>
        (\<exists>s2. drop_boxed_future rops async_drop_state (Suspended ?fut l) (s1\<lparr>raw := rw\<rparr>) = Inr s2 \<and> rb_free (fst (raw s2)) l \<and>
          keeps (async_held self) l rw (raw s2))" if run: "async_rb_run wk dbg self {l} (raw s1) rw" for rw
    proof -
      from after_run [OF assms(1) run s1(2)] s1(3) have "async_fine self (raw (s1\<lparr>raw := rw\<rparr>))"
        "rb_req self (fst (raw (s1\<lparr>raw := rw\<rparr>))) l = Some ?q" by simp_all
      from drop_both(1) [OF this refl [of ?fut]] drop_both(2) [where p = "subslice s r" and wk = wk and dbg = dbg, OF this refl] show ?thesis
        by (auto simp: assms(6) drop_boxed_future_def drop_with_state_def)
    qed
    with s1(1) show ?thesis unfolding boxed await_boxed_def by simp
  qed
qed

end
