(* ===== verification/Slice_Threads.thy ===== *)
theory Slice_Threads
  imports Slice_Guards Raw_Sync_Correct
begin

text \<open>
  A slice behind the blocking lock, \<open>SyncRbTreeSliceIntervalRwLock\<close> of \<open>src/hl/slice.rs\<close>, used by any number of
  threads in any interleaving.
\<close>

section \<open>Threads\<close>

text \<open>
  \<open>calls\<close>: for each thread inside a locking method, the guard that the method will return, which it has in its local
  variables.
\<close>

record ('c, 'w, 'l, 'f, 't, 'a) slice_threads =
  shared :: "('c, ('w, 'l, 'f, 't) sync_state) slice_lock"
  thread_memory :: "nat \<Rightarrow> 'a"
  live :: "'l \<Rightarrow> 'l guard option"
  calls :: "'t \<Rightarrow> 'l guard option"

fun lock_call :: "guard_kind \<Rightarrow> nat range \<Rightarrow> 'pr \<Rightarrow> 'l \<Rightarrow> ('l, nat, 'pr) raw_call" where
  "lock_call TryReadLockGuard r prio l = RawTryLockRead r l"
| "lock_call TryWriteLockGuard r prio l = RawTryLockWrite r l"
| "lock_call ReadLockGuard r prio l = RawLockRead r prio l"
| "lock_call WriteLockGuard r prio l = RawLockWrite r prio l"

fun unlock_call :: "guard_kind \<Rightarrow> 'l \<Rightarrow> ('l, nat, 'pr) raw_call" where
  "unlock_call TryReadLockGuard l = RawUnlockTryRead l"
| "unlock_call TryWriteLockGuard l = RawUnlockTryWrite l"
| "unlock_call ReadLockGuard l = RawUnlockRead l"
| "unlock_call WriteLockGuard l = RawUnlockWrite l"

datatype ('l, 'i, 'pr, 'f, 'a) thread_action =
    CallLock guard_kind "nat range" 'pr 'l 'f
  | CallDrop 'l 'f
  | Inside "('l, 'i, 'pr, 'f) sync_action"
  | Return
  | Assign 'l nat 'a

text \<open>
  The methods \<open>try_read\<close>, \<open>try_write\<close>, \<open>read\<close> and \<open>write\<close> check the bounds, enter the raw lock, and return the guard when
  the method of the raw lock has returned.  A range out of bounds is a panic without effect, and no step.
\<close>

fun thread_step ::
  "bool \<Rightarrow> ('w, 'l, nat, 'pr, 'f, 't) sync_ops \<Rightarrow> 't \<Rightarrow> ('l, nat, 'pr, 'f, 'a) thread_action \<Rightarrow>
   ('c, 'w, 'l, 'f, 't, 'a) slice_threads \<Rightarrow> ('c, 'w, 'l, 'f, 't, 'a) slice_threads option" where
  "thread_step dbg ops t (CallLock k r prio l f) st =
     (if calls st t \<noteq> None then None else (case slice (shared st) r :: unit slice_panic + _ of
        Inl _ \<Rightarrow> None
      | Inr p \<Rightarrow> map_option
          (\<lambda>s. st\<lparr>shared := (shared st)\<lparr>raw := s\<rparr>, calls := (calls st)(t \<mapsto> \<lparr>lock_kind = k, lock_state = l, guard_ptr = p\<rparr>)\<rparr>)
          (sync_step dbg ops t (Enter (lock_call k r prio l) f) (raw (shared st)))))"
| "thread_step dbg ops t (CallDrop l f) st =
     (if calls st t \<noteq> None then None else (case live st l of
        None \<Rightarrow> None
      | Some g \<Rightarrow> map_option (\<lambda>s. st\<lparr>shared := (shared st)\<lparr>raw := s\<rparr>, live := (live st)(l := None)\<rparr>)
          (sync_step dbg ops t (Enter (unlock_call (lock_kind g) (lock_state g)) f) (raw (shared st)))))"
| "thread_step dbg ops t (Inside a) st =
     map_option (\<lambda>s. st\<lparr>shared := (shared st)\<lparr>raw := s\<rparr>\<rparr>) (sync_step dbg ops t a (raw (shared st)))"
| "thread_step dbg ops t Return st = (case calls st t of
     None \<Rightarrow> None
   | Some g \<Rightarrow> (case control (raw (shared st)) t of
       Done res \<Rightarrow> Some (st\<lparr>calls := (calls st)(t := None),
         live := if res = Answer False then live st else (live st)(lock_state g \<mapsto> g)\<rparr>)
     | _ \<Rightarrow> None))"
| "thread_step dbg ops t (Assign l i v) st = (case live st l of
     None \<Rightarrow> None
   | Some g \<Rightarrow> (case guard_assign g i v (thread_memory st) :: unit slice_panic + _ of
       Inl _ \<Rightarrow> None
     | Inr m \<Rightarrow> Some (st\<lparr>thread_memory := m\<rparr>)))"

fun thread_target :: "('l, nat, 'pr, 'f, 'a) thread_action \<Rightarrow> 'l option" where
  "thread_target (CallDrop l f) = Some l"
| "thread_target (Assign l i v) = Some l"
| "thread_target _ = None"

text \<open>
  What safe code may do: nonempty ranges, lock states that nobody else has borrowed, assignments through write guards.
\<close>

fun thread_allowed ::
  "nat \<Rightarrow> ('w \<Rightarrow> 'l \<Rightarrow> bool) \<Rightarrow> ('w \<Rightarrow> 'l \<Rightarrow> nat asking option) \<Rightarrow> ('c, 'w, 'l, 'f, 't, 'a) slice_threads \<Rightarrow>
   ('l, nat, 'pr, 'f, 'a) thread_action \<Rightarrow> bool" where
  "thread_allowed limit free req st (CallLock k r prio l f) \<longleftrightarrow>
     rng_start r < rng_end r \<and> live st l = None \<and> (\<forall>t g. calls st t = Some g \<longrightarrow> lock_state g \<noteq> l) \<and>
     free (core_of (raw (shared st))) l \<and> card {l. req (core_of (raw (shared st))) l \<noteq> None} < limit"
| "thread_allowed limit free req st (Inside a) \<longleftrightarrow> (\<forall>call f. a \<noteq> Enter call f)"
| "thread_allowed limit free req st (Assign l i v) \<longleftrightarrow> (\<forall>g. live st l = Some g \<longrightarrow> is_write_guard g)"
| "thread_allowed limit free req st _ \<longleftrightarrow> True"

definition threads_init :: "('w, 'l, 'i, 'pr, 'f, 't) sync_ops \<Rightarrow> 'c \<Rightarrow> slice_ptr \<Rightarrow> (nat \<Rightarrow> 'a) \<Rightarrow> ('c, 'w, 'l, 'f, 't, 'a) slice_threads" where
  "threads_init ops c p m = \<lparr>shared = \<lparr>container = c, raw = sync_init ops, ptr = p\<rparr>, thread_memory = m, live = (\<lambda>_. None), calls = (\<lambda>_. None)\<rparr>"

text \<open>Runs whose steps do not drop, or assign through, the guards in \<open>K\<close>.\<close>

inductive threads_run ::
  "bool \<Rightarrow> ('w, 'l, nat, 'pr, 'f, 't) sync_ops \<Rightarrow> nat \<Rightarrow> ('w \<Rightarrow> 'l \<Rightarrow> bool) \<Rightarrow> ('w \<Rightarrow> 'l \<Rightarrow> nat asking option) \<Rightarrow> 'l set \<Rightarrow>
   ('c, 'w, 'l, 'f, 't, 'a) slice_threads \<Rightarrow> ('c, 'w, 'l, 'f, 't, 'a) slice_threads \<Rightarrow> bool"
  for dbg :: bool and ops :: "('w, 'l, nat, 'pr, 'f, 't) sync_ops" and limit :: nat and free :: "'w \<Rightarrow> 'l \<Rightarrow> bool"
    and req :: "'w \<Rightarrow> 'l \<Rightarrow> nat asking option" and K :: "'l set" and st :: "('c, 'w, 'l, 'f, 't, 'a) slice_threads" where
  stop: "threads_run dbg ops limit free req K st st"
| step: "threads_run dbg ops limit free req K st st' \<Longrightarrow> thread_allowed limit free req st' a \<Longrightarrow>
    (\<And>l. thread_target a = Some l \<Longrightarrow> l \<notin> K) \<Longrightarrow> thread_step dbg ops t a st' = Some st'' \<Longrightarrow>
    threads_run dbg ops limit free req K st st''"

section \<open>The invariant\<close>

text \<open>The request behind a guard, granted or not; and what a thread has reached inside a locking method.\<close>

definition promised where
  "promised req s l g \<longleftrightarrow> guard_ok (\<lambda>r. req (core_of r)) s l g"

fun call_ok :: "('w \<Rightarrow> 'l \<Rightarrow> nat asking option) \<Rightarrow> ('c, ('w, 'l, 'f, 't) sync_state) slice_lock \<Rightarrow> 'l guard \<Rightarrow> ('l, 'f, 't) control \<Rightarrow> bool" where
  "call_ok req s g (Loading l f) \<longleftrightarrow> l = lock_state g \<and> promised req s l g"
| "call_ok req s g (Parking l f) \<longleftrightarrow> l = lock_state g \<and> promised req s l g"
| "call_ok req s g (Done res) \<longleftrightarrow> res = Answer False \<or> promised req s (lock_state g) g"
| "call_ok req s g _ \<longleftrightarrow> False"

definition threads_ok where
  "threads_ok req st \<longleftrightarrow>
     (\<forall>l g. live st l = Some g \<longrightarrow> promised req (shared st) l g) \<and>
     (\<forall>t g. calls st t = Some g \<longrightarrow> live st (lock_state g) = None \<and> call_ok req (shared st) g (control (raw (shared st)) t)) \<and>
     (\<forall>t. calls st t = None \<longrightarrow> waiting_for (control (raw (shared st)) t) = None) \<and>
     (\<forall>t t' g g'. calls st t = Some g \<longrightarrow> calls st t' = Some g' \<longrightarrow> lock_state g = lock_state g' \<longrightarrow> t = t')"

lemma promised_keeps:
  assumes "promised req s l g" and "ptr s' = ptr s" "req (core_of (raw s')) l = req (core_of (raw s)) l"
  shows "promised req s' l g"
  using assms by (simp add: promised_def guard_ok_def)

lemma call_ok_keeps:
  assumes "call_ok req s g k" and "ptr s' = ptr s" "req (core_of (raw s')) (lock_state g) = req (core_of (raw s)) (lock_state g)"
  shows "call_ok req s' g k"
  using assms promised_keeps [of req s "lock_state g" g s'] by (cases k) auto

lemma call_ok_waiting: "call_ok req s g k \<Longrightarrow> waiting_for k = Some (l, f) \<Longrightarrow> l = lock_state g"
  by (cases k) auto

locale sync_slice = sync_core ops limit ok free req waits
  for ops :: "('w, 'l, nat, 'pr, 'f, 't) sync_ops" and limit ok free req waits
begin

lemma lock_call_effect:
  assumes "good_state s" and "sync_allowed limit free req s (lock_call k r prio l)"
    and "sync_step dbg ops t (Enter (lock_call k r prio l) f) s = Some s'"
  shows "\<exists>c. control s' = (control s)(t := c) \<and>
    (req (core_of s') = (req (core_of s))(l \<mapsto> (k = TryWriteLockGuard \<or> k = WriteLockGuard, rng_start r, rng_end r)) \<and>
       (c = Done Nothing \<or> c = Done (Answer True) \<or> c = Loading l f) \<or>
     req (core_of s') = req (core_of s) \<and> c = Done (Answer False))"
  using enter_lock_effect [OF assms(1,2) _ assms(3)] by (cases k) auto

lemma unlock_call_effect:
  assumes "good_state s" and "sync_allowed limit free req s (unlock_call k l :: ('l, nat, 'pr) raw_call)"
    and "sync_step dbg ops t (Enter (unlock_call k l) f) s = Some s'"
  shows "\<exists>r log. req (core_of s') = (req (core_of s))(l := None) \<and> control s' = (control s)(t := Storing r log)"
  using enter_unlock_effect [OF assms(1,2) _ assms(3)] by (cases k) auto

sublocale excl: raw_exclusion "sync_inv ok req waits" "guard_of req"
  by unfold_locales (rule guards_apart)

abbreviation "system_ok st \<equiv> good_state (raw (shared st)) \<and> threads_ok req st"

text \<open>Nobody waits for the lock of a live guard, so it is granted.\<close>

lemma live_guard:
  assumes ok: "system_ok st" and g: "live st l = Some g"
  shows "guard_ok (guard_of req) (shared st) l g" "lock_state g = l"
proof -
  have p: "promised req (shared st) l g" using ok g by (simp add: threads_ok_def)
  then show "lock_state g = l" by (simp add: promised_def guard_ok_def)
  have "waiting_for (control (raw (shared st)) t) \<noteq> Some (l, f)" for t f
  proof
    assume w: "waiting_for (control (raw (shared st)) t) = Some (l, f)"
    with ok have "calls st t \<noteq> None" by (auto simp: threads_ok_def)
    then obtain g' where c: "calls st t = Some g'" by blast
    with ok have "live st (lock_state g') = None" "call_ok req (shared st) g' (control (raw (shared st)) t)"
      by (simp_all add: threads_ok_def)
    from call_ok_waiting [OF this(2) w] this(1) g show False by simp
  qed
  then have "guard_of req (raw (shared st)) l = req (core_of (raw (shared st))) l" by (simp add: guard_of_def)
  with p show "guard_ok (guard_of req) (shared st) l g" by (simp add: promised_def guard_ok_def)
qed

text \<open>What one step does: the invariant stays, and so do the guards it does not name, with their values.\<close>

definition isolated where
  "isolated a st st' \<longleftrightarrow> ptr (shared st') = ptr (shared st) \<and> (\<forall>k g. live st k = Some g \<longrightarrow> thread_target a \<noteq> Some k \<longrightarrow>
     live st' k = Some g \<and> guard_deref g (thread_memory st') = guard_deref g (thread_memory st))"

lemma call_lock_step:
  assumes ok: "system_ok st" and al: "thread_allowed limit free req st (CallLock k r prio l f)"
    and step: "thread_step dbg ops t (CallLock k r prio l f) st = Some st'"
  shows "system_ok st' \<and> isolated (CallLock k r prio l f) st st'"
proof -
  let ?s = "raw (shared st)"
  note O = ok [unfolded threads_ok_def]
  from step obtain p s' where c: "calls st t = None" and p: "slice (shared st) r = (Inr p :: unit slice_panic + _)"
    and s': "sync_step dbg ops t (Enter (lock_call k r prio l) f) ?s = Some s'"
    and st': "st' = st\<lparr>shared := (shared st)\<lparr>raw := s'\<rparr>, calls := (calls st)(t \<mapsto> \<lparr>lock_kind = k, lock_state = l, guard_ptr = p\<rparr>)\<rparr>"
    by (auto split: if_splits sum.splits option.splits)
  let ?g = "\<lparr>lock_kind = k, lock_state = l, guard_ptr = p\<rparr>"
  have c_al: "sync_allowed limit free req ?s (lock_call k r prio l)" using al by (cases k) auto
  then have good: "good_state s'" using ok s' by (blast intro: enter_inv)
  from lock_call_effect [OF _ c_al s'] ok obtain d where d: "control s' = (control ?s)(t := d)"
    "req (core_of s') = (req (core_of ?s))(l \<mapsto> (k = TryWriteLockGuard \<or> k = WriteLockGuard, rng_start r, rng_end r)) \<and>
       (d = Done Nothing \<or> d = Done (Answer True) \<or> d = Loading l f) \<or>
     req (core_of s') = req (core_of ?s) \<and> d = Done (Answer False)" by auto
  then have other: "req (core_of s') l' = req (core_of ?s) l'" if "l' \<noteq> l" for l' using that by auto
  have pr: "promised req (shared st') l ?g" if "d \<noteq> Done (Answer False)"
    using d(2) that al p by (auto simp: promised_def guard_ok_def st' is_write_guard_def slice_def split: if_splits)
  have new: "call_ok req (shared st') ?g d" using d(2) pr by auto
  have live: "promised req (shared st') l' g" if "live st l' = Some g" for l' g
  proof -
    have "l' \<noteq> l" using that al by auto
    with O that show ?thesis by (auto simp: st' other intro: promised_keeps [of req "shared st"])
  qed
  have call: "live st (lock_state g) = None \<and> call_ok req (shared st') g (control ?s t')" if "calls st t' = Some g" for t' g
  proof -
    have "lock_state g \<noteq> l" using that al by auto
    with O that show ?thesis by (auto simp: st' other intro: call_ok_keeps [of req "shared st"])
  qed
  have "threads_ok req st'" unfolding threads_ok_def
  proof (intro conjI allI impI)
    fix t' g assume g: "calls st' t' = Some g"
    show "live st' (lock_state g) = None" using g call al by (auto simp: st' split: if_splits)
    show "call_ok req (shared st') g (control (raw (shared st')) t')"
      using g call new by (auto simp: st' d(1) split: if_splits)
  next
    fix t' assume "calls st' t' = None"
    with O show "waiting_for (control (raw (shared st')) t') = None" by (auto simp: st' d(1) split: if_splits)
  next
    fix t1 t2 g1 g2 assume "calls st' t1 = Some g1" "calls st' t2 = Some g2" "lock_state g1 = lock_state g2"
    with O al show "t1 = t2" by (auto simp: st' split: if_splits) metis+
  qed (use live in \<open>simp add: st'\<close>)
  with good show ?thesis by (simp add: st' isolated_def)
qed

lemma call_drop_step:
  assumes ok: "system_ok st" and step: "thread_step dbg ops t (CallDrop l f) st = Some st'"
  shows "system_ok st' \<and> isolated (CallDrop l f) st st'"
proof -
  let ?s = "raw (shared st)"
  note O = ok [unfolded threads_ok_def]
  from step obtain g s' where c: "calls st t = None" and g: "live st l = Some g"
    and s': "sync_step dbg ops t (Enter (unlock_call (lock_kind g) (lock_state g)) f) ?s = Some s'"
    and st': "st' = st\<lparr>shared := (shared st)\<lparr>raw := s'\<rparr>, live := (live st)(l := None)\<rparr>"
    by (auto split: if_splits option.splits)
  from live_guard [OF ok g] have l: "lock_state g = l" by simp
  from live_guard [OF ok g] obtain x y where gd: "guard_of req ?s l = Some (is_write_guard g, x, y)" by (auto simp: guard_ok_def)
  then have c_al: "sync_allowed limit free req ?s (unlock_call (lock_kind g) (lock_state g) :: ('l, nat, 'pr) raw_call)"
    by (cases "lock_kind g") (auto simp: is_write_guard_def l)
  then have good: "good_state s'" using ok s' by (blast intro: enter_inv)
  from unlock_call_effect [OF _ c_al s'] ok l obtain res log where
    e: "req (core_of s') = (req (core_of ?s))(l := None)" "control s' = (control ?s)(t := Storing res log)" by blast
  have "threads_ok req st'" unfolding threads_ok_def
  proof (intro conjI allI impI)
    fix l' g' assume "live st' l' = Some g'"
    then have "l' \<noteq> l" "live st l' = Some g'" by (auto simp: st' split: if_splits)
    with O show "promised req (shared st') l' g'" by (auto simp: st' e intro: promised_keeps [of req "shared st"])
  next
    fix t' g' assume g': "calls st' t' = Some g'"
    with c have t': "t' \<noteq> t" "calls st t' = Some g'" by (auto simp: st')
    with O have n: "live st (lock_state g') = None" "call_ok req (shared st) g' (control ?s t')" by auto
    with g have "lock_state g' \<noteq> l" by auto
    with n t' show "live st' (lock_state g') = None" "call_ok req (shared st') g' (control (raw (shared st')) t')"
      by (auto simp: st' e intro: call_ok_keeps [of req "shared st"])
  next
    fix t' assume "calls st' t' = None"
    with O show "waiting_for (control (raw (shared st')) t') = None" by (auto simp: st' e split: if_splits)
  next
    fix t1 t2 g1 g2 assume "calls st' t1 = Some g1" "calls st' t2 = Some g2" "lock_state g1 = lock_state g2"
    with O show "t1 = t2" by (auto simp: st')
  qed
  with good show ?thesis by (simp add: st' isolated_def)
qed

lemma inside_call:
  assumes good: "good_state s'" and a: "\<And>call f. a \<noteq> Enter call f" and step: "sync_step dbg ops t a (raw s) = Some s'"
    and ok: "call_ok req s g (control (raw s) t)"
  shows "call_ok req (s\<lparr>raw := s'\<rparr>) g (control s' t)"
proof -
  note e = inside_effect [OF a step]
  have pk: "promised req s l g \<Longrightarrow> promised req (s\<lparr>raw := s'\<rparr>) l g" for l using e by (auto intro: promised_keeps [of req s])
  have dangling: "control s' t \<noteq> DanglingPointer" using controls_okD(1) [OF invD(4) [OF good], of t] by auto
  from ok e obtain l f where w: "waiting_for (control (raw s) t) = Some (l, f)" "l = lock_state g" "promised req s l g"
    by (cases "control (raw s) t") auto
  from e w(1) dangling have "waiting_for (control s' t) = Some (l, f) \<or> control s' t = Done Nothing" by auto
  with pk [OF w(3)] w(2) show ?thesis by (auto simp: waiting_for_Some)
qed

lemma inside_step:
  assumes ok: "system_ok st" and al: "thread_allowed limit free req st (Inside a)"
    and step: "thread_step dbg ops t (Inside a) st = Some st'"
  shows "system_ok st' \<and> isolated (Inside a) st st'"
proof -
  let ?s = "raw (shared st)"
  note O = ok [unfolded threads_ok_def]
  from step obtain s' where s': "sync_step dbg ops t a ?s = Some s'" and st': "st' = st\<lparr>shared := (shared st)\<lparr>raw := s'\<rparr>\<rparr>" by auto
  from al have a: "a \<noteq> Enter call f" for call f by simp
  have good: "good_state s'" using ok by (blast intro: step_inv [OF _ a s'])
  note e = inside_effect [OF a s']
  have "threads_ok req st'" unfolding threads_ok_def
  proof (intro conjI allI impI)
    fix l g assume "live st' l = Some g"
    with O e show "promised req (shared st') l g" by (auto simp: st' intro: promised_keeps [of req "shared st"])
  next
    fix t' g assume g: "calls st' t' = Some g"
    with O have n: "live st (lock_state g) = None" "call_ok req (shared st) g (control ?s t')" by (auto simp: st')
    then show "live st' (lock_state g) = None" by (simp add: st')
    show "call_ok req (shared st') g (control (raw (shared st')) t')"
    proof (cases "t' = t")
      case True
      with inside_call [OF good a s'] n show ?thesis by (simp add: st')
    next
      case False
      with n e show ?thesis by (auto simp: st' intro: call_ok_keeps [of req "shared st"])
    qed
  next
    fix t' assume "calls st' t' = None"
    with O have "waiting_for (control ?s t') = None" by (simp add: st')
    with e show "waiting_for (control (raw (shared st')) t') = None" by (cases "t' = t") (auto simp: st')
  next
    fix t1 t2 g1 g2 assume "calls st' t1 = Some g1" "calls st' t2 = Some g2" "lock_state g1 = lock_state g2"
    with O show "t1 = t2" by (auto simp: st')
  qed
  with good show ?thesis by (simp add: st' isolated_def)
qed

lemma return_step:
  assumes ok: "system_ok st" and step: "thread_step dbg ops t Return st = Some st'"
  shows "system_ok st' \<and> isolated Return st st'"
proof -
  note O = ok [unfolded threads_ok_def]
  from step obtain g res where g: "calls st t = Some g" and res: "control (raw (shared st)) t = Done res"
    and st': "st' = st\<lparr>calls := (calls st)(t := None), live := if res = Answer False then live st else (live st)(lock_state g \<mapsto> g)\<rparr>"
    by (auto split: option.splits control.splits)
  from O g res have n: "live st (lock_state g) = None" "call_ok req (shared st) g (Done res)" by metis+
  have "threads_ok req st'" unfolding threads_ok_def
  proof (intro conjI allI impI)
    fix l g' assume "live st' l = Some g'"
    with O n show "promised req (shared st') l g'" by (auto simp: st' split: if_splits)
  next
    fix t' g' assume g': "calls st' t' = Some g'"
    then have t': "t' \<noteq> t" "calls st t' = Some g'" by (auto simp: st' split: if_splits)
    with O g have "lock_state g' \<noteq> lock_state g" by blast
    with O t' show "live st' (lock_state g') = None" "call_ok req (shared st') g' (control (raw (shared st')) t')"
      by (auto simp: st')
  next
    fix t' assume "calls st' t' = None"
    with O res show "waiting_for (control (raw (shared st')) t') = None" by (cases "t' = t") (auto simp: st')
  next
    fix t1 t2 g1 g2 assume "calls st' t1 = Some g1" "calls st' t2 = Some g2" "lock_state g1 = lock_state g2"
    with O show "t1 = t2" by (auto simp: st' split: if_splits)
  qed
  with ok n show ?thesis by (auto simp: st' isolated_def)
qed

lemma live_disjoint:
  assumes ok: "system_ok st" and "live st l = Some g" "live st l' = Some g'" "l \<noteq> l'" "is_write_guard g \<or> is_write_guard g'"
  shows "addresses g \<inter> addresses g' = {}"
proof -
  have "guards_ok good_state (guard_of req) (shared st) (live st)" using ok live_guard(1) [OF ok] by (simp add: guards_ok_def)
  from excl.guards_disjoint [OF this assms(2-5)] show ?thesis .
qed

lemma assign_step:
  assumes ok: "system_ok st" and al: "thread_allowed limit free req st (Assign l i v)"
    and step: "thread_step dbg ops t (Assign l i v) st = Some st'"
  shows "system_ok st' \<and> isolated (Assign l i v) st st'"
proof -
  from step obtain g m where g: "live st l = Some g" and m: "guard_assign g i v (thread_memory st) = (Inr m :: unit slice_panic + _)"
    and st': "st' = st\<lparr>thread_memory := m\<rparr>" by (auto split: option.splits sum.splits)
  from assign_inside [OF m] obtain a where a: "a \<in> addresses g" "m = (thread_memory st)(a := v)" by blast
  have "guard_deref g' m = guard_deref g' (thread_memory st)" if "live st l' = Some g'" "l \<noteq> l'" for l' g'
  proof -
    from live_disjoint [OF ok g that] al g a(1) have "a \<notin> addresses g'" by auto
    then show ?thesis by (simp add: a(2) deref_outside)
  qed
  with ok show ?thesis by (auto simp: st' isolated_def threads_ok_def)
qed

lemma thread_step_ok:
  assumes "system_ok st" "thread_allowed limit free req st a" "thread_step dbg ops t a st = Some st'"
  shows "system_ok st' \<and> isolated a st st'"
proof (cases a)
  case (CallLock k r prio l f)
  with assms call_lock_step show ?thesis by blast
next
  case (CallDrop l f)
  with assms call_drop_step show ?thesis by blast
next
  case (Inside b)
  with assms inside_step show ?thesis by blast
next
  case Return
  with assms return_step show ?thesis by blast
next
  case (Assign l i v)
  from assms show ?thesis unfolding Assign by (rule assign_step)
qed

lemma threads_run_isolated:
  assumes "threads_run dbg ops limit free req K st st'" and "system_ok st"
  shows "system_ok st' \<and> ptr (shared st') = ptr (shared st) \<and> (\<forall>l g. l \<in> K \<longrightarrow> live st l = Some g \<longrightarrow>
    live st' l = Some g \<and> guard_deref g (thread_memory st') = guard_deref g (thread_memory st))"
  using assms
proof (induction rule: threads_run.induct)
  case (step st' a t st'')
  from step.IH [OF step.prems] have IH: "system_ok st'" by blast
  note S = thread_step_ok [OF IH step.hyps(2,4)]
  have "live st'' l = Some g \<and> guard_deref g (thread_memory st'') = guard_deref g (thread_memory st)"
    if "l \<in> K" "live st l = Some g" for l g
  proof -
    from step.hyps(3) that(1) have "thread_target a \<noteq> Some l" by blast
    moreover from step.IH [OF step.prems] that
    have "live st' l = Some g" "guard_deref g (thread_memory st') = guard_deref g (thread_memory st)" by blast+
    ultimately show ?thesis using S unfolding isolated_def by metis
  qed
  with S step.IH [OF step.prems] show ?case by (simp add: isolated_def)
qed simp

lemma init_system_ok: "system_ok (threads_init ops c p m)"
  using inv_init by (auto simp: threads_init_def threads_ok_def sync_init_def)

end

interpretation sync_slice_rb: sync_slice "rbtree_ops dbg self" "2 ^ 63 - 1" "core_inv self" rb_free "rb_req self" "rb_waits self"
  by unfold_locales

abbreviation threads_rb_run where
  "threads_rb_run dbg self \<equiv> threads_run dbg (rbtree_ops dbg self) (2 ^ 63 - 1) rb_free (rb_req self)"

section \<open>Guards of threads\<close>

text \<open>
  Thread \<open>True\<close> locks 2..6 for writing; then thread \<open>False\<close> locks 7..9 and assigns an element, and asks for 4..8, for which it
  has to wait.
\<close>

type_synonym demo_threads =
  "(unit, (nat, demo_lock, nat, nat, (nat, bool) sync_in_progress) world, demo_lock, nat, bool, nat) slice_threads"

definition threads_after :: "bool \<Rightarrow> (demo_lock, nat, nat, nat, nat) thread_action \<Rightarrow> demo_threads \<Rightarrow> demo_threads" where
  "threads_after t a st = (case thread_step True demo_ops t a st of Some st' \<Rightarrow> st' | None \<Rightarrow> st)"

definition threads0 :: demo_threads where
  "threads0 = threads_init demo_ops () \<lparr>base = 100, elems = 10\<rparr> id"

definition threads1 :: demo_threads where
  "threads1 = threads_after True (CallLock WriteLockGuard (Range 2 6) 0 LockA 0) threads0"

definition threads2 :: demo_threads where
  "threads2 = threads_after True Return threads1"

definition threads3 :: demo_threads where
  "threads3 = threads_after False (CallLock TryWriteLockGuard (Range 7 9) 0 TryB 1) threads2"

definition threads4 :: demo_threads where
  "threads4 = threads_after False Return threads3"

definition threads5 :: demo_threads where
  "threads5 = threads_after False (Assign TryB 0 55) threads4"

definition threads6 :: demo_threads where
  "threads6 = threads_after False (CallLock ReadLockGuard (Range 4 8) 1 LockB 1) threads5"

abbreviation demo_threads_run :: "demo_lock set \<Rightarrow> demo_threads \<Rightarrow> demo_threads \<Rightarrow> bool" where
  "demo_threads_run \<equiv> threads_rb_run True 0"

lemma threads_after_run:
  assumes "demo_threads_run K st st'" and "thread_allowed (2 ^ 63 - 1) rb_free (rb_req 0) st' a" "\<And>l. thread_target a = Some l \<Longrightarrow> l \<notin> K"
  shows "demo_threads_run K st (threads_after t a st')"
  using threads_run.step [OF assms, of t] assms(1) by (auto simp: threads_after_def demo_ops_def split: option.splits)

lemma threads_views:
  "rb_free (core_of (raw (shared threads0))) LockA" "live threads0 LockA = None" "calls threads0 True = None" "calls threads0 False = None"
  "rb_free (core_of (raw (shared threads2))) TryB" "live threads2 TryB = None" "calls threads2 True = None" "calls threads2 False = None"
  "rb_free (core_of (raw (shared threads5))) LockB" "live threads5 LockB = None" "calls threads5 True = None" "calls threads5 False = None"
  "live threads2 LockA = Some \<lparr>lock_kind = WriteLockGuard, lock_state = LockA, guard_ptr = \<lparr>base = 102, elems = 4\<rparr>\<rparr>"
  "live threads4 TryB = Some \<lparr>lock_kind = TryWriteLockGuard, lock_state = TryB, guard_ptr = \<lparr>base = 107, elems = 2\<rparr>\<rparr>"
  "live threads6 TryB = Some \<lparr>lock_kind = TryWriteLockGuard, lock_state = TryB, guard_ptr = \<lparr>base = 107, elems = 2\<rparr>\<rparr>"
  "control (raw (shared threads6)) False = Loading LockB 1" "thread_memory threads6 107 = 55"
  by code_simp+

lemma threads_run2: "demo_threads_run {} threads0 threads2"
  unfolding threads2_def threads1_def
  by (intro threads_after_run threads_run.stop) (simp_all add: threads_views all_bool_eq demo_card del: not_None_eq)

lemma threads_run6: "demo_threads_run {LockA} threads2 threads6"
proof -
  have "demo_threads_run {LockA} threads2 threads4"
    unfolding threads4_def threads3_def
    by (intro threads_after_run threads_run.stop) (simp_all add: threads_views all_bool_eq demo_card del: not_None_eq)
  then have "demo_threads_run {LockA} threads2 threads5"
    unfolding threads5_def by (rule threads_after_run) (simp_all add: threads_views is_write_guard_def)
  then show ?thesis
    unfolding threads6_def by (rule threads_after_run) (simp_all add: threads_views all_bool_eq demo_card del: not_None_eq)
qed

text \<open>C4. Threads share a slice.  Whatever any number of threads do with a slice lock, in any interleaving, while a thread has a
  guard: the guard stays, sees the same values unless it is assigned through itself, lies inside the slice, and has no element in
  common with any other guard if one of them writes.\<close>

theorem threads_isolation:
  assumes "threads_rb_run dbg self {} (threads_init (rbtree_ops dbg self) c p m) st"
    and "live st l = Some g" and "threads_rb_run dbg self {l} st st'"
  shows "live st' l = Some g \<and> guard_deref g (thread_memory st') = guard_deref g (thread_memory st) \<and>
    addresses g \<subseteq> {base p ..< base p + elems p} \<and>
    (\<forall>l' g'. live st' l' = Some g' \<longrightarrow> l' \<noteq> l \<longrightarrow> is_write_guard g \<or> is_write_guard g' \<longrightarrow> addresses g \<inter> addresses g' = {})"
proof -
  from sync_slice_rb.threads_run_isolated [OF assms(1) sync_slice_rb.init_system_ok]
  have 1: "sync_slice_rb.system_ok self st" "ptr (shared st) = p" by (simp_all add: threads_init_def)
  from sync_slice_rb.threads_run_isolated [OF assms(3) 1(1)] assms(2)
  have 2: "sync_slice_rb.system_ok self st'" "live st' l = Some g"
    "guard_deref g (thread_memory st') = guard_deref g (thread_memory st)" by simp_all
  from sync_slice_rb.live_guard(1) [OF 1(1) assms(2)] have "addresses g \<subseteq> {base p ..< base p + elems p}"
    using guard_inside 1(2) by metis
  with 2 sync_slice_rb.live_disjoint [OF 2(1,2)] show ?thesis by auto
qed

theorem threads_isolation_witness:
  "guard_deref \<lparr>lock_kind = WriteLockGuard, lock_state = LockA, guard_ptr = \<lparr>base = 102, elems = 4\<rparr>\<rparr> (thread_memory threads6) =
   guard_deref \<lparr>lock_kind = WriteLockGuard, lock_state = LockA, guard_ptr = \<lparr>base = 102, elems = 4\<rparr>\<rparr> (thread_memory threads2) \<and>
   live threads6 LockA = live threads2 LockA \<and> thread_memory threads6 107 = 55"
  using threads_isolation [OF threads_run2 [unfolded threads0_def demo_ops_def] threads_views(13) threads_run6] threads_views by simp

end
