(* ===== verification/Pin.thy ===== *)
theory Pin
  imports Prelude
begin

text \<open>
  The storage of lock states: \<open>EarlyDropGuard\<close> of \<open>src/utils/pin.rs\<close>, which keeps an object in a local variable of a
  future that never ends, and its alternative of \<open>src/utils/pin_boxed.rs\<close>, which keeps it in a box.  Both create the object
  on demand and call its \<open>early_drop\<close> before its destructor.
\<close>

section \<open>Objects\<close>

text \<open>
  \<open>'p\<close> are addresses, \<open>'v\<close> values.  The events are the calls of \<open>init\<close>, of \<open>early_drop\<close> and of the destructor.
\<close>

datatype 'p object_event = InitCalled | EarlyDropped 'p | Destroyed 'p | DestroyedUnpinned

record ('p, 'v) object_heap =
  objects :: "'p \<Rightarrow> 'v option"
  events :: "'p object_event list"

definition emit :: "'p object_event \<Rightarrow> ('p, 'v) object_heap \<Rightarrow> ('p, 'v) object_heap" where
  "emit e h = h\<lparr>events := events h @ [e]\<rparr>"

datatype pin_panic = InitPanicked | HolderIsSome

section \<open>The implementation by a future\<close>

text \<open>
  The asynchronous block of \<open>make_holder\<close>: before its first poll it owns the new value; then it waits forever, with the local
  variables \<open>inner\<close>, at the address \<open>a\<close>, and \<open>guard\<close>.
\<close>

datatype ('p, 'v) holder_state = Unpolled 'v | Stalled 'p

record ('p, 'v) early_drop_guard =
  holder :: "('p, 'v) holder_state option"
  storage :: "'p option"

type_synonym ('p, 'v) pin_state = "('p, 'v) early_drop_guard \<times> ('p, 'v) object_heap"

definition pin_new :: "('p, 'v) early_drop_guard" where
  "pin_new = \<lparr>holder = None, storage = None\<rparr>"

definition pin_get :: "('p, 'v) early_drop_guard \<Rightarrow> 'p option" where
  "pin_get g = storage g"

definition holder_poll :: "'p \<Rightarrow> ('p, 'v) pin_state \<Rightarrow> ('p, 'v) pin_state" where
  "holder_poll a s = (case s of (g, h) \<Rightarrow> (case holder g of
     Some (Unpolled v) \<Rightarrow> (g\<lparr>holder := Some (Stalled a), storage := Some a\<rparr>, h\<lparr>objects := (objects h)(a \<mapsto> v)\<rparr>)
   | _ \<Rightarrow> s))"

partial_function (option) poll_until_stored :: "'p \<Rightarrow> ('p, 'v) pin_state \<Rightarrow> ('p \<times> ('p, 'v) pin_state) option" where
  "poll_until_stored a s = (let s = holder_poll a s in (case pin_get (fst s) of
     Some p \<Rightarrow> Some (p, s)
   | None \<Rightarrow> poll_until_stored a s))"

text \<open>\<open>get_or_insert_with\<close>; a panic of \<open>init\<close> is its result \<open>None\<close>.\<close>

definition pin_get_or_insert_with ::
  "'v option \<Rightarrow> 'p \<Rightarrow> ('p, 'v) pin_state \<Rightarrow> ((pin_panic + 'p) \<times> ('p, 'v) pin_state) option" where
  "pin_get_or_insert_with init a s = (case s of (g, h) \<Rightarrow> (case pin_get g of
     Some p \<Rightarrow> Some (Inr p, s)
   | None \<Rightarrow>
       if holder g \<noteq> None then Some (Inl HolderIsSome, s)
       else (case init of
         None \<Rightarrow> Some (Inl InitPanicked, g, emit InitCalled h)
       | Some v \<Rightarrow> map_option (\<lambda>(p, s). (Inr p, s))
           (poll_until_stored a (g\<lparr>holder := Some (Unpolled v)\<rparr>, emit InitCalled h)))))"

definition pin_get_or_insert_default :: "'v \<Rightarrow> 'p \<Rightarrow> ('p, 'v) pin_state \<Rightarrow> ((pin_panic + 'p) \<times> ('p, 'v) pin_state) option" where
  "pin_get_or_insert_default default_value = pin_get_or_insert_with (Some default_value)"

text \<open>
  The destructor drops the future, which drops its local variables in reverse order: \<open>guard\<close>, whose destructor calls
  \<open>early_drop\<close>, and then \<open>inner\<close>.  \<open>early\<close> is the panic that \<open>early_drop\<close> raises on a value, if any; it unwinds after the
  remaining variables have been dropped.
\<close>

definition do_early_drop :: "('v \<Rightarrow> 'e option) \<Rightarrow> 'p \<Rightarrow> ('p, 'v) object_heap \<Rightarrow> 'e option \<times> ('p, 'v) object_heap" where
  "do_early_drop early p h = (Option.bind (objects h p) early, emit (EarlyDropped p) h)"

definition destroy :: "'p \<Rightarrow> ('p, 'v) object_heap \<Rightarrow> ('p, 'v) object_heap" where
  "destroy p h = emit (Destroyed p) (h\<lparr>objects := (objects h)(p := None)\<rparr>)"

definition pin_drop :: "('v \<Rightarrow> 'e option) \<Rightarrow> ('p, 'v) pin_state \<Rightarrow> 'e option \<times> ('p, 'v) object_heap" where
  "pin_drop early s = (case s of (g, h) \<Rightarrow> (case holder g of
     None \<Rightarrow> (None, h)
   | Some (Unpolled v) \<Rightarrow> (None, emit DestroyedUnpinned h)
   | Some (Stalled p) \<Rightarrow> (case do_early_drop early p h of (panic, h) \<Rightarrow> (panic, destroy p h))))"

section \<open>The implementation by a box\<close>

record 'p boxed_guard =
  box_storage :: "'p option"

type_synonym ('p, 'v) box_state = "'p boxed_guard \<times> ('p, 'v) object_heap"

definition box_new :: "'p boxed_guard" where
  "box_new = \<lparr>box_storage = None\<rparr>"

definition box_get :: "'p boxed_guard \<Rightarrow> 'p option" where
  "box_get g = box_storage g"

text \<open>\<open>a\<close> is the address of the new box.\<close>

definition box_get_or_insert_with ::
  "'v option \<Rightarrow> 'p \<Rightarrow> ('p, 'v) box_state \<Rightarrow> (pin_panic + 'p) \<times> ('p, 'v) box_state" where
  "box_get_or_insert_with init a s = (case s of (g, h) \<Rightarrow> (case box_storage g of
     Some p \<Rightarrow> (Inr p, s)
   | None \<Rightarrow> (case init of
         None \<Rightarrow> (Inl InitPanicked, g, emit InitCalled h)
       | Some v \<Rightarrow> (Inr a, g\<lparr>box_storage := Some a\<rparr>, (emit InitCalled h)\<lparr>objects := (objects h)(a \<mapsto> v)\<rparr>))))"

definition box_get_or_insert_default :: "'v \<Rightarrow> 'p \<Rightarrow> ('p, 'v) box_state \<Rightarrow> (pin_panic + 'p) \<times> ('p, 'v) box_state" where
  "box_get_or_insert_default default_value = box_get_or_insert_with (Some default_value)"

text \<open>\<open>Drop for EarlyDroppingBox\<close>, then the box is dropped, also after a panic.\<close>

definition box_drop :: "('v \<Rightarrow> 'e option) \<Rightarrow> ('p, 'v) box_state \<Rightarrow> 'e option \<times> ('p, 'v) object_heap" where
  "box_drop early s = (case s of (g, h) \<Rightarrow> (case box_storage g of
     None \<Rightarrow> (None, h)
   | Some p \<Rightarrow> (Option.bind (objects h p) early, destroy p (emit (EarlyDropped p) h))))"

section \<open>Sessions\<close>

text \<open>The life of a guard: calls, with their answers, and the destructor.\<close>

datatype ('p, 'v) pin_call = GetObject | GetOrInsertWith "'v option" 'p | GetOrInsertDefault 'v 'p

datatype 'p pin_answer = Got "'p option" | Inserted "pin_panic + 'p"

fun pin_calls :: "('p, 'v) pin_call list \<Rightarrow> ('p, 'v) pin_state \<Rightarrow> ('p pin_answer list \<times> ('p, 'v) pin_state) option" where
  "pin_calls [] s = Some ([], s)"
| "pin_calls (GetObject # cs) s = map_option (map_prod ((#) (Got (pin_get (fst s)))) id) (pin_calls cs s)"
| "pin_calls (GetOrInsertWith init a # cs) s = (case pin_get_or_insert_with init a s of
     None \<Rightarrow> None
   | Some (r, s) \<Rightarrow> map_option (map_prod ((#) (Inserted r)) id) (pin_calls cs s))"
| "pin_calls (GetOrInsertDefault v a # cs) s = (case pin_get_or_insert_default v a s of
     None \<Rightarrow> None
   | Some (r, s) \<Rightarrow> map_option (map_prod ((#) (Inserted r)) id) (pin_calls cs s))"

fun box_calls :: "('p, 'v) pin_call list \<Rightarrow> ('p, 'v) box_state \<Rightarrow> 'p pin_answer list \<times> ('p, 'v) box_state" where
  "box_calls [] s = ([], s)"
| "box_calls (GetObject # cs) s = map_prod ((#) (Got (box_get (fst s)))) id (box_calls cs s)"
| "box_calls (GetOrInsertWith init a # cs) s = (case box_get_or_insert_with init a s of
     (r, s) \<Rightarrow> map_prod ((#) (Inserted r)) id (box_calls cs s))"
| "box_calls (GetOrInsertDefault v a # cs) s = (case box_get_or_insert_default v a s of
     (r, s) \<Rightarrow> map_prod ((#) (Inserted r)) id (box_calls cs s))"

definition pin_session ::
  "('v \<Rightarrow> 'e option) \<Rightarrow> ('p, 'v) pin_call list \<Rightarrow> ('p, 'v) object_heap \<Rightarrow>
   ('p pin_answer list \<times> 'e option \<times> ('p, 'v) object_heap) option" where
  "pin_session early cs h = map_option (map_prod id (pin_drop early)) (pin_calls cs (pin_new, h))"

definition box_session ::
  "('v \<Rightarrow> 'e option) \<Rightarrow> ('p, 'v) pin_call list \<Rightarrow> ('p, 'v) object_heap \<Rightarrow>
   'p pin_answer list \<times> 'e option \<times> ('p, 'v) object_heap" where
  "box_session early cs h = map_prod id (box_drop early) (box_calls cs (box_new, h))"

section \<open>Both implementations agree\<close>

text \<open>The relation between their states: between two calls, the future is stalled.\<close>

definition same_guard :: "('p, 'v) early_drop_guard \<Rightarrow> 'p boxed_guard \<Rightarrow> bool" where
  "same_guard g b \<longleftrightarrow> storage g = box_storage b \<and> holder g = map_option Stalled (storage g)"

lemma poll_stores:
  "poll_until_stored a (g\<lparr>holder := Some (Unpolled v)\<rparr>, h) =
    Some (a, g\<lparr>holder := Some (Stalled a), storage := Some a\<rparr>, h\<lparr>objects := (objects h)(a \<mapsto> v)\<rparr>)"
  by (subst poll_until_stored.simps) (simp add: holder_poll_def pin_get_def)

lemma insert_agrees:
  assumes "same_guard g b"
  shows "\<exists>r g' b' h'. pin_get_or_insert_with init a (g, h) = Some (r, g', h') \<and>
    box_get_or_insert_with init a (b, h) = (r, b', h') \<and> same_guard g' b'"
  using assms
  by (auto simp: same_guard_def pin_get_or_insert_with_def box_get_or_insert_with_def poll_stores emit_def pin_get_def
    split: option.splits)

lemma calls_agree:
  "same_guard g b \<Longrightarrow> \<exists>as g' b' h'. pin_calls cs (g, h) = Some (as, g', h') \<and> box_calls cs (b, h) = (as, b', h') \<and> same_guard g' b'"
proof (induction cs arbitrary: g b h)
  case (Cons c cs)
  have step: "\<exists>as g' b' h'. (case pin_get_or_insert_with init a (g, h) of None \<Rightarrow> None
      | Some (r, s) \<Rightarrow> map_option (map_prod ((#) (Inserted r)) id) (pin_calls cs s)) = Some (as, g', h') \<and>
    (case box_get_or_insert_with init a (b, h) of (r, s) \<Rightarrow> map_prod ((#) (Inserted r)) id (box_calls cs s)) = (as, b', h') \<and> same_guard g' b'"
    for init a
    using insert_agrees [OF Cons.prems, of init a h] Cons.IH by fastforce
  show ?case
  proof (cases c)
    case GetObject
    with Cons.IH [OF Cons.prems, of h] Cons.prems show ?thesis by (auto simp: pin_get_def box_get_def same_guard_def)
  qed (use step in \<open>simp_all add: pin_get_or_insert_default_def box_get_or_insert_default_def\<close>)
qed simp

lemma drop_agrees: "same_guard g b \<Longrightarrow> pin_drop early (g, h) = box_drop early (b, h)"
  by (auto simp: same_guard_def pin_drop_def box_drop_def do_early_drop_def split: option.splits)

lemma sessions_agree:
  fixes cs :: "('p, 'v) pin_call list"
  shows "pin_session early cs h = Some (box_session early cs h)"
proof -
  have "same_guard (pin_new :: ('p, 'v) early_drop_guard) box_new" by (simp add: same_guard_def pin_new_def box_new_def)
  from calls_agree [OF this, of cs h] drop_agrees show ?thesis
    by (auto simp: pin_session_def box_session_def)
qed

text \<open>C25. The two implementations of \<open>EarlyDropGuard\<close> cannot be told apart: whatever is called, and whether the initialisers
  and \<open>early_drop\<close> panic or not, the answers, the panic of the destructor, the objects and the sequence of initialisations and destructions are the same.  In
  particular the loop that polls the future ends.\<close>

theorem pin_implementations_agree: "pin_session early cs h = Some (box_session early cs h)"
  by (rule sessions_agree)

section \<open>The life of the object\<close>

text \<open>The object, its address and value: those of the first call whose initialiser returns; and the calls of initialisers up to it.\<close>

fun object_of :: "('p, 'v) pin_call list \<Rightarrow> ('p \<times> 'v) option" where
  "object_of [] = None"
| "object_of (GetObject # cs) = object_of cs"
| "object_of (GetOrInsertWith None a # cs) = object_of cs"
| "object_of (GetOrInsertWith (Some v) a # cs) = Some (a, v)"
| "object_of (GetOrInsertDefault v a # cs) = Some (a, v)"

fun attempts :: "('p, 'v) pin_call list \<Rightarrow> nat" where
  "attempts [] = 0"
| "attempts (GetObject # cs) = attempts cs"
| "attempts (GetOrInsertWith None a # cs) = Suc (attempts cs)"
| "attempts (GetOrInsertWith (Some v) a # cs) = 1"
| "attempts (GetOrInsertDefault v a # cs) = 1"

text \<open>Once the object exists, every answer is its address and nothing happens.\<close>

lemma box_calls_stored: "box_storage b = Some p \<Longrightarrow> \<exists>as. box_calls cs (b, h) = (as, b, h) \<and> set as \<subseteq> {Got (Some p), Inserted (Inr p)}"
proof (induction cs)
  case (Cons c cs)
  then obtain as where "box_calls cs (b, h) = (as, b, h)" "set as \<subseteq> {Got (Some p), Inserted (Inr p)}" by auto
  with Cons.prems show ?case
    by (cases c) (auto simp: box_get_def box_get_or_insert_default_def box_get_or_insert_with_def)
qed simp

lemma box_calls_empty:
  "box_storage b = None \<Longrightarrow> \<exists>as h'. box_calls cs (b, h) = (as, b\<lparr>box_storage := map_option fst (object_of cs)\<rparr>, h') \<and>
    events h' = events h @ replicate (attempts cs) InitCalled \<and>
    objects h' = (case object_of cs of None \<Rightarrow> objects h | Some (p, v) \<Rightarrow> (objects h)(p \<mapsto> v))"
proof (induction cs arbitrary: h rule: attempts.induct)
  case (2 cs)
  from "2.IH" [OF "2.prems", of h] show ?case by auto
next
  case (3 a cs)
  from "3.IH" [OF "3.prems", of "emit InitCalled h"] "3.prems" show ?case
    by (auto simp: box_get_or_insert_with_def emit_def split: option.splits)
next
  case (4 v a cs)
  let ?b = "b\<lparr>box_storage := Some a\<rparr>" and ?h = "(emit InitCalled h)\<lparr>objects := (objects h)(a \<mapsto> v)\<rparr>"
  from box_calls_stored [of ?b a cs ?h] "4.prems" show ?case
    by (auto simp: box_get_or_insert_with_def emit_def fun_upd_def)
next
  case (5 v a cs)
  let ?b = "b\<lparr>box_storage := Some a\<rparr>" and ?h = "(emit InitCalled h)\<lparr>objects := (objects h)(a \<mapsto> v)\<rparr>"
  from box_calls_stored [of ?b a cs ?h] "5.prems" show ?case
    by (auto simp: box_get_or_insert_default_def box_get_or_insert_with_def emit_def fun_upd_def)
qed (auto)

text \<open>C26. The object of a guard is created at most once, by the first initialiser that returns; panicking initialisers leave the
  guard usable.  When the guard is dropped, \<open>early_drop\<close> is called exactly once, right before the destructor, at the same
  address, or neither is called if there is no object.  A panic of \<open>early_drop\<close> is passed on, but only after the destructor has run.  Other
  objects are left alone.\<close>

theorem early_drop_precedes_drop:
  fixes cs :: "('p, 'v) pin_call list"
  assumes "pin_session early cs h = Some (as, panic, h')"
  shows "events h' = events h @ replicate (attempts cs) InitCalled @
      (case object_of cs of None \<Rightarrow> [] | Some (p, v) \<Rightarrow> [EarlyDropped p, Destroyed p]) \<and>
    panic = Option.bind (object_of cs) (early \<circ> snd) \<and>
    objects h' = (case object_of cs of None \<Rightarrow> objects h | Some (p, v) \<Rightarrow> (objects h)(p := None))"
proof -
  have "box_storage (box_new :: 'p boxed_guard) = None" by (simp add: box_new_def)
  from box_calls_empty [OF this, of cs h] assms sessions_agree [of early cs h] show ?thesis
    by (auto simp: box_session_def box_drop_def destroy_def emit_def split: option.splits prod.splits)
qed

theorem early_drop_precedes_drop_witness:
  "events (snd (snd (box_session (\<lambda>v. if v = 5 then Some () else None)
      [GetOrInsertWith None 1, GetOrInsertWith (Some (5 :: int)) 2, GetObject, GetOrInsertDefault 6 (3 :: nat)]
      \<lparr>objects = (\<lambda>_. None), events = []\<rparr>))) = [InitCalled, InitCalled, EarlyDropped 2, Destroyed 2]"
proof -
  let ?cs = "[GetOrInsertWith None 1, GetOrInsertWith (Some (5 :: int)) 2, GetObject, GetOrInsertDefault 6 (3 :: nat)]"
  let ?h = "\<lparr>objects = (\<lambda>_ :: nat. None :: int option), events = []\<rparr>"
  let ?r = "box_session (\<lambda>v. if v = 5 then Some () else None) ?cs ?h"
  have "pin_session (\<lambda>v. if v = 5 then Some () else None) ?cs ?h = Some (fst ?r, fst (snd ?r), snd (snd ?r))" by (simp add: sessions_agree)
  from early_drop_precedes_drop [OF this] show ?thesis by (simp add: numeral_2_eq_2)
qed

end
