(* ===== verification/Lock_States.thy ===== *)
theory Lock_States
  imports Core_Contracts Pin
begin

text \<open>
  The lock states of \<open>src/core/rbtree.rs\<close>: each is an \<open>EarlyDropGuard\<close> (\<open>Pin\<close>) of its inner object, the cells that the
  trees of a core link.  What happens when a lock state is dropped, while it is in use and while it is not.
\<close>

section \<open>A lock state in its guard\<close>

text \<open>\<open>impl_lock_state!\<close>\<close>

record ('c, 'l, 'i, 'pr, 'ip) lock_state_inner =
  inner_parent :: "'c option"
  inner_read :: "('l \<times> bool, 'i read_element, 64 word) node option \<times> ('l \<times> bool, 'i read_element, 64 word) node option"
  inner_write :: "('l, 'i range, unit) node option"
  inner_pending :: "('l, ('l, 'i, 'pr, 'ip) pending, unit) node option"

definition lock_state_inner_default :: "('c, 'l, 'i, 'pr, 'ip) lock_state_inner" where
  "lock_state_inner_default = \<lparr>inner_parent = None, inner_read = (None, None), inner_write = None, inner_pending = None\<rparr>"

definition lock_state_new where
  "lock_state_new = pin_new"

definition lock_state_get where
  "lock_state_get a s = pin_get_or_insert_default lock_state_inner_default a s"

definition inner_early_drop :: "('c, 'l, 'i, 'pr, 'ip) lock_state_inner \<Rightarrow> fault option" where
  "inner_early_drop v = (if inner_parent v \<noteq> None then Some StillLinked else None)"

definition lock_state_drop where
  "lock_state_drop s = pin_drop inner_early_drop s"

section \<open>Lock states in a core\<close>

text \<open>The inner objects at the addresses \<open>'l\<close>, as the core sees them, and the cells without the one at \<open>l\<close>.\<close>

definition inner_at :: "('c, 'l, 'i, 'pr, 'ip) lock_states \<Rightarrow> 'l \<Rightarrow> ('c, 'l, 'i, 'pr, 'ip) lock_state_inner" where
  "inner_at s l = \<lparr>inner_parent = parent_cell s l, inner_read = (read_cell s (l, False), read_cell s (l, True)),
     inner_write = write_cell s l, inner_pending = pending_cell s l\<rparr>"

definition without :: "('c, 'l, 'i, 'pr, 'ip) lock_states \<Rightarrow> 'l \<Rightarrow> ('c, 'l, 'i, 'pr, 'ip) lock_states" where
  "without s l = s\<lparr>parent_cell := (parent_cell s)(l := None), read_cell := (read_cell s)((l, False) := None, (l, True) := None),
     write_cell := (write_cell s)(l := None), pending_cell := (pending_cell s)(l := None)\<rparr>"

text \<open>The first use of a lock state gives it an inner object that is not in use.\<close>

lemma fresh_lock_state:
  "lock_state_get a (lock_state_new, h) =
    Some (Inr a, \<lparr>holder = Some (Stalled a), storage = Some a\<rparr>, (emit InitCalled h)\<lparr>objects := (objects h)(a \<mapsto> lock_state_inner_default)\<rparr>)"
  by (simp add: lock_state_get_def lock_state_new_def pin_get_or_insert_default_def pin_get_or_insert_with_def pin_new_def pin_get_def
      poll_until_stored.simps holder_poll_def emit_def)

text \<open>
  The drop of a lock state whose inner object is at \<open>l\<close>: the panic is that of the core's \<open>early_drop\<close>, and the memory is gone
  in either case.
\<close>

lemma drop_at:
  assumes "objects h l = Some (inner_at s l)" and "lock_state_drop (\<lparr>holder = Some (Stalled l), storage = Some l\<rparr>, h) = (panic, h')"
  shows "early_drop s l = (case panic of None \<Rightarrow> Inr () | Some e \<Rightarrow> Inl e)" "objects h' = (objects h)(l := None)"
  using assms by (auto simp: lock_state_drop_def pin_drop_def do_early_drop_def inner_early_drop_def inner_at_def early_drop_def destroy_def emit_def)

text \<open>If the lock state is not in use, its cells are empty, so that the core does not notice.\<close>

lemma drop_unused:
  assumes "reachable dbg self kd (c, s)" and "parent_cell s l = None"
  shows "without s l = s"
proof -
  from reachable_core_inv [OF assms(1)] have inv: "core_inv self (c, s)" .
  then obtain qs where "good self c s qs" by (rule core_inv_good)
  then have pairs: "pairs_ok (view (read_cell s))" by (simp add: good_def)
  from core_invD(1) [OF inv] have "lock_ok (table_of s) l" by (simp add: table_ok_def)
  with assms(2) have "read_pair (view (read_cell s)) l = None" "view (write_cell s) l = None" "view (pending_cell s) l = None"
    by (simp_all add: lock_ok_def write_range_None)
  with pairs_ok_None [OF pairs] have "read_cell s (l, False) = None" "read_cell s (l, True) = None" "write_cell s l = None" "pending_cell s l = None"
    by (simp_all add: view_def)
  with assms(2) show ?thesis by (simp add: without_def fun_upd_idem)
qed

section \<open>Properties\<close>

text \<open>C27. Dropping a lock state frees its memory.  It panics exactly if the lock state is in use; if it does not, no core loses anything.\<close>

theorem lock_state_drop_correct:
  assumes "reachable dbg self kd (c, s)" and "objects h l = Some (inner_at s l)"
    and "lock_state_drop (\<lparr>holder = Some (Stalled l), storage = Some l\<rparr>, h) = (panic, h')"
  shows "objects h' = (objects h)(l := None) \<and> panic = (if parent_cell s l = None then None else Some StillLinked) \<and>
    (panic = None \<longrightarrow> without s l = s)"
proof -
  from drop_at [OF assms(2,3)] have "objects h' = (objects h)(l := None)" "panic = (if parent_cell s l = None then None else Some StillLinked)"
    by (auto simp: early_drop_def split: if_splits option.splits)
  with drop_unused [OF assms(1), of l] show ?thesis by simp
qed

definition demo_objects :: "(demo_lock, (nat, demo_lock, nat, nat, nat) lock_state_inner) object_heap" where
  "demo_objects = \<lparr>objects = Some \<circ> inner_at (snd demo1), events = []\<rparr>"

abbreviation demo_guard :: "demo_lock \<Rightarrow> (demo_lock, (nat, demo_lock, nat, nat, nat) lock_state_inner) early_drop_guard" where
  "demo_guard l \<equiv> \<lparr>holder = Some (Stalled l), storage = Some l\<rparr>"

lemma demo1_facts:
  "parent_cell (snd demo1) LockA = Some 0" "parent_cell (snd demo1) LockB = None" "writes (fst demo1) = Some LockA"
  "first_write_borrow_in_range (fst demo1) (without (snd demo1) LockA) (Range 3 5) = None"
  by code_simp+

theorem lock_state_drop_correct_witness:
  "fst (lock_state_drop (demo_guard LockA, demo_objects)) = Some StillLinked \<and>
   fst (lock_state_drop (demo_guard LockB, demo_objects)) = None \<and> without (snd demo1) LockB = snd demo1"
proof -
  have r: "demo_reachable (fst demo1, snd demo1)" using demo_reachable1 by simp
  have o: "objects demo_objects l = Some (inner_at (snd demo1) l)" for l by (simp add: demo_objects_def)
  obtain p h p' h' where d: "lock_state_drop (demo_guard LockA, demo_objects) = (p, h)" "lock_state_drop (demo_guard LockB, demo_objects) = (p', h')"
    by (metis surj_pair)
  from lock_state_drop_correct [OF r o d(1)] lock_state_drop_correct [OF r o d(2)] show ?thesis
    unfolding d demo1_facts by simp
qed

text \<open>C31. Forgotten guards.  The documentation of the guards allows a client to forget a guard; dropping the lock state will then abort the
  program.  But \<open>early_drop\<close> only panics: if the panic is caught, the program goes on, the memory of the lock state is gone, and
  the tree of the core still points to it: the next search for borrows follows a dangling pointer.\<close>

theorem forgotten_guard_dangles:
  "\<exists>h'. demo_reachable demo1 \<and> lock_state_drop (demo_guard LockA, demo_objects) = (Some StillLinked, h') \<and> objects h' LockA = None \<and>
    writes (fst demo1) = Some LockA \<and>
    first_write_borrow_in_range (fst demo1) (without (snd demo1) LockA) (Range 3 5) = None"
proof -
  obtain panic h' where d: "lock_state_drop (demo_guard LockA, demo_objects) = (panic, h')" by fastforce
  have "objects demo_objects LockA = Some (inner_at (snd demo1) LockA)" by (simp add: demo_objects_def)
  from drop_at [OF this d] have "objects h' LockA = None" "panic = Some StillLinked"
    by (auto simp: early_drop_def demo1_facts split: option.splits)
  with d demo_reachable1 demo1_facts show ?thesis by auto
qed

end
