(* ===== verification/Spec2Isabelle.thy ===== *)
theory Spec2Isabelle
  imports Rb_Session Rb_Test Core_Contracts Core_Test_Passes Raw_Sync_Correct Raw_Sync_Order Raw_Future_Correct Raw_Local Slice_Correct Slice_Futures Slice_Threads Lock_States
begin

text \<open>
  A model of the crate \<open>interlock\<close>: readers-writer locks on intervals.

  \<^bold>\<open>The program.\<close>  \<open>src/utils/rbtree.rs\<close> is an intrusive red-black tree whose nodes carry a summary of their
  subtree.  \<open>src/core/rbtree.rs\<close> implements the trait \<open>IntervalRwLockCore\<close> of \<open>src/core/mod.rs\<close> by three
  such trees, of the endpoints of read borrows, of the write borrows and of the pending borrows, whose nodes live inside lock
  states provided by the caller.  \<open>src/raw\<close> wraps a core into a non-blocking lock (\<open>local.rs\<close>), a blocking lock for threads
  (\<open>sync.rs\<close>) and a lock for futures (\<open>future.rs\<close>); \<open>src/hl/slice.rs\<close> wraps a raw lock and a slice.

  \<^bold>\<open>The red-black tree.\<close>  A heap maps addresses to nodes; a node is a record with the fields of the
  struct \<open>Node\<close>.  Every operation is a function from heaps to optional heaps: \<open>None\<close> is an absent node, a failed
  assertion or an endless loop, so that a theorem about \<open>Some\<close> excludes all of them.  Loops are
  partial functions over \<open>option\<close>, without fuel.
    \<^item> \<open>Rb_Node\<close>: the operations \<open>node_insert\<close>, \<open>node_remove\<close>, \<open>lower_bound\<close>, \<open>prefix_sum\<close>, \<open>predecessor\<close>,
      \<open>successor\<close>, \<open>node_min\<close>, \<open>node_max\<close>.
    \<^item> \<open>Rb_Shape\<close>: functional trees, contexts and when a heap represents them; colours, black heights, summaries.
    \<^item> \<open>Rb_Query\<close>, \<open>Rb_Insert\<close>, \<open>Rb_Remove\<close>, \<open>Rb_Swap\<close>, \<open>Rb_Delete\<close>: the operations follow the functional tree;
      the contract of a summary callback is the locale \<open>tree_callback\<close>.
    \<^item> \<open>Rb_Balance\<close>, \<open>Rb_Correct\<close>: heights and the properties of the tree.  \<open>Rb_Session\<close>: trees built by any insertions and
      removals have logarithmic depth.
    \<^item> \<open>Rb_Validate\<close>: the iterators and the validator of the test module; the validator accepts exactly the valid trees.
      \<open>Rb_Test\<close>: the randomised test of the tree against an ordered set, as a function of its commands.

  \<^bold>\<open>The core.\<close>  A \<open>core\<close> has three tree cells; \<open>lock_states\<close> hold all lock states by address, field by field.
    \<^item> \<open>Core_State\<close>, \<open>Core_Ops\<close>: the data and the operations, with guards, assertions (under the flag \<open>dbg\<close> of a
      debug build), faults and calls of the callbacks in the order of the source.  A fault inside \<open>abort_on_unwind\<close>, or a
      search that does not return, is \<open>Aborted\<close>.
    \<^item> \<open>Tree_Order\<close>, \<open>Core_View\<close>: the table of borrows that the three trees represent.  The operations are specified on
      this table.
    \<^item> \<open>Core_Search\<close>, \<open>Core_Resume\<close>, \<open>Core_Unlock\<close>, \<open>Core_Inv\<close>, \<open>Core_Release\<close>, \<open>Core_Acquire\<close>: searching, extending,
      waking up, and the invariant \<open>core_inv\<close>: trees and table agree, a write borrow excludes all others, and every pending
      borrow is blocked by another lock.
    \<^item> \<open>Core_Client\<close>, \<open>Core_Cancel\<close>, \<open>Core_Demo\<close>: calls that the types and contracts of the trait allow, the
      states they reach, and a sample session.
    \<^item> \<open>Core_Safety\<close>, \<open>Core_Correct\<close>, \<open>Core_Contracts\<close>: the properties of the core.
    \<^item> \<open>Core_Reference\<close>: the reference of \<open>src/core/rbtree/tests.rs\<close>, a readers-writer lock with a queue of waiters for
      every index.  \<open>Core_Sim\<close>, \<open>Core_Agree\<close>: the core simulates it; both resume the waiters of an index by priority and then
      in the order of arrival.  \<open>Core_Test\<close>, \<open>Core_Test_Passes\<close>: the randomised test that compares the two passes for
      all commands.

  \<^bold>\<open>The interface of the core.\<close>  \<open>Core_Interface\<close> has the trait \<open>IntervalRwLockCore\<close> as a record of operations
  and its contract as the locale \<open>interval_rw_lock_core\<close>: which lock states are unused, what each lock asked for and which
  locks still wait.  The red-black tree core is an interpretation.  The raw locks are built, as in the source, on any core with this
  contract.

  \<^bold>\<open>Raw locks.\<close>
    \<^item> \<open>Raw_Mutex\<close>: the mutex of \<open>src/utils/pinsync.rs\<close> with its poisoning; the calls of the raw traits.
    \<^item> \<open>Raw_Sync\<close>: \<open>src/raw/sync.rs\<close> as a transition system of any number of threads.  A step is the critical section of
      a method up to its callbacks, one store or unpark of a callback, one load or park of a waiting loop; local variables that the core
      points to are born and die.  \<open>Raw_Sync_Inv\<close>: the invariant; \<open>Raw_Sync_Progress\<close>: states without steps, and a measure that
      every step inside a method decreases; \<open>Raw_Sync_Correct\<close>: exclusion of guards, no dangling pointer, no lost wake-up.
    \<^item> \<open>Raw_Sync_Order\<close>: what happens before what, with the orderings of the flags: a thread that has been unparked has seen the
      releases it waited for; one that sees its flag without that need not.
    \<^item> \<open>Raw_Future\<close>, \<open>Raw_Future_Correct\<close>: \<open>src/raw/future.rs\<close>.  Methods run under the mutex and are atomic; wakers are a
      parameter with their documented laws (\<open>waker_laws\<close>).  Polls answer correctly and no wake-up is lost.
    \<^item> \<open>Raw_Local\<close>: \<open>src/raw/local.rs\<close> refines a map of disjoint ranges.

  \<^bold>\<open>Slice locks.\<close>  \<open>src/hl/slice.rs\<close> on any raw lock.
    \<^item> \<open>Slice\<close>: the raw traits as records of operations, the lock, guards, boxed guards, futures and boxed futures; a container is
      known by its \<open>deref_mut\<close>, a slice by its address and length.
    \<^item> \<open>Slice_Guards\<close>, \<open>Slice_System\<close>: for every raw lock with the contract of the locales \<open>raw_lock\<close> and
      \<open>raw_blocking_lock\<close>, guards of which one writes have disjoint elements, and no guard sees what is assigned through another.
      \<open>Slice_Instances\<close>: the local lock and the lock for futures keep this contract.
    \<^item> \<open>Slice_Correct\<close>: the properties.  \<open>Slice_Futures\<close>: in runs of calls for other locks and polls
      of the future itself, futures resolve to guards and may be dropped at any time;
      boxed futures.
    \<^item> \<open>Slice_Threads\<close>: a slice behind the blocking lock, used by threads.  A step is a step of \<open>Raw_Sync\<close>, the return of a
      guard, its drop or an assignment; guards are isolated from whatever other threads do.

  \<^bold>\<open>Storage of lock states.\<close>  \<open>Pin\<close>: the two implementations of \<open>EarlyDropGuard\<close>, \<open>src/utils/pin.rs\<close> (a local
  variable of a future that never ends) and \<open>src/utils/pin_boxed.rs\<close> (a box), agree; \<open>early_drop\<close> comes right before the
  destructor, which runs even if \<open>early_drop\<close> panics.  \<open>Lock_States\<close>: the lock states of the core in such guards; dropping
  one in use leaves a dangling pointer behind.

  \<^bold>\<open>Bounds.\<close>  The sum of the signs of read endpoints is a 64 bit word as the source's \<open>isize\<close>; a core with fewer than
  \<open>2^63 - 1\<close> locks (\<open>room\<close>) cannot overflow it.  Indices and priorities are any linear orders.

  \<^bold>\<open>Not modelled.\<close>  \<open>Debug\<close> only prints; \<open>Send\<close> and \<open>Sync\<close> are properties of types.  The tests of \<open>src/hl\<close> and \<open>src/utils/pin\<close> and the benchmark are left
  out; so are log output and, in the sums of \<open>qc_btree\<close>, the overflow check of debug builds, which takes \<open>2 ^ 56\<close> elements.  User-supplied \<open>Ord\<close> implementations are total orders that return.  Steps interleave over one memory;
  of weak memory, \<open>Raw_Sync_Order\<close> has the synchronisation between threads, not the values that a race may read.  The mutex of the lock for futures is
  a type parameter of the source; its methods are taken to exclude each other. 
\<close>

end
